(* ===== verification/Kernel_Prelude.thy ===== *)
theory Kernel_Prelude
  imports Main "HOL-Library.Word" "HOL-Library.Monad_Syntax"
begin

text \<open>
  The vocabulary every component of the kernel model shares: the C integer types of an ILP32
  target as words, the option monad as "defined behaviour", the collections of rewrite rules
  the component proofs draw on, and the arithmetic of page alignment.

  A computation of type \<open>'a option\<close> returns \<open>None\<close> where the C code leaves the language:
  an access outside an object, a page fault in kernel mode, the dereference of a null pointer,
  or a loop that never ends. Everything else, wrap-around included, is an ordinary value.
\<close>

unbundle bit_operations_syntax

section \<open>Machine types\<close>

type_synonym u8 = "8 word"
type_synonym u16 = "16 word"
type_synonym u32 = "32 word"
type_synonym u64 = "64 word"

text \<open>\<open>size_t\<close>, \<open>uintptr_t\<close>, \<open>unsigned long\<close> and every pointer are 32 bits wide.\<close>

type_synonym addr = u32

abbreviation (input) NULL :: addr where
  "NULL \<equiv> 0"

section \<open>Rule collections\<close>

named_theorems unat_rules \<open>\<open>unat\<close> pushed through the word operations the code uses\<close>
named_theorems page_rules \<open>facts about page-aligned addresses and page-table entries\<close>
named_theorems load_store \<open>reads of byte memory after writes\<close>

section \<open>Words as numbers\<close>

lemma unat_u8_less [simp]: "unat (x :: u8) < 256"
  using unsigned_less [of x, where ?'a = nat] by simp

lemma unat_u32_less [simp]: "unat (x :: u32) < 4294967296"
  using unsigned_less [of x, where ?'a = nat] by simp

lemma unat_u64_less [simp]: "unat (x :: u64) < 18446744073709551616"
  using unsigned_less [of x, where ?'a = nat] by simp

lemma unat_add_u32 [unat_rules]:
  "unat a + unat b < 4294967296 \<Longrightarrow> unat (a + b :: u32) = unat a + unat b"
  using unat_add_lem [of a b] by simp

lemma unat_mult_u32 [unat_rules]:
  "unat a * unat b < 4294967296 \<Longrightarrow> unat (a * b :: u32) = unat a * unat b"
  using unat_mult_lem [of a b] by simp

lemma unat_Suc_u32 [unat_rules]: "(i :: u32) < n \<Longrightarrow> unat (i + 1) = unat i + 1"
proof -
  assume "i < n"
  then have "unat i + 1 \<le> unat n" by (simp add: word_less_nat_alt)
  also have "unat n < 4294967296" by simp
  finally show ?thesis using unat_add_u32 [of i 1] by simp
qed

lemma unat_add_u64 [unat_rules]:
  "unat a + unat b < 18446744073709551616 \<Longrightarrow> unat (a + b :: u64) = unat a + unat b"
  using unat_add_lem [of a b] by simp

lemma unat_Suc_u64 [unat_rules]: "(i :: u64) < n \<Longrightarrow> unat (i + 1) = unat i + 1"
proof -
  assume "i < n"
  then have "unat i + 1 \<le> unat n" by (simp add: word_less_nat_alt)
  also have "unat n < 18446744073709551616" by simp
  finally show ?thesis using unat_add_u64 [of i 1] by simp
qed

lemma unat_of_nat_u32 [unat_rules]: "n < 4294967296 \<Longrightarrow> unat (of_nat n :: u32) = n"
  by (simp add: unat_of_nat)

lemma unat_of_nat_u64 [unat_rules]:
  "n < 18446744073709551616 \<Longrightarrow> unat (of_nat n :: u64) = n"
  by (simp add: unat_of_nat)

lemma unat_drop_bit_u32 [unat_rules]: "unat (drop_bit n (x :: u32)) = unat x div 2 ^ n"
  unfolding unat_drop_bit_eq by (rule drop_bit_eq_div)

lemma unat_ucast_u32_u64 [unat_rules]: "unat (ucast (x :: u32) :: u64) = unat x"
proof -
  have "unat x < 2 ^ 64"
    by (rule less_trans [OF unat_u32_less]) simp
  then show ?thesis
    by (simp add: unsigned_ucast_eq take_bit_nat_eq_self)
qed

lemma word_eq_iff_unat_u32: "(a :: u32) = b \<longleftrightarrow> unat a = unat b"
  by (simp add: word_unat_eq_iff)

lemma of_nat_eq_iff_u32:
  "m < 4294967296 \<Longrightarrow> n < 4294967296 \<Longrightarrow> (of_nat m :: u32) = of_nat n \<longleftrightarrow> m = n"
  by (simp add: word_eq_iff_unat_u32 unat_of_nat)

section \<open>Page alignment\<close>

text \<open>\<open>PAGE_MASK\<close>, \<open>PAGE_SIZE\<close> of \<open>kernel/include/memory.h\<close>.\<close>

definition PAGE_SIZE :: u32 where
  "PAGE_SIZE = 4096"

definition PAGE_MASK :: u32 where
  "PAGE_MASK = 0xFFFFF000"

definition page_aligned :: "addr \<Rightarrow> bool" where
  "page_aligned a \<longleftrightarrow> a AND 0xFFF = 0"

lemma and_0xFFF: "(x :: u32) AND 0xFFF = x mod 4096"
proof -
  have "x AND 0xFFF = take_bit 12 x"
    by (simp add: take_bit_eq_mask mask_eq_exp_minus_1)
  then show ?thesis by (simp add: take_bit_eq_mod)
qed

lemma and_0x3FF: "(x :: u32) AND 0x3FF = x mod 1024"
proof -
  have "x AND 0x3FF = take_bit 10 x"
    by (simp add: take_bit_eq_mask mask_eq_exp_minus_1)
  then show ?thesis by (simp add: take_bit_eq_mod)
qed

lemma unat_and_0x3FF [unat_rules]: "unat ((x :: u32) AND 0x3FF) = unat x mod 1024"
  by (simp add: and_0x3FF unat_mod_distrib)

lemma unat_and_0xFFF [unat_rules]: "unat ((x :: u32) AND 0xFFF) = unat x mod 4096"
  by (simp add: and_0xFFF unat_mod_distrib)

lemma and_NOT_mask: "(x :: u32) AND NOT (mask k) = x - take_bit k x"
proof -
  have "x - take_bit k x = x AND NOT (take_bit k x)"
    by (rule disjunctive_diff) (simp add: bit_take_bit_iff)
  also have "\<dots> = x AND NOT (mask k)"
    by (rule bit_word_eqI) (auto simp: bit_simps)
  finally show ?thesis by simp
qed

lemma and_PAGE_MASK: "(x :: u32) AND PAGE_MASK = x - x mod 4096"
proof -
  have "(0xFFFFF000 :: u32) = NOT (mask 12)"
    by (simp add: mask_eq_exp_minus_1)
  then show ?thesis
    using and_NOT_mask [of x 12] by (simp add: PAGE_MASK_def take_bit_eq_mod)
qed

lemma and_NOT_0xFFF: "(x :: u32) AND NOT 0xFFF = x AND PAGE_MASK"
proof -
  have "PAGE_MASK = NOT (0xFFF :: u32)"
    by (simp add: PAGE_MASK_def)
  then show ?thesis by (simp only:)
qed

lemma unat_and_PAGE_MASK [unat_rules]: "unat (x AND PAGE_MASK) = unat x - unat x mod 4096"
proof -
  have "x mod 4096 \<le> x"
    by (simp add: word_le_nat_alt unat_mod_distrib)
  then show ?thesis
    by (simp add: and_PAGE_MASK unat_sub unat_mod_distrib)
qed

lemma page_aligned_iff: "page_aligned a \<longleftrightarrow> unat a mod 4096 = 0"
  by (simp add: page_aligned_def word_eq_iff_unat_u32 unat_and_0xFFF)

lemma page_aligned_dvd: "page_aligned a \<longleftrightarrow> 4096 dvd unat a"
  by (simp add: page_aligned_iff dvd_eq_mod_eq_0)

lemma page_aligned_mask [simp, page_rules]: "page_aligned (x AND PAGE_MASK)"
  by (simp add: page_aligned_iff unat_and_PAGE_MASK minus_mod_eq_mult_div)

lemma mask_page_aligned [page_rules]: "page_aligned x \<Longrightarrow> x AND PAGE_MASK = x"
  by (simp add: word_eq_iff_unat_u32 unat_and_PAGE_MASK page_aligned_iff)

lemma mask_idem [simp]: "(x AND PAGE_MASK) AND PAGE_MASK = x AND PAGE_MASK"
  by (simp add: mask_page_aligned)

lemma page_aligned_0 [simp]: "page_aligned 0"
  by (simp add: page_aligned_def)

lemma page_aligned_bound: "page_aligned a \<Longrightarrow> unat a + 4096 \<le> 4294967296"
proof -
  assume "page_aligned a"
  then obtain k where "unat a = 4096 * k"
    by (auto simp: page_aligned_dvd)
  moreover from this have "k < 1048576"
    using unat_u32_less [of a] by simp
  ultimately show ?thesis by simp
qed

text \<open>An address inside a page: base plus offset never wraps.\<close>

lemma unat_page_offset:
  "page_aligned b \<Longrightarrow> unat k < 4096 \<Longrightarrow> unat (b + k) = unat b + unat k"
  using page_aligned_bound [of b] by (simp add: unat_add_u32)

lemma mask_page_offset:
  assumes "page_aligned b" and "unat k < 4096"
  shows "(b + k) AND PAGE_MASK = b" and "(b + k) AND 0xFFF = k"
proof -
  have "unat b mod 4096 = 0" using assms(1) by (simp add: page_aligned_iff)
  then have m: "(unat b + unat k) mod 4096 = unat k"
    using assms(2) by (metis add_0 mod_add_left_eq mod_less)
  show "(b + k) AND PAGE_MASK = b"
    using m by (simp add: word_eq_iff_unat_u32 unat_and_PAGE_MASK unat_page_offset [OF assms])
  show "(b + k) AND 0xFFF = k"
    using m by (simp add: word_eq_iff_unat_u32 unat_and_0xFFF unat_page_offset [OF assms])
qed

lemma page_split: "(x AND PAGE_MASK) + (x AND 0xFFF) = (x :: u32)"
  by (simp add: and_PAGE_MASK and_0xFFF)

lemma page_aligned_add:
  "page_aligned a \<Longrightarrow> page_aligned b \<Longrightarrow> unat a + unat b < 4294967296 \<Longrightarrow> page_aligned (a + b)"
  by (simp add: page_aligned_dvd unat_add_u32)

section \<open>Lists indexed by the code\<close>

text \<open>Reading and writing an array cell, \<open>None\<close> outside the array.\<close>

definition array_get :: "'a list \<Rightarrow> nat \<Rightarrow> 'a option" where
  "array_get xs i = (if i < length xs then Some (xs ! i) else None)"

definition array_set :: "'a list \<Rightarrow> nat \<Rightarrow> 'a \<Rightarrow> 'a list option" where
  "array_set xs i v = (if i < length xs then Some (xs[i := v]) else None)"

lemma array_get_in [simp]: "i < length xs \<Longrightarrow> array_get xs i = Some (xs ! i)"
  by (simp add: array_get_def)

lemma array_set_in [simp]: "i < length xs \<Longrightarrow> array_set xs i v = Some (xs[i := v])"
  by (simp add: array_set_def)

lemma array_get_None [simp]: "array_get xs i = None \<longleftrightarrow> length xs \<le> i"
  by (simp add: array_get_def)

lemma array_set_None [simp]: "array_set xs i v = None \<longleftrightarrow> length xs \<le> i"
  by (simp add: array_set_def)

lemma array_set_SomeD: "array_set xs i v = Some ys \<Longrightarrow> ys = xs[i := v] \<and> i < length xs"
  by (simp add: array_set_def split: if_splits)

lemma bind_Some_iff: "Option.bind m f = Some y \<longleftrightarrow> (\<exists>x. m = Some x \<and> f x = Some y)"
  by (cases m) auto

end
