(* ===== verification/Byte_Memory.thy ===== *)
theory Byte_Memory
  imports Kernel_Prelude
begin

text \<open>
  Byte-addressed memory and the little-endian accesses the compiled code makes to it. This is
  the C and i386 view of memory, used for physical memory (\<open>Paging\<close>): page tables, page
  directories, the bytes of mapped pages. The lemmas give reads after writes, for entries of
  page-sized tables and for whole frames.
\<close>

section \<open>Loads and stores\<close>

type_synonym memory = "addr \<Rightarrow> u8"

definition load16 :: "memory \<Rightarrow> addr \<Rightarrow> u16" where
  "load16 m a = ucast (m a) OR push_bit 8 (ucast (m (a + 1)))"

definition store16 :: "memory \<Rightarrow> addr \<Rightarrow> u16 \<Rightarrow> memory" where
  "store16 m a v = m(a := ucast v, a + 1 := ucast (drop_bit 8 v))"

definition load32 :: "memory \<Rightarrow> addr \<Rightarrow> u32" where
  "load32 m a = ucast (m a) OR push_bit 8 (ucast (m (a + 1)))
     OR push_bit 16 (ucast (m (a + 2))) OR push_bit 24 (ucast (m (a + 3)))"

definition store32 :: "memory \<Rightarrow> addr \<Rightarrow> u32 \<Rightarrow> memory" where
  "store32 m a v = m(a := ucast v, a + 1 := ucast (drop_bit 8 v),
     a + 2 := ucast (drop_bit 16 v), a + 3 := ucast (drop_bit 24 v))"

text \<open>The address of entry \<open>i\<close> of a table of 32-bit entries.\<close>

definition entry :: "addr \<Rightarrow> u32 \<Rightarrow> addr" where
  "entry b i = b + 4 * i"

text \<open>Memory in which the 4096 bytes at \<open>f\<close> are zero.\<close>

definition zero_frame :: "memory \<Rightarrow> addr \<Rightarrow> memory" where
  "zero_frame m f = (\<lambda>a. if a AND PAGE_MASK = f then 0 else m a)"

section \<open>Same address\<close>

lemma load16_store16_same [simp, load_store]: "load16 (store16 m a v) a = v"
proof (rule bit_word_eqI)
  fix n
  assume "n < LENGTH(16)"
  then have "n < 8 \<or> 8 \<le> n \<and> n - 8 < 8" by auto
  then show "bit (load16 (store16 m a v) a) n = bit v n"
    using \<open>n < LENGTH(16)\<close> by (auto simp: load16_def store16_def bit_simps)
qed

lemma load32_store32_same [simp, load_store]: "load32 (store32 m a v) a = v"
proof (rule bit_word_eqI)
  fix n
  assume n: "n < LENGTH(32)"
  then consider "n < 8" | "8 \<le> n" "n < 16" | "16 \<le> n" "n < 24" | "24 \<le> n" "n < 32"
    by fastforce
  then show "bit (load32 (store32 m a v) a) n = bit v n"
    using n by cases (auto simp: load32_def store32_def bit_simps)
qed

section \<open>Other addresses\<close>

lemma load32_cong:
  "m a = m' a \<Longrightarrow> m (a + 1) = m' (a + 1) \<Longrightarrow> m (a + 2) = m' (a + 2) \<Longrightarrow> m (a + 3) = m' (a + 3) \<Longrightarrow>
   load32 m a = load32 m' a"
  by (simp add: load32_def)

lemma store32_other: "b \<notin> {a, a + 1, a + 2, a + 3} \<Longrightarrow> store32 m a v b = m b"
  by (simp add: store32_def)

lemma store32_range:
  assumes "unat a + 3 < 4294967296" and "unat b < unat a \<or> unat a + 4 \<le> unat b"
  shows "store32 m a v b = m b"
proof (rule store32_other)
  have "unat (a + 1) = unat a + 1" "unat (a + 2) = unat a + 2" "unat (a + 3) = unat a + 3"
    using assms(1) by (simp_all add: unat_add_u32)
  then show "b \<notin> {a, a + 1, a + 2, a + 3}"
    using assms(2) by (auto simp: word_eq_iff_unat_u32)
qed

lemma load32_store32_range:
  assumes "unat a + 3 < 4294967296" and "unat b + 3 < 4294967296"
    and "unat b + 4 \<le> unat a \<or> unat a + 4 \<le> unat b"
  shows "load32 (store32 m a v) b = load32 m b"
proof -
  have "unat (b + 1) = unat b + 1" "unat (b + 2) = unat b + 2" "unat (b + 3) = unat b + 3"
    using assms(2) by (simp_all add: unat_add_u32)
  then show ?thesis
    using assms by (intro load32_cong store32_range) auto
qed

lemma store16_range:
  assumes "unat a + 1 < 4294967296" and "unat b < unat a \<or> unat a + 2 \<le> unat b"
  shows "store16 m a v b = m b"
proof -
  have "unat (a + 1) = unat a + 1" using assms(1) by (simp add: unat_add_u32)
  then show ?thesis using assms(2) by (auto simp: store16_def word_eq_iff_unat_u32)
qed

lemma load32_halves: "load32 m a = ucast (load16 m a) OR push_bit 16 (ucast (load16 m (a + 2)))"
proof (rule bit_word_eqI)
  fix n :: nat
  assume "n < LENGTH(32)"
  have nb: "\<not> bit (w :: u8) k" if "8 \<le> k" for w k using that bit_imp_le_length [of w k] by auto
  consider "n < 8" | "8 \<le> n" "n < 16" | "16 \<le> n" "n < 24" | "24 \<le> n" "n < 32"
    using \<open>n < LENGTH(32)\<close> by force
  then show "bit (load32 m a) n = bit (ucast (load16 m a) OR push_bit 16 (ucast (load16 m (a + 2))) :: u32) n"
    by cases (simp_all add: load32_def load16_def bit_simps add.assoc nb less_diff_conv2, auto)
qed

text \<open>Loads from memories that agree on the bytes read, given as a range of numbers.\<close>

lemma load32_agree:
  assumes "unat b + 3 < 4294967296" and "\<And>a. unat b \<le> unat a \<Longrightarrow> unat a < unat b + 4 \<Longrightarrow> m a = m' a"
  shows "load32 m b = load32 m' b"
  using assms by (intro load32_cong) (auto simp: unat_add_u32)

lemma load16_agree:
  assumes "unat b + 1 < 4294967296" and "\<And>a. unat b \<le> unat a \<Longrightarrow> unat a < unat b + 2 \<Longrightarrow> m a = m' a"
  shows "load16 m b = load16 m' b"
  using assms by (auto simp: load16_def unat_add_u32)

lemma load_store_mixed:
  assumes "unat b + 3 < 4294967296" and "unat a + 3 < 4294967296"
  shows "unat b + 4 \<le> unat a \<or> unat a + 2 \<le> unat b \<Longrightarrow> load32 (store16 m a w) b = load32 m b"
    and "unat b + 2 \<le> unat a \<or> unat a + 4 \<le> unat b \<Longrightarrow> load16 (store32 m a v) b = load16 m b"
    and "unat b + 2 \<le> unat a \<or> unat a + 2 \<le> unat b \<Longrightarrow> load16 (store16 m a w) b = load16 m b"
  using assms by (auto intro!: load32_agree load16_agree store16_range store32_range)

section \<open>Entries of page-sized tables\<close>

lemma unat_entry [page_rules]:
  assumes "page_aligned b" and "i < 1024"
  shows "unat (entry b i) = unat b + 4 * unat i"
proof -
  have i: "unat i < 1024" using assms(2) by (simp add: word_less_nat_alt)
  then have "unat (4 * i) = 4 * unat i" by (simp add: unat_mult_u32)
  with i assms(1) show ?thesis
    by (simp add: entry_def unat_page_offset)
qed

lemma entry_range:
  assumes "page_aligned b" and "i < 1024"
  shows "unat (entry b i) + 4 \<le> unat b + 4096" and "unat (entry b i) + 3 < 4294967296"
proof -
  have "unat i < 1024" using assms(2) by (simp add: word_less_nat_alt)
  with unat_entry [OF assms] show "unat (entry b i) + 4 \<le> unat b + 4096" by simp
  with page_aligned_bound [OF assms(1)] show "unat (entry b i) + 3 < 4294967296" by simp
qed

lemma page_disjoint:
  assumes "page_aligned b" and "page_aligned c" and "b \<noteq> c"
  shows "unat b + 4096 \<le> unat c \<or> unat c + 4096 \<le> unat b"
proof -
  obtain j k where jk: "unat b = 4096 * j" "unat c = 4096 * k"
    using assms(1,2) unfolding page_aligned_dvd by (elim dvdE) blast
  with assms(3) have "j \<noteq> k" by (auto simp: word_eq_iff_unat_u32)
  then have "j + 1 \<le> k \<or> k + 1 \<le> j" by arith
  with jk show ?thesis by auto
qed

lemma entry_apart:
  assumes "page_aligned b" and "page_aligned c" and "i < 1024" and "j < 1024"
    and "b \<noteq> c \<or> i \<noteq> j"
  shows "unat (entry b i) + 4 \<le> unat (entry c j) \<or> unat (entry c j) + 4 \<le> unat (entry b i)"
proof (cases "b = c")
  case True
  with assms(5) have "unat i \<noteq> unat j" by (simp add: word_eq_iff_unat_u32)
  with True assms show ?thesis by (simp add: unat_entry) arith
next
  case False
  from page_disjoint [OF assms(1,2) False] show ?thesis
    using entry_range(1) [OF assms(1,3)] entry_range(1) [OF assms(2,4)]
      unat_entry [OF assms(1,3)] unat_entry [OF assms(2,4)] by auto
qed

lemma load32_store32_entry [load_store]:
  assumes "page_aligned b" and "page_aligned c" and "i < 1024" and "j < 1024"
    and "b \<noteq> c \<or> i \<noteq> j"
  shows "load32 (store32 m (entry c j) v) (entry b i) = load32 m (entry b i)"
  using entry_apart [OF assms] entry_range(2) [OF assms(1,3)] entry_range(2) [OF assms(2,4)]
  by (intro load32_store32_range) auto

lemma entry_offset:
  assumes "i < 1024" shows "unat (4 * i :: u32) < 4096" and "unat (4 * i :: u32) = 4 * unat i"
  using assms by (simp_all add: word_less_nat_alt unat_mult_u32)

lemma mask_entry [simp, page_rules]:
  "page_aligned b \<Longrightarrow> i < 1024 \<Longrightarrow> entry b i AND PAGE_MASK = b"
  unfolding entry_def by (rule mask_page_offset(1), assumption, rule entry_offset(1))

lemma entry_bytes:
  assumes "page_aligned b" and "i < 1024" and "unat k < 4"
  shows "(entry b i + k) AND PAGE_MASK = b"
proof -
  have "unat i < 1024" using assms(2) by (simp add: word_less_nat_alt)
  then have u: "unat (4 * i + k) < 4096"
    using assms(3) entry_offset(2) [OF assms(2)] by (simp add: unat_add_u32)
  have "entry b i + k = b + (4 * i + k)" by (simp add: entry_def)
  then show ?thesis
    by (simp only: mask_page_offset(1) [OF assms(1) u])
qed

lemma entry_bytes3 [page_rules]:
  assumes "page_aligned b" and "i < 1024"
  shows "(entry b i + 1) AND PAGE_MASK = b" "(entry b i + 2) AND PAGE_MASK = b"
    "(entry b i + 3) AND PAGE_MASK = b"
  using assms by (simp_all add: entry_bytes)

section \<open>Whole frames\<close>

lemma load32_frame_cong:
  assumes "page_aligned b" and "i < 1024" and "\<And>a. a AND PAGE_MASK = b \<Longrightarrow> m a = m' a"
  shows "load32 m (entry b i) = load32 m' (entry b i)"
  using assms by (intro load32_cong) (simp_all add: entry_bytes3)

lemma load32_zero_frame [load_store]:
  "page_aligned b \<Longrightarrow> i < 1024 \<Longrightarrow>
   load32 (zero_frame m f) (entry b i) = (if b = f then 0 else load32 m (entry b i))"
  by (simp add: load32_def zero_frame_def entry_bytes3)

lemma zero_frame_other: "a AND PAGE_MASK \<noteq> f \<Longrightarrow> zero_frame m f a = m a"
  by (simp add: zero_frame_def)

lemma store32_other_frame:
  assumes "page_aligned b" and "i < 1024" and "a AND PAGE_MASK \<noteq> b"
  shows "store32 m (entry b i) v a = m a"
  using assms by (intro store32_other) (auto simp: entry_bytes3)

text \<open>Overwriting an entry twice keeps the last value; writing back what is there is the identity.\<close>

lemma store32_overwrite [simp]: "store32 (store32 m a v) a w = store32 m a w"
  by (auto simp: store32_def fun_eq_iff)

lemma load32_bytes:
  assumes "load32 m a = v"
  shows "m a = ucast v" "m (a + 1) = ucast (drop_bit 8 v)" "m (a + 2) = ucast (drop_bit 16 v)"
    "m (a + 3) = ucast (drop_bit 24 v)"
  unfolding assms [symmetric] load32_def
  by (rule bit_word_eqI, auto simp: bit_simps dest: bit_imp_le_length)+

lemma store32_same_value: "load32 m a = v \<Longrightarrow> store32 m a v = m"
  by (simp add: store32_def fun_eq_iff load32_bytes [of m a v, symmetric])

text \<open>Writes to different entries commute, and clearing a frame commutes with writes outside it.\<close>

lemma store32_pointwise: "m x = m' x \<Longrightarrow> store32 m a v x = store32 m' a v x"
  by (simp add: store32_def)

lemma store32_commute_range:
  assumes "unat a + 3 < 4294967296" and "unat b + 3 < 4294967296"
    and "unat b + 4 \<le> unat a \<or> unat a + 4 \<le> unat b"
  shows "store32 (store32 m a v) b w = store32 (store32 m b w) a v"
proof
  fix x :: addr
  from assms(3) consider "unat x < unat a \<or> unat a + 4 \<le> unat x" | "unat x < unat b \<or> unat b + 4 \<le> unat x"
    by linarith
  then show "store32 (store32 m a v) b w x = store32 (store32 m b w) a v x"
  proof cases
    case 1
    then show ?thesis
      using store32_range [OF assms(1)] store32_pointwise [of "store32 m a v" x m b w] by simp
  next
    case 2
    then show ?thesis
      using store32_range [OF assms(2)] store32_pointwise [of "store32 m b w" x m a v] by simp
  qed
qed

lemma store32_commute_entry:
  assumes "page_aligned b" and "page_aligned c" and "i < 1024" and "j < 1024" and "b \<noteq> c \<or> i \<noteq> j"
  shows "store32 (store32 m (entry c j) w) (entry b i) v = store32 (store32 m (entry b i) v) (entry c j) w"
  using entry_apart [OF assms] entry_range(2) [OF assms(1,3)] entry_range(2) [OF assms(2,4)]
  by (intro store32_commute_range) auto

lemma zero_frame_store32:
  assumes "page_aligned b" and "i < 1024" and "b \<noteq> f"
  shows "zero_frame (store32 m (entry b i) v) f = store32 (zero_frame m f) (entry b i) v"
proof
  fix a
  show "zero_frame (store32 m (entry b i) v) f a = store32 (zero_frame m f) (entry b i) v a"
  proof (cases "a AND PAGE_MASK = b")
    case True
    with assms(3) show ?thesis by (auto simp: zero_frame_def store32_def)
  next
    case False
    with assms show ?thesis by (simp add: zero_frame_def store32_other_frame)
  qed
qed

text \<open>The state of a frame when the words from \<open>i\<close> on have been zeroed.\<close>

definition zero_from :: "memory \<Rightarrow> addr \<Rightarrow> nat \<Rightarrow> memory" where
  "zero_from m f i = (\<lambda>a. if a AND PAGE_MASK = f \<and> 4 * i \<le> unat (a AND 0xFFF) then 0 else m a)"

lemma zero_from_0: "zero_from m f 0 = zero_frame m f"
  by (simp add: zero_from_def zero_frame_def)

lemma zero_from_1024: "zero_from m f 1024 = m"
proof
  fix a :: addr
  have "unat (a AND 0xFFF) < 4096" by (simp add: unat_and_0xFFF)
  then show "zero_from m f 1024 a = m a" by (simp add: zero_from_def)
qed

lemma store32_zero_in:
  assumes "unat e \<le> unat a" and "unat a < unat e + 4" and "unat e + 3 < 4294967296"
  shows "store32 m e 0 a = 0"
proof -
  have "unat (e + 1) = unat e + 1" "unat (e + 2) = unat e + 2" "unat (e + 3) = unat e + 3"
    using assms(3) by (simp_all add: unat_add_u32)
  moreover have "unat a = unat e \<or> unat a = unat e + 1 \<or> unat a = unat e + 2 \<or> unat a = unat e + 3"
    using assms(1,2) by linarith
  ultimately have "a \<in> {e, e + 1, e + 2, e + 3}" by (auto simp: word_eq_iff_unat_u32)
  then show ?thesis by (auto simp: store32_def)
qed

lemma zero_from_step:
  assumes "page_aligned f" and "i < 1024"
  shows "zero_from (store32 m (entry f i) 0) f (unat i + 1) = zero_from m f (unat i)"
proof
  fix a :: addr
  have e: "unat (entry f i) = unat f + 4 * unat i" "unat (entry f i) + 3 < 4294967296"
    using unat_entry [OF assms] entry_range(2) [OF assms] by auto
  show "zero_from (store32 m (entry f i) 0) f (unat i + 1) a = zero_from m f (unat i) a"
  proof (cases "a AND PAGE_MASK = f")
    case False
    then show ?thesis using assms by (simp add: zero_from_def store32_other_frame)
  next
    case True
    have u: "unat a = unat f + unat (a AND 0xFFF)"
    proof -
      have "a = f + (a AND 0xFFF)" using page_split [of a] True by simp
      moreover have "unat (a AND 0xFFF) < 4096" by (simp add: unat_and_0xFFF)
      ultimately show ?thesis using unat_page_offset [OF assms(1)] by metis
    qed
    let ?o = "unat (a AND 0xFFF)"
    consider "4 * unat i + 4 \<le> ?o" | "4 * unat i \<le> ?o" "?o < 4 * unat i + 4" | "?o < 4 * unat i"
      by linarith
    then show ?thesis
    proof cases
      case 2
      then have "store32 m (entry f i) 0 a = 0" using u e by (intro store32_zero_in) auto
      with 2 True show ?thesis by (simp add: zero_from_def)
    next
      case 3
      then have "store32 m (entry f i) 0 a = m a" using u e by (intro store32_range) auto
      with 3 show ?thesis by (simp add: zero_from_def)
    qed (simp add: True zero_from_def)
  qed
qed

end
