(* ===== verification/Misc_Header.thy ===== *)
theory Misc_Header
  imports Byte_Memory
begin

text \<open>
  \<open>kernel/include/misc.h\<close>: alignment helpers, port output, the debug printers on port 0xE9
  and the octal parser of the tar headers; with \<open>kernel/pic.c\<close> and the port-programming part
  of \<open>kernel/timer.c\<close>, whose whole effect is a sequence of port writes.

  Port output is recorded in order in \<open>io_trace\<close>; every other state record of the model
  extends \<open>io_state\<close>.
\<close>

section \<open>State\<close>

datatype io_event = Out8 u16 u8 | Out16 u16 u16

record io_state =
  io_trace :: "io_event list"

section \<open>Alignment\<close>

definition align_up_4k :: "addr \<Rightarrow> addr" where
  "align_up_4k a = (a + 0xFFF) AND NOT 0xFFF"

definition align_down_4k :: "addr \<Rightarrow> addr" where
  "align_down_4k a = a AND NOT 0xFFF"

definition pages_required :: "u32 \<Rightarrow> u32" where
  "pages_required len = (len + PAGE_SIZE - 1) div PAGE_SIZE"

section \<open>Ports\<close>

definition outb :: "u16 \<Rightarrow> u8 \<Rightarrow> 'a io_state_scheme \<Rightarrow> 'a io_state_scheme" where
  "outb port val s = s\<lparr>io_trace := io_trace s @ [Out8 port val]\<rparr>"

definition outw :: "u16 \<Rightarrow> u16 \<Rightarrow> 'a io_state_scheme \<Rightarrow> 'a io_state_scheme" where
  "outw port val s = s\<lparr>io_trace := io_trace s @ [Out16 port val]\<rparr>"

definition io_wait :: "'a io_state_scheme \<Rightarrow> 'a io_state_scheme" where
  "io_wait s = outb 0x80 0 s"

section \<open>Debug printers\<close>

definition debug_putc :: "u8 \<Rightarrow> 'a io_state_scheme \<Rightarrow> 'a io_state_scheme" where
  "debug_putc c s = outb 0xE9 c s"

text \<open>A C string is the list of its bytes before the terminating zero.\<close>

fun debug_write :: "u8 list \<Rightarrow> 'a io_state_scheme \<Rightarrow> 'a io_state_scheme" where
  "debug_write [] s = s"
| "debug_write (c # str) s = debug_write str (debug_putc c s)"

text \<open>
  The \<open>do ... while\<close> loop of \<open>debug_int\<close>: \<open>buf\<close> is the used prefix of \<open>buffer[10]\<close>, a
  write past its end is \<open>None\<close>.
\<close>

function debug_int_digits :: "u32 \<Rightarrow> u8 list \<Rightarrow> u8 list option" where
  "debug_int_digits magnitude buf =
     (if length buf < 10 then
        let buf' = buf @ [48 + ucast (magnitude mod 10)]; magnitude' = magnitude div 10 in
        if magnitude' \<noteq> 0 then debug_int_digits magnitude' buf' else Some buf'
      else None)"
  by pat_completeness auto
termination
  by (relation "measure (\<lambda>(m, buf). 10 - length buf)") auto

definition debug_int :: "u32 \<Rightarrow> 'a io_state_scheme \<Rightarrow> 'a io_state_scheme option" where
  "debug_int value s =
     (let (s', magnitude) =
        (if value <s 0 then (debug_putc 45 s, (- (value + 1)) + 1) else (s, value))
      in do { buf \<leftarrow> debug_int_digits magnitude []; Some (debug_write (rev buf) s') })"

definition hex :: "u8 list" where
  "hex = [48, 49, 50, 51, 52, 53, 54, 55, 56, 57, 65, 66, 67, 68, 69, 70]"

definition hex_nibble :: "u64 \<Rightarrow> nat \<Rightarrow> u8" where
  "hex_nibble value shift = hex ! unat (drop_bit shift value AND 0xF)"

definition debug_hex32 :: "u32 \<Rightarrow> 'a io_state_scheme \<Rightarrow> 'a io_state_scheme" where
  "debug_hex32 value s =
     debug_write (map (hex_nibble (ucast value)) [28, 24, 20, 16, 12, 8, 4, 0])
       (debug_write [48, 120] s)"

definition debug_hex64 :: "u64 \<Rightarrow> 'a io_state_scheme \<Rightarrow> 'a io_state_scheme" where
  "debug_hex64 value s =
     debug_write (map (hex_nibble value)
         [60, 56, 52, 48, 44, 40, 36, 32, 28, 24, 20, 16, 12, 8, 4, 0])
       (debug_write [48, 120] s)"

section \<open>Octal fields of a tar header\<close>

text \<open>\<open>char\<close> is signed on this target, hence the signed comparisons.\<close>

fun tar_digits :: "u64 \<Rightarrow> u8 list \<Rightarrow> u64" where
  "tar_digits value [] = value"
| "tar_digits value (c # field) =
     (if c = 0 \<or> c = 32 then value
      else if c <s 48 \<or> 55 <s c then value
      else tar_digits (push_bit 3 value OR ucast (c - 48)) field)"

definition tar_parse_octal :: "u8 list \<Rightarrow> u64" where
  "tar_parse_octal field = tar_digits 0 (dropWhile (\<lambda>c. c = 32) field)"

section \<open>The interrupt controller and the timer chip\<close>

definition PIC1_COMMAND :: u16 where "PIC1_COMMAND = 0x20"
definition PIC1_DATA :: u16 where "PIC1_DATA = 0x21"
definition PIC2_COMMAND :: u16 where "PIC2_COMMAND = 0xA0"
definition PIC2_DATA :: u16 where "PIC2_DATA = 0xA1"

definition pic_send_eoi :: "u8 \<Rightarrow> 'a io_state_scheme \<Rightarrow> 'a io_state_scheme" where
  "pic_send_eoi irq s =
     outb PIC1_COMMAND 0x20 (if irq \<ge> 8 then outb PIC2_COMMAND 0x20 s else s)"

section \<open>Alignment facts\<close>

lemma align_down_4k_eq: "align_down_4k a = a AND PAGE_MASK"
  unfolding align_down_4k_def by (rule and_NOT_0xFFF)

lemma align_up_4k_eq: "align_up_4k a = (a + 0xFFF) AND PAGE_MASK"
  unfolding align_up_4k_def by (rule and_NOT_0xFFF)

lemma align_up_4k_least:
  assumes "unat a + 4095 < 4294967296"
  shows "page_aligned (align_up_4k a) \<and> a \<le> align_up_4k a \<and>
    (\<forall>b. page_aligned b \<and> a \<le> b \<longrightarrow> align_up_4k a \<le> b)"
proof -
  have u: "unat (align_up_4k a) = (unat a + 4095) div 4096 * 4096"
    using assms by (simp add: align_up_4k_eq unat_and_PAGE_MASK unat_add_u32 minus_mod_eq_div_mult)
  have "align_up_4k a \<le> b" if "page_aligned b" and "a \<le> b" for b
  proof -
    obtain k where k: "unat b = 4096 * k" using \<open>page_aligned b\<close> by (auto simp: page_aligned_dvd)
    with \<open>a \<le> b\<close> have "(unat a + 4095) div 4096 \<le> k"
      by (simp add: word_le_nat_alt)
    with u k show ?thesis by (simp add: word_le_nat_alt)
  qed
  moreover have "unat a \<le> (unat a + 4095) div 4096 * 4096" by arith
  ultimately show ?thesis
    using u by (simp add: word_le_nat_alt align_up_4k_eq)
qed

lemma unat_pages_required:
  assumes "unat len + 4095 < 4294967296"
  shows "unat (pages_required len) = (unat len + 4095) div 4096"
proof -
  have "len + PAGE_SIZE - 1 = len + 4095" by (simp add: PAGE_SIZE_def)
  then show ?thesis
    using assms unfolding pages_required_def
    by (simp only: unat_div) (simp add: PAGE_SIZE_def unat_add_u32)
qed

section \<open>Decimal printing\<close>

text \<open>The reference: the ASCII decimal digits of a number, most significant first.\<close>

fun decimal :: "nat \<Rightarrow> u8 list" where
  "decimal n = (if n < 10 then [48 + of_nat n] else decimal (n div 10) @ [48 + of_nat (n mod 10)])"

declare decimal.simps [simp del] debug_int_digits.simps [simp del]

lemma length_decimal: "n < 10 ^ Suc k \<Longrightarrow> length (decimal n) \<le> Suc k"
proof (induction k arbitrary: n)
  case 0
  then show ?case by (simp add: decimal.simps)
next
  case (Suc k)
  then have "n div 10 < 10 ^ Suc k" by (simp add: less_mult_imp_div_less)
  then have "length (decimal (n div 10)) \<le> Suc k" by (rule Suc.IH)
  then show ?case by (subst decimal.simps) simp
qed

lemma length_decimal_u32: "length (decimal (unat (x :: u32))) \<le> 10"
  using length_decimal [of "unat x" 9] unat_u32_less [of x] by simp

lemma ucast_mod_10: "(ucast ((m :: u32) mod 10) :: u8) = of_nat (unat m mod 10)"
proof -
  have "ucast (m mod 10) = (of_nat (unat (m mod 10)) :: u8)"
    by (simp only: of_nat_unat)
  then show ?thesis by (simp add: unat_mod_distrib)
qed

lemma debug_int_digits_decimal:
  "length buf + length (decimal (unat m)) \<le> 10 \<Longrightarrow>
   debug_int_digits m buf = Some (buf @ rev (decimal (unat m)))"
proof (induction m buf rule: debug_int_digits.induct)
  case (1 m buf)
  have d: "m div 10 = 0 \<longleftrightarrow> unat m < 10"
    by (simp add: word_eq_iff_unat_u32 unat_div div_eq_0_iff)
  show ?case
  proof (cases "unat m < 10")
    case True
    with "1.prems" d show ?thesis
      by (simp add: debug_int_digits.simps [of m buf] decimal.simps [of "unat m"] ucast_mod_10)
  next
    case False
    then have "decimal (unat m) = decimal (unat (m div 10)) @ [48 + of_nat (unat m mod 10)]"
      by (simp add: decimal.simps [of "unat m"] unat_div)
    with False "1" d show ?thesis
      by (simp add: debug_int_digits.simps [of m buf] ucast_mod_10)
  qed
qed

lemma debug_write_trace:
  "debug_write str s = s\<lparr>io_trace := io_trace s @ map (Out8 0xE9) str\<rparr>"
  by (induction str arbitrary: s) (simp_all add: debug_putc_def outb_def)

lemma unat_of_int_u32: "0 \<le> k \<Longrightarrow> k < 4294967296 \<Longrightarrow> unat (of_int k :: u32) = nat k"
  by (simp add: unsigned_of_int take_bit_int_eq_self)

lemma debug_int_magnitude:
  "unat (if v <s 0 then - (v + 1) + 1 else v) = nat \<bar>sint (v :: u32)\<bar>"
proof -
  have b: "- 2147483648 \<le> sint v" "sint v < 2147483648"
    using sint_ge [of v] sint_lt [of v] by simp_all
  have "unat (of_int \<bar>sint v\<bar> :: u32) = nat \<bar>sint v\<bar>"
    by (rule unat_of_int_u32) (use b in auto)
  moreover have "of_int \<bar>sint v\<bar> = (if v <s 0 then - (v + 1) + 1 else v)"
    by (simp add: word_sless_alt abs_if)
  ultimately show ?thesis by simp
qed

text \<open>
  \<open>debug_int\<close> never overruns its ten-byte buffer and writes to port 0xE9 exactly the sign and
  the decimal digits of its argument, for every 32-bit value, the most negative one included.
\<close>

theorem debug_int_prints_decimal:
  "debug_int v s = Some (s\<lparr>io_trace := io_trace s @
     map (Out8 0xE9) ((if sint v < 0 then [45] else []) @ decimal (nat \<bar>sint v\<bar>))\<rparr>)"
proof -
  let ?m = "if v <s 0 then - (v + 1) + 1 else v"
  have "debug_int_digits ?m [] = Some (rev (decimal (unat ?m)))"
    using length_decimal_u32 [of ?m] by (simp add: debug_int_digits_decimal)
  then show ?thesis
    using debug_int_magnitude [of v]
    by (auto simp: debug_int_def debug_write_trace debug_putc_def outb_def word_sless_alt)
qed

section \<open>Octal parsing\<close>

text \<open>The reference: the number a string of octal digits denotes.\<close>

definition octal_value :: "nat list \<Rightarrow> nat" where
  "octal_value ds = foldl (\<lambda>v d. 8 * v + d) 0 ds"

definition octal_digit :: "nat \<Rightarrow> u8" where
  "octal_digit d = 48 + of_nat d"

lemma octal_digit_cases:
  assumes "d < 8"
  shows "octal_digit d \<noteq> 0 \<and> octal_digit d \<noteq> 32 \<and> \<not> octal_digit d <s 48 \<and> \<not> 55 <s octal_digit d
    \<and> (ucast (octal_digit d - 48) :: u64) = of_nat d"
proof -
  have "d \<in> {0, 1, 2, 3, 4, 5, 6, 7}" using assms by auto
  then show ?thesis by (auto simp: octal_digit_def word_sless_alt)
qed

lemma push_bit_3_or: "unat d < 8 \<Longrightarrow> push_bit 3 v OR d = 8 * v + (d :: u64)"
proof -
  assume d: "unat d < 8"
  then have "take_bit 3 d = d"
    by (simp add: take_bit_eq_mod word_unat_eq_iff unat_mod_distrib)
  then have "\<not> bit (push_bit 3 v) n \<or> \<not> bit d n" for n
    by (metis bit_push_bit_iff bit_take_bit_iff not_less)
  then have "push_bit 3 v + d = push_bit 3 v OR d"
    by (rule disjunctive_add)
  then show ?thesis by (simp add: push_bit_eq_mult mult.commute)
qed

lemma tar_digits_octal:
  assumes "\<forall>d \<in> set ds. d < 8" and "rest = [] \<or> hd rest = 0 \<or> hd rest = 32"
  shows "tar_digits (of_nat v) (map octal_digit ds @ rest) = of_nat (foldl (\<lambda>v d. 8 * v + d) v ds)"
  using assms(1)
proof (induction ds arbitrary: v)
  case Nil
  from assms(2) show ?case by (cases rest) auto
next
  case (Cons d ds)
  then have "push_bit 3 (of_nat v) OR (of_nat d :: u64) = of_nat (8 * v + d)"
    by (subst push_bit_3_or) (auto simp: unat_of_nat)
  then show ?case
    using Cons.IH [of "8 * v + d"] Cons.prems octal_digit_cases [of d] by simp
qed

lemma octal_value_bound: "\<forall>d \<in> set ds. d < 8 \<Longrightarrow> octal_value ds < 8 ^ length ds"
proof (induction ds rule: rev_induct)
  case (snoc d ds)
  then have "octal_value ds + 1 \<le> 8 ^ length ds" and "d < 8" by simp_all
  then show ?case by (simp add: octal_value_def)
qed (simp add: octal_value_def)

text \<open>
  \<open>tar_parse_octal\<close> returns the number written in a tar header field: leading blanks are
  skipped, the octal digits are read, and the field ends at its end, at a zero or at a blank. For
  up to 21 digits (a tar size field has at most 12 characters) no digit is lost.
\<close>

theorem tar_parse_octal_value:
  assumes "ds \<noteq> []" and "\<forall>d \<in> set ds. d < 8" and "length ds \<le> 21"
    and "rest = [] \<or> hd rest = 0 \<or> hd rest = 32"
  shows "unat (tar_parse_octal (replicate blanks 32 @ map octal_digit ds @ rest)) = octal_value ds"
proof -
  obtain d ds' where ds: "ds = d # ds'" using assms(1) by (cases ds) auto
  have "dropWhile (\<lambda>c. c = 32) (replicate blanks 32 @ map octal_digit ds @ rest) =
      map octal_digit ds @ rest"
    using assms(2) octal_digit_cases [of d] by (induction blanks) (auto simp: ds)
  then have "tar_parse_octal (replicate blanks 32 @ map octal_digit ds @ rest) = of_nat (octal_value ds)"
    using tar_digits_octal [OF assms(2,4), of 0] by (simp add: tar_parse_octal_def octal_value_def)
  moreover have "octal_value ds < 18446744073709551616"
  proof -
    have "octal_value ds < 8 ^ length ds" by (rule octal_value_bound [OF assms(2)])
    also have "\<dots> \<le> (8 :: nat) ^ 21" by (rule power_increasing) (use assms(3) in auto)
    finally show ?thesis by simp
  qed
  ultimately show ?thesis by (simp add: unat_of_nat_u64)
qed

theorem tar_parse_octal_value_witness:
  "unat (tar_parse_octal (replicate 1 32 @ map octal_digit [1, 7, 5] @ [0])) = octal_value [1, 7, 5]
   \<and> octal_value [1, 7, 5] = 125"
proof
  show "unat (tar_parse_octal (replicate 1 32 @ map octal_digit [1, 7, 5] @ [0])) = octal_value [1, 7, 5]"
    by (rule tar_parse_octal_value) simp_all
  show "octal_value [1, 7, 5] = 125"
    by (simp add: octal_value_def)
qed

end
