(* ===== verification/Page_Walk.thy ===== *)
theory Page_Walk
  imports Misc_Header
begin

text \<open>
  Physical memory and the page walk the processor makes at every access to a virtual address. They come first because
  everything the kernel does with an address goes through them, drawing on the screen included; the operations that edit
  page tables are in theory Paging.
\<close>

record ram_state = io_state +
  phys :: memory
  cr3 :: addr

definition PDE_INDEX :: "addr \<Rightarrow> u32" where
  "PDE_INDEX a = drop_bit 22 a AND 0x3FF"

definition PTE_INDEX :: "addr \<Rightarrow> u32" where
  "PTE_INDEX a = drop_bit 12 a AND 0x3FF"

definition denies :: "bool \<Rightarrow> u32 \<Rightarrow> bool" where
  "denies write e \<longleftrightarrow> \<not> bit e 0 \<or> write \<and> \<not> bit e 1"

definition translate :: "memory \<Rightarrow> addr \<Rightarrow> bool \<Rightarrow> addr \<Rightarrow> addr option" where
  "translate m pd write va =
     (let pde = load32 m (entry (pd AND PAGE_MASK) (PDE_INDEX va)) in
      if denies write pde then None
      else let pte = load32 m (entry (pde AND PAGE_MASK) (PTE_INDEX va)) in
        if denies write pte then None else Some ((pte AND PAGE_MASK) + (va AND 0xFFF)))"

end
