(* ===== verification/Terminal.thy ===== *)
theory Terminal
  imports Page_Walk
begin

text \<open>
  The screen: \<open>put_pixel\<close> of \<open>kernel/graphics/framebuffer.c\<close>, the glyph renderer of
  \<open>kernel/graphics/font.c\<close> and the \<open>terminal_*\<close> half of \<open>kernel/tty.c\<close>.

  A pixel is stored through the page walk at its virtual address, and an address that is not mapped is a page fault of the
  kernel, \<open>None\<close>. What is mapped there is the memory of the graphics device, not RAM: a store of 32-bit pixels keyed by
  physical address. The VGA text buffer is a store of 16-bit cells keyed by index. The font file linked into the kernel is
  a store of bytes keyed by offset, and \<open>psf2_data\<close> is \<open>None\<close> until \<open>load_psf2_font\<close> has run.
\<close>

section \<open>State\<close>

record term_state = ram_state +
  framebuffer_width :: u32
  framebuffer_height :: u32
  framebuffer_pitch :: u32
  fb_mem :: "addr \<Rightarrow> u32"
  font_blob :: memory
  psf2_data :: "memory option"
  terminal_row :: u32
  terminal_column :: u32
  terminal_color :: u8
  terminal_buffer :: "u32 \<Rightarrow> u16"

definition FRAMEBUFFER_ADDR :: addr where "FRAMEBUFFER_ADDR = 0xE0000000"
definition VGA_WIDTH :: u32 where "VGA_WIDTH = 80"
definition VGA_HEIGHT :: u32 where "VGA_HEIGHT = 25"
definition DEFAULT_WIDTH_SPACING :: u32 where "DEFAULT_WIDTH_SPACING = 11"
definition DEFAULT_HEIGHT_SPACING :: u32 where "DEFAULT_HEIGHT_SPACING = 20"

section \<open>Pixels\<close>

text \<open>
  The two tests compare unsigned numbers with zero and never hold. The address is a 32-bit number: some 26000 rows down (at
  4096 bytes a line) it wraps round, and the store goes to whatever lies at the bottom of the address space. The model does
  not follow the kernel there: that store is \<open>None\<close>, like a fault.
\<close>

definition put_pixel :: "u32 \<Rightarrow> u32 \<Rightarrow> u32 \<Rightarrow> 'a term_state_scheme \<Rightarrow> 'a term_state_scheme option" where
  "put_pixel x y color s =
     (if x \<ge> framebuffer_width s \<and> x < 0 then Some s
      else if y \<ge> framebuffer_height s \<and> y < 0 then Some s
      else let location = FRAMEBUFFER_ADDR + y * framebuffer_pitch s + 4 * x in
        if location < FRAMEBUFFER_ADDR then None
        else do {
          pa \<leftarrow> translate (phys s) (cr3 s) True location;
          Some (s\<lparr>fb_mem := (fb_mem s)(pa := color)\<rparr>) })"

section \<open>Glyphs\<close>

text \<open>The fields of \<open>struct psf2\<close> the renderer reads, at their offsets in the file.\<close>

definition psf2_headersize :: "memory \<Rightarrow> u32" where "psf2_headersize f = load32 f 8"
definition psf2_charsize :: "memory \<Rightarrow> u32" where "psf2_charsize f = load32 f 20"
definition psf2_height :: "memory \<Rightarrow> u32" where "psf2_height f = load32 f 24"
definition psf2_width :: "memory \<Rightarrow> u32" where "psf2_width f = load32 f 28"

definition load_psf2_font :: "'a term_state_scheme \<Rightarrow> 'a term_state_scheme" where
  "load_psf2_font s = s\<lparr>psf2_data := Some (font_blob s)\<rparr>"

definition glyph_pixel :: "memory \<Rightarrow> memory \<Rightarrow> u8 \<Rightarrow> nat \<Rightarrow> nat \<Rightarrow> bool" where
  "glyph_pixel blob f char_code i j =
     (let glyph = psf2_headersize f + ucast char_code * psf2_charsize f;
          bytes_per_line = (psf2_width f + 7) div 8;
          byte_index = of_nat i * bytes_per_line + of_nat (j div 8);
          bit_index = 7 - j mod 8
      in drop_bit bit_index (blob (glyph + byte_index)) AND 1 \<noteq> 0)"

fun put_char_row :: "memory \<Rightarrow> u8 \<Rightarrow> u32 \<Rightarrow> nat \<Rightarrow> nat list \<Rightarrow> u32 \<Rightarrow> u32 \<Rightarrow>
    'a term_state_scheme \<Rightarrow> 'a term_state_scheme option" where
  "put_char_row f char_code color i [] x y s = Some s"
| "put_char_row f char_code color i (j # js) x y s = do {
     s \<leftarrow> (if glyph_pixel (font_blob s) f char_code i j then put_pixel x y color s else Some s);
     put_char_row f char_code color i js (x + 1) y s }"

fun put_char_rows :: "memory \<Rightarrow> u8 \<Rightarrow> u32 \<Rightarrow> nat list \<Rightarrow> u32 \<Rightarrow> u32 \<Rightarrow>
    'a term_state_scheme \<Rightarrow> 'a term_state_scheme option" where
  "put_char_rows f char_code color [] x_origin y s = Some s"
| "put_char_rows f char_code color (i # is) x_origin y s = do {
     s \<leftarrow> put_char_row f char_code color i [0..<unat (psf2_width f)] x_origin y s;
     put_char_rows f char_code color is x_origin (y + 1) s }"

text \<open>
  The loop counters are \<open>uint8_t\<close>: with a height or a width above 255 they wrap before the bound
  and the loop never ends.
\<close>

definition put_char :: "u32 \<Rightarrow> u32 \<Rightarrow> u32 \<Rightarrow> u8 \<Rightarrow> 'a term_state_scheme \<Rightarrow> 'a term_state_scheme option" where
  "put_char x y color char_code s =
     (case psf2_data s of
        None \<Rightarrow> None
      | Some f \<Rightarrow>
          if psf2_height f > 255 \<or> psf2_height f > 0 \<and> psf2_width f > 255 then None
          else put_char_rows f char_code color [0..<unat (psf2_height f)] x y s)"

section \<open>The text cursor\<close>

definition vga_entry_color :: "u8 \<Rightarrow> u8 \<Rightarrow> u8" where
  "vga_entry_color fg bg = fg OR push_bit 4 bg"

definition vga_entry :: "u8 \<Rightarrow> u8 \<Rightarrow> u16" where
  "vga_entry uc color = ucast uc OR push_bit 8 (ucast color)"

definition terminal_initialize :: "'a term_state_scheme \<Rightarrow> 'a term_state_scheme" where
  "terminal_initialize s =
     (let color = vga_entry_color 7 0 in
      s\<lparr>terminal_row := 0, terminal_column := 0, terminal_color := color,
        terminal_buffer := (\<lambda>i. if i < VGA_HEIGHT * VGA_WIDTH then vga_entry 32 color
                                 else terminal_buffer s i)\<rparr>)"

definition terminal_setcolor :: "u8 \<Rightarrow> 'a term_state_scheme \<Rightarrow> 'a term_state_scheme" where
  "terminal_setcolor color s = s\<lparr>terminal_color := color\<rparr>"

definition terminal_putentryat :: "u8 \<Rightarrow> u8 \<Rightarrow> u32 \<Rightarrow> u32 \<Rightarrow> 'a term_state_scheme \<Rightarrow> 'a term_state_scheme" where
  "terminal_putentryat c color x y s =
     s\<lparr>terminal_buffer := (terminal_buffer s)(y * VGA_WIDTH + x := vga_entry c color)\<rparr>"

definition terminal_putchar :: "u8 \<Rightarrow> 'a term_state_scheme \<Rightarrow> 'a term_state_scheme option" where
  "terminal_putchar c s =
     (if c = 10 then Some (s\<lparr>terminal_row := terminal_row s + 1, terminal_column := 0\<rparr>)
      else do {
        s \<leftarrow> put_char (terminal_column s * DEFAULT_WIDTH_SPACING)
               (terminal_row s * DEFAULT_HEIGHT_SPACING) 0xAAAAAA c s;
        let column = terminal_column s + 1;
        if column = VGA_WIDTH then
          let row = terminal_row s + 1 in
          Some (s\<lparr>terminal_column := 0, terminal_row := (if row = VGA_HEIGHT then 0 else row)\<rparr>)
        else Some (s\<lparr>terminal_column := column\<rparr>)
      })"

text \<open>\<open>terminal_write(data, size)\<close> reads the first \<open>size\<close> bytes of \<open>data\<close>: the argument here is that list.\<close>

fun terminal_write :: "u8 list \<Rightarrow> 'a term_state_scheme \<Rightarrow> 'a term_state_scheme option" where
  "terminal_write [] s = Some s"
| "terminal_write (c # data) s = do { s \<leftarrow> terminal_putchar c s; terminal_write data s }"

definition cstr :: "string \<Rightarrow> u8 list" where
  "cstr str = map of_char str"

definition terminal_writestring :: "string \<Rightarrow> 'a term_state_scheme \<Rightarrow> 'a term_state_scheme option" where
  "terminal_writestring str s = terminal_write (cstr str) s"

function terminal_writeuint_digits :: "u32 \<Rightarrow> u8 list \<Rightarrow> u8 list option" where
  "terminal_writeuint_digits value buf =
     (if value > 0 then
        if length buf < 11 then
          terminal_writeuint_digits (value div 10) (buf @ [48 + ucast (value mod 10)])
        else None
      else Some buf)"
  by pat_completeness auto
termination
  by (relation "measure (\<lambda>(v, buf). 11 - length buf)") auto

definition terminal_writeuint :: "u32 \<Rightarrow> 'a term_state_scheme \<Rightarrow> 'a term_state_scheme option" where
  "terminal_writeuint value s =
     (if value = 0 then terminal_putchar 48 s
      else do { buf \<leftarrow> terminal_writeuint_digits value []; terminal_write (rev buf) s })"

definition terminal_writehex :: "u32 \<Rightarrow> 'a term_state_scheme \<Rightarrow> 'a term_state_scheme option" where
  "terminal_writehex value s = do {
     s \<leftarrow> terminal_putchar 48 s;
     s \<leftarrow> terminal_putchar 120 s;
     terminal_write (map (\<lambda>i. hex ! unat (drop_bit i value AND 0xF)) [28, 24, 20, 16, 12, 8, 4, 0]) s }"

section \<open>What terminal output leaves alone\<close>

text \<open>
  Every part of the state except the pixels and the cursor: the terminal fields are set to fixed
  values, so that two states agree outside the screen exactly when their \<open>off_screen\<close> views
  are equal.
\<close>

definition off_screen :: "'a term_state_scheme \<Rightarrow> 'a term_state_scheme" where
  "off_screen s = s\<lparr>fb_mem := (\<lambda>_. 0), terminal_row := 0, terminal_column := 0\<rparr>"

lemma off_screenD:
  assumes "off_screen s' = off_screen s"
  shows "phys s' = phys s" "cr3 s' = cr3 s" "framebuffer_pitch s' = framebuffer_pitch s" "psf2_data s' = psf2_data s"
    "font_blob s' = font_blob s" "term_state.more s' = term_state.more s" "io_trace s' = io_trace s"
    "framebuffer_width s' = framebuffer_width s" "framebuffer_height s' = framebuffer_height s"
  using assms by (cases s; cases s'; simp add: off_screen_def)+

lemma off_screen_eq:
  "off_screen s' = off_screen s \<longleftrightarrow> s' = s\<lparr>fb_mem := fb_mem s', terminal_row := terminal_row s', terminal_column := terminal_column s'\<rparr>"
  by (cases s; cases s') (auto simp: off_screen_def)

lemma off_screen_cursor [simp]:
  "off_screen (s\<lparr>terminal_row := r\<rparr>) = off_screen s"
  "off_screen (s\<lparr>terminal_column := r\<rparr>) = off_screen s"
  by (simp_all add: off_screen_def)

lemma off_screen_cursor2 [simp]:
  "off_screen (s\<lparr>terminal_row := r, terminal_column := r'\<rparr>) = off_screen s"
  "off_screen (s\<lparr>terminal_column := r', terminal_row := r\<rparr>) = off_screen s"
  by (simp_all add: off_screen_def)

text \<open>Drawing moves neither the cursor nor anything off the screen.\<close>

definition drawn :: "'a term_state_scheme \<Rightarrow> 'a term_state_scheme \<Rightarrow> bool" where
  "drawn s s' \<longleftrightarrow> off_screen s' = off_screen s \<and> terminal_row s' = terminal_row s \<and> terminal_column s' = terminal_column s"

lemma drawn_trans: "drawn s s1 \<Longrightarrow> drawn s1 s2 \<Longrightarrow> drawn s s2"
  by (simp add: drawn_def)

lemma put_pixel_drawn: "put_pixel x y c s = Some s' \<Longrightarrow> drawn s s'"
  by (auto simp: put_pixel_def Let_def drawn_def off_screen_def bind_Some_iff split: if_splits)

lemma put_char_row_drawn: "put_char_row f cc c i js x y s = Some s' \<Longrightarrow> drawn s s'"
proof (induction js arbitrary: x s)
  case (Cons j js)
  then obtain s1 where "(if glyph_pixel (font_blob s) f cc i j then put_pixel x y c s else Some s) = Some s1"
    "put_char_row f cc c i js (x + 1) y s1 = Some s'" by (auto simp: bind_Some_iff)
  moreover from this(1) have "drawn s s1" by (auto simp: drawn_def put_pixel_drawn [unfolded drawn_def] split: if_splits)
  ultimately show ?case using Cons.IH drawn_trans by blast
qed (simp add: drawn_def)

lemma put_char_rows_drawn: "put_char_rows f cc c is x y s = Some s' \<Longrightarrow> drawn s s'"
proof (induction "is" arbitrary: y s)
  case (Cons i js)
  then obtain s1 where "put_char_row f cc c i [0..<unat (psf2_width f)] x y s = Some s1" "put_char_rows f cc c js x (y + 1) s1 = Some s'"
    by (auto simp: bind_Some_iff)
  then show ?case using Cons.IH put_char_row_drawn drawn_trans by blast
qed (simp add: drawn_def)

lemma put_char_drawn: "put_char x y c cc s = Some s' \<Longrightarrow> drawn s s'"
  by (auto simp: put_char_def put_char_rows_drawn split: option.splits if_splits)

lemma terminal_putchar_off_screen: "terminal_putchar c s = Some s' \<Longrightarrow> off_screen s' = off_screen s"
  by (auto simp: terminal_putchar_def bind_Some_iff Let_def dest!: put_char_drawn simp: drawn_def split: if_splits)

lemma terminal_write_off_screen: "terminal_write data s = Some s' \<Longrightarrow> off_screen s' = off_screen s"
proof (induction data arbitrary: s)
  case (Cons c data)
  then obtain s1 where "terminal_putchar c s = Some s1" "terminal_write data s1 = Some s'" by (auto simp: bind_Some_iff)
  then show ?case using Cons.IH [of s1] terminal_putchar_off_screen [of c s s1] by simp
qed simp

section \<open>Output that does not fault\<close>

text \<open>The pixels that a character in a cell can need, and their pages.\<close>

definition pixel_mapped :: "'a term_state_scheme \<Rightarrow> u32 \<Rightarrow> u32 \<Rightarrow> bool" where
  "pixel_mapped s x y \<longleftrightarrow> (let location = FRAMEBUFFER_ADDR + y * framebuffer_pitch s + 4 * x in
     location \<ge> FRAMEBUFFER_ADDR \<and> translate (phys s) (cr3 s) True location \<noteq> None)"

definition cell_mapped :: "'a term_state_scheme \<Rightarrow> memory \<Rightarrow> nat \<Rightarrow> nat \<Rightarrow> bool" where
  "cell_mapped s f r c \<longleftrightarrow> (\<forall>i < unat (psf2_height f). \<forall>j < unat (psf2_width f).
     pixel_mapped s (of_nat c * DEFAULT_WIDTH_SPACING + of_nat j) (of_nat r * DEFAULT_HEIGHT_SPACING + of_nat i))"

text \<open>
  A font is loaded, the cursor is in one of the 80 columns, and the cells of all rows up to \<open>R\<close> lie in mapped memory. Rows are
  not limited to the 25 of the grid: a newline goes on below them.
\<close>

definition screen_room :: "nat \<Rightarrow> 'a term_state_scheme \<Rightarrow> bool" where
  "screen_room R s \<longleftrightarrow> unat (terminal_column s) < 80 \<and> R < 4294967296 \<and>
     (\<exists>f. psf2_data s = Some f \<and> psf2_height f \<le> 255 \<and> psf2_width f \<le> 255 \<and> (\<forall>r \<le> R. \<forall>c < 80. cell_mapped s f r c))"

text \<open>How many rows further down a text takes the cursor at most, from a column on.\<close>

fun rows_used :: "nat \<Rightarrow> u8 list \<Rightarrow> nat" where
  "rows_used c [] = 0"
| "rows_used c (x # xs) = (if x = 10 \<or> Suc c = 80 then Suc (rows_used 0 xs) else rows_used (Suc c) xs)"

lemma pixel_mapped_cong: "off_screen s' = off_screen s \<Longrightarrow> pixel_mapped s' = pixel_mapped s"
  by (intro ext) (simp add: pixel_mapped_def Let_def off_screenD(1-3) [of s' s])

lemma cell_mapped_cong: "off_screen s' = off_screen s \<Longrightarrow> cell_mapped s' = cell_mapped s"
  using pixel_mapped_cong [of s' s] by (auto simp: cell_mapped_def fun_eq_iff)

lemma screen_room_cong:
  "off_screen s' = off_screen s \<Longrightarrow> unat (terminal_column s') < 80 \<Longrightarrow> screen_room R s \<Longrightarrow> screen_room R s'"
  using off_screenD(4) [of s' s] cell_mapped_cong [of s' s] by (simp add: screen_room_def)

lemma put_pixel_ok: "pixel_mapped s x y \<Longrightarrow> \<exists>s'. put_pixel x y c s = Some s'"
  by (auto simp: put_pixel_def Let_def pixel_mapped_def)

lemma put_char_row_ok:
  "(\<And>j. j < n \<Longrightarrow> pixel_mapped s (x + of_nat j) y) \<Longrightarrow> length js = n \<Longrightarrow> \<exists>s'. put_char_row f cc c i js x y s = Some s'"
proof (induction js arbitrary: n x s)
  case (Cons j js)
  have "pixel_mapped s x y" using Cons.prems(1) [of 0] Cons.prems(2) by auto
  then obtain s1 where s1: "(if glyph_pixel (font_blob s) f cc i j then put_pixel x y c s else Some s) = Some s1"
    using put_pixel_ok [of s x y c] by (cases "glyph_pixel (font_blob s) f cc i j") auto
  then have "drawn s s1" by (auto simp: drawn_def put_pixel_drawn [unfolded drawn_def] split: if_splits)
  then have "pixel_mapped s1 = pixel_mapped s" by (intro pixel_mapped_cong) (simp add: drawn_def)
  then have "\<exists>s'. put_char_row f cc c i js (x + 1) y s1 = Some s'"
    using Cons.prems(1) [of "Suc _"] Cons.prems(2) by (intro Cons.IH [of "length js"]) (auto simp: ac_simps)
  then show ?case using s1 by auto
qed simp

lemma put_char_rows_ok:
  "(\<And>i j. i < n \<Longrightarrow> j < unat (psf2_width f) \<Longrightarrow> pixel_mapped s (x + of_nat j) (y + of_nat i)) \<Longrightarrow> length is = n \<Longrightarrow>
   \<exists>s'. put_char_rows f cc c is x y s = Some s'"
proof (induction "is" arbitrary: n y s)
  case (Cons i js)
  have "\<And>j. j < unat (psf2_width f) \<Longrightarrow> pixel_mapped s (x + of_nat j) y" using Cons.prems(1) [of 0] Cons.prems(2) by auto
  then obtain s1 where s1: "put_char_row f cc c i [0..<unat (psf2_width f)] x y s = Some s1"
    using put_char_row_ok [of "unat (psf2_width f)" s x y "[0..<unat (psf2_width f)]" f cc c i] by auto
  have "pixel_mapped s1 = pixel_mapped s" using put_char_row_drawn [OF s1] by (intro pixel_mapped_cong) (simp add: drawn_def)
  then have "\<exists>s'. put_char_rows f cc c js x (y + 1) s1 = Some s'"
    using Cons.prems(1) [of "Suc _"] Cons.prems(2) by (intro Cons.IH [of "length js"]) (auto simp: ac_simps)
  then show ?case using s1 by auto
qed simp

lemma put_char_ok:
  assumes "screen_room R s" and "unat (terminal_row s) \<le> R"
  shows "\<exists>s'. put_char (terminal_column s * DEFAULT_WIDTH_SPACING) (terminal_row s * DEFAULT_HEIGHT_SPACING) c cc s = Some s'"
proof -
  obtain f where f: "psf2_data s = Some f" "psf2_height f \<le> 255" "psf2_width f \<le> 255" and m: "cell_mapped s f (unat (terminal_row s)) (unat (terminal_column s))"
    using assms by (auto simp: screen_room_def)
  have "\<exists>s'. put_char_rows f cc c [0..<unat (psf2_height f)] (terminal_column s * DEFAULT_WIDTH_SPACING) (terminal_row s * DEFAULT_HEIGHT_SPACING) s = Some s'"
    using m by (intro put_char_rows_ok [of "unat (psf2_height f)"]) (simp_all add: cell_mapped_def)
  then show ?thesis using f by (simp add: put_char_def not_less)
qed

lemma terminal_putchar_ok:
  assumes "screen_room R s" and "unat (terminal_row s) + rows_used (unat (terminal_column s)) [c] \<le> R"
  shows "\<exists>s'. terminal_putchar c s = Some s' \<and> off_screen s' = off_screen s \<and> screen_room R s' \<and>
    unat (terminal_row s') \<le> unat (terminal_row s) + rows_used (unat (terminal_column s)) [c] \<and>
    unat (terminal_column s') = (if c = 10 \<or> Suc (unat (terminal_column s)) = 80 then 0 else Suc (unat (terminal_column s)))"
proof -
  let ?r = "terminal_row s" and ?c = "terminal_column s"
  have R: "R < 4294967296" "unat ?c < 80" using assms(1) by (simp_all add: screen_room_def)
  have uc: "unat (?c + 1) = Suc (unat ?c)" using R(2) by (simp add: unat_add_u32)
  have ur: "unat (?r + 1) = Suc (unat ?r)" if "Suc (unat ?r) \<le> R" using that R(1) by (simp add: unat_add_u32)
  show ?thesis
  proof (cases "c = 10")
    case True
    then show ?thesis using assms ur screen_room_cong [OF _ _ assms(1), of "s\<lparr>terminal_row := ?r + 1, terminal_column := 0\<rparr>"]
      by (simp add: terminal_putchar_def)
  next
    case False
    obtain t where t: "put_char (?c * DEFAULT_WIDTH_SPACING) (?r * DEFAULT_HEIGHT_SPACING) 0xAAAAAA c s = Some t"
      using put_char_ok [OF assms(1)] assms(2) by fastforce
    have d: "off_screen t = off_screen s" "terminal_row t = ?r" "terminal_column t = ?c" using put_char_drawn [OF t] by (simp_all add: drawn_def)
    let ?s = "if ?c + 1 = VGA_WIDTH then t\<lparr>terminal_column := 0, terminal_row := (if ?r + 1 = VGA_HEIGHT then 0 else ?r + 1)\<rparr> else t\<lparr>terminal_column := ?c + 1\<rparr>"
    have w: "?c + 1 = VGA_WIDTH \<longleftrightarrow> Suc (unat ?c) = 80" using uc by (simp add: VGA_WIDTH_def word_eq_iff_unat_u32)
    have p: "terminal_putchar c s = Some ?s" using False t d by (simp add: terminal_putchar_def Let_def)
    have o: "off_screen ?s = off_screen s" using d(1) by simp
    have col: "unat (terminal_column ?s) = (if Suc (unat ?c) = 80 then 0 else Suc (unat ?c))" using w uc by simp
    have row: "unat (terminal_row ?s) \<le> unat ?r + rows_used (unat ?c) [c]" using w d(2) False assms(2) ur by auto
    have "screen_room R ?s" by (rule screen_room_cong [OF o _ assms(1)]) (use col R(2) in auto)
    then show ?thesis using p o col row False by auto
  qed
qed

lemma rows_used_Cons: "rows_used c (x # xs) = rows_used c [x] + rows_used (if x = 10 \<or> Suc c = 80 then 0 else Suc c) xs"
  by simp

lemma terminal_write_ok:
  "screen_room R s \<Longrightarrow> unat (terminal_row s) + rows_used (unat (terminal_column s)) data \<le> R \<Longrightarrow>
   \<exists>s'. terminal_write data s = Some s' \<and> off_screen s' = off_screen s \<and> screen_room R s' \<and>
     unat (terminal_row s') \<le> unat (terminal_row s) + rows_used (unat (terminal_column s)) data"
proof (induction data arbitrary: s)
  case (Cons c data)
  have "unat (terminal_row s) + rows_used (unat (terminal_column s)) [c] \<le> R" using Cons.prems(2) unfolding rows_used_Cons [of _ c data] by linarith
  from terminal_putchar_ok [OF Cons.prems(1) this] obtain t
    where t: "terminal_putchar c s = Some t" "off_screen t = off_screen s" "screen_room R t"
      "unat (terminal_row t) \<le> unat (terminal_row s) + rows_used (unat (terminal_column s)) [c]"
      "unat (terminal_column t) = (if c = 10 \<or> Suc (unat (terminal_column s)) = 80 then 0 else Suc (unat (terminal_column s)))" by blast
  have "unat (terminal_row t) + rows_used (unat (terminal_column t)) data \<le> R"
    using Cons.prems(2) t(4) unfolding rows_used_Cons [of _ c data] t(5) by linarith
  from Cons.IH [OF t(3) this] obtain u where u: "terminal_write data t = Some u" "off_screen u = off_screen t" "screen_room R u"
    "unat (terminal_row u) \<le> unat (terminal_row t) + rows_used (unat (terminal_column t)) data" by blast
  have "unat (terminal_row u) \<le> unat (terminal_row s) + rows_used (unat (terminal_column s)) (c # data)"
    using u(4) t(4) unfolding rows_used_Cons [of _ c data] t(5) by linarith
  then show ?case using t u by auto
qed auto

text \<open>
  Room for \<open>n\<close> more messages of one line each. When the cursor is not in the first column, the next message may need a row
  more.
\<close>

definition term_ok :: "nat \<Rightarrow> 'a term_state_scheme \<Rightarrow> bool" where
  "term_ok n s \<longleftrightarrow> (\<exists>R. screen_room R s \<and> unat (terminal_row s) + n + (if terminal_column s = 0 then 0 else 1) \<le> R)"

definition message :: "string \<Rightarrow> bool" where
  "message str \<longleftrightarrow> str \<noteq> [] \<and> length str \<le> 80 \<and> last (cstr str) = 10 \<and> 10 \<notin> set (butlast (cstr str))"

lemma rows_used_line: "10 \<notin> set cs \<Longrightarrow> c < 80 \<Longrightarrow> c + length cs < 160 \<Longrightarrow> rows_used c cs \<le> (if c + length cs < 80 then 0 else 1)"
proof (induction cs arbitrary: c)
  case (Cons x xs)
  show ?case
  proof (cases "Suc c = 80")
    case True
    then have "rows_used 0 xs \<le> 0" using Cons.IH [of 0] Cons.prems by auto
    then show ?thesis using True by simp
  next
    case False
    then show ?thesis using Cons.IH [of "Suc c"] Cons.prems by auto
  qed
qed simp

lemma terminal_message_ok:
  assumes "term_ok (Suc n) s" and "message str"
  shows "\<exists>s'. terminal_writestring str s = Some s' \<and> off_screen s' = off_screen s \<and> term_ok n s'"
proof -
  let ?cs = "butlast (cstr str)"
  obtain R where R: "screen_room R s" "unat (terminal_row s) + Suc n + (if terminal_column s = 0 then 0 else 1) \<le> R" using assms(1) by (auto simp: term_ok_def)
  have cs: "cstr str = ?cs @ [10]" "10 \<notin> set ?cs" "length ?cs < 80"
    using assms(2) append_butlast_last_id [of "cstr str"] by (auto simp: message_def cstr_def)
  have c: "unat (terminal_column s) < 80" using R(1) by (simp add: screen_room_def)
  have "rows_used (unat (terminal_column s)) ?cs \<le> (if terminal_column s = 0 then 0 else 1)"
    using rows_used_line [OF cs(2) c] cs(3) c by (auto split: if_splits)
  then obtain t where t: "terminal_write ?cs s = Some t" "off_screen t = off_screen s" "screen_room R t"
      "unat (terminal_row t) \<le> unat (terminal_row s) + (if terminal_column s = 0 then 0 else 1)"
    using terminal_write_ok [OF R(1), of ?cs] R(2) by fastforce
  obtain u where u: "terminal_putchar 10 t = Some u" "off_screen u = off_screen t" "screen_room R u" "unat (terminal_row u) \<le> unat (terminal_row t) + 1"
      "terminal_column u = 0" using terminal_putchar_ok [OF t(3), of 10] t(4) R(2) by (auto simp: unat_eq_0)
  have "terminal_write (?cs @ [10]) s = Some u"
  proof -
    have "terminal_write (xs @ ys) v = Option.bind (terminal_write xs v) (terminal_write ys)" for xs ys and v :: "'a term_state_scheme"
    proof (induction xs arbitrary: v)
      case (Cons x xs)
      then show ?case by (cases "terminal_putchar x v") simp_all
    qed simp
    then show ?thesis using t(1) u(1) by simp
  qed
  moreover have "term_ok n u" using u(3-5) t(4) R(2) by (auto simp: term_ok_def intro!: exI [of _ R])
  ultimately show ?thesis using t(2) u(2) cs(1) by (simp add: terminal_writestring_def)
qed

text \<open>Two states with the same font and cursor, whose frame buffers are mapped alike.\<close>

definition same_screen :: "'a term_state_scheme \<Rightarrow> 'b term_state_scheme \<Rightarrow> bool" where
  "same_screen s s' \<longleftrightarrow> psf2_data s' = psf2_data s \<and> framebuffer_pitch s' = framebuffer_pitch s \<and>
     terminal_row s' = terminal_row s \<and> terminal_column s' = terminal_column s \<and>
     (\<forall>va \<ge> FRAMEBUFFER_ADDR. translate (phys s') (cr3 s') True va = translate (phys s) (cr3 s) True va)"

lemma same_screen_trans: "same_screen s s1 \<Longrightarrow> same_screen s1 s2 \<Longrightarrow> same_screen s s2"
  by (simp add: same_screen_def)

lemma same_screen_room:
  assumes "same_screen s s'"
  shows "screen_room R s' = screen_room R s" "term_ok n s' = term_ok n s"
proof -
  have "pixel_mapped s' x y = pixel_mapped s x y" for x y using assms by (auto simp: pixel_mapped_def same_screen_def Let_def)
  then have "cell_mapped s' f r c = cell_mapped s f r c" for f r c by (simp add: cell_mapped_def)
  then show room: "screen_room R s' = screen_room R s" for R using assms by (simp add: screen_room_def same_screen_def)
  show "term_ok n s' = term_ok n s" using assms by (simp add: term_ok_def room same_screen_def)
qed

lemma term_ok_mono: "term_ok n s \<Longrightarrow> m \<le> n \<Longrightarrow> term_ok m s"
  unfolding term_ok_def by (elim exE, rule exI, elim conjE, intro conjI, assumption, linarith)

section \<open>Numbers on the screen\<close>

declare terminal_writeuint_digits.simps [simp del]

lemma terminal_writeuint_digits_decimal:
  "v > 0 \<Longrightarrow> length buf + length (decimal (unat v)) \<le> 11 \<Longrightarrow>
   terminal_writeuint_digits v buf = Some (buf @ rev (decimal (unat v)))"
proof (induction v buf rule: terminal_writeuint_digits.induct)
  case (1 v buf)
  have d: "v div 10 > 0 \<longleftrightarrow> \<not> unat v < 10"
    by (auto simp: word_less_nat_alt unat_div div_greater_zero_iff)
  show ?case
  proof (cases "unat v < 10")
    case True
    with d have "terminal_writeuint_digits (v div 10) b = Some b" for b
      by (simp add: terminal_writeuint_digits.simps)
    with True "1.prems" show ?thesis
      by (simp add: terminal_writeuint_digits.simps [of v] decimal.simps [of "unat v"] ucast_mod_10)
  next
    case False
    then have "decimal (unat v) = decimal (unat (v div 10)) @ [48 + of_nat (unat v mod 10)]"
      by (simp add: decimal.simps [of "unat v"] unat_div)
    with False "1" d show ?thesis
      by (simp add: terminal_writeuint_digits.simps [of v] ucast_mod_10)
  qed
qed

text \<open>
  \<open>terminal_writeuint\<close> never overruns its eleven-byte buffer and draws the same characters as
  writing the decimal digits of the value, zero included.
\<close>

theorem terminal_writeuint_decimal:
  "terminal_writeuint v s = terminal_write (decimal (unat v)) s"
proof (cases "v = 0")
  case True
  then show ?thesis
    by (cases "terminal_putchar 48 s") (simp_all add: terminal_writeuint_def decimal.simps)
next
  case False
  then have "terminal_writeuint_digits v [] = Some (rev (decimal (unat v)))"
    using length_decimal_u32 [of v]
    by (simp add: terminal_writeuint_digits_decimal word_neq_0_conv)
  with False show ?thesis by (simp add: terminal_writeuint_def)
qed

section \<open>The cursor\<close>

lemma terminal_putchar_cursor:
  assumes "terminal_putchar c s = Some s'" and "c \<noteq> 10"
    and "terminal_column s < VGA_WIDTH" and "terminal_row s < VGA_HEIGHT"
  shows "terminal_column s' < VGA_WIDTH \<and> terminal_row s' < VGA_HEIGHT \<and>
    unat (terminal_row s') * 80 + unat (terminal_column s') =
      (unat (terminal_row s) * 80 + unat (terminal_column s) + 1) mod 2000"
proof -
  let ?c = "terminal_column s" and ?r = "terminal_row s"
  have lt: "unat ?c < 80" "unat ?r < 25"
    using assms(3,4) by (simp_all add: VGA_WIDTH_def VGA_HEIGHT_def word_less_nat_alt)
  from assms(1,2) obtain t where t: "put_char (?c * DEFAULT_WIDTH_SPACING)
      (?r * DEFAULT_HEIGHT_SPACING) 0xAAAAAA c s = Some t"
    by (auto simp: terminal_putchar_def bind_Some_iff)
  then have "terminal_column t = ?c" "terminal_row t = ?r"
    using put_char_drawn [OF t] by (simp_all add: drawn_def)
  then have s': "terminal_column s' = (if ?c + 1 = 80 then 0 else ?c + 1)"
    "terminal_row s' = (if ?c + 1 = 80 then if ?r + 1 = 25 then 0 else ?r + 1 else ?r)"
    using assms(1,2) t
    by (auto simp: terminal_putchar_def VGA_WIDTH_def VGA_HEIGHT_def Let_def split: if_splits)
  have u: "unat (?c + 1) = unat ?c + 1" "unat (?r + 1) = unat ?r + 1"
    using lt by (simp_all add: unat_add_u32)
  then have e: "?c + 1 = 80 \<longleftrightarrow> unat ?c = 79" "?r + 1 = 25 \<longleftrightarrow> unat ?r = 24"
    by (simp_all add: word_eq_iff_unat_u32)
  show ?thesis
    using lt by (simp add: s' e u VGA_WIDTH_def VGA_HEIGHT_def word_less_nat_alt)
qed

text \<open>
  With a font loaded and the 25 rows of the grid mapped, drawing a character other than a newline succeeds, changes nothing
  but pixels and the cursor, and moves the cursor to the next cell of the 80 by 25 grid in
  reading order, from the last cell to the first.
\<close>

theorem terminal_putchar_advances:
  assumes "screen_room 25 s" and "c \<noteq> 10" and "terminal_row s < VGA_HEIGHT"
  shows "\<exists>s'. terminal_putchar c s = Some s' \<and> off_screen s' = off_screen s \<and>
    terminal_column s' < VGA_WIDTH \<and> terminal_row s' < VGA_HEIGHT \<and>
    unat (terminal_row s') * 80 + unat (terminal_column s') =
      (unat (terminal_row s) * 80 + unat (terminal_column s) + 1) mod 2000"
proof -
  have "unat (terminal_row s) + rows_used (unat (terminal_column s)) [c] \<le> 25" "terminal_column s < VGA_WIDTH"
    using assms by (auto simp: VGA_HEIGHT_def VGA_WIDTH_def word_less_nat_alt screen_room_def)
  then show ?thesis using terminal_putchar_ok [OF assms(1), of c] terminal_putchar_cursor [OF _ assms(2) _ assms(3)] by blast
qed

section \<open>Output below the screen\<close>

lemma put_char_row_faults:
  "p < length js \<Longrightarrow> glyph_pixel (font_blob s) f cc i (js ! p) \<Longrightarrow> \<not> pixel_mapped s (x + of_nat p) y \<Longrightarrow> put_char_row f cc c i js x y s = None"
proof (induction js arbitrary: p x s)
  case (Cons j js)
  show ?case
  proof (cases "if glyph_pixel (font_blob s) f cc i j then put_pixel x y c s else Some s")
    case (Some s1)
    then have d: "off_screen s1 = off_screen s" using put_pixel_drawn [of x y c s s1] by (auto simp: drawn_def split: if_splits)
    have "p \<noteq> 0" using Some Cons.prems by (cases "p = 0") (auto simp: put_pixel_def Let_def pixel_mapped_def not_le split: if_splits)
    then obtain q where q: "p = Suc q" by (cases p) auto
    have "put_char_row f cc c i js (x + 1) y s1 = None"
      using Cons.prems q off_screenD(5) [OF d] pixel_mapped_cong [OF d] by (intro Cons.IH [of q]) (auto simp: ac_simps)
    then show ?thesis using Some by simp
  qed auto
qed simp

lemma put_char_rows_faults:
  "p < length is \<Longrightarrow> j < unat (psf2_width f) \<Longrightarrow> glyph_pixel (font_blob s) f cc (is ! p) j \<Longrightarrow> \<not> pixel_mapped s (x + of_nat j) (y + of_nat p) \<Longrightarrow>
   put_char_rows f cc c is x y s = None"
proof (induction "is" arbitrary: p y s)
  case (Cons i js)
  show ?case
  proof (cases "put_char_row f cc c i [0..<unat (psf2_width f)] x y s")
    case (Some s1)
    then have d: "off_screen s1 = off_screen s" using put_char_row_drawn [OF Some] by (simp add: drawn_def)
    have "p \<noteq> 0" using Some Cons.prems put_char_row_faults [of j "[0..<unat (psf2_width f)]" s f cc i x y c] by (cases "p = 0") auto
    then obtain q where q: "p = Suc q" by (cases p) auto
    have "put_char_rows f cc c js x (y + 1) s1 = None"
      using Cons.prems q off_screenD(5) [OF d] pixel_mapped_cong [OF d] by (intro Cons.IH [of q]) (auto simp: ac_simps)
    then show ?thesis using Some by simp
  qed simp
qed simp

lemma terminal_newlines:
  "terminal_write (replicate (Suc k) 10 @ cs) s = terminal_write cs (s\<lparr>terminal_row := terminal_row s + of_nat (Suc k), terminal_column := 0\<rparr>)"
proof (induction k arbitrary: s)
  case (Suc k)
  have e: "terminal_row s + 1 + of_nat (Suc k) = terminal_row s + of_nat (Suc (Suc k))" by (simp add: ac_simps)
  have "terminal_write (replicate (Suc (Suc k)) 10 @ cs) s = terminal_write (replicate (Suc k) 10 @ cs) (s\<lparr>terminal_row := terminal_row s + 1, terminal_column := 0\<rparr>)"
    by (simp add: terminal_putchar_def)
  then show ?case unfolding Suc e [symmetric] by simp
qed (simp add: terminal_putchar_def)

text \<open>
  A newline moves the cursor one row down without end, also below the 25 rows of the grid. As soon as a pixel of the next
  character lies in memory that is not mapped, the kernel faults: no bounds test of \<open>put_pixel\<close> prevents the store.
\<close>

theorem newlines_run_off_screen:
  assumes "psf2_data s = Some f" and "i < unat (psf2_height f)" and "j < unat (psf2_width f)" and "glyph_pixel (font_blob s) f c i j" and "c \<noteq> 10"
    and "translate (phys s) (cr3 s) True (FRAMEBUFFER_ADDR +
      ((terminal_row s + of_nat (Suc k)) * DEFAULT_HEIGHT_SPACING + of_nat i) * framebuffer_pitch s + 4 * of_nat j) = None"
  shows "terminal_write (replicate (Suc k) 10 @ [c]) s = None"
proof -
  let ?t = "s\<lparr>terminal_row := terminal_row s + of_nat (Suc k), terminal_column := 0\<rparr>"
  have "put_char_rows f c 0xAAAAAA [0..<unat (psf2_height f)] 0 ((terminal_row s + of_nat (Suc k)) * DEFAULT_HEIGHT_SPACING) ?t = None"
    using assms(2-4,6) by (intro put_char_rows_faults [of i _ j]) (simp_all add: pixel_mapped_def Let_def)
  then have "terminal_putchar c ?t = None" using assms(1,5) by (simp add: terminal_putchar_def put_char_def)
  then show ?thesis unfolding terminal_newlines by simp
qed

text \<open>
  A screen with the cursor in its last cell and no mapped memory, a font of one pixel, and the same screen with that font in a memory
  whose every page is mapped.
\<close>

definition last_cell :: term_state where
  "last_cell = \<lparr>io_trace = [], phys = (\<lambda>_. 0), cr3 = 0, framebuffer_width = 1024, framebuffer_height = 768,
     framebuffer_pitch = 4096, fb_mem = (\<lambda>_. 0), font_blob = (\<lambda>_. 0), psf2_data = Some (\<lambda>_. 0),
     terminal_row = 24, terminal_column = 79, terminal_color = 0, terminal_buffer = (\<lambda>_. 0)\<rparr>"

definition dot_font :: memory where
  "dot_font = (\<lambda>a. if a \<in> {24, 28} then 1 else if a = 0 then 0x80 else 0)"

definition dot_screen :: term_state where
  "dot_screen = last_cell\<lparr>phys := (\<lambda>_. 3), font_blob := dot_font, psf2_data := Some dot_font\<rparr>"

lemma dot_font_size: "psf2_height dot_font = 1" "psf2_width dot_font = 1"
  by (simp_all add: psf2_height_def psf2_width_def load32_def dot_font_def)

lemma dot_screen_room: "screen_room 25 dot_screen"
proof -
  have "pixel_mapped dot_screen (of_nat c * DEFAULT_WIDTH_SPACING) (of_nat r * DEFAULT_HEIGHT_SPACING)" if "r \<le> 25" "c < 80" for r c
  proof -
    let ?o = "of_nat r * DEFAULT_HEIGHT_SPACING * 4096 + 4 * (of_nat c * DEFAULT_WIDTH_SPACING) :: u32"
    have o: "?o = of_nat (r * 81920 + c * 44)" by (simp add: DEFAULT_HEIGHT_SPACING_def DEFAULT_WIDTH_SPACING_def)
    have "unat ?o = r * 81920 + c * 44" unfolding o by (rule unat_of_nat_u32) (use that in simp)
    then have "unat (FRAMEBUFFER_ADDR + ?o) = 3758096384 + unat ?o" using that by (simp add: FRAMEBUFFER_ADDR_def unat_add_u32)
    then have "FRAMEBUFFER_ADDR \<le> FRAMEBUFFER_ADDR + ?o" by (simp add: FRAMEBUFFER_ADDR_def word_le_nat_alt)
    moreover have "translate (\<lambda>_. 3) 0 True va \<noteq> None" for va by (simp add: translate_def load32_def denies_def bit_iff_odd)
    ultimately show ?thesis by (simp add: pixel_mapped_def dot_screen_def last_cell_def add.assoc)
  qed
  then show ?thesis by (simp add: screen_room_def cell_mapped_def dot_font_size) (simp add: dot_screen_def last_cell_def dot_font_size)
qed

theorem terminal_putchar_advances_witness:
  "\<exists>s'. terminal_putchar 65 dot_screen = Some s' \<and> terminal_row s' = 0 \<and> terminal_column s' = 0"
  using terminal_putchar_advances [OF dot_screen_room, of 65]
  by (auto simp: dot_screen_def last_cell_def VGA_HEIGHT_def word_eq_iff_unat_u32)

theorem newlines_run_off_screen_witness:
  "terminal_write [10, 65] (last_cell\<lparr>font_blob := dot_font, psf2_data := Some dot_font\<rparr>) = None"
proof -
  let ?s = "last_cell\<lparr>font_blob := dot_font, psf2_data := Some dot_font\<rparr>"
  have "psf2_data ?s = Some dot_font" "0 < unat (psf2_height dot_font)" "0 < unat (psf2_width dot_font)" "glyph_pixel (font_blob ?s) dot_font 65 0 0"
    by (simp_all add: psf2_height_def psf2_width_def psf2_headersize_def psf2_charsize_def load32_def dot_font_def glyph_pixel_def Let_def)
  from newlines_run_off_screen [OF this, of 0] show ?thesis by (simp add: last_cell_def translate_def load32_def denies_def)
qed

end
