(* ===== verification/Run_Search.thy ===== *)
theory Run_Search
  imports Kernel_Prelude
begin

text \<open>
  The loop shared by \<open>pmm_alloc\<close> and \<open>free_virt_area_idx\<close> of \<open>kernel/memory.c\<close>: walk over the
  pages, count consecutive free ones, reset the count at a used one, stop when the count reaches
  the request. The lemmas are about the loop's invariant over any predicate saying which pages are in
  use; the two components instantiate it with their own tables.
\<close>

definition free_run :: "(nat \<Rightarrow> bool) \<Rightarrow> nat \<Rightarrow> nat \<Rightarrow> bool" where
  "free_run used start p \<longleftrightarrow> (\<forall>k < p. \<not> used (start + k))"

text \<open>
  What holds when the loop looks at page \<open>i\<close>: the \<open>acc\<close> pages before it are free, the one before
  them is not, and no run of \<open>p\<close> free pages ends before \<open>i\<close>.
\<close>

definition scan_inv :: "(nat \<Rightarrow> bool) \<Rightarrow> nat \<Rightarrow> nat \<Rightarrow> nat \<Rightarrow> bool" where
  "scan_inv used p i acc \<longleftrightarrow> acc \<le> i \<and> acc < p \<and> free_run used (i - acc) acc \<and>
     (acc = i \<or> used (i - acc - 1)) \<and> (\<forall>st. free_run used st p \<longrightarrow> i < st + p)"

text \<open>What the loop returns: the end of the first run, or \<open>n\<close> when there is none below \<open>n\<close>.\<close>

definition first_run_end :: "(nat \<Rightarrow> bool) \<Rightarrow> nat \<Rightarrow> nat \<Rightarrow> nat \<Rightarrow> bool" where
  "first_run_end used p n r \<longleftrightarrow>
     (if r < n then p \<le> r + 1 \<and> free_run used (r + 1 - p) p \<and> (\<forall>st. free_run used st p \<longrightarrow> r + 1 \<le> st + p)
      else r = n \<and> (\<forall>st. free_run used st p \<longrightarrow> n < st + p))"

lemma scan_inv_start: "0 < p \<Longrightarrow> scan_inv used p 0 0"
  by (simp add: scan_inv_def free_run_def)

lemma scan_inv_used: "scan_inv used p i acc \<Longrightarrow> used i \<Longrightarrow> scan_inv used p (i + 1) 0"
  unfolding scan_inv_def
proof (intro conjI allI impI)
  fix st
  assume inv: "acc \<le> i \<and> acc < p \<and> free_run used (i - acc) acc \<and> (acc = i \<or> used (i - acc - 1)) \<and>
      (\<forall>st. free_run used st p \<longrightarrow> i < st + p)" and us: "used i" and run: "free_run used st p"
  have "i \<noteq> st + (p - 1)"
    using run us inv unfolding free_run_def
    by (metis diff_less less_nat_zero_code less_one not_gr_zero)
  moreover have "i < st + p" using inv run by blast
  moreover have "0 < p" using inv by simp
  ultimately show "i + 1 < st + p" by linarith
qed (auto simp: free_run_def)

lemma scan_inv_free:
  assumes "scan_inv used p i acc" and "\<not> used i" and "acc + 1 \<noteq> p"
  shows "scan_inv used p (i + 1) (acc + 1)"
  unfolding scan_inv_def
proof (intro conjI allI impI)
  have inv: "acc \<le> i" "acc < p" "free_run used (i - acc) acc" "acc = i \<or> used (i - acc - 1)"
    "\<And>st. free_run used st p \<Longrightarrow> i < st + p"
    using assms(1) by (auto simp: scan_inv_def)
  show "acc + 1 \<le> i + 1" "acc + 1 < p" using inv(1,2) assms(3) by simp_all
  show "free_run used (i + 1 - (acc + 1)) (acc + 1)"
    using inv(1,3) assms(2) by (auto simp: free_run_def less_Suc_eq)
  show "acc + 1 = i + 1 \<or> used (i + 1 - (acc + 1) - 1)"
    using inv(4) by auto
  fix st
  assume run: "free_run used st p"
  show "i + 1 < st + p"
  proof (rule ccontr)
    assume "\<not> i + 1 < st + p"
    with inv(5) [OF run] have e: "st + p = i + 1" by linarith
    then have "acc \<noteq> i" using inv(2) assms(3) by linarith
    with inv(1,4) have "used (i - acc - 1)" "i - acc - 1 - st < p" "st \<le> i - acc - 1"
      using e assms(3) inv(2) by auto
    with run show False
      unfolding free_run_def by (metis add_diff_inverse_nat not_less)
  qed
qed

lemma scan_inv_found:
  "scan_inv used p i acc \<Longrightarrow> \<not> used i \<Longrightarrow> acc + 1 = p \<Longrightarrow> i < n \<Longrightarrow> first_run_end used p n i"
  by (auto simp: scan_inv_def first_run_end_def free_run_def less_Suc_eq Suc_le_eq)

end
