(* ===== verification/Pmm.thy ===== *)
theory Pmm
  imports Terminal Run_Search
begin

text \<open>
  The physical page allocator of \<open>kernel/memory.c\<close>: the bitmap, \<open>pmm_alloc\<close> and \<open>pmm_free\<close>,
  and the contract the rest of the kernel relies on, stated as the locale \<open>page_allocator\<close> and
  interpreted on these functions.

  \<open>bitmap\<close> is the list of bytes reachable through the pointer \<open>bitmap\<close>; an access outside it is
  \<open>None\<close>. Indices are \<open>uint64_t\<close> as in the code, so that the subtraction \<open>i - (npages - 1)\<close>
  and the truncation of the returned address wrap as they do there.
\<close>

section \<open>State and operations\<close>

record pmm_state = term_state +
  bitmap :: "u8 list"
  bitmap_size :: u64

definition BITMAP_FREE :: u8 where "BITMAP_FREE = 0"

definition BIT_GET :: "u8 list \<Rightarrow> u64 \<Rightarrow> u8 option" where
  "BIT_GET arr i = do {
     b \<leftarrow> array_get arr (unat (i div 8));
     Some (drop_bit (unat (i mod 8)) b AND 1) }"

definition BIT_SET :: "u8 list \<Rightarrow> u64 \<Rightarrow> u8 list option" where
  "BIT_SET arr i = do {
     b \<leftarrow> array_get arr (unat (i div 8));
     array_set arr (unat (i div 8)) (b OR push_bit (unat (i mod 8)) 1) }"

definition BIT_CLEAR :: "u8 list \<Rightarrow> u64 \<Rightarrow> u8 list option" where
  "BIT_CLEAR arr i = do {
     b \<leftarrow> array_get arr (unat (i div 8));
     array_set arr (unat (i div 8)) (b AND NOT (push_bit (unat (i mod 8)) 1)) }"

text \<open>The search loop: the value of \<open>i\<close> at the \<open>break\<close>, or \<open>sz\<close> when it runs out.\<close>

function pmm_scan :: "u8 list \<Rightarrow> u64 \<Rightarrow> u32 \<Rightarrow> u64 \<Rightarrow> u32 \<Rightarrow> u64 option" where
  "pmm_scan arr sz npages i page_accumulator =
     (if i < sz then do {
        b \<leftarrow> BIT_GET arr i;
        if b \<noteq> BITMAP_FREE then pmm_scan arr sz npages (i + 1) 0
        else if page_accumulator + 1 = npages then Some i
        else pmm_scan arr sz npages (i + 1) (page_accumulator + 1) }
      else Some i)"
  by pat_completeness auto
termination
  by (relation "measure (\<lambda>(arr, sz, npages, i, acc). unat sz - unat i)")
    (auto simp: unat_Suc_u64, auto simp: word_less_nat_alt)

declare pmm_scan.simps [simp del]

text \<open>\<open>for (j = i - (npages - 1); j <= i; j++) BIT_SET(bitmap, j)\<close>.\<close>

partial_function (option) pmm_mark :: "u8 list \<Rightarrow> u64 \<Rightarrow> u64 \<Rightarrow> u8 list option" where
  "pmm_mark arr j i =
     (if j \<le> i then do { arr \<leftarrow> BIT_SET arr j; pmm_mark arr (j + 1) i } else Some arr)"

definition pmm_alloc :: "u32 \<Rightarrow> 'a pmm_state_scheme \<Rightarrow> (addr \<times> 'a pmm_state_scheme) option" where
  "pmm_alloc npages s = do {
     i \<leftarrow> pmm_scan (bitmap s) (bitmap_size s) npages 0 0;
     let first = i - ucast (npages - 1);
     arr \<leftarrow> pmm_mark (bitmap s) first i;
     Some (ucast (first * 4096), s\<lparr>bitmap := arr\<rparr>) }"

text \<open>\<open>for (i = 0; i < npages; i++) { BIT_CLEAR(bitmap, bitmap_idx); bitmap_idx++; }\<close>.\<close>

fun pmm_clear :: "nat \<Rightarrow> u8 list \<Rightarrow> u64 \<Rightarrow> u8 list option" where
  "pmm_clear 0 arr bitmap_idx = Some arr"
| "pmm_clear (Suc n) arr bitmap_idx = do {
     arr \<leftarrow> BIT_CLEAR arr bitmap_idx;
     pmm_clear n arr (bitmap_idx + 1) }"

definition pmm_free :: "addr \<Rightarrow> u32 \<Rightarrow> 'a pmm_state_scheme \<Rightarrow> 'a pmm_state_scheme option" where
  "pmm_free a npages s = do {
     arr \<leftarrow> pmm_clear (unat npages) (bitmap s) (ucast (a div PAGE_SIZE));
     Some (s\<lparr>bitmap := arr\<rparr>) }"

text \<open>\<open>set_used_bitmaps\<close>, used while the bitmap is populated at boot.\<close>

fun set_used_loop :: "nat \<Rightarrow> u8 list \<Rightarrow> u64 \<Rightarrow> u8 list option" where
  "set_used_loop 0 arr start_index = Some arr"
| "set_used_loop (Suc n) arr start_index = do {
     arr \<leftarrow> BIT_SET arr start_index;
     set_used_loop n arr (start_index + 1) }"

definition set_used_bitmaps :: "u64 \<Rightarrow> u64 \<Rightarrow> 'a pmm_state_scheme \<Rightarrow> 'a pmm_state_scheme option" where
  "set_used_bitmaps start_index total_used_pages s = do {
     arr \<leftarrow> set_used_loop (unat total_used_pages) (bitmap s) start_index;
     Some (s\<lparr>bitmap := arr\<rparr>) }"

section \<open>The bitmap as a set of pages\<close>

text \<open>The abstract view: page \<open>n\<close> is in use when its bit is set.\<close>

definition bit_used :: "u8 list \<Rightarrow> nat \<Rightarrow> bool" where
  "bit_used arr n \<longleftrightarrow> bit (arr ! (n div 8)) (n mod 8)"

definition pmm_inv :: "'a pmm_state_scheme \<Rightarrow> bool" where
  "pmm_inv s \<longleftrightarrow> unat (bitmap_size s) \<le> 8 * length (bitmap s) \<and> unat (bitmap_size s) \<le> 1048576"

definition page_used :: "'a pmm_state_scheme \<Rightarrow> nat \<Rightarrow> bool" where
  "page_used s n \<longleftrightarrow> bit_used (bitmap s) n"

lemma div_mod_8: "unat ((i :: u64) div 8) = unat i div 8" "unat (i mod 8) = unat i mod 8"
  by (simp_all add: unat_div unat_mod_distrib)

lemma BIT_GET_eq:
  assumes "unat i < 8 * length arr"
  shows "BIT_GET arr i = Some (of_bool (bit_used arr (unat i)))"
proof -
  have "unat i div 8 < length arr" using assms by (simp add: less_mult_imp_div_less mult.commute)
  then show ?thesis
    by (simp add: BIT_GET_def div_mod_8 bit_used_def and_one_eq bit_iff_odd_drop_bit
        flip: of_bool_odd_eq_mod_2 drop_bit_eq_div)
qed

lemma bit_used_update:
  assumes "k div 8 < length arr" and "\<And>b m. m < 8 \<Longrightarrow> bit (f b) m = (if m = k mod 8 then P else bit b m)"
  shows "bit_used (arr[k div 8 := f (arr ! (k div 8))]) n = (if n = k then P else bit_used arr n)"
proof (cases "n div 8 = k div 8")
  case True
  have "n mod 8 = k mod 8 \<longleftrightarrow> n = k"
    using True by (metis div_mod_decomp)
  with True assms show ?thesis by (simp add: bit_used_def)
next
  case False
  then show ?thesis by (auto simp: bit_used_def)
qed

lemma BIT_SET_eq:
  assumes "unat i < 8 * length arr"
  obtains arr' where "BIT_SET arr i = Some arr'" "length arr' = length arr"
    "\<And>n. bit_used arr' n = (if n = unat i then True else bit_used arr n)"
proof -
  have k: "unat i div 8 < length arr" using assms by (simp add: less_mult_imp_div_less mult.commute)
  let ?f = "\<lambda>b :: u8. b OR push_bit (unat i mod 8) 1"
  have "BIT_SET arr i = Some (arr[unat i div 8 := ?f (arr ! (unat i div 8))])"
    using k by (simp add: BIT_SET_def div_mod_8)
  then show thesis
    by (rule that) (simp, rule bit_used_update [OF k], auto simp: bit_simps)
qed

lemma BIT_CLEAR_eq:
  assumes "unat i < 8 * length arr"
  obtains arr' where "BIT_CLEAR arr i = Some arr'" "length arr' = length arr"
    "\<And>n. bit_used arr' n = (if n = unat i then False else bit_used arr n)"
proof -
  have k: "unat i div 8 < length arr" using assms by (simp add: less_mult_imp_div_less mult.commute)
  let ?f = "\<lambda>b :: u8. b AND NOT (push_bit (unat i mod 8) 1)"
  have "BIT_CLEAR arr i = Some (arr[unat i div 8 := ?f (arr ! (unat i div 8))])"
    using k by (simp add: BIT_CLEAR_def div_mod_8)
  then show thesis
    by (rule that) (simp, rule bit_used_update [OF k], auto simp: bit_simps)
qed

section \<open>The search loop\<close>

lemma pmm_scan_correct:
  assumes "unat sz \<le> 8 * length arr" and "scan_inv (bit_used arr) (unat npages) (unat i) (unat acc)"
    and "unat i \<le> unat sz"
  shows "\<exists>r. pmm_scan arr sz npages i acc = Some r \<and> first_run_end (bit_used arr) (unat npages) (unat sz) (unat r)"
  using assms
proof (induction arr sz npages i acc rule: pmm_scan.induct)
  case (1 arr sz npages i acc)
  show ?case
  proof (cases "i < sz")
    case False
    with "1.prems"(3) have "i = sz" by (simp add: word_less_nat_alt word_unat_eq_iff)
    with "1.prems"(2) show ?thesis
      by (simp add: pmm_scan.simps [of arr sz] first_run_end_def scan_inv_def)
  next
    case True
    then have i: "unat i < unat sz" "unat (i + 1) = unat i + 1"
      by (simp_all add: word_less_nat_alt unat_Suc_u64)
    have acc: "unat (acc + 1) = unat acc + 1"
      by (rule unat_Suc_u32 [of acc npages]) (use "1.prems"(2) in \<open>simp add: scan_inv_def word_less_nat_alt\<close>)
    have get: "BIT_GET arr i = Some (of_bool (bit_used arr (unat i)))"
      using i "1.prems"(1) by (intro BIT_GET_eq) simp
    show ?thesis
    proof (cases "bit_used arr (unat i)")
      case used: True
      have "\<exists>r. pmm_scan arr sz npages (i + 1) 0 = Some r \<and> first_run_end (bit_used arr) (unat npages) (unat sz) (unat r)"
        by (rule "1.IH"(1) [OF True get]) (use "1.prems" used i scan_inv_used in \<open>auto simp: BITMAP_FREE_def\<close>)
      with True get used show ?thesis by (simp add: pmm_scan.simps [of arr sz npages i] BITMAP_FREE_def)
    next
      case free: False
      show ?thesis
      proof (cases "acc + 1 = npages")
        case eq: True
        with acc have "unat acc + 1 = unat npages" by auto
        with scan_inv_found "1.prems"(2) free i True get eq show ?thesis
          by (simp add: pmm_scan.simps [of arr sz npages i] BITMAP_FREE_def)
      next
        case neq: False
        then have "unat acc + 1 \<noteq> unat npages" using acc by (metis word_unat_eq_iff)
        then have "scan_inv (bit_used arr) (unat npages) (unat (i + 1)) (unat (acc + 1))"
          using scan_inv_free [OF "1.prems"(2) free] i acc by simp
        then have "\<exists>r. pmm_scan arr sz npages (i + 1) (acc + 1) = Some r \<and>
            first_run_end (bit_used arr) (unat npages) (unat sz) (unat r)"
          by (intro "1.IH"(2) [OF True get]) (use "1.prems" free i neq in \<open>auto simp: BITMAP_FREE_def\<close>)
        with True get free neq show ?thesis
          by (simp add: pmm_scan.simps [of arr sz npages i] BITMAP_FREE_def)
      qed
    qed
  qed
qed

section \<open>The marking loops\<close>

lemma pmm_mark_correct:
  assumes "unat i < 8 * length arr" and "unat j \<le> unat i + 1"
    and "unat i + 1 < 18446744073709551616"
  shows "\<exists>arr'. pmm_mark arr j i = Some arr' \<and> length arr' = length arr \<and>
    (\<forall>n. bit_used arr' n \<longleftrightarrow> unat j \<le> n \<and> n \<le> unat i \<or> bit_used arr n)"
  using assms
proof (induction "unat i + 1 - unat j" arbitrary: arr j)
  case 0
  then have "\<not> j \<le> i" "\<not> (\<exists>n. unat j \<le> n \<and> n \<le> unat i)" by (auto simp: word_le_nat_alt)
  then show ?case by (auto simp: pmm_mark.simps)
next
  case (Suc d)
  then have le: "j \<le> i" by (simp add: word_le_nat_alt)
  obtain arr1 where a1: "BIT_SET arr j = Some arr1" "length arr1 = length arr"
    "\<And>n. bit_used arr1 n = (if n = unat j then True else bit_used arr n)"
    using BIT_SET_eq [of j arr] le Suc.prems(1) by (auto simp: word_le_nat_alt)
  have u: "unat (j + 1) = unat j + 1"
    using le Suc.prems(3) by (simp add: unat_add_u64 word_le_nat_alt)
  have "\<exists>arr'. pmm_mark arr1 (j + 1) i = Some arr' \<and> length arr' = length arr1 \<and>
      (\<forall>n. bit_used arr' n \<longleftrightarrow> unat (j + 1) \<le> n \<and> n \<le> unat i \<or> bit_used arr1 n)"
    by (rule Suc.hyps(1)) (use Suc u le a1 in \<open>auto simp: word_le_nat_alt\<close>)
  then obtain arr' where "pmm_mark arr1 (j + 1) i = Some arr'" "length arr' = length arr1"
    "\<forall>n. bit_used arr' n \<longleftrightarrow> unat j + 1 \<le> n \<and> n \<le> unat i \<or> bit_used arr1 n"
    using u by auto
  with le a1 show ?case
    by (intro exI [of _ arr']) (auto simp: pmm_mark.simps [of arr j] word_le_nat_alt Suc_le_eq)
qed

lemma pmm_clear_correct:
  assumes "unat b + k \<le> 8 * length arr" and "unat b + k < 18446744073709551616"
  shows "\<exists>arr'. pmm_clear k arr b = Some arr' \<and> length arr' = length arr \<and>
    (\<forall>n. bit_used arr' n \<longleftrightarrow> bit_used arr n \<and> \<not> (unat b \<le> n \<and> n < unat b + k))"
  using assms
proof (induction k arbitrary: arr b)
  case (Suc k)
  obtain arr1 where a1: "BIT_CLEAR arr b = Some arr1" "length arr1 = length arr"
    "\<And>n. bit_used arr1 n = (if n = unat b then False else bit_used arr n)"
    using BIT_CLEAR_eq [of b arr] Suc.prems by auto
  have u: "unat (b + 1) = unat b + 1" using Suc.prems(2) by (simp add: unat_add_u64)
  from Suc.IH [of "b + 1" arr1] u a1(2) Suc.prems obtain arr' where
    "pmm_clear k arr1 (b + 1) = Some arr'" "length arr' = length arr1"
    "\<forall>n. bit_used arr' n \<longleftrightarrow> bit_used arr1 n \<and> \<not> (unat b + 1 \<le> n \<and> n < unat b + 1 + k)"
    by auto
  with a1 show ?case by (intro exI [of _ arr']) auto
qed auto

lemma set_used_loop_correct:
  assumes "unat b + k \<le> 8 * length arr" and "unat b + k < 18446744073709551616"
  shows "\<exists>arr'. set_used_loop k arr b = Some arr' \<and> length arr' = length arr \<and>
    (\<forall>n. bit_used arr' n \<longleftrightarrow> bit_used arr n \<or> (unat b \<le> n \<and> n < unat b + k))"
  using assms
proof (induction k arbitrary: arr b)
  case (Suc k)
  obtain arr1 where a1: "BIT_SET arr b = Some arr1" "length arr1 = length arr"
    "\<And>n. bit_used arr1 n = (if n = unat b then True else bit_used arr n)"
    using BIT_SET_eq [of b arr] Suc.prems by auto
  have u: "unat (b + 1) = unat b + 1" using Suc.prems(2) by (simp add: unat_add_u64)
  from Suc.IH [of "b + 1" arr1] u a1(2) Suc.prems obtain arr' where
    "set_used_loop k arr1 (b + 1) = Some arr'" "length arr' = length arr1"
    "\<forall>n. bit_used arr' n \<longleftrightarrow> bit_used arr1 n \<or> (unat b + 1 \<le> n \<and> n < unat b + 1 + k)"
    by auto
  with a1 show ?case by (intro exI [of _ arr']) auto
qed auto

text \<open>A bitmap is determined by its length and its bits.\<close>

lemma bitmap_eqI:
  assumes "length a = length b" and "\<And>n. bit_used a n = bit_used b n"
  shows "a = b"
proof (rule nth_equalityI [OF assms(1)])
  fix k
  have "bit (a ! k) m = bit (b ! k) m" if "m < 8" for m
    using assms(2) [of "8 * k + m"] that by (simp add: bit_used_def)
  then show "a ! k = b ! k" by (intro bit_word_eqI) simp
qed

section \<open>Allocation\<close>

definition page_count :: "'a pmm_state_scheme \<Rightarrow> nat" where
  "page_count s = unat (bitmap_size s)"

definition has_run :: "'a pmm_state_scheme \<Rightarrow> nat \<Rightarrow> bool" where
  "has_run s p \<longleftrightarrow> (\<exists>st. free_run (bit_used (bitmap s)) st p \<and> st + p \<le> page_count s)"

lemma pmm_scan_alloc:
  assumes "pmm_inv s" and "0 < npages"
  obtains r where "pmm_scan (bitmap s) (bitmap_size s) npages 0 0 = Some r"
    "first_run_end (bit_used (bitmap s)) (unat npages) (page_count s) (unat r)"
proof -
  have "0 < unat npages" using assms(2) by (simp add: word_less_nat_alt)
  then have "scan_inv (bit_used (bitmap s)) (unat npages) (unat (0 :: u64)) (unat (0 :: u32))"
    by (simp add: scan_inv_start)
  with assms(1) that show thesis
    using pmm_scan_correct [of "bitmap_size s" "bitmap s" npages 0 0]
    by (auto simp: pmm_inv_def page_count_def)
qed

lemma ucast_page_address_le:
  assumes "unat (i :: u64) = n" and "n \<le> 1048576"
  shows "(ucast (i * 4096) :: u32) = of_nat (n * 4096)"
proof -
  have m: "unat (i * 4096) = n * 4096"
    using assms unat_mult_lem [of i 4096] by simp
  have "unat (ucast (i * 4096) :: u32) = take_bit 32 (unat (i * 4096))"
    by (simp add: unsigned_ucast_eq)
  also have "\<dots> = n * 4096 mod 4294967296"
    using m by (simp add: take_bit_eq_mod)
  finally show ?thesis
    by (simp only: word_eq_iff_unat_u32) (simp add: unat_of_nat del: of_nat_mult)
qed

definition page_addr :: "nat \<Rightarrow> addr" where
  "page_addr n = of_nat (n * 4096)"

lemma unat_page_addr: "n < 1048576 \<Longrightarrow> unat (page_addr n) = n * 4096"
  unfolding page_addr_def by (rule unat_of_nat_u32) simp

lemma page_aligned_page_addr: "n < 1048576 \<Longrightarrow> page_aligned (page_addr n)"
  by (simp add: page_aligned_dvd unat_page_addr)

lemma page_addr_of_frame: "page_aligned f \<Longrightarrow> page_addr (unat f div 4096) = f"
proof -
  assume f: "page_aligned f"
  have n: "unat f div 4096 < 1048576" using unat_u32_less [of f] by linarith
  have "unat (page_addr (unat f div 4096)) = unat f"
    using f unat_page_addr [OF n] by (simp add: page_aligned_iff dvd_div_mult_self mod_eq_0_iff_dvd)
  then show ?thesis by (metis word_unat_eq_iff)
qed

lemma page_addr_inject:
  "m < 1048576 \<Longrightarrow> n < 1048576 \<Longrightarrow> page_addr m = page_addr n \<longleftrightarrow> m = n"
  by (metis unat_page_addr mult_cancel2 zero_neq_numeral)

lemma pmm_alloc_run:
  assumes "pmm_inv s" and "0 < npages" and "has_run s (unat npages)"
  obtains st arr where "pmm_alloc npages s = Some (page_addr st, s\<lparr>bitmap := arr\<rparr>)"
    "st + unat npages \<le> page_count s" "free_run (bit_used (bitmap s)) st (unat npages)"
    "\<forall>st'. free_run (bit_used (bitmap s)) st' (unat npages) \<longrightarrow> st \<le> st'"
    "length arr = length (bitmap s)"
    "\<forall>n. bit_used arr n \<longleftrightarrow> bit_used (bitmap s) n \<or> st \<le> n \<and> n < st + unat npages"
proof -
  let ?p = "unat npages"
  obtain r where r: "pmm_scan (bitmap s) (bitmap_size s) npages 0 0 = Some r"
    "first_run_end (bit_used (bitmap s)) ?p (page_count s) (unat r)"
    using pmm_scan_alloc [OF assms(1,2)] .
  have rn: "unat r < page_count s"
    using r(2) assms(3) by (auto simp: first_run_end_def has_run_def not_le [symmetric] split: if_splits)
  then have run: "?p \<le> unat r + 1" "free_run (bit_used (bitmap s)) (unat r + 1 - ?p) ?p"
    "\<And>st. free_run (bit_used (bitmap s)) st ?p \<Longrightarrow> unat r + 1 \<le> st + ?p"
    using r(2) by (auto simp: first_run_end_def)
  have p: "0 < ?p" using assms(2) by (simp add: word_less_nat_alt)
  let ?first = "r - ucast (npages - 1)"
  have "unat (npages - 1) = ?p - 1" using p by (simp add: unat_minus_one word_neq_0_conv assms(2))
  then have c: "unat (ucast (npages - 1) :: u64) = ?p - 1" by (simp add: unat_ucast_u32_u64)
  then have first: "unat ?first = unat r + 1 - ?p"
    using run(1) p by (subst unat_sub) (auto simp: word_le_nat_alt)
  have lim: "page_count s \<le> 8 * length (bitmap s)" "page_count s \<le> 1048576"
    using assms(1) by (simp_all add: pmm_inv_def page_count_def)
  obtain arr where arr: "pmm_mark (bitmap s) ?first r = Some arr" "length arr = length (bitmap s)"
    "\<And>n. bit_used arr n \<longleftrightarrow> unat r + 1 - ?p \<le> n \<and> n \<le> unat r \<or> bit_used (bitmap s) n"
    using pmm_mark_correct [of r "bitmap s" ?first] rn lim first by auto
  have "pmm_alloc npages s = Some (page_addr (unat r + 1 - ?p), s\<lparr>bitmap := arr\<rparr>)"
    using r(1) arr(1) ucast_page_address_le [OF first] rn lim p
    by (simp add: pmm_alloc_def page_addr_def Let_def)
  then show thesis
  proof (rule that)
    show "unat r + 1 - ?p + ?p \<le> page_count s" using run(1) rn by simp
    show "\<forall>st'. free_run (bit_used (bitmap s)) st' ?p \<longrightarrow> unat r + 1 - ?p \<le> st'"
      using run(3) by fastforce
    show "\<forall>n. bit_used arr n \<longleftrightarrow>
        bit_used (bitmap s) n \<or> unat r + 1 - ?p \<le> n \<and> n < unat r + 1 - ?p + ?p"
      using run(1) p by (auto simp: arr(3))
  qed (use run(2) arr(2) in simp_all)
qed

text \<open>
  C3: \<open>pmm_alloc\<close> is a first-fit allocator: whenever some run of \<open>npages\<close> free pages exists it
  returns the address of the lowest one, marks exactly its pages as used and changes nothing else.
\<close>

theorem pmm_alloc_first_fit:
  assumes "pmm_inv s" and "0 < npages" and "has_run s (unat npages)"
  shows "\<exists>st arr. pmm_alloc npages s = Some (of_nat (st * 4096), s\<lparr>bitmap := arr\<rparr>) \<and>
    st + unat npages \<le> page_count s \<and> free_run (bit_used (bitmap s)) st (unat npages) \<and>
    (\<forall>st'. free_run (bit_used (bitmap s)) st' (unat npages) \<longrightarrow> st \<le> st') \<and>
    length arr = length (bitmap s) \<and>
    (\<forall>n. bit_used arr n \<longleftrightarrow> bit_used (bitmap s) n \<or> st \<le> n \<and> n < st + unat npages)"
proof -
  obtain st arr where "pmm_alloc npages s = Some (page_addr st, s\<lparr>bitmap := arr\<rparr>)"
    "st + unat npages \<le> page_count s" "free_run (bit_used (bitmap s)) st (unat npages)"
    "\<forall>st'. free_run (bit_used (bitmap s)) st' (unat npages) \<longrightarrow> st \<le> st'"
    "length arr = length (bitmap s)"
    "\<forall>n. bit_used arr n \<longleftrightarrow> bit_used (bitmap s) n \<or> st \<le> n \<and> n < st + unat npages"
    using pmm_alloc_run [OF assms] by blast
  then show ?thesis
    by (intro exI [of _ st] exI [of _ arr]) (simp add: page_addr_def)
qed

text \<open>One page at a time, the only way the rest of the kernel allocates.\<close>

definition used_pages :: "'a pmm_state_scheme \<Rightarrow> nat set" where
  "used_pages s = {n. n < page_count s \<and> page_used s n}"

definition free_pages :: "'a pmm_state_scheme \<Rightarrow> nat set" where
  "free_pages s = {n. n < page_count s \<and> \<not> page_used s n}"

lemma pmm_inv_bitmap:
  "pmm_inv s \<Longrightarrow> length arr = length (bitmap s) \<Longrightarrow> pmm_inv (s\<lparr>bitmap := arr\<rparr>)"
  by (simp add: pmm_inv_def)

lemma page_count_bitmap [simp]: "page_count (s\<lparr>bitmap := arr\<rparr>) = page_count s"
  by (simp add: page_count_def)

lemma page_count_bound: "pmm_inv s \<Longrightarrow> n < page_count s \<Longrightarrow> n < 1048576"
  by (simp add: pmm_inv_def page_count_def)

lemma finite_pages [simp]: "finite (used_pages s)" "finite (free_pages s)"
  by (simp_all add: used_pages_def free_pages_def)

text \<open>The allocator sees only the two bitmap fields.\<close>

lemma pmm_cong:
  fixes s t :: "'a pmm_state_scheme"
  assumes "bitmap s = bitmap t" and "bitmap_size s = bitmap_size t"
  shows "pmm_inv s = pmm_inv t" "free_pages s = free_pages t" "used_pages s = used_pages t"
    "page_count s = page_count t"
  using assms by (simp_all add: pmm_inv_def free_pages_def used_pages_def page_used_def page_count_def)

lemma pmm_alloc_one:
  assumes "pmm_inv s" and "free_pages s \<noteq> {}"
  obtains n arr where "pmm_alloc 1 s = Some (page_addr n, s\<lparr>bitmap := arr\<rparr>)"
    "n = Min (free_pages s)" "n \<in> free_pages s"
    "pmm_inv (s\<lparr>bitmap := arr\<rparr>)" "free_pages (s\<lparr>bitmap := arr\<rparr>) = free_pages s - {n}"
    "used_pages (s\<lparr>bitmap := arr\<rparr>) = insert n (used_pages s)"
proof -
  have "has_run s 1"
    using assms(2) by (auto simp: has_run_def free_run_def free_pages_def page_used_def)
  then obtain n arr where
    a: "pmm_alloc 1 s = Some (page_addr n, s\<lparr>bitmap := arr\<rparr>)" "n + 1 \<le> page_count s"
      "free_run (bit_used (bitmap s)) n 1" "\<forall>st. free_run (bit_used (bitmap s)) st 1 \<longrightarrow> n \<le> st"
      "length arr = length (bitmap s)"
      "\<forall>k. bit_used arr k \<longleftrightarrow> bit_used (bitmap s) k \<or> n \<le> k \<and> k < n + 1"
    using pmm_alloc_run [where npages = 1, OF assms(1), unfolded unat_1] by auto
  have n: "n \<in> free_pages s"
    using a(2,3) by (simp add: free_pages_def free_run_def page_used_def)
  moreover have "n = Min (free_pages s)"
    by (rule Min_eqI [symmetric])
      (use n a(4) in \<open>auto simp: free_pages_def page_used_def free_run_def\<close>)
  moreover have "free_pages (s\<lparr>bitmap := arr\<rparr>) = free_pages s - {n}"
    using a(6) by (auto simp: free_pages_def page_used_def)
  moreover have "used_pages (s\<lparr>bitmap := arr\<rparr>) = insert n (used_pages s)"
    using a(2,6) by (auto simp: used_pages_def page_used_def)
  ultimately show thesis
    using that a(1) pmm_inv_bitmap [OF assms(1) a(5)] by blast
qed

section \<open>Release\<close>

lemma unat_page_index: "n < 1048576 \<Longrightarrow> unat (ucast (page_addr n div PAGE_SIZE) :: u64) = n"
  by (simp add: unat_ucast_u32_u64 PAGE_SIZE_def unat_div unat_page_addr)

lemma pmm_free_run:
  assumes "pmm_inv s" and "st + unat npages \<le> page_count s" and "unat npages > 0"
  shows "\<exists>arr. pmm_free (page_addr st) npages s = Some (s\<lparr>bitmap := arr\<rparr>) \<and>
    length arr = length (bitmap s) \<and>
    (\<forall>n. bit_used arr n \<longleftrightarrow> bit_used (bitmap s) n \<and> \<not> (st \<le> n \<and> n < st + unat npages))"
proof -
  have st: "st < 1048576" using assms page_count_bound [OF assms(1), of st] by simp
  let ?b = "ucast (page_addr st div PAGE_SIZE) :: u64"
  have b: "unat ?b = st" by (rule unat_page_index [OF st])
  have "unat ?b + unat npages \<le> 8 * length (bitmap s)"
    "unat ?b + unat npages < 18446744073709551616"
    using assms(1,2) b by (auto simp: pmm_inv_def page_count_def)
  from pmm_clear_correct [OF this] b show ?thesis
    by (auto simp: pmm_free_def)
qed

lemma pmm_free_one:
  assumes "pmm_inv s" and "n < page_count s"
  obtains arr where "pmm_free (page_addr n) 1 s = Some (s\<lparr>bitmap := arr\<rparr>)"
    "pmm_inv (s\<lparr>bitmap := arr\<rparr>)" "free_pages (s\<lparr>bitmap := arr\<rparr>) = insert n (free_pages s)"
    "used_pages (s\<lparr>bitmap := arr\<rparr>) = used_pages s - {n}"
proof -
  from pmm_free_run [OF assms(1), of n 1] assms(2) obtain arr where
    a: "pmm_free (page_addr n) 1 s = Some (s\<lparr>bitmap := arr\<rparr>)" "length arr = length (bitmap s)"
      "\<And>k. bit_used arr k \<longleftrightarrow> bit_used (bitmap s) k \<and> \<not> (n \<le> k \<and> k < n + 1)"
    by auto
  have u: "page_used (s\<lparr>bitmap := arr\<rparr>) k \<longleftrightarrow> page_used s k \<and> k \<noteq> n" for k
    by (simp add: page_used_def a(3)) linarith
  have "free_pages (s\<lparr>bitmap := arr\<rparr>) = insert n (free_pages s)"
    "used_pages (s\<lparr>bitmap := arr\<rparr>) = used_pages s - {n}"
    using assms(2) by (auto simp: free_pages_def used_pages_def u)
  with that a(1) pmm_inv_bitmap [OF assms(1) a(2)] show thesis by blast
qed

text \<open>
  Freeing what was allocated gives the allocator's state back, bit for bit.
\<close>

theorem pmm_free_undoes_alloc:
  assumes "pmm_inv s" and "0 < npages" and "has_run s (unat npages)"
  shows "\<exists>a s'. pmm_alloc npages s = Some (a, s') \<and> pmm_free a npages s' = Some s"
proof -
  obtain st arr where
    a: "pmm_alloc npages s = Some (page_addr st, s\<lparr>bitmap := arr\<rparr>)"
      "st + unat npages \<le> page_count s" "free_run (bit_used (bitmap s)) st (unat npages)"
      "\<forall>st'. free_run (bit_used (bitmap s)) st' (unat npages) \<longrightarrow> st \<le> st'"
      "length arr = length (bitmap s)"
      "\<forall>n. bit_used arr n \<longleftrightarrow> bit_used (bitmap s) n \<or> st \<le> n \<and> n < st + unat npages"
    by (rule pmm_alloc_run [OF assms])
  have "pmm_inv (s\<lparr>bitmap := arr\<rparr>)" using pmm_inv_bitmap [OF assms(1) a(5)] .
  from pmm_free_run [OF this, of st npages] a(2) assms(2) obtain arr' where
    b: "pmm_free (page_addr st) npages (s\<lparr>bitmap := arr\<rparr>) = Some (s\<lparr>bitmap := arr'\<rparr>)"
      "length arr' = length arr"
      "\<And>n. bit_used arr' n \<longleftrightarrow> bit_used arr n \<and> \<not> (st \<le> n \<and> n < st + unat npages)"
    by (auto simp: word_less_nat_alt)
  have "arr' = bitmap s"
  proof (rule bitmap_eqI)
    show "length arr' = length (bitmap s)" using a(5) b(2) by simp
    fix n
    have "\<not> bit_used (bitmap s) n" if "st \<le> n" "n < st + unat npages"
      using a(3) that unfolding free_run_def by (metis le_add_diff_inverse nat_add_left_cancel_less)
    then show "bit_used arr' n = bit_used (bitmap s) n" using a(6) b(3) by auto
  qed
  with b(1) have "pmm_free (page_addr st) npages (s\<lparr>bitmap := arr\<rparr>) = Some s" by simp
  with a(1) show ?thesis by blast
qed

section \<open>Exhaustion\<close>

lemma no_run_exhausted: "free_pages s = {} \<Longrightarrow> \<not> has_run s 1"
  by (auto simp: has_run_def free_run_def free_pages_def page_used_def)

text \<open>
  C17: With every page in use \<open>pmm_alloc\<close> does not report a failure: it returns the address just past
  the managed memory and sets the bit of that page, or writes past the bitmap when there is no
  such bit.
\<close>

theorem pmm_alloc_exhausted:
  assumes "pmm_inv s" and "free_pages s = {}"
  shows "(if page_count s < 8 * length (bitmap s)
     then \<exists>arr. pmm_alloc 1 s = Some (of_nat (page_count s * 4096), s\<lparr>bitmap := arr\<rparr>)
     else pmm_alloc 1 s = None)"
proof -
  obtain r where r: "pmm_scan (bitmap s) (bitmap_size s) 1 0 0 = Some r"
    "first_run_end (bit_used (bitmap s)) (unat (1 :: u32)) (page_count s) (unat r)"
    using pmm_scan_alloc [OF assms(1), of 1] by auto
  have "\<not> unat r < page_count s"
    using r(2) no_run_exhausted [OF assms(2)] by (auto simp: first_run_end_def has_run_def)
  with r(2) have rs: "r = bitmap_size s" "unat r = page_count s"
    by (auto simp: first_run_end_def page_count_def word_unat_eq_iff)
  have lim: "page_count s \<le> 1048576" using assms(1) by (simp add: pmm_inv_def page_count_def)
  show ?thesis
  proof (cases "page_count s < 8 * length (bitmap s)")
    case True
    then obtain arr where "pmm_mark (bitmap s) r r = Some arr"
      using pmm_mark_correct [of r "bitmap s" r] rs(2) lim by auto
    then have "pmm_alloc 1 s = Some (of_nat (page_count s * 4096), s\<lparr>bitmap := arr\<rparr>)"
      using r(1) ucast_page_address_le [OF rs(2) lim] by (simp add: pmm_alloc_def)
    with True show ?thesis by auto
  next
    case False
    then have "length (bitmap s) \<le> unat r div 8" using rs(2) by simp
    then have "BIT_SET (bitmap s) r = None" by (simp add: BIT_SET_def div_mod_8 array_get_def)
    then have "pmm_mark (bitmap s) r r = None" by (simp add: pmm_mark.simps)
    with False r(1) show ?thesis by (simp add: pmm_alloc_def)
  qed
qed

section \<open>The contract\<close>

text \<open>
  What the memory manager, the loader and the system calls rely on: an allocation takes one
  page out of the available ones, a release puts it back, and nothing else changes hands.
\<close>

locale page_allocator =
  fixes alloc :: "'s \<Rightarrow> (addr \<times> 's) option"
    and release :: "addr \<Rightarrow> 's \<Rightarrow> 's option"
    and invar :: "'s \<Rightarrow> bool"
    and avail :: "'s \<Rightarrow> nat set"
    and capacity :: "'s \<Rightarrow> nat"
  assumes alloc_ok: "invar s \<Longrightarrow> avail s \<noteq> {} \<Longrightarrow>
      \<exists>n s'. alloc s = Some (page_addr n, s') \<and> n \<in> avail s \<and> avail s' = avail s - {n} \<and>
        invar s' \<and> capacity s' = capacity s"
    and release_ok: "invar s \<Longrightarrow> n < capacity s \<Longrightarrow>
      \<exists>s'. release (page_addr n) s = Some s' \<and> avail s' = insert n (avail s) \<and>
        invar s' \<and> capacity s' = capacity s"
    and avail_managed: "invar s \<Longrightarrow> n \<in> avail s \<Longrightarrow> n < capacity s"
begin

lemma finite_avail: "invar s \<Longrightarrow> finite (avail s)"
  by (rule finite_subset [of _ "{..<capacity s}"]) (auto dest: avail_managed)

end

text \<open>A client that takes pages one after the other, and one that gives a list of pages back.\<close>

fun alloc_pages :: "('s \<Rightarrow> (addr \<times> 's) option) \<Rightarrow> nat \<Rightarrow> 's \<Rightarrow> (addr list \<times> 's) option" where
  "alloc_pages alloc 0 s = Some ([], s)"
| "alloc_pages alloc (Suc k) s = do {
     (a, s) \<leftarrow> alloc s;
     (as, s) \<leftarrow> alloc_pages alloc k s;
     Some (a # as, s) }"

fun release_pages :: "(addr \<Rightarrow> 's \<Rightarrow> 's option) \<Rightarrow> addr list \<Rightarrow> 's \<Rightarrow> 's option" where
  "release_pages release [] s = Some s"
| "release_pages release (a # as) s = do { s \<leftarrow> release a s; release_pages release as s }"

context page_allocator
begin

lemma alloc_pages_distinct:
  "invar s \<Longrightarrow> k \<le> card (avail s) \<Longrightarrow>
   \<exists>ns s'. alloc_pages alloc k s = Some (map page_addr ns, s') \<and> length ns = k \<and> distinct ns \<and>
     set ns \<subseteq> avail s \<and> avail s' = avail s - set ns \<and> invar s' \<and> capacity s' = capacity s"
proof (induction k arbitrary: s)
  case (Suc k)
  then have "avail s \<noteq> {}" by auto
  from alloc_ok [OF Suc.prems(1) this] obtain n t where
    n: "alloc s = Some (page_addr n, t)" "n \<in> avail s" "avail t = avail s - {n}" "invar t"
      "capacity t = capacity s" by blast
  have "k \<le> card (avail t)"
    using Suc.prems n(2,3) finite_avail [OF Suc.prems(1)] by simp
  from Suc.IH [OF n(4) this] obtain ns s' where
    "alloc_pages alloc k t = Some (map page_addr ns, s')" "length ns = k" "distinct ns"
    "set ns \<subseteq> avail t" "avail s' = avail t - set ns" "invar s'" "capacity s' = capacity t" by blast
  with n show ?case by (intro exI [of _ "n # ns"] exI [of _ s']) auto
qed simp

lemma release_pages_restores:
  "invar s \<Longrightarrow> set ns \<subseteq> {..<capacity s} \<Longrightarrow>
   \<exists>s'. release_pages release (map page_addr ns) s = Some s' \<and> avail s' = avail s \<union> set ns \<and>
     invar s' \<and> capacity s' = capacity s"
proof (induction ns arbitrary: s)
  case (Cons n ns)
  then obtain t where t: "release (page_addr n) s = Some t" "avail t = insert n (avail s)" "invar t"
    "capacity t = capacity s" using release_ok [of s n] by auto
  with Cons.IH [of t] Cons.prems(2) show ?case by fastforce
qed simp

lemma alloc_release_balance:
  assumes "invar s" and "k \<le> card (avail s)"
  shows "\<exists>as s' s''. alloc_pages alloc k s = Some (as, s') \<and> length as = k \<and>
    card (avail s') = card (avail s) - k \<and>
    release_pages release as s' = Some s'' \<and> avail s'' = avail s"
proof -
  from alloc_pages_distinct [OF assms] obtain ns s' where
    a: "alloc_pages alloc k s = Some (map page_addr ns, s')" "length ns = k" "distinct ns"
      "set ns \<subseteq> avail s" "avail s' = avail s - set ns" "invar s'" "capacity s' = capacity s" by blast
  then have "set ns \<subseteq> {..<capacity s'}" using avail_managed [OF assms(1)] by auto
  from release_pages_restores [OF a(6) this] obtain s'' where
    "release_pages release (map page_addr ns) s' = Some s''" "avail s'' = avail s' \<union> set ns" by blast
  moreover have "card (avail s') = card (avail s) - k"
    using a finite_avail [OF assms(1)] by (simp add: card_Diff_subset distinct_card)
  ultimately show ?thesis using a by (auto simp: Un_absorb2)
qed

end

interpretation pmm: page_allocator "pmm_alloc 1" "\<lambda>a. pmm_free a 1" pmm_inv free_pages page_count
proof
  fix s :: "'a pmm_state_scheme" and n
  assume inv: "pmm_inv s"
  show "free_pages s \<noteq> {} \<Longrightarrow> \<exists>n s'. pmm_alloc 1 s = Some (page_addr n, s') \<and> n \<in> free_pages s \<and>
      free_pages s' = free_pages s - {n} \<and> pmm_inv s' \<and> page_count s' = page_count s"
    using pmm_alloc_one [OF inv] by (metis page_count_bitmap)
  show "n < page_count s \<Longrightarrow> \<exists>s'. pmm_free (page_addr n) 1 s = Some s' \<and>
      free_pages s' = insert n (free_pages s) \<and> pmm_inv s' \<and> page_count s' = page_count s"
    using pmm_free_one [OF inv] by (metis page_count_bitmap)
  show "n \<in> free_pages s \<Longrightarrow> n < page_count s"
    by (simp add: free_pages_def)
qed

text \<open>
  C16: Successive single-page allocations never hand out a page twice while enough pages are free:
  \<open>k\<close> allocations return \<open>k\<close> pages, leave \<open>k\<close> fewer available, and releasing them makes the same
  pages available again.
\<close>

theorem pmm_pages_balance:
  assumes "pmm_inv s" and "k \<le> card (free_pages s)"
  shows "\<exists>ns s' s''. alloc_pages (pmm_alloc 1) k s = Some (map page_addr ns, s') \<and>
    length ns = k \<and> distinct ns \<and> set ns \<subseteq> free_pages s \<and> free_pages s' = free_pages s - set ns \<and>
    release_pages (\<lambda>a. pmm_free a 1) (map page_addr ns) s' = Some s'' \<and>
    free_pages s'' = free_pages s"
proof -
  obtain ns s' where a: "alloc_pages (pmm_alloc 1) k s = Some (map page_addr ns, s')" "length ns = k"
      "distinct ns" "set ns \<subseteq> free_pages s" "free_pages s' = free_pages s - set ns" "pmm_inv s'"
      "page_count s' = page_count s"
    using pmm.alloc_pages_distinct [OF assms] by blast
  then have "set ns \<subseteq> {..<page_count s'}" by (auto simp: free_pages_def)
  from pmm.release_pages_restores [OF a(6) this] a show ?thesis
    by (metis Un_Diff_cancel Un_absorb2 Un_commute)
qed

section \<open>Witnesses\<close>

text \<open>A machine with sixteen pages, the first three in use, and one with eight pages, all in use.\<close>

definition small_pmm :: "u8 list \<Rightarrow> u64 \<Rightarrow> pmm_state" where
  "small_pmm arr n = \<lparr>io_trace = [], phys = (\<lambda>_. 0), cr3 = 0, framebuffer_width = 0, framebuffer_height = 0,
     framebuffer_pitch = 0, fb_mem = (\<lambda>_. 0), font_blob = (\<lambda>_. 0), psf2_data = None,
     terminal_row = 0, terminal_column = 0, terminal_color = 0, terminal_buffer = (\<lambda>_. 0),
     bitmap = arr, bitmap_size = n\<rparr>"

lemma small_pmm_16:
  "pmm_inv (small_pmm [7, 0] 16)" "page_count (small_pmm [7, 0] 16) = 16"
  by (simp_all add: small_pmm_def pmm_inv_def page_count_def)

lemma small_pmm_run: "has_run (small_pmm [7, 0] 16) 2"
  unfolding has_run_def
  by (rule exI [of _ 3]) (auto simp: small_pmm_def page_count_def free_run_def bit_used_def less_2_cases_iff)

theorem pmm_alloc_first_fit_witness:
  "\<exists>st arr. pmm_alloc 2 (small_pmm [7, 0] 16) =
     Some (of_nat (st * 4096), (small_pmm [7, 0] 16)\<lparr>bitmap := arr\<rparr>) \<and> st + 2 \<le> 16"
  using pmm_alloc_first_fit [OF small_pmm_16(1), of 2] small_pmm_run by (auto simp: small_pmm_16(2))

theorem pmm_free_undoes_alloc_witness:
  "\<exists>a s'. pmm_alloc 2 (small_pmm [7, 0] 16) = Some (a, s') \<and> pmm_free a 2 s' = Some (small_pmm [7, 0] 16)"
  by (rule pmm_free_undoes_alloc [OF small_pmm_16(1)]) (simp_all add: small_pmm_run)

lemma small_pmm_full: "pmm_inv (small_pmm [255] 8)" "free_pages (small_pmm [255] 8) = {}"
proof -
  have "bit (255 :: u8) n" if "n < 8" for n
  proof -
    have "n \<in> {0, 1, 2, 3, 4, 5, 6, 7}" using that by auto
    then show ?thesis by (elim insertE emptyE) simp_all
  qed
  then show "free_pages (small_pmm [255] 8) = {}"
    by (auto simp: small_pmm_def free_pages_def page_count_def page_used_def bit_used_def)
qed (simp add: small_pmm_def pmm_inv_def)

theorem pmm_alloc_exhausted_witness:
  "pmm_alloc 1 (small_pmm [255] 8) = None"
  using pmm_alloc_exhausted [OF small_pmm_full]
  by (simp add: small_pmm_def page_count_def)

lemma small_pmm_card: "2 \<le> card (free_pages (small_pmm [7, 0] 16))"
proof -
  have "{3, 4} \<subseteq> free_pages (small_pmm [7, 0] 16)"
    by (auto simp: small_pmm_def free_pages_def page_count_def page_used_def bit_used_def)
  from card_mono [OF _ this] show ?thesis by simp
qed

theorem pmm_pages_balance_witness:
  "\<exists>ns s' s''. alloc_pages (pmm_alloc 1) 2 (small_pmm [7, 0] 16) = Some (map page_addr ns, s') \<and>
     length ns = 2 \<and> distinct ns \<and> release_pages (\<lambda>a. pmm_free a 1) (map page_addr ns) s' = Some s''"
  using pmm_pages_balance [OF small_pmm_16(1) small_pmm_card] by blast

end
