(* ===== verification/Paging.thy ===== *)
theory Paging
  imports Pmm
begin

text \<open>
  Two-level i386 paging and the temporary mapping window of \<open>kernel/memory.c\<close>.

  Physical memory is a byte memory. Every access the C code makes to a virtual address goes
  through \<open>translate\<close>, the page walk the processor performs from \<open>cr3\<close>; a missing or read-only
  mapping is a page fault in kernel mode, \<open>None\<close>. \<open>map_tmp_page\<close> and \<open>unmap_tmp_page\<close> edit the
  page table entry of one fixed kernel address; the section on the window shows that between
  the two calls the 1024 words at that address are the words of the chosen frame, and that
  closing the window leaves no trace. The walk reads the tables in memory at each access, so the
  \<open>invlpg\<close> instructions change nothing but the log of invalidated addresses.
\<close>

section \<open>State\<close>

record mem_state = pmm_state +
  kernel_page_directory :: addr
  tmp_map_addr :: addr
  kheap_pages :: "nat \<Rightarrow> u8"
  invlpg_log :: "addr list"

definition KERNEL_BASE :: addr where "KERNEL_BASE = 0xC0000000"
definition PAGE_PRESENT :: u32 where "PAGE_PRESENT = 1"
definition PAGE_WRITABLE :: u32 where "PAGE_WRITABLE = 2"
definition PAGE_USER :: u32 where "PAGE_USER = 4"

section \<open>Access to virtual addresses\<close>

definition vload32 :: "addr \<Rightarrow> 'a mem_state_scheme \<Rightarrow> u32 option" where
  "vload32 va s = do { pa \<leftarrow> translate (phys s) (cr3 s) False va; Some (load32 (phys s) pa) }"

definition vstore32 :: "addr \<Rightarrow> u32 \<Rightarrow> 'a mem_state_scheme \<Rightarrow> 'a mem_state_scheme option" where
  "vstore32 va v s = do {
     pa \<leftarrow> translate (phys s) (cr3 s) True va;
     Some (s\<lparr>phys := store32 (phys s) pa v\<rparr>) }"

definition vload8 :: "addr \<Rightarrow> 'a mem_state_scheme \<Rightarrow> u8 option" where
  "vload8 va s = do { pa \<leftarrow> translate (phys s) (cr3 s) False va; Some (phys s pa) }"

definition vstore8 :: "addr \<Rightarrow> u8 \<Rightarrow> 'a mem_state_scheme \<Rightarrow> 'a mem_state_scheme option" where
  "vstore8 va v s = do {
     pa \<leftarrow> translate (phys s) (cr3 s) True va;
     Some (s\<lparr>phys := (phys s)(pa := v)\<rparr>) }"

definition invlpg :: "addr \<Rightarrow> 'a mem_state_scheme \<Rightarrow> 'a mem_state_scheme" where
  "invlpg a s = s\<lparr>invlpg_log := invlpg_log s @ [a]\<rparr>"

definition load_cr3 :: "addr \<Rightarrow> 'a mem_state_scheme \<Rightarrow> 'a mem_state_scheme" where
  "load_cr3 pd s = s\<lparr>cr3 := pd\<rparr>"

section \<open>The temporary window\<close>

definition map_tmp_page :: "addr \<Rightarrow> 'a mem_state_scheme \<Rightarrow> (addr \<times> 'a mem_state_scheme) option" where
  "map_tmp_page phys_addr s = do {
     pde \<leftarrow> vload32 (entry (kernel_page_directory s) (PDE_INDEX (tmp_map_addr s))) s;
     let tmp_page_table = (pde AND PAGE_MASK) + KERNEL_BASE;
     s \<leftarrow> vstore32 (entry tmp_page_table (PTE_INDEX (tmp_map_addr s)))
            ((phys_addr AND PAGE_MASK) OR PAGE_PRESENT OR PAGE_WRITABLE) s;
     Some (tmp_map_addr s, invlpg (tmp_map_addr s) s) }"

definition unmap_tmp_page :: "'a mem_state_scheme \<Rightarrow> 'a mem_state_scheme option" where
  "unmap_tmp_page s = do {
     pde \<leftarrow> vload32 (entry (kernel_page_directory s) (PDE_INDEX (tmp_map_addr s))) s;
     let tmp_page_table = (pde AND PAGE_MASK) + KERNEL_BASE;
     s \<leftarrow> vstore32 (entry tmp_page_table (PTE_INDEX (tmp_map_addr s))) 0 s;
     Some (invlpg (tmp_map_addr s) s) }"

text \<open>The loop \<open>for (i = 0; i < 1024; i++) page[i] = 0x0\<close> that follows every page allocation.\<close>

function zero_loop :: "addr \<Rightarrow> u32 \<Rightarrow> 'a mem_state_scheme \<Rightarrow> 'a mem_state_scheme option" where
  "zero_loop p i s =
     (if i < 1024 then do { s \<leftarrow> vstore32 (entry p i) 0 s; zero_loop p (i + 1) s } else Some s)"
  by pat_completeness auto
termination
  by (relation "measure (\<lambda>(p, i, s). 1024 - unat i)")
    (auto simp: unat_Suc_u32, simp add: word_less_nat_alt)

declare zero_loop.simps [simp del]

text \<open>The three statements "map it, use it, unmap it" of the code, for the three uses it makes.\<close>

definition zero_page :: "addr \<Rightarrow> 'a mem_state_scheme \<Rightarrow> 'a mem_state_scheme option" where
  "zero_page pa s = do {
     (new_page, s) \<leftarrow> map_tmp_page pa s;
     s \<leftarrow> zero_loop new_page 0 s;
     unmap_tmp_page s }"

definition read_entry :: "addr \<Rightarrow> u32 \<Rightarrow> 'a mem_state_scheme \<Rightarrow> (u32 \<times> 'a mem_state_scheme) option" where
  "read_entry pa i s = do {
     (tab, s) \<leftarrow> map_tmp_page pa s;
     v \<leftarrow> vload32 (entry tab i) s;
     s \<leftarrow> unmap_tmp_page s;
     Some (v, s) }"

definition write_entry :: "addr \<Rightarrow> u32 \<Rightarrow> u32 \<Rightarrow> 'a mem_state_scheme \<Rightarrow> 'a mem_state_scheme option" where
  "write_entry pa i v s = do {
     (tab, s) \<leftarrow> map_tmp_page pa s;
     s \<leftarrow> vstore32 (entry tab i) v s;
     unmap_tmp_page s }"

section \<open>Indices\<close>

lemma unat_PDE_INDEX: "unat (PDE_INDEX a) = unat a div 4194304"
proof -
  have "unat a div 4194304 < 1024" using unat_u32_less [of a] by (simp only: less_mult_imp_div_less)
  then show ?thesis
    by (simp only: PDE_INDEX_def unat_and_0x3FF unat_drop_bit_u32) simp
qed

lemma unat_PTE_INDEX: "unat (PTE_INDEX a) = unat a div 4096 mod 1024"
  by (simp only: PTE_INDEX_def unat_and_0x3FF unat_drop_bit_u32) simp

lemma index_less [simp, page_rules]: "PDE_INDEX a < 1024" "PTE_INDEX a < 1024"
proof -
  show "PTE_INDEX a < 1024" by (simp add: word_less_nat_alt unat_PTE_INDEX)
  have "unat a div 4194304 < 1024" using unat_u32_less [of a] by (simp only: less_mult_imp_div_less)
  then show "PDE_INDEX a < 1024" by (simp add: word_less_nat_alt unat_PDE_INDEX)
qed

text \<open>All bytes of one page have the same indices.\<close>

lemma page_div:
  assumes "page_aligned b" and "unat k < 4096"
  shows "unat (b + k) div 4096 = unat b div 4096"
proof -
  obtain q where "unat b = 4096 * q" using assms(1) by (auto simp: page_aligned_dvd)
  with assms show ?thesis by (simp add: unat_page_offset)
qed

lemma div_4194304: "(n :: nat) div 4194304 = n div 4096 div 1024"
  by (simp add: div_mult2_eq [symmetric])

lemma index_offset [page_rules]:
  assumes "page_aligned b" and "unat k < 4096"
  shows "PDE_INDEX (b + k) = PDE_INDEX b" and "PTE_INDEX (b + k) = PTE_INDEX b"
  by (simp_all add: word_eq_iff_unat_u32 unat_PDE_INDEX unat_PTE_INDEX div_4194304 page_div [OF assms])

lemma index_entry [page_rules]:
  assumes "page_aligned b" and "i < 1024"
  shows "PDE_INDEX (entry b i) = PDE_INDEX b" and "PTE_INDEX (entry b i) = PTE_INDEX b"
  unfolding entry_def using index_offset [OF assms(1) entry_offset(1) [OF assms(2)]] by blast+

text \<open>A page is determined by its two indices.\<close>

lemma index_inject:
  assumes "page_aligned a" and "page_aligned b" and "PDE_INDEX a = PDE_INDEX b" and "PTE_INDEX a = PTE_INDEX b"
  shows "a = b"
proof -
  have "unat a div 4096 div 1024 = unat b div 4096 div 1024"
    using assms(3) by (simp add: word_eq_iff_unat_u32 unat_PDE_INDEX div_4194304)
  moreover have "unat a div 4096 mod 1024 = unat b div 4096 mod 1024"
    using assms(4) by (simp add: word_eq_iff_unat_u32 unat_PTE_INDEX)
  ultimately have "unat a div 4096 = unat b div 4096"
    by (metis div_mod_decomp)
  then show ?thesis
    using assms(1,2) by (metis dvd_mult_div_cancel page_aligned_dvd word_eq_iff_unat_u32)
qed

section \<open>Flag bits of an entry\<close>

lemma bit_PAGE_MASK: "bit PAGE_MASK n \<longleftrightarrow> 12 \<le> n \<and> n < 32"
proof -
  have "PAGE_MASK = NOT (mask 12)"
    by (simp add: PAGE_MASK_def mask_eq_exp_minus_1)
  then have "bit PAGE_MASK n = bit (NOT (mask 12) :: u32) n" by (rule arg_cong)
  also have "\<dots> \<longleftrightarrow> 12 \<le> n \<and> n < 32" by (auto simp: bit_simps)
  finally show ?thesis .
qed

lemma small_and_PAGE_MASK: "unat fl < 4096 \<Longrightarrow> fl AND PAGE_MASK = 0"
  by (simp add: word_eq_iff_unat_u32 unat_and_PAGE_MASK)

lemma entry_frame [page_rules]: "unat fl < 4096 \<Longrightarrow> ((x AND PAGE_MASK) OR fl) AND PAGE_MASK = x AND PAGE_MASK"
  by (simp add: bit.conj_disj_distrib2 small_and_PAGE_MASK)

lemma entry_bit [page_rules]: "n < 12 \<Longrightarrow> bit ((x AND PAGE_MASK) OR fl) n = bit fl n"
  by (simp add: bit_or_iff bit_and_iff bit_PAGE_MASK)

lemma page_aligned_frame [page_rules]:
  "page_aligned f \<Longrightarrow> unat fl < 4096 \<Longrightarrow> (f OR fl) AND PAGE_MASK = f"
  using entry_frame [of fl f] by (simp add: mask_page_aligned)

lemma page_aligned_flag [page_rules]: "page_aligned f \<Longrightarrow> n < 12 \<Longrightarrow> bit (f OR fl) n = bit fl n"
  using entry_bit [of n f fl] by (simp add: mask_page_aligned)

lemma unat_flags: "unat (3 :: u32) < 4096" "unat (7 :: u32) < 4096" "unat (ucast (fl :: u8) :: u32) < 4096"
proof -
  have "unat (ucast fl :: u32) = unat fl"
    by (simp add: unsigned_ucast_eq take_bit_nat_eq_self less_trans [OF unat_u8_less])
  then show "unat (ucast fl :: u32) < 4096"
    using unat_u8_less [of fl] by linarith
qed simp_all

lemma kernel_flags: "(x :: u32) OR PAGE_PRESENT OR PAGE_WRITABLE = x OR 3"
proof -
  have "(1 :: u32) OR 2 = 3" by simp
  then show ?thesis by (simp only: PAGE_PRESENT_def PAGE_WRITABLE_def or.assoc)
qed

lemma user_flags: "(x :: u32) OR PAGE_PRESENT OR PAGE_WRITABLE OR PAGE_USER = x OR 7"
proof -
  have "(1 :: u32) OR 2 OR 4 = 7" by simp
  then show ?thesis by (simp only: PAGE_PRESENT_def PAGE_WRITABLE_def PAGE_USER_def or.assoc)
qed

section \<open>The window: what must hold\<close>

text \<open>Physical address of the page directory, and the page table behind entry 768 of it.\<close>

definition kpd_phys :: "'a mem_state_scheme \<Rightarrow> addr" where
  "kpd_phys s = kernel_page_directory s - KERNEL_BASE"

definition boot_pt :: "'a mem_state_scheme \<Rightarrow> addr" where
  "boot_pt s = load32 (phys s) (entry (kpd_phys s) 768) AND PAGE_MASK"

definition slot :: "'a mem_state_scheme \<Rightarrow> addr" where
  "slot s = entry (boot_pt s) (PTE_INDEX (tmp_map_addr s))"

text \<open>A kernel virtual page that the boot page table maps, writable, to \<open>pa\<close>.\<close>

definition kmapped :: "'a mem_state_scheme \<Rightarrow> addr \<Rightarrow> addr \<Rightarrow> bool" where
  "kmapped s va pa \<longleftrightarrow> page_aligned va \<and> PDE_INDEX va = 768 \<and>
     (let e = load32 (phys s) (entry (boot_pt s) (PTE_INDEX va)) in
      \<not> denies True e \<and> e AND PAGE_MASK = pa)"

text \<open>
  The part of the address space the window relies on: the current page directory and the kernel's
  share entry 768; through it the kernel reaches its page directory and the boot page table at
  their direct-mapped addresses; the window's own entry is another one.
\<close>

definition win_wf :: "'a mem_state_scheme \<Rightarrow> bool" where
  "win_wf s \<longleftrightarrow> page_aligned (cr3 s) \<and> page_aligned (kpd_phys s) \<and>
     load32 (phys s) (entry (cr3 s) 768) = load32 (phys s) (entry (kpd_phys s) 768) \<and>
     \<not> denies True (load32 (phys s) (entry (kpd_phys s) 768)) \<and>
     kmapped s (kernel_page_directory s) (kpd_phys s) \<and>
     kmapped s (boot_pt s + KERNEL_BASE) (boot_pt s) \<and>
     page_aligned (tmp_map_addr s) \<and> PDE_INDEX (tmp_map_addr s) = 768 \<and>
     PTE_INDEX (tmp_map_addr s) \<noteq> PTE_INDEX (kernel_page_directory s) \<and>
     PTE_INDEX (tmp_map_addr s) \<noteq> PTE_INDEX (boot_pt s + KERNEL_BASE) \<and>
     boot_pt s \<noteq> cr3 s \<and> boot_pt s \<noteq> kpd_phys s"

text \<open>The frames the window itself stands on; no frame handed out may be one of them.\<close>

definition win_frames :: "'a mem_state_scheme \<Rightarrow> addr set" where
  "win_frames s = {cr3 s, kpd_phys s, boot_pt s}"

definition closed :: "'a mem_state_scheme \<Rightarrow> bool" where
  "closed s \<longleftrightarrow> load32 (phys s) (slot s) = 0"

section \<open>The window: walks through it\<close>

lemma page_aligned_boot_pt [simp]: "page_aligned (boot_pt s)"
  by (simp add: boot_pt_def)

lemma denies_mono: "\<not> denies True e \<Longrightarrow> \<not> denies w e"
  by (auto simp: denies_def)

lemma translate_768:
  assumes "win_wf s" and "PDE_INDEX va = 768"
  shows "translate (phys s) (cr3 s) w va =
    (let e = load32 (phys s) (entry (boot_pt s) (PTE_INDEX va)) in
     if denies w e then None else Some ((e AND PAGE_MASK) + (va AND 0xFFF)))"
proof -
  have "load32 (phys s) (entry (cr3 s AND PAGE_MASK) 768) = load32 (phys s) (entry (kpd_phys s) 768)"
    using assms(1) by (simp add: win_wf_def mask_page_aligned)
  moreover have "\<not> denies w (load32 (phys s) (entry (kpd_phys s) 768))"
    using assms(1) denies_mono by (auto simp: win_wf_def)
  ultimately show ?thesis
    by (simp add: translate_def assms(2) boot_pt_def)
qed

lemma translate_kmapped:
  assumes "win_wf s" and "kmapped s b pa" and "i < 1024"
  shows "translate (phys s) (cr3 s) w (entry b i) = Some (entry pa i)"
proof -
  have b: "page_aligned b" "PDE_INDEX b = 768" using assms(2) by (simp_all add: kmapped_def)
  have "entry b i AND 0xFFF = 4 * i"
    unfolding entry_def by (rule mask_page_offset(2) [OF b(1) entry_offset(1) [OF assms(3)]])
  then show ?thesis
    using assms b denies_mono
    by (auto simp: translate_768 index_entry kmapped_def Let_def entry_def [of pa])
qed

lemma translate_slot:
  assumes "win_wf s" and "page_aligned f" and "load32 (phys s) (slot s) = f OR 3" and "i < 1024"
  shows "translate (phys s) (cr3 s) w (entry (tmp_map_addr s) i) = Some (entry f i)"
proof (rule translate_kmapped [OF assms(1) _ assms(4)])
  have "\<not> denies True (f OR 3)" "(f OR 3) AND PAGE_MASK = f"
    using assms(2) by (simp_all add: denies_def page_aligned_flag page_aligned_frame)
  then show "kmapped s (tmp_map_addr s) f"
    using assms(1,3) by (simp add: kmapped_def win_wf_def slot_def)
qed

section \<open>The window: opening, using, closing\<close>

text \<open>
  A change of physical memory that keeps the entries the window relies on keeps \<open>win_wf\<close>.
\<close>

lemma win_wf_cong:
  assumes "win_wf s"
    and "load32 m (entry (cr3 s) 768) = load32 (phys s) (entry (cr3 s) 768)"
    and "load32 m (entry (kpd_phys s) 768) = load32 (phys s) (entry (kpd_phys s) 768)"
    and "\<And>i. i < 1024 \<Longrightarrow> i \<noteq> PTE_INDEX (tmp_map_addr s) \<Longrightarrow>
      load32 m (entry (boot_pt s) i) = load32 (phys s) (entry (boot_pt s) i)"
  shows "win_wf (s\<lparr>phys := m\<rparr>)" and "boot_pt (s\<lparr>phys := m\<rparr>) = boot_pt s"
    and "slot (s\<lparr>phys := m\<rparr>) = slot s"
proof -
  show b: "boot_pt (s\<lparr>phys := m\<rparr>) = boot_pt s"
    using assms(3) by (simp add: boot_pt_def kpd_phys_def)
  show "slot (s\<lparr>phys := m\<rparr>) = slot s"
    using b by (simp add: slot_def)
  have km: "kmapped (s\<lparr>phys := m\<rparr>) va pa"
    if "kmapped s va pa" and "PTE_INDEX (tmp_map_addr s) \<noteq> PTE_INDEX va" for va pa
    using that b assms(4) [of "PTE_INDEX va"] by (auto simp: kmapped_def Let_def)
  show "win_wf (s\<lparr>phys := m\<rparr>)"
    using assms(1-3) km [of "kernel_page_directory s"] km [of "boot_pt s + KERNEL_BASE"]
    by (simp add: win_wf_def b) (simp add: kpd_phys_def)
qed

lemma slot_store:
  assumes "win_wf s"
  shows "win_wf (s\<lparr>phys := store32 (phys s) (slot s) v\<rparr>)"
    and "boot_pt (s\<lparr>phys := store32 (phys s) (slot s) v\<rparr>) = boot_pt s"
    and "slot (s\<lparr>phys := store32 (phys s) (slot s) v\<rparr>) = slot s"
proof -
  have "load32 (store32 (phys s) (slot s) v) (entry (cr3 s) 768) = load32 (phys s) (entry (cr3 s) 768)"
    "load32 (store32 (phys s) (slot s) v) (entry (kpd_phys s) 768) = load32 (phys s) (entry (kpd_phys s) 768)"
    using assms by (auto simp: win_wf_def slot_def load32_store32_entry)
  moreover have "load32 (store32 (phys s) (slot s) v) (entry (boot_pt s) i) = load32 (phys s) (entry (boot_pt s) i)"
    if "i < 1024" "i \<noteq> PTE_INDEX (tmp_map_addr s)" for i
    using that by (simp add: slot_def load32_store32_entry)
  ultimately show "win_wf (s\<lparr>phys := store32 (phys s) (slot s) v\<rparr>)"
    "boot_pt (s\<lparr>phys := store32 (phys s) (slot s) v\<rparr>) = boot_pt s"
    "slot (s\<lparr>phys := store32 (phys s) (slot s) v\<rparr>) = slot s"
    using win_wf_cong [OF assms] by blast+
qed

lemma win_wf_log [simp]:
  "win_wf (s\<lparr>invlpg_log := l\<rparr>) = win_wf s" "boot_pt (s\<lparr>invlpg_log := l\<rparr>) = boot_pt s"
  "slot (s\<lparr>invlpg_log := l\<rparr>) = slot s" "kpd_phys (s\<lparr>invlpg_log := l\<rparr>) = kpd_phys s"
  "closed (s\<lparr>invlpg_log := l\<rparr>) = closed s"
  by (simp_all add: win_wf_def boot_pt_def slot_def kpd_phys_def kmapped_def closed_def)

lemma win_wf_bitmap [simp]:
  "win_wf (s\<lparr>bitmap := l\<rparr>) = win_wf s" "boot_pt (s\<lparr>bitmap := l\<rparr>) = boot_pt s"
  "slot (s\<lparr>bitmap := l\<rparr>) = slot s" "kpd_phys (s\<lparr>bitmap := l\<rparr>) = kpd_phys s"
  "closed (s\<lparr>bitmap := l\<rparr>) = closed s"
  by (simp_all add: win_wf_def boot_pt_def slot_def kpd_phys_def kmapped_def closed_def)

text \<open>The window sees only four components of the state.\<close>

definition same_win :: "'a mem_state_scheme \<Rightarrow> 'a mem_state_scheme \<Rightarrow> bool" where
  "same_win s t \<longleftrightarrow> phys s = phys t \<and> cr3 s = cr3 t \<and>
     kernel_page_directory s = kernel_page_directory t \<and> tmp_map_addr s = tmp_map_addr t"

lemma same_winD:
  assumes "same_win s t"
  shows "win_wf s = win_wf t" "boot_pt s = boot_pt t" "slot s = slot t" "kpd_phys s = kpd_phys t"
    "closed s = closed t" "win_frames s = win_frames t"
  using assms by (simp_all add: same_win_def win_wf_def boot_pt_def slot_def kpd_phys_def kmapped_def
      closed_def win_frames_def)

lemma kpd_phys_phys [simp]: "kpd_phys (s\<lparr>phys := m\<rparr>) = kpd_phys s"
  by (simp add: kpd_phys_def)

text \<open>The two accesses \<open>map_tmp_page\<close> and \<open>unmap_tmp_page\<close> make.\<close>

lemma slot_access:
  assumes "win_wf s"
  shows "vload32 (entry (kernel_page_directory s) (PDE_INDEX (tmp_map_addr s))) s =
      Some (load32 (phys s) (entry (kpd_phys s) 768))"
    and "vstore32 (entry ((load32 (phys s) (entry (kpd_phys s) 768) AND PAGE_MASK) + KERNEL_BASE)
        (PTE_INDEX (tmp_map_addr s))) v s = Some (s\<lparr>phys := store32 (phys s) (slot s) v\<rparr>)"
proof -
  have km: "kmapped s (kernel_page_directory s) (kpd_phys s)"
    "kmapped s (boot_pt s + KERNEL_BASE) (boot_pt s)" and p: "PDE_INDEX (tmp_map_addr s) = 768"
    using assms by (simp_all add: win_wf_def)
  show "vload32 (entry (kernel_page_directory s) (PDE_INDEX (tmp_map_addr s))) s =
      Some (load32 (phys s) (entry (kpd_phys s) 768))"
    using translate_kmapped [OF assms km(1), of 768] by (simp add: vload32_def p)
  show "vstore32 (entry ((load32 (phys s) (entry (kpd_phys s) 768) AND PAGE_MASK) + KERNEL_BASE)
        (PTE_INDEX (tmp_map_addr s))) v s = Some (s\<lparr>phys := store32 (phys s) (slot s) v\<rparr>)"
    using translate_kmapped [OF assms km(2), of "PTE_INDEX (tmp_map_addr s)"]
    by (simp add: vstore32_def slot_def flip: boot_pt_def)
qed

lemma map_tmp_page_eq:
  assumes "win_wf s"
  shows "map_tmp_page pa s = Some (tmp_map_addr s, s\<lparr>
      phys := store32 (phys s) (slot s) ((pa AND PAGE_MASK) OR 3),
      invlpg_log := invlpg_log s @ [tmp_map_addr s]\<rparr>)"
  using slot_access [OF assms] by (simp add: map_tmp_page_def invlpg_def Let_def kernel_flags)

lemma unmap_tmp_page_eq:
  assumes "win_wf s"
  shows "unmap_tmp_page s = Some (s\<lparr>phys := store32 (phys s) (slot s) 0,
      invlpg_log := invlpg_log s @ [tmp_map_addr s]\<rparr>)"
  using slot_access [OF assms] by (simp add: unmap_tmp_page_def invlpg_def Let_def)

text \<open>Between the two calls the words at the window address are the words of the frame.\<close>

definition open_on :: "'a mem_state_scheme \<Rightarrow> addr \<Rightarrow> bool" where
  "open_on s f \<longleftrightarrow> win_wf s \<and> page_aligned f \<and> load32 (phys s) (slot s) = f OR 3"

lemma open_load:
  "open_on s f \<Longrightarrow> i < 1024 \<Longrightarrow> vload32 (entry (tmp_map_addr s) i) s = Some (load32 (phys s) (entry f i))"
  by (simp add: open_on_def vload32_def translate_slot [of s f])

lemma open_store:
  "open_on s f \<Longrightarrow> i < 1024 \<Longrightarrow>
   vstore32 (entry (tmp_map_addr s) i) v s = Some (s\<lparr>phys := store32 (phys s) (entry f i) v\<rparr>)"
  by (simp add: open_on_def vstore32_def translate_slot [of s f])

text \<open>
  Frames whose entry \<open>i\<close> may be written without disturbing the window: any frame other than the
  boot page table, and entry 768 only of frames that are not page directories in use.
\<close>

definition may_write :: "'a mem_state_scheme \<Rightarrow> addr \<Rightarrow> u32 \<Rightarrow> bool" where
  "may_write s f i \<longleftrightarrow> page_aligned f \<and> i < 1024 \<and> f \<noteq> boot_pt s \<and>
     (i = 768 \<longrightarrow> f \<noteq> cr3 s \<and> f \<noteq> kpd_phys s)"

lemma store_keeps_win:
  assumes "win_wf s" and "may_write s f i"
  shows "win_wf (s\<lparr>phys := store32 (phys s) (entry f i) v\<rparr>)"
    and "boot_pt (s\<lparr>phys := store32 (phys s) (entry f i) v\<rparr>) = boot_pt s"
    and "slot (s\<lparr>phys := store32 (phys s) (entry f i) v\<rparr>) = slot s"
    and "load32 (store32 (phys s) (entry f i) v) (slot s) = load32 (phys s) (slot s)"
proof -
  have a: "page_aligned (cr3 s)" "page_aligned (kpd_phys s)" using assms(1) by (simp_all add: win_wf_def)
  have "load32 (store32 (phys s) (entry f i) v) (entry (cr3 s) 768) = load32 (phys s) (entry (cr3 s) 768)"
    "load32 (store32 (phys s) (entry f i) v) (entry (kpd_phys s) 768) = load32 (phys s) (entry (kpd_phys s) 768)"
    "\<And>j. j < 1024 \<Longrightarrow> load32 (store32 (phys s) (entry f i) v) (entry (boot_pt s) j) = load32 (phys s) (entry (boot_pt s) j)"
    using a assms(2) by (auto simp: may_write_def load32_store32_entry)
  from win_wf_cong [OF assms(1) this]
  show "win_wf (s\<lparr>phys := store32 (phys s) (entry f i) v\<rparr>)"
    "boot_pt (s\<lparr>phys := store32 (phys s) (entry f i) v\<rparr>) = boot_pt s"
    "slot (s\<lparr>phys := store32 (phys s) (entry f i) v\<rparr>) = slot s"
    by blast+
  show "load32 (store32 (phys s) (entry f i) v) (slot s) = load32 (phys s) (slot s)"
    using assms(2) by (auto simp: slot_def may_write_def load32_store32_entry)
qed

text \<open>Opening and closing as state changes of a closed window.\<close>

abbreviation opened :: "addr \<Rightarrow> 'a mem_state_scheme \<Rightarrow> 'a mem_state_scheme" where
  "opened f s \<equiv> s\<lparr>phys := store32 (phys s) (slot s) (f OR 3),
     invlpg_log := invlpg_log s @ [tmp_map_addr s]\<rparr>"

lemma open_on_opened:
  "win_wf s \<Longrightarrow> page_aligned f \<Longrightarrow> open_on (opened f s) f"
  using slot_store [of s "f OR 3"] by (simp add: open_on_def)

lemma opened_simps [simp]:
  assumes "win_wf s"
  shows "boot_pt (opened f s) = boot_pt s" "slot (opened f s) = slot s" "win_wf (opened f s)"
    "kpd_phys (opened f s) = kpd_phys s"
  using slot_store [OF assms] by simp_all

lemma open_on_store:
  "open_on s f \<Longrightarrow> may_write s g i \<Longrightarrow> open_on (s\<lparr>phys := store32 (phys s) (entry g i) v\<rparr>) f"
  using store_keeps_win [of s g i v] by (auto simp: open_on_def)

text \<open>
  The net effect of the three uses. A read leaves physical memory as it was; a write changes one
  entry of the frame; clearing a page zeroes the frame. Only the invalidation log grows.
\<close>

lemma close_eq:
  assumes "win_wf (s\<lparr>phys := store32 m (slot s) v\<rparr>)"
    and "slot (s\<lparr>phys := store32 m (slot s) v\<rparr>) = slot s" and "load32 m (slot s) = 0"
  shows "unmap_tmp_page (s\<lparr>phys := store32 m (slot s) v, invlpg_log := l\<rparr>) =
    Some (s\<lparr>phys := m, invlpg_log := l @ [tmp_map_addr s]\<rparr>)"
  using unmap_tmp_page_eq [of "s\<lparr>phys := store32 m (slot s) v, invlpg_log := l\<rparr>"] assms
    store32_same_value [OF assms(3)]
  by simp

lemma read_entry_eq:
  assumes "win_wf s" and "closed s" and "i < 1024" and "pa AND PAGE_MASK \<noteq> boot_pt s"
  shows "read_entry pa i s = Some (load32 (phys s) (entry (pa AND PAGE_MASK) i),
    s\<lparr>invlpg_log := invlpg_log s @ [tmp_map_addr s, tmp_map_addr s]\<rparr>)"
proof -
  let ?f = "pa AND PAGE_MASK"
  have o: "open_on (opened ?f s) ?f" using assms(1) by (simp add: open_on_opened)
  have "load32 (store32 (phys s) (slot s) (?f OR 3)) (entry ?f i) = load32 (phys s) (entry ?f i)"
    using assms(3,4) by (simp add: slot_def load32_store32_entry)
  with open_load [OF o assms(3)]
  have v: "vload32 (entry (tmp_map_addr s) i) (opened ?f s) = Some (load32 (phys s) (entry ?f i))" by simp
  have u: "unmap_tmp_page (opened ?f s) =
      Some (s\<lparr>phys := phys s, invlpg_log := (invlpg_log s @ [tmp_map_addr s]) @ [tmp_map_addr s]\<rparr>)"
    using close_eq [OF slot_store(1,3) [OF assms(1)]] assms(2) by (simp add: closed_def)
  show ?thesis
    by (simp add: read_entry_def map_tmp_page_eq [OF assms(1)] v u)
qed

text \<open>
  The steps of a write through the window, from any state \<open>u\<close> that agrees with the opened one on
  memory and on the registers the walk uses.
\<close>

lemma window_write:
  fixes s u :: "'a mem_state_scheme" and v :: u32
  assumes "win_wf s" and "closed s" and "may_write s f i"
  defines "M \<equiv> store32 (phys s) (entry f i) v"
  shows "same_win u (opened f s) \<Longrightarrow> vload32 (entry (tmp_map_addr s) i) u = Some (load32 (phys s) (entry f i))"
    and "same_win u (opened f s) \<Longrightarrow>
      vstore32 (entry (tmp_map_addr s) i) v u = Some (u\<lparr>phys := store32 M (slot s) (f OR 3)\<rparr>)"
    and "same_win u (s\<lparr>phys := store32 M (slot s) (f OR 3)\<rparr>) \<Longrightarrow>
      unmap_tmp_page u = Some (u\<lparr>phys := M, invlpg_log := invlpg_log u @ [tmp_map_addr s]\<rparr>)"
proof -
  have i: "i < 1024" "f \<noteq> boot_pt s" "page_aligned f" using assms(3) by (simp_all add: may_write_def)
  have comm: "store32 (store32 (phys s) (slot s) (f OR 3)) (entry f i) v = store32 M (slot s) (f OR 3)"
    unfolding slot_def M_def using i by (intro store32_commute_entry) simp_all
  {
    assume u: "same_win u (opened f s)"
    then have o: "open_on u f" "tmp_map_addr u = tmp_map_addr s"
      using open_on_opened [OF assms(1) i(3)] same_winD [OF u] by (auto simp: open_on_def same_win_def)
    have p: "phys u = store32 (phys s) (slot s) (f OR 3)" using u by (simp add: same_win_def)
    show "vload32 (entry (tmp_map_addr s) i) u = Some (load32 (phys s) (entry f i))"
      using open_load [OF o(1) i(1)] o(2) i by (simp add: p slot_def load32_store32_entry)
    show "vstore32 (entry (tmp_map_addr s) i) v u = Some (u\<lparr>phys := store32 M (slot s) (f OR 3)\<rparr>)"
      using open_store [OF o(1) i(1), of v] o(2) comm by (simp add: p)
  }
  assume u: "same_win u (s\<lparr>phys := store32 M (slot s) (f OR 3)\<rparr>)"
  have "may_write (s\<lparr>phys := store32 (phys s) (slot s) (f OR 3)\<rparr>) f i"
    using assms(1,3) slot_store(2) [OF assms(1)] by (simp add: may_write_def)
  from store_keeps_win [OF slot_store(1) [OF assms(1)] this, of v] comm
  have w: "win_wf u" "slot u = slot s"
    using slot_store(3) [OF assms(1)] same_winD [OF u] by simp_all
  have "load32 M (slot s) = 0"
    using store_keeps_win(4) [OF assms(1,3)] assms(2) by (simp add: closed_def M_def)
  then show "unmap_tmp_page u = Some (u\<lparr>phys := M, invlpg_log := invlpg_log u @ [tmp_map_addr s]\<rparr>)"
    using unmap_tmp_page_eq [OF w(1)] u w(2) by (simp add: same_win_def store32_same_value)
qed

lemma write_entry_eq:
  assumes "win_wf s" and "closed s" and "may_write s (pa AND PAGE_MASK) i"
  shows "write_entry pa i v s = Some (s\<lparr>phys := store32 (phys s) (entry (pa AND PAGE_MASK) i) v,
    invlpg_log := invlpg_log s @ [tmp_map_addr s, tmp_map_addr s]\<rparr>)"
proof -
  let ?f = "pa AND PAGE_MASK" and ?m = "store32 (phys s) (entry (pa AND PAGE_MASK) i) v"
  let ?u = "s\<lparr>phys := store32 ?m (slot s) (?f OR 3), invlpg_log := invlpg_log s @ [tmp_map_addr s]\<rparr>"
  have "vstore32 (entry (tmp_map_addr s) i) v (opened ?f s) = Some ?u"
    using window_write(2) [OF assms, of "opened ?f s"] by (simp add: same_win_def)
  moreover have "unmap_tmp_page ?u = Some (?u\<lparr>phys := ?m, invlpg_log := invlpg_log ?u @ [tmp_map_addr s]\<rparr>)"
    by (rule window_write(3) [OF assms]) (simp add: same_win_def)
  ultimately show ?thesis
    by (simp add: write_entry_def map_tmp_page_eq [OF assms(1)])
qed

lemma may_write_fresh:
  "page_aligned f \<Longrightarrow> f \<notin> win_frames s \<Longrightarrow> i < 1024 \<Longrightarrow> may_write s f i"
  by (auto simp: may_write_def win_frames_def)

lemma zero_loop_eq:
  assumes "open_on s f" and "f \<notin> win_frames s" and "unat i \<le> 1024"
  shows "zero_loop (tmp_map_addr s) i s = Some (s\<lparr>phys := zero_from (phys s) f (unat i)\<rparr>)"
  using assms
proof (induction "1024 - unat i" arbitrary: i s)
  case 0
  then have "unat i = 1024" "\<not> i < 1024" by (auto simp: word_less_nat_alt)
  then show ?case by (simp add: zero_loop.simps [of _ i] zero_from_1024)
next
  case (Suc d)
  then have i: "i < 1024" by (simp add: word_less_nat_alt)
  then have u: "unat (i + 1) = unat i + 1" by (rule unat_Suc_u32)
  let ?t = "s\<lparr>phys := store32 (phys s) (entry f i) 0\<rparr>"
  have f: "page_aligned f" using Suc.prems(1) by (simp add: open_on_def)
  have mw: "may_write s f i" by (rule may_write_fresh [OF f Suc.prems(2) i])
  have bt: "boot_pt ?t = boot_pt s"
    using store_keeps_win(2) [OF _ mw] Suc.prems(1) by (simp add: open_on_def)
  have "zero_loop (tmp_map_addr ?t) (i + 1) ?t = Some (?t\<lparr>phys := zero_from (phys ?t) f (unat (i + 1))\<rparr>)"
  proof (rule Suc.hyps(1))
    show "d = 1024 - unat (i + 1)" using Suc.hyps(2) u by simp
    show "open_on ?t f" by (rule open_on_store [OF Suc.prems(1) mw])
    show "f \<notin> win_frames ?t" using Suc.prems(2) bt by (simp add: win_frames_def)
    show "unat (i + 1) \<le> 1024" using Suc.hyps(2) u by simp
  qed
  then show ?case
    using i u f open_store [OF Suc.prems(1) i, of 0]
    by (simp add: zero_loop.simps [of _ i] zero_from_step [simplified])
qed

lemma win_wf_zero_frame:
  assumes "win_wf s" and "page_aligned f" and "f \<notin> win_frames s"
  shows "win_wf (s\<lparr>phys := zero_frame (phys s) f\<rparr>)"
    and "boot_pt (s\<lparr>phys := zero_frame (phys s) f\<rparr>) = boot_pt s"
    and "slot (s\<lparr>phys := zero_frame (phys s) f\<rparr>) = slot s"
    and "load32 (zero_frame (phys s) f) (slot s) = load32 (phys s) (slot s)"
proof -
  have a: "page_aligned (cr3 s)" "page_aligned (kpd_phys s)" using assms(1) by (simp_all add: win_wf_def)
  have "load32 (zero_frame (phys s) f) (entry (cr3 s) 768) = load32 (phys s) (entry (cr3 s) 768)"
    "load32 (zero_frame (phys s) f) (entry (kpd_phys s) 768) = load32 (phys s) (entry (kpd_phys s) 768)"
    "\<And>j. j < 1024 \<Longrightarrow> load32 (zero_frame (phys s) f) (entry (boot_pt s) j) = load32 (phys s) (entry (boot_pt s) j)"
    using a assms(3) by (auto simp: win_frames_def load32_zero_frame)
  from win_wf_cong [OF assms(1) this]
  show "win_wf (s\<lparr>phys := zero_frame (phys s) f\<rparr>)"
    "boot_pt (s\<lparr>phys := zero_frame (phys s) f\<rparr>) = boot_pt s"
    "slot (s\<lparr>phys := zero_frame (phys s) f\<rparr>) = slot s" by blast+
  show "load32 (zero_frame (phys s) f) (slot s) = load32 (phys s) (slot s)"
    using assms(3) by (auto simp: slot_def win_frames_def load32_zero_frame)
qed

lemma zero_page_eq:
  assumes "win_wf s" and "closed s" and "pa AND PAGE_MASK \<notin> win_frames s"
  shows "zero_page pa s = Some (s\<lparr>phys := zero_frame (phys s) (pa AND PAGE_MASK),
    invlpg_log := invlpg_log s @ [tmp_map_addr s, tmp_map_addr s]\<rparr>)"
proof -
  let ?f = "pa AND PAGE_MASK"
  let ?m = "zero_frame (phys s) ?f"
  have o: "open_on (opened ?f s) ?f" using assms(1) by (simp add: open_on_opened)
  have nf: "?f \<notin> win_frames (opened ?f s)"
    using assms(3) slot_store(2) [OF assms(1)] by (simp add: win_frames_def)
  have nb: "boot_pt s \<noteq> ?f" using assms(3) by (auto simp: win_frames_def)
  then have comm: "zero_frame (store32 (phys s) (slot s) (?f OR 3)) ?f = store32 ?m (slot s) (?f OR 3)"
    unfolding slot_def by (intro zero_frame_store32) simp_all
  have z: "zero_loop (tmp_map_addr s) 0 (opened ?f s) =
      Some (s\<lparr>phys := store32 ?m (slot s) (?f OR 3), invlpg_log := invlpg_log s @ [tmp_map_addr s]\<rparr>)"
    using zero_loop_eq [OF o nf, of 0] comm by (simp add: zero_from_0)
  have nf': "?f \<notin> win_frames (s\<lparr>phys := store32 (phys s) (slot s) (?f OR 3)\<rparr>)"
    using assms(3) slot_store(2) [OF assms(1)] by (simp add: win_frames_def)
  have w: "win_wf (s\<lparr>phys := store32 ?m (slot s) (?f OR 3)\<rparr>)"
    "slot (s\<lparr>phys := store32 ?m (slot s) (?f OR 3)\<rparr>) = slot s"
    using win_wf_zero_frame [OF slot_store(1) [OF assms(1)] _ nf'] comm slot_store(3) [OF assms(1)] by simp_all
  have "load32 ?m (slot s) = 0"
    using win_wf_zero_frame(4) [OF assms(1) _ assms(3)] assms(2) by (simp add: closed_def)
  from close_eq [OF w this] show ?thesis
    by (simp add: zero_page_def map_tmp_page_eq [OF assms(1)] z)
qed

text \<open>The window is closed and intact afterwards.\<close>

lemma zero_keeps:
  assumes "win_wf s" and "closed s" and "page_aligned f" and "f \<notin> win_frames s"
  shows "win_wf (s\<lparr>phys := zero_frame (phys s) f, invlpg_log := l\<rparr>)"
    "closed (s\<lparr>phys := zero_frame (phys s) f, invlpg_log := l\<rparr>)"
    "win_frames (s\<lparr>phys := zero_frame (phys s) f, invlpg_log := l\<rparr>) = win_frames s"
  using win_wf_zero_frame [OF assms(1,3,4)] assms(2) by (simp_all add: closed_def win_frames_def)

lemma write_keeps:
  assumes "win_wf s" and "closed s" and "may_write s f i"
  shows "win_wf (s\<lparr>phys := store32 (phys s) (entry f i) v, invlpg_log := l\<rparr>)"
    "closed (s\<lparr>phys := store32 (phys s) (entry f i) v, invlpg_log := l\<rparr>)"
    "win_frames (s\<lparr>phys := store32 (phys s) (entry f i) v, invlpg_log := l\<rparr>) = win_frames s"
  using store_keeps_win [OF assms(1,3)] assms(2) by (simp_all add: closed_def win_frames_def)

section \<open>What memory operations leave alone\<close>

text \<open>
  The state with the bitmap, memory, the heap's page map and the invalidation log blanked out: what
  an operation on virtual memory must not change.
\<close>

definition mem_rest :: "'a mem_state_scheme \<Rightarrow> 'a mem_state_scheme" where
  "mem_rest s = s\<lparr>bitmap := [], phys := (\<lambda>_. 0), kheap_pages := (\<lambda>_. 0), invlpg_log := []\<rparr>"

named_theorems mem_rests \<open>operations that keep \<open>mem_rest\<close>\<close>

lemma mem_restD:
  assumes "mem_rest s' = mem_rest s"
  shows "cr3 s' = cr3 s" "kernel_page_directory s' = kernel_page_directory s" "tmp_map_addr s' = tmp_map_addr s"
    "bitmap_size s' = bitmap_size s" "kpd_phys s' = kpd_phys s" "mem_state.more s' = mem_state.more s"
  using arg_cong [OF assms, of cr3] arg_cong [OF assms, of kernel_page_directory] arg_cong [OF assms, of tmp_map_addr]
    arg_cong [OF assms, of bitmap_size] arg_cong [OF assms, of mem_state.more]
  by (simp_all add: mem_rest_def kpd_phys_def)

lemma mem_rest_updates [simp]:
  "mem_rest (s\<lparr>bitmap := b\<rparr>) = mem_rest s" "mem_rest (s\<lparr>phys := m\<rparr>) = mem_rest s"
  "mem_rest (s\<lparr>kheap_pages := k\<rparr>) = mem_rest s" "mem_rest (s\<lparr>invlpg_log := l\<rparr>) = mem_rest s"
  by (simp_all add: mem_rest_def)

lemma mem_rest_ops [mem_rests]:
  "pmm_alloc n s = Some (a, s') \<Longrightarrow> mem_rest s' = mem_rest s" "pmm_free a n s = Some s' \<Longrightarrow> mem_rest s' = mem_rest s"
  "vstore32 a v s = Some s' \<Longrightarrow> mem_rest s' = mem_rest s" "vstore8 a b s = Some s' \<Longrightarrow> mem_rest s' = mem_rest s"
  by (auto simp: pmm_alloc_def pmm_free_def vstore32_def vstore8_def bind_Some_iff Let_def)

lemma mem_rest_invlpg [simp]: "mem_rest (invlpg a s) = mem_rest s"
  by (simp add: invlpg_def)

lemma mem_rest_window [mem_rests]:
  "map_tmp_page pa s = Some (a, s') \<Longrightarrow> mem_rest s' = mem_rest s" "unmap_tmp_page s = Some s' \<Longrightarrow> mem_rest s' = mem_rest s"
  by (auto simp: map_tmp_page_def unmap_tmp_page_def bind_Some_iff Let_def dest!: mem_rests)

lemma mem_rest_zero_loop [mem_rests]: "zero_loop p i s = Some s' \<Longrightarrow> mem_rest s' = mem_rest s"
proof (induction p i s rule: zero_loop.induct)
  case (1 p i s)
  show ?case
  proof (cases "i < 1024")
    case True
    with "1.prems" obtain t where t: "vstore32 (entry p i) 0 s = Some t" "zero_loop p (i + 1) t = Some s'"
      by (subst (asm) zero_loop.simps) (auto simp: bind_Some_iff)
    with "1.IH" [OF True] mem_rests show ?thesis by metis
  qed (use "1.prems" in \<open>simp add: zero_loop.simps [of p i]\<close>)
qed

lemma mem_rest_entries [mem_rests]:
  "zero_page pa s = Some s' \<Longrightarrow> mem_rest s' = mem_rest s" "read_entry pa i s = Some (v, s') \<Longrightarrow> mem_rest s' = mem_rest s"
  "write_entry pa i v s = Some s' \<Longrightarrow> mem_rest s' = mem_rest s"
  by (auto simp: zero_page_def read_entry_def write_entry_def bind_Some_iff dest!: mem_rests)

section \<open>A booted machine\<close>

text \<open>
  A state as \<open>boot.s\<close> leaves it, small enough to compute with: the page directory in frame
  \<open>0x105000\<close>, the boot page table in \<open>0x106000\<close>, both mapped at their direct addresses, the window at
  \<open>0xC0200000\<close>; 512 pages of memory of which the first 264 are in use.
\<close>

definition booted_phys :: memory where
  "booted_phys = store32 (store32 (store32 (\<lambda>_. 0) (entry 0x105000 768) 0x106003)
     (entry 0x106000 0x105) 0x105003) (entry 0x106000 0x106) 0x106003"

definition booted :: mem_state where
  "booted = \<lparr>io_trace = [], phys = booted_phys, cr3 = 0x105000, framebuffer_width = 0, framebuffer_height = 0,
     framebuffer_pitch = 0, fb_mem = (\<lambda>_. 0), font_blob = (\<lambda>_. 0), psf2_data = Some (\<lambda>_. 0),
     terminal_row = 0, terminal_column = 0, terminal_color = 0, terminal_buffer = (\<lambda>_. 0),
     bitmap = replicate 33 255 @ replicate 31 0, bitmap_size = 512,
     kernel_page_directory = 0xC0105000, tmp_map_addr = 0xC0200000, kheap_pages = (\<lambda>_. 0), invlpg_log = []\<rparr>"

lemma booted_consts: "page_aligned 0x105000" "page_aligned 0x106000" "page_aligned 0xC0105000"
  "page_aligned 0xC0106000" "page_aligned 0xC0200000"
  "PDE_INDEX 0xC0105000 = 768" "PTE_INDEX 0xC0105000 = 0x105" "PDE_INDEX 0xC0106000 = 768"
  "PTE_INDEX 0xC0106000 = 0x106" "PDE_INDEX 0xC0200000 = 768" "PTE_INDEX 0xC0200000 = 0x200"
  by (simp_all add: page_aligned_iff word_eq_iff_unat_u32 unat_PDE_INDEX unat_PTE_INDEX)

lemma booted_load:
  "i < 1024 \<Longrightarrow> load32 booted_phys (entry 0x105000 i) = (if i = 768 then 0x106003 else 0)"
  "i < 1024 \<Longrightarrow> load32 booted_phys (entry 0x106000 i) =
    (if i = 0x106 then 0x106003 else if i = 0x105 then 0x105003 else 0)"
proof -
  have z: "load32 (\<lambda>_. 0) a = 0" for a by (simp add: load32_def)
  show "i < 1024 \<Longrightarrow> load32 booted_phys (entry 0x105000 i) = (if i = 768 then 0x106003 else 0)"
    by (simp add: booted_phys_def load32_store32_entry booted_consts z)
  show "i < 1024 \<Longrightarrow> load32 booted_phys (entry 0x106000 i) =
    (if i = 0x106 then 0x106003 else if i = 0x105 then 0x105003 else 0)"
    by (simp add: booted_phys_def load32_store32_entry booted_consts z)
qed

lemma booted_fields [simp]:
  "phys booted = booted_phys" "cr3 booted = 0x105000" "kernel_page_directory booted = 0xC0105000"
  "tmp_map_addr booted = 0xC0200000" "kheap_pages booted = (\<lambda>_. 0)" "kpd_phys booted = 0x105000"
  "boot_pt booted = 0x106000"
proof -
  show k: "kpd_phys booted = 0x105000" by (simp add: kpd_phys_def booted_def KERNEL_BASE_def)
  have "(0x106003 :: u32) AND PAGE_MASK = 0x106000" by (simp add: PAGE_MASK_def)
  then show "boot_pt booted = 0x106000" unfolding boot_pt_def k by (simp add: booted_def booted_load)
qed (simp_all add: booted_def)

lemma booted_win: "win_wf booted" "closed booted" "win_frames booted = {0x105000, 0x106000}"
proof -
  have m: "(0x106003 :: u32) AND PAGE_MASK = 0x106000" "(0x105003 :: u32) AND PAGE_MASK = 0x105000"
    by (simp_all add: PAGE_MASK_def)
  have "bit (0x106003 :: u32) 0" "bit (0x106003 :: u32) (Suc 0)" "bit (0x105003 :: u32) 0" "bit (0x105003 :: u32) (Suc 0)"
    by (simp_all add: bit_iff_odd)
  with m show "win_wf booted"
    by (simp add: win_wf_def kmapped_def booted_consts booted_load denies_def KERNEL_BASE_def)
  show "closed booted" by (simp add: closed_def slot_def booted_consts booted_load)
  show "win_frames booted = {0x105000, 0x106000}" by (auto simp: win_frames_def)
qed

lemma booted_pages: "pmm_inv booted" "page_count booted = 512"
  "page_used booted n \<longleftrightarrow> n < 264 \<or> 512 \<le> n \<and> bit ((replicate 33 255 @ replicate 31 (0 :: u8)) ! (n div 8)) (n mod 8)"
proof -
  show "pmm_inv booted" "page_count booted = 512" by (simp_all add: booted_def pmm_inv_def page_count_def)
  have b: "bit (255 :: u8) k" if "k < 8" for k
    using that bit_mask_iff [of 8 k, where 'a = u8] by (simp add: mask_eq_exp_minus_1)
  show "page_used booted n \<longleftrightarrow> n < 264 \<or> 512 \<le> n \<and> bit ((replicate 33 255 @ replicate 31 (0 :: u8)) ! (n div 8)) (n mod 8)"
  proof (cases "n < 512")
    case True
    then have "n div 8 < 64" by simp
    with True b [of "n mod 8"] show ?thesis
      by (auto simp: page_used_def bit_used_def booted_def nth_append div_less_iff_less_mult)
  qed (simp add: page_used_def bit_used_def booted_def)
qed

lemma booted_sets: "free_pages booted = {264..<512}" "used_pages booted = {..<264}"
  by (auto simp: free_pages_def used_pages_def booted_pages)

lemma booted_term: "screen_room 100 booted" "terminal_row booted = 0" "terminal_column booted = 0" "psf2_data booted = Some (\<lambda>_. 0)"
  by (simp_all add: booted_def screen_room_def cell_mapped_def psf2_height_def psf2_width_def load32_def)

lemma booted_ok: "n \<le> 100 \<Longrightarrow> term_ok n booted"
  using booted_term unfolding term_ok_def by (intro exI [of _ 100]) simp

end
