(* ===== verification/Kheap.thy ===== *)
theory Kheap
  imports Paging
begin

text \<open>
  The kernel heap's virtual memory in \<open>kernel/memory.c\<close>: \<open>free_virt_area_idx\<close>, \<open>mmap\<close> and
  \<open>unmmap\<close> (the kernel's own, not the system calls). The abstract view \<open>heap_view\<close> is the heap as
  its users see it, a partial map from page numbers to page contents; \<open>mmap\<close> is shown to extend
  it by zeroed pages and \<open>unmmap\<close> to shrink it, under the invariant \<open>kheap_inv\<close> that ties the
  page tables, the bitmap of physical pages and the table \<open>kheap_pages\<close> together.
\<close>

section \<open>Operations\<close>

definition KHEAP_START :: addr where "KHEAP_START = 0xC0400000"
definition KHEAP_END :: addr where "KHEAP_END = 0xE0000000"

definition KHEAP_PAGES_NUM :: u32 where
  "KHEAP_PAGES_NUM = (KHEAP_END - KHEAP_START) div PAGE_SIZE"

function kheap_scan :: "(nat \<Rightarrow> u8) \<Rightarrow> u32 \<Rightarrow> u32 \<Rightarrow> u32 \<Rightarrow> u32" where
  "kheap_scan pages npages i page_accumulator =
     (if i < KHEAP_PAGES_NUM then
        if pages (unat i) \<noteq> 0 then kheap_scan pages npages (i + 1) 0
        else if page_accumulator + 1 = npages then i
        else kheap_scan pages npages (i + 1) (page_accumulator + 1)
      else i)"
  by pat_completeness auto
termination
  by (relation "measure (\<lambda>(pages, npages, i, acc). unat KHEAP_PAGES_NUM - unat i)")
    (auto simp: unat_Suc_u32, auto simp: word_less_nat_alt)

declare kheap_scan.simps [simp del]

definition free_virt_area_idx :: "u32 \<Rightarrow> 'a mem_state_scheme \<Rightarrow> u32" where
  "free_virt_area_idx npages s = kheap_scan (kheap_pages s) npages 0 0 - (npages - 1)"

text \<open>Writing \<open>kheap_pages[i]\<close>; outside the array it is \<open>None\<close>.\<close>

definition set_kheap_page :: "u32 \<Rightarrow> u8 \<Rightarrow> 'a mem_state_scheme \<Rightarrow> 'a mem_state_scheme option" where
  "set_kheap_page i v s =
     (if i < KHEAP_PAGES_NUM then Some (s\<lparr>kheap_pages := (kheap_pages s)(unat i := v)\<rparr>) else None)"

text \<open>The body of the loop of \<open>mmap\<close>, for the heap page \<open>free_virt_area_tmp\<close>.\<close>

definition mmap_page :: "u8 \<Rightarrow> u32 \<Rightarrow> 'a mem_state_scheme \<Rightarrow> 'a mem_state_scheme option" where
  "mmap_page flags free_virt_area_tmp s = do {
     (page_phys_addr, s) \<leftarrow> pmm_alloc 1 s;
     s \<leftarrow> zero_page page_phys_addr s;
     let base_addr = KHEAP_START + free_virt_area_tmp * PAGE_SIZE;
     pde \<leftarrow> vload32 (entry (kernel_page_directory s) (PDE_INDEX base_addr)) s;
     s \<leftarrow> (if pde = 0 then do {
              (page_table_phys_addr, s) \<leftarrow> pmm_alloc 1 s;
              s \<leftarrow> zero_page page_table_phys_addr s;
              vstore32 (entry (kernel_page_directory s) (PDE_INDEX base_addr))
                ((page_table_phys_addr AND PAGE_MASK) OR ucast flags) s }
            else Some s);
     pde \<leftarrow> vload32 (entry (kernel_page_directory s) (PDE_INDEX base_addr)) s;
     s \<leftarrow> write_entry pde (PTE_INDEX base_addr) ((page_phys_addr AND PAGE_MASK) OR ucast flags) s;
     set_kheap_page free_virt_area_tmp 1 (invlpg base_addr s) }"

fun mmap_loop :: "nat \<Rightarrow> u8 \<Rightarrow> u32 \<Rightarrow> 'a mem_state_scheme \<Rightarrow> 'a mem_state_scheme option" where
  "mmap_loop 0 flags free_virt_area_tmp s = Some s"
| "mmap_loop (Suc n) flags free_virt_area_tmp s = do {
     s \<leftarrow> mmap_page flags free_virt_area_tmp s;
     mmap_loop n flags (free_virt_area_tmp + 1) s }"

definition mmap :: "u32 \<Rightarrow> u8 \<Rightarrow> 'a mem_state_scheme \<Rightarrow> (addr \<times> 'a mem_state_scheme) option" where
  "mmap npages flags s = (
     let free_virt_area_start = free_virt_area_idx npages s in do {
     s \<leftarrow> mmap_loop (unat npages) flags free_virt_area_start s;
     Some (KHEAP_START + free_virt_area_start * PAGE_SIZE, s) })"

definition unmmap_page :: "addr \<Rightarrow> 'a mem_state_scheme \<Rightarrow> 'a mem_state_scheme option" where
  "unmmap_page virt_addr s = do {
     let page_idx = (virt_addr - KHEAP_START) div PAGE_SIZE;
     pde \<leftarrow> vload32 (entry (kernel_page_directory s) (PDE_INDEX virt_addr)) s;
     (kernel_page_table, s) \<leftarrow> map_tmp_page pde s;
     e \<leftarrow> vload32 (entry kernel_page_table (PTE_INDEX virt_addr)) s;
     let phys_addr = e AND PAGE_MASK;
     s \<leftarrow> pmm_free phys_addr 1 s;
     s \<leftarrow> vstore32 (entry kernel_page_table (PTE_INDEX virt_addr)) 0 s;
     s \<leftarrow> set_kheap_page page_idx 0 s;
     s \<leftarrow> unmap_tmp_page s;
     Some (invlpg virt_addr s) }"

fun unmmap_loop :: "nat \<Rightarrow> addr \<Rightarrow> 'a mem_state_scheme \<Rightarrow> 'a mem_state_scheme option" where
  "unmmap_loop 0 virt_addr s = Some s"
| "unmmap_loop (Suc n) virt_addr s = do {
     s \<leftarrow> unmmap_page virt_addr s;
     unmmap_loop n (virt_addr + PAGE_SIZE) s }"

definition unmmap :: "addr \<Rightarrow> u32 \<Rightarrow> 'a mem_state_scheme \<Rightarrow> 'a mem_state_scheme option" where
  "unmmap virt_addr npages s = unmmap_loop (unat npages) virt_addr s"

section \<open>Heap pages and their entries\<close>

definition heap_va :: "nat \<Rightarrow> addr" where
  "heap_va h = KHEAP_START + of_nat h * PAGE_SIZE"

definition kpde :: "'a mem_state_scheme \<Rightarrow> u32 \<Rightarrow> u32" where
  "kpde s d = load32 (phys s) (entry (kpd_phys s) d)"

definition table :: "'a mem_state_scheme \<Rightarrow> u32 \<Rightarrow> addr" where
  "table s d = kpde s d AND PAGE_MASK"

definition hpte :: "'a mem_state_scheme \<Rightarrow> nat \<Rightarrow> u32" where
  "hpte s h = load32 (phys s) (entry (table s (PDE_INDEX (heap_va h))) (PTE_INDEX (heap_va h)))"

definition hframe :: "'a mem_state_scheme \<Rightarrow> nat \<Rightarrow> addr" where
  "hframe s h = hpte s h AND PAGE_MASK"

definition mapped :: "'a mem_state_scheme \<Rightarrow> nat \<Rightarrow> bool" where
  "mapped s h \<longleftrightarrow> h < 130048 \<and> kheap_pages s h \<noteq> 0"

text \<open>The directory entries that cover the heap.\<close>

definition heap_dir :: "u32 \<Rightarrow> bool" where
  "heap_dir d \<longleftrightarrow> 769 \<le> d \<and> d < 896"

definition frame_used :: "'a mem_state_scheme \<Rightarrow> addr \<Rightarrow> bool" where
  "frame_used s f \<longleftrightarrow> page_aligned f \<and> unat f div 4096 \<in> used_pages s"

definition kheap_inv :: "'a mem_state_scheme \<Rightarrow> bool" where
  "kheap_inv s \<longleftrightarrow> win_wf s \<and> closed s \<and> pmm_inv s \<and> (\<forall>f \<in> win_frames s. frame_used s f) \<and>
     (\<forall>d. heap_dir d \<and> kpde s d \<noteq> 0 \<longrightarrow>
        \<not> denies True (kpde s d) \<and> frame_used s (table s d) \<and> table s d \<notin> win_frames s) \<and>
     (\<forall>d d'. heap_dir d \<and> heap_dir d' \<and> kpde s d \<noteq> 0 \<and> kpde s d' \<noteq> 0 \<and> table s d = table s d' \<longrightarrow> d = d') \<and>
     (\<forall>h. mapped s h \<longrightarrow> kpde s (PDE_INDEX (heap_va h)) \<noteq> 0 \<and> \<not> denies True (hpte s h) \<and>
        frame_used s (hframe s h) \<and> hframe s h \<notin> win_frames s \<and>
        (\<forall>d. heap_dir d \<and> kpde s d \<noteq> 0 \<longrightarrow> hframe s h \<noteq> table s d)) \<and>
     (\<forall>h h'. mapped s h \<and> mapped s h' \<and> hframe s h = hframe s h' \<longrightarrow> h = h')"

text \<open>The heap as its users see it.\<close>

definition heap_view :: "'a mem_state_scheme \<Rightarrow> nat \<Rightarrow> (u32 \<Rightarrow> u8) option" where
  "heap_view s h =
     (if mapped s h then Some (\<lambda>off. if off < 4096 then phys s (hframe s h + off) else 0) else None)"

lemma KHEAP_PAGES_NUM_eq: "KHEAP_PAGES_NUM = 130048"
  by (simp add: KHEAP_PAGES_NUM_def KHEAP_START_def KHEAP_END_def PAGE_SIZE_def)

lemma unat_heap_va: "h < 130048 \<Longrightarrow> unat (heap_va h) = 3225419776 + h * 4096"
proof -
  assume h: "h < 130048"
  have "unat (of_nat h * PAGE_SIZE) = h * 4096"
    using h unat_mult_u32 [of "of_nat h" PAGE_SIZE] by (simp add: PAGE_SIZE_def unat_of_nat)
  with h show ?thesis
    by (simp add: heap_va_def KHEAP_START_def unat_add_u32)
qed

lemma heap_va_index:
  assumes "h < 130048"
  shows "unat (PDE_INDEX (heap_va h)) = 769 + h div 1024" "unat (PTE_INDEX (heap_va h)) = h mod 1024"
    "page_aligned (heap_va h)" "heap_dir (PDE_INDEX (heap_va h))"
proof -
  have d: "unat (heap_va h) div 4096 = 787456 + h" using unat_heap_va [OF assms] by simp
  then show p: "unat (PDE_INDEX (heap_va h)) = 769 + h div 1024"
    by (simp add: unat_PDE_INDEX div_4194304)
  show "unat (PTE_INDEX (heap_va h)) = h mod 1024"
    unfolding unat_PTE_INDEX d using mod_mult_self1 [of h 769 1024] by (simp add: add.commute)
  show "page_aligned (heap_va h)"
    using unat_heap_va [OF assms] by (simp add: page_aligned_iff)
  have "h div 1024 < 127" using assms by simp
  with p show "heap_dir (PDE_INDEX (heap_va h))"
    by (simp add: heap_dir_def word_le_nat_alt word_less_nat_alt)
qed

lemma heap_va_inject: 
  "h < 130048 \<Longrightarrow> h' < 130048 \<Longrightarrow> PDE_INDEX (heap_va h) = PDE_INDEX (heap_va h') \<Longrightarrow>
   PTE_INDEX (heap_va h) = PTE_INDEX (heap_va h') \<Longrightarrow> h = h'"
  using heap_va_index(1,2) [of h] heap_va_index(1,2) [of h']
  by (metis add_left_cancel div_mod_decomp)

lemma heap_page_index: "h < 130048 \<Longrightarrow> (heap_va h - KHEAP_START) div PAGE_SIZE = of_nat h"
proof -
  assume h: "h < 130048"
  then have "unat (of_nat h * PAGE_SIZE) = h * 4096"
    using unat_mult_u32 [of "of_nat h" PAGE_SIZE] by (simp add: PAGE_SIZE_def unat_of_nat)
  then have "unat ((heap_va h - KHEAP_START) div PAGE_SIZE) = h"
    by (simp add: heap_va_def unat_div_distrib) (simp add: PAGE_SIZE_def)
  then show ?thesis by (metis of_nat_unat ucast_id)
qed

lemma heap_dir_lt: "heap_dir d \<Longrightarrow> d < 1024 \<and> d \<noteq> 768"
  by (auto simp: heap_dir_def word_le_nat_alt word_less_nat_alt)

section \<open>Reading and writing the kernel page directory\<close>

lemma kpd_load:
  "win_wf s \<Longrightarrow> d < 1024 \<Longrightarrow> vload32 (entry (kernel_page_directory s) d) s = Some (kpde s d)"
  using translate_kmapped [of s "kernel_page_directory s" "kpd_phys s" d]
  by (simp add: vload32_def kpde_def win_wf_def)

lemma kpd_store:
  "win_wf s \<Longrightarrow> d < 1024 \<Longrightarrow>
   vstore32 (entry (kernel_page_directory s) d) v s = Some (s\<lparr>phys := store32 (phys s) (entry (kpd_phys s) d) v\<rparr>)"
  using translate_kmapped [of s "kernel_page_directory s" "kpd_phys s" d]
  by (simp add: vstore32_def win_wf_def)

lemma kpde_simps [simp]:
  "kpde (s\<lparr>bitmap := b\<rparr>) d = kpde s d" "kpde (s\<lparr>invlpg_log := l\<rparr>) d = kpde s d"
  "kpde (s\<lparr>kheap_pages := k\<rparr>) d = kpde s d"
  by (simp_all add: kpde_def kpd_phys_def)

lemma win_frames_simps [simp]:
  "win_frames (s\<lparr>bitmap := b\<rparr>) = win_frames s" "win_frames (s\<lparr>invlpg_log := l\<rparr>) = win_frames s"
  by (simp_all add: win_frames_def)

lemma may_write_kpd: "win_wf s \<Longrightarrow> d < 1024 \<Longrightarrow> d \<noteq> 768 \<Longrightarrow> may_write s (kpd_phys s) d"
  by (auto simp: may_write_def win_wf_def)

section \<open>Fresh frames\<close>

lemma fresh_frame:
  assumes "pmm_inv s" and "n \<in> free_pages s"
  shows "page_aligned (page_addr n)" and "frame_used s g \<Longrightarrow> page_addr n \<noteq> g"
    and "unat (page_addr n) div 4096 = n"
proof -
  have n: "n < 1048576" using assms page_count_bound by (auto simp: free_pages_def)
  show "page_aligned (page_addr n)" by (rule page_aligned_page_addr [OF n])
  show d: "unat (page_addr n) div 4096 = n" using unat_page_addr [OF n] by simp
  show "frame_used s g \<Longrightarrow> page_addr n \<noteq> g"
    using d assms(2) by (auto simp: frame_used_def used_pages_def free_pages_def)
qed

section \<open>One page\<close>

text \<open>The state after \<open>mmap_page\<close> when the page table is there already.\<close>

lemma mmap_page_table_present:
  assumes inv: "kheap_inv s" and h: "h < 130048"
    and pde: "kpde s (PDE_INDEX (heap_va h)) \<noteq> 0" and free: "free_pages s \<noteq> {}"
  obtains n arr l where "n \<in> free_pages s" "pmm_inv (s\<lparr>bitmap := arr\<rparr>)"
    "free_pages (s\<lparr>bitmap := arr\<rparr>) = free_pages s - {n}"
    "used_pages (s\<lparr>bitmap := arr\<rparr>) = insert n (used_pages s)"
    "mmap_page 3 (of_nat h) s = Some (s\<lparr>bitmap := arr,
      phys := store32 (zero_frame (phys s) (page_addr n))
        (entry (table s (PDE_INDEX (heap_va h))) (PTE_INDEX (heap_va h))) (page_addr n OR 3),
      kheap_pages := (kheap_pages s)(h := 1), invlpg_log := l\<rparr>)"
proof -
  let ?d = "PDE_INDEX (heap_va h)" and ?p = "PTE_INDEX (heap_va h)"
  have wf: "win_wf s" "closed s" "pmm_inv s" "\<And>f. f \<in> win_frames s \<Longrightarrow> frame_used s f"
    and tab: "table s ?d \<notin> win_frames s"
    using inv pde heap_va_index(4) [OF h] unfolding kheap_inv_def by blast+
  obtain n arr where a: "pmm_alloc 1 s = Some (page_addr n, s\<lparr>bitmap := arr\<rparr>)" "n \<in> free_pages s"
    "pmm_inv (s\<lparr>bitmap := arr\<rparr>)" "free_pages (s\<lparr>bitmap := arr\<rparr>) = free_pages s - {n}"
    "used_pages (s\<lparr>bitmap := arr\<rparr>) = insert n (used_pages s)"
    using pmm_alloc_one [OF wf(3) free] by metis
  let ?f = "page_addr n" and ?s1 = "s\<lparr>bitmap := arr\<rparr>" and ?t = "tmp_map_addr s"
  have f: "page_aligned ?f" "?f \<notin> win_frames s" using fresh_frame [OF wf(3) a(2)] wf(4) by blast+
  have m: "?f AND PAGE_MASK = ?f" by (rule mask_page_aligned [OF f(1)])
  let ?m = "zero_frame (phys s) ?f"
  let ?s2 = "s\<lparr>bitmap := arr, phys := ?m, invlpg_log := invlpg_log s @ [?t, ?t]\<rparr>"
  have z: "zero_page ?f ?s1 = Some ?s2"
    using zero_page_eq [of ?s1 ?f] wf(1,2) f m by simp
  have w2: "win_wf ?s2" "closed ?s2" "win_frames ?s2 = win_frames s"
    using zero_keeps [of ?s1 ?f "invlpg_log s @ [?t, ?t]"] wf(1,2) f by simp_all
  have k: "kpde ?s2 ?d = kpde s ?d"
    using f(2) wf(1) by (auto simp: kpde_def kpd_phys_def [symmetric] load32_zero_frame win_frames_def win_wf_def)
  have mw: "may_write ?s2 (table s ?d) ?p"
    using tab w2(3) by (intro may_write_fresh) (simp_all add: table_def)
  have we: "write_entry (kpde s ?d) ?p (?f OR 3) ?s2 = Some (?s2\<lparr>
      phys := store32 ?m (entry (table s ?d) ?p) (?f OR 3),
      invlpg_log := invlpg_log ?s2 @ [?t, ?t]\<rparr>)"
    using write_entry_eq [OF w2(1,2), of "kpde s ?d" ?p "?f OR 3"] mw by (simp add: table_def)
  have hv: "KHEAP_START + of_nat h * PAGE_SIZE = heap_va h" by (simp add: heap_va_def)
  have hl: "(of_nat h :: u32) < KHEAP_PAGES_NUM" "unat (of_nat h :: u32) = h"
    using h by (simp_all add: KHEAP_PAGES_NUM_eq word_less_nat_alt unat_of_nat)
  have kl: "vload32 (entry (kernel_page_directory s) ?d) ?s2 = Some (kpde s ?d)"
    using kpd_load [OF w2(1), of ?d] k by simp
  have "mmap_page 3 (of_nat h) s = Some (s\<lparr>bitmap := arr,
      phys := store32 ?m (entry (table s ?d) ?p) (?f OR 3), kheap_pages := (kheap_pages s)(h := 1),
      invlpg_log := invlpg_log ?s2 @ [?t, ?t, heap_va h]\<rparr>)"
    unfolding mmap_page_def
    by (simp add: a(1) z hv kl pde we m set_kheap_page_def hl invlpg_def Let_def)
  then show thesis by (rule that [OF a(2-5)])
qed

text \<open>The state when the page table had to be allocated first.\<close>

lemma mmap_page_table_absent:
  assumes inv: "kheap_inv s" and h: "h < 130048"
    and pde: "kpde s (PDE_INDEX (heap_va h)) = 0" and free: "2 \<le> card (free_pages s)"
  obtains n k arr l where "n \<in> free_pages s" "k \<in> free_pages s" "n \<noteq> k" "pmm_inv (s\<lparr>bitmap := arr\<rparr>)"
    "free_pages (s\<lparr>bitmap := arr\<rparr>) = free_pages s - {n, k}"
    "used_pages (s\<lparr>bitmap := arr\<rparr>) = insert k (insert n (used_pages s))"
    "mmap_page 3 (of_nat h) s = Some (s\<lparr>bitmap := arr,
      phys := store32 (store32 (zero_frame (zero_frame (phys s) (page_addr n)) (page_addr k))
          (entry (kpd_phys s) (PDE_INDEX (heap_va h))) (page_addr k OR 3))
        (entry (page_addr k) (PTE_INDEX (heap_va h))) (page_addr n OR 3),
      kheap_pages := (kheap_pages s)(h := 1), invlpg_log := l\<rparr>)"
proof -
  let ?d = "PDE_INDEX (heap_va h)" and ?p = "PTE_INDEX (heap_va h)" and ?t = "tmp_map_addr s"
  have wf: "win_wf s" "closed s" "pmm_inv s" "\<And>f. f \<in> win_frames s \<Longrightarrow> frame_used s f"
    using inv unfolding kheap_inv_def by blast+
  have d: "?d < 1024" "?d \<noteq> 768" using heap_dir_lt [OF heap_va_index(4) [OF h]] by blast+
  have "free_pages s \<noteq> {}" using free by auto
  then obtain n arr1 where a: "pmm_alloc 1 s = Some (page_addr n, s\<lparr>bitmap := arr1\<rparr>)" "n \<in> free_pages s"
    "pmm_inv (s\<lparr>bitmap := arr1\<rparr>)" "free_pages (s\<lparr>bitmap := arr1\<rparr>) = free_pages s - {n}"
    "used_pages (s\<lparr>bitmap := arr1\<rparr>) = insert n (used_pages s)"
    using pmm_alloc_one [OF wf(3)] by metis
  let ?f = "page_addr n" and ?s1 = "s\<lparr>bitmap := arr1\<rparr>"
  let ?m1 = "zero_frame (phys s) ?f"
  let ?s2 = "s\<lparr>bitmap := arr1, phys := ?m1, invlpg_log := invlpg_log s @ [?t, ?t]\<rparr>"
  have f: "page_aligned ?f" "?f \<notin> win_frames s" using fresh_frame [OF wf(3) a(2)] wf(4) by blast+
  have mf: "?f AND PAGE_MASK = ?f" by (rule mask_page_aligned [OF f(1)])
  have z1: "zero_page ?f ?s1 = Some ?s2" using zero_page_eq [of ?s1 ?f] wf(1,2) f mf by simp
  have w2: "win_wf ?s2" "closed ?s2" "win_frames ?s2 = win_frames s"
    using zero_keeps [of ?s1 ?f "invlpg_log s @ [?t, ?t]"] wf(1,2) f by simp_all
  have "kpde ?s2 ?d = 0"
    using f(2) wf(1) pde by (auto simp: kpde_def load32_zero_frame win_frames_def win_wf_def)
  then have kl: "vload32 (entry (kernel_page_directory s) ?d) ?s2 = Some 0"
    using kpd_load [OF w2(1) d(1)] by simp
  have "pmm_inv ?s2" "free_pages ?s2 = free_pages s - {n}" "used_pages ?s2 = insert n (used_pages s)"
    using a(3-5) pmm_cong [of ?s2 ?s1] by simp_all
  moreover have "free_pages s - {n} \<noteq> {}"
    using free card_mono [of "{n}" "free_pages s"] by force
  ultimately obtain k arr where b: "pmm_alloc 1 ?s2 = Some (page_addr k, ?s2\<lparr>bitmap := arr\<rparr>)"
    "k \<in> free_pages s - {n}" "pmm_inv (?s2\<lparr>bitmap := arr\<rparr>)"
    "free_pages (?s2\<lparr>bitmap := arr\<rparr>) = free_pages s - {n} - {k}"
    "used_pages (?s2\<lparr>bitmap := arr\<rparr>) = insert k (insert n (used_pages s))"
    using pmm_alloc_one [of ?s2] by metis
  let ?g = "page_addr k"
  let ?s3 = "s\<lparr>phys := ?m1, invlpg_log := invlpg_log s @ [?t, ?t], bitmap := arr\<rparr>"
  have g: "page_aligned ?g" "?g \<notin> win_frames s" using fresh_frame [OF wf(3)] b(2) wf(4) by blast+
  have mg: "?g AND PAGE_MASK = ?g" by (rule mask_page_aligned [OF g(1)])
  have w3: "win_wf ?s3" "closed ?s3" "win_frames ?s3 = win_frames s"
    using zero_keeps [of s ?f "invlpg_log s @ [?t, ?t]"] wf(1,2) f by simp_all
  let ?m2 = "zero_frame ?m1 ?g" and ?L = "invlpg_log s @ [?t, ?t, ?t, ?t]"
  let ?s4 = "s\<lparr>bitmap := arr, phys := ?m2, invlpg_log := ?L\<rparr>"
  have z2: "zero_page ?g ?s3 = Some ?s4" using zero_page_eq [of ?s3 ?g] w3 g mg by simp
  have w4: "win_wf ?s4" "closed ?s4" "win_frames ?s4 = win_frames s"
    using zero_keeps [of ?s3 ?g ?L] w3 g by simp_all
  let ?m3 = "store32 ?m2 (entry (kpd_phys s) ?d) (?g OR 3)"
  let ?s5 = "s\<lparr>bitmap := arr, invlpg_log := ?L, phys := ?m3\<rparr>"
  have ks: "vstore32 (entry (kernel_page_directory s) ?d) (?g OR 3) ?s4 = Some ?s5"
    using kpd_store [OF w4(1) d(1), of "?g OR 3"] by (simp add: kpd_phys_def)
  have mw: "may_write ?s4 (kpd_phys s) ?d"
    using d w4(1) by (simp add: may_write_def win_wf_def) (auto simp: kpd_phys_def)
  have w5: "win_wf ?s5" "closed ?s5" "win_frames ?s5 = win_frames s"
    using write_keeps [OF w4(1,2) mw, where v = "?g OR 3" and l = ?L] w4(3)
      same_winD [of ?s5 "?s4\<lparr>phys := ?m3, invlpg_log := ?L\<rparr>"] by (simp_all add: same_win_def)
  have kp: "page_aligned (kpd_phys s)" using wf(1) by (simp add: win_wf_def)
  have kl5: "vload32 (entry (kernel_page_directory s) ?d) ?s5 = Some (?g OR 3)"
    using kpd_load [OF w5(1) d(1)] by (simp add: kpde_def kpd_phys_def)
  have gf: "(?g OR 3) AND PAGE_MASK = ?g" using g(1) by (simp add: page_aligned_frame)
  have "may_write ?s5 ?g ?p" using g w5(3) by (intro may_write_fresh) simp_all
  then have we: "write_entry (?g OR 3) ?p (?f OR 3) ?s5 = Some (?s5\<lparr>
      phys := store32 ?m3 (entry ?g ?p) (?f OR 3), invlpg_log := ?L @ [?t, ?t]\<rparr>)"
    using write_entry_eq [OF w5(1,2), of "?g OR 3" ?p "?f OR 3"] gf by simp
  have hv: "KHEAP_START + of_nat h * PAGE_SIZE = heap_va h" by (simp add: heap_va_def)
  have hl: "(of_nat h :: u32) < KHEAP_PAGES_NUM" "unat (of_nat h :: u32) = h"
    using h by (simp_all add: KHEAP_PAGES_NUM_eq word_less_nat_alt unat_of_nat)
  have res: "mmap_page 3 (of_nat h) s = Some (s\<lparr>bitmap := arr, phys := store32 ?m3 (entry ?g ?p) (?f OR 3),
      kheap_pages := (kheap_pages s)(h := 1), invlpg_log := ?L @ [?t, ?t, heap_va h]\<rparr>)"
    unfolding mmap_page_def
    by (simp add: a(1) z1 hv kl b(1) z2 ks kl5 we mf mg set_kheap_page_def hl invlpg_def Let_def)
  have "pmm_inv (s\<lparr>bitmap := arr\<rparr>)" "free_pages (s\<lparr>bitmap := arr\<rparr>) = free_pages s - {n, k}"
    "used_pages (s\<lparr>bitmap := arr\<rparr>) = insert k (insert n (used_pages s))"
    using b(3-5) pmm_cong [of "?s2\<lparr>bitmap := arr\<rparr>" "s\<lparr>bitmap := arr\<rparr>"] by auto
  then show thesis
    using that [OF a(2) _ _ _ _ _ res] b(2) by blast
qed

section \<open>The invariant survives\<close>

lemmas kheap_invD = kheap_inv_def [THEN iffD1]

lemma kheap_inv_basic:
  "kheap_inv s \<Longrightarrow> win_wf s" "kheap_inv s \<Longrightarrow> closed s" "kheap_inv s \<Longrightarrow> pmm_inv s"
  "kheap_inv s \<Longrightarrow> f \<in> win_frames s \<Longrightarrow> frame_used s f"
  by (simp_all add: kheap_inv_def)

lemma kheap_inv_table:
  assumes "kheap_inv s" and "heap_dir d" and "kpde s d \<noteq> 0"
  shows "\<not> denies True (kpde s d)" "frame_used s (table s d)" "table s d \<notin> win_frames s"
    "heap_dir d' \<Longrightarrow> kpde s d' \<noteq> 0 \<Longrightarrow> table s d = table s d' \<Longrightarrow> d = d'"
  using assms unfolding kheap_inv_def by blast+

lemma kheap_inv_page:
  assumes "kheap_inv s" and "mapped s h"
  shows "kpde s (PDE_INDEX (heap_va h)) \<noteq> 0" "\<not> denies True (hpte s h)" "frame_used s (hframe s h)"
    "hframe s h \<notin> win_frames s" "heap_dir d \<Longrightarrow> kpde s d \<noteq> 0 \<Longrightarrow> hframe s h \<noteq> table s d"
    "mapped s h' \<Longrightarrow> hframe s h = hframe s h' \<Longrightarrow> h = h'"
  using assms unfolding kheap_inv_def by blast+

lemma kheap_inv_extend:
  fixes s s' :: "'a mem_state_scheme"
  assumes inv: "kheap_inv s" and h: "h < 130048"
    and wf: "win_wf s'" "closed s'" "pmm_inv s'" "win_frames s' = win_frames s"
      "\<And>g. frame_used s g \<Longrightarrow> frame_used s' g"
    and kh: "kheap_pages s' = (kheap_pages s)(h := 1)"
    and dirs: "\<And>e. heap_dir e \<Longrightarrow> e \<noteq> PDE_INDEX (heap_va h) \<Longrightarrow> kpde s' e = kpde s e"
    and dir: "\<not> denies True (kpde s' (PDE_INDEX (heap_va h)))"
      "frame_used s' (table s' (PDE_INDEX (heap_va h)))"
      "table s' (PDE_INDEX (heap_va h)) \<notin> win_frames s"
      "kpde s' (PDE_INDEX (heap_va h)) = kpde s (PDE_INDEX (heap_va h)) \<and> kpde s (PDE_INDEX (heap_va h)) \<noteq> 0 \<or>
       kpde s (PDE_INDEX (heap_va h)) = 0 \<and> \<not> frame_used s (table s' (PDE_INDEX (heap_va h)))"
    and old: "\<And>h'. mapped s h' \<Longrightarrow> h' \<noteq> h \<Longrightarrow> hpte s' h' = hpte s h'"
    and new: "\<not> denies True (hpte s' h)" "frame_used s' (hframe s' h)" "\<not> frame_used s (hframe s' h)"
      "hframe s' h \<noteq> table s' (PDE_INDEX (heap_va h))"
  shows "kheap_inv s'"
proof -
  let ?d = "PDE_INDEX (heap_va h)"
  have d: "heap_dir ?d" by (rule heap_va_index(4) [OF h])
  have tab: "e = ?d \<or> kpde s e \<noteq> 0 \<and> table s' e = table s e" if "heap_dir e" "kpde s' e \<noteq> 0" for e
    using dirs [of e] that by (auto simp: table_def)
  have ts: "frame_used s (table s e)" if "heap_dir e" "kpde s e \<noteq> 0" for e
    using kheap_inv_table(2) [OF inv that] .
  have td: "table s' ?d \<noteq> table s e" if "heap_dir e" "kpde s e \<noteq> 0" "e \<noteq> ?d" for e
    using dir(4) ts [OF that(1,2)] kheap_inv_table(4) [OF inv d _ that(1,2)] that(3)
    by (auto simp: table_def)
  have mp: "mapped s' k \<longleftrightarrow> k = h \<or> mapped s k" for k
    using h by (auto simp: mapped_def kh)
  have hf: "hframe s' k = hframe s k" if "mapped s k" "k \<noteq> h" for k
    using old [OF that] by (simp add: hframe_def)
  have d0: "kpde s' ?d \<noteq> 0" using dir(1) by (auto simp: denies_def)
  have pg: "kpde s' (PDE_INDEX (heap_va k)) \<noteq> 0 \<and> \<not> denies True (hpte s' k) \<and>
      frame_used s' (hframe s' k) \<and> hframe s' k \<notin> win_frames s' \<and>
      (\<forall>e. heap_dir e \<and> kpde s' e \<noteq> 0 \<longrightarrow> hframe s' k \<noteq> table s' e)" if "mapped s' k" for k
  proof (cases "k = h")
    case True
    have "hframe s' h \<notin> win_frames s" using new(3) kheap_inv_basic(4) [OF inv] by blast
    moreover have "hframe s' h \<noteq> table s' e" if "heap_dir e" "kpde s' e \<noteq> 0" for e
      using tab [OF that] ts [OF that(1)] new(3,4) by metis
    ultimately show ?thesis using True d0 new(1,2) wf(4) by blast
  next
    case False
    with that mp have k: "mapped s k" by blast
    have "kpde s' (PDE_INDEX (heap_va k)) \<noteq> 0"
      using dirs [of "PDE_INDEX (heap_va k)"] kheap_inv_page(1) [OF inv k] d0 heap_va_index(4) k
      by (metis mapped_def)
    moreover have "hframe s k \<noteq> table s' e" if "heap_dir e" "kpde s' e \<noteq> 0" for e
    proof (cases "e = ?d")
      case True
      show ?thesis
        using dir(4) kheap_inv_page(3,5) [OF inv k] True d by (metis table_def)
    next
      case False
      with tab [OF that] show ?thesis using kheap_inv_page(5) [OF inv k that(1)] by metis
    qed
    ultimately show ?thesis
      using kheap_inv_page(2,3,4) [OF inv k] wf(4,5) hf [OF k False] old [OF k False] by simp
  qed
  have "\<not> denies True (kpde s' e) \<and> frame_used s' (table s' e) \<and> table s' e \<notin> win_frames s'"
    if "heap_dir e" "kpde s' e \<noteq> 0" for e
  proof (cases "e = ?d")
    case True
    with dir(1-3) wf(4) show ?thesis by simp
  next
    case False
    with tab [OF that] have e: "kpde s e \<noteq> 0" "table s' e = table s e" by auto
    with kheap_inv_table(1-3) [OF inv that(1) e(1)] wf(4,5) dirs [OF that(1) False] show ?thesis by simp
  qed
  moreover have "e = e'" if "heap_dir e" "heap_dir e'" "kpde s' e \<noteq> 0" "kpde s' e' \<noteq> 0" "table s' e = table s' e'" for e e'
    using tab [OF that(1,3)] tab [OF that(2,4)] td that kheap_inv_table(4) [OF inv] by metis
  moreover have "k = k'" if "mapped s' k" "mapped s' k'" "hframe s' k = hframe s' k'" for k k'
  proof -
    have "frame_used s (hframe s' j)" if "mapped s j" "j \<noteq> h" for j
      using kheap_inv_page(3) [OF inv that(1)] hf [OF that] by simp
    then show ?thesis
      using that mp [of k] mp [of k'] new(3) hf kheap_inv_page(6) [OF inv] by metis
  qed
  moreover have "\<forall>f \<in> win_frames s'. frame_used s' f"
    using kheap_inv_basic(4) [OF inv] wf(4,5) by simp
  ultimately show ?thesis
    unfolding kheap_inv_def using wf(1-3) pg by blast
qed

section \<open>What one mapped page adds\<close>

lemma frame_offset: "page_aligned g \<Longrightarrow> off < 4096 \<Longrightarrow> (g + off) AND PAGE_MASK = g"
  by (rule mask_page_offset(1)) (simp_all add: word_less_nat_alt)

lemma table_aligned [simp]: "page_aligned (table s d)"
  by (simp add: table_def)

lemma hframe_aligned [simp]: "page_aligned (hframe s h)"
  by (simp add: hframe_def)

lemma frame_used_grow:
  "used_pages s \<subseteq> used_pages t \<Longrightarrow> frame_used s g \<Longrightarrow> frame_used t g"
  by (auto simp: frame_used_def)

text \<open>The view after a page was added: the other pages keep their frames and their bytes.\<close>

lemma heap_view_extend:
  assumes "kheap_inv s" and "h < 130048" and "kheap_pages s' = (kheap_pages s)(h := 1)"
    and "\<And>k. mapped s k \<Longrightarrow> k \<noteq> h \<Longrightarrow> hframe s' k = hframe s k"
    and "\<And>a. frame_used s (a AND PAGE_MASK) \<Longrightarrow> \<forall>d. heap_dir d \<and> kpde s d \<noteq> 0 \<longrightarrow> a AND PAGE_MASK \<noteq> table s d \<Longrightarrow>
      a AND PAGE_MASK \<notin> win_frames s \<Longrightarrow> phys s' a = phys s a"
    and "\<And>a. a AND PAGE_MASK = hframe s' h \<Longrightarrow> phys s' a = 0"
  shows "heap_view s' = (heap_view s)(h \<mapsto> (\<lambda>_. 0))"
proof
  fix k
  show "heap_view s' k = ((heap_view s)(h \<mapsto> (\<lambda>_. 0))) k"
  proof (cases "k = h")
    case True
    then have "mapped s' k" using assms(2,3) by (simp add: mapped_def)
    moreover have "phys s' (hframe s' h + off) = 0" if "off < 4096" for off
      using assms(6) frame_offset [OF _ that] by simp
    ultimately show ?thesis using True by (simp add: heap_view_def fun_eq_iff)
  next
    case False
    then have m: "mapped s' k = mapped s k" using assms(3) by (simp add: mapped_def)
    have "phys s' (hframe s k + off) = phys s (hframe s k + off)" if "mapped s k" "off < 4096" for off
    proof (rule assms(5))
      have o: "(hframe s k + off) AND PAGE_MASK = hframe s k" by (rule frame_offset) (use that in simp_all)
      show "frame_used s ((hframe s k + off) AND PAGE_MASK)" "(hframe s k + off) AND PAGE_MASK \<notin> win_frames s"
        using kheap_inv_page(3,4) [OF assms(1) that(1)] o by simp_all
      show "\<forall>d. heap_dir d \<and> kpde s d \<noteq> 0 \<longrightarrow> (hframe s k + off) AND PAGE_MASK \<noteq> table s d"
        using kheap_inv_page(5) [OF assms(1) that(1)] o by simp
    qed
    with m assms(4) [of k] False show ?thesis
      by (auto simp: heap_view_def fun_eq_iff)
  qed
qed

text \<open>
  What mapping the heap pages from \<open>st\<close> to \<open>st + n\<close> takes and what it keeps. It takes the frames of the pages and those of new
  page tables, all of them free before, and nothing else. New tables are only for directory entries of the pages. The directory keeps its
  other entries and the tables that were there keep the entries of other pages; every other frame in use keeps its bytes.
\<close>

definition run_frames :: "nat \<Rightarrow> nat \<Rightarrow> 'a mem_state_scheme \<Rightarrow> nat set" where
  "run_frames st n s' = (\<lambda>h. unat (hframe s' h) div 4096) ` {st..<st + n}"

definition new_tables :: "'a mem_state_scheme \<Rightarrow> 'a mem_state_scheme \<Rightarrow> nat set" where
  "new_tables s s' = (\<lambda>d. unat (table s' d) div 4096) ` {d. heap_dir d \<and> kpde s d = 0 \<and> kpde s' d \<noteq> 0}"

definition takes_run :: "'a mem_state_scheme \<Rightarrow> nat \<Rightarrow> nat \<Rightarrow> 'a mem_state_scheme \<Rightarrow> bool" where
  "takes_run s st n s' \<longleftrightarrow> run_frames st n s' \<union> new_tables s s' \<subseteq> free_pages s \<and>
     free_pages s' = free_pages s - (run_frames st n s' \<union> new_tables s s') \<and>
     used_pages s' = used_pages s \<union> run_frames st n s' \<union> new_tables s s' \<and>
     (\<forall>d. heap_dir d \<and> kpde s d = 0 \<and> kpde s' d \<noteq> 0 \<longrightarrow> d \<in> (\<lambda>h. PDE_INDEX (heap_va h)) ` {st..<st + n}) \<and>
     (\<forall>d < 1024. heap_dir d \<and> kpde s d = 0 \<or> kpde s' d = kpde s d) \<and>
     (\<forall>h < 130048. h \<notin> {st..<st + n} \<and> kpde s (PDE_INDEX (heap_va h)) \<noteq> 0 \<longrightarrow> hpte s' h = hpte s h) \<and>
     (\<forall>a. frame_used s (a AND PAGE_MASK) \<and> a AND PAGE_MASK \<noteq> kpd_phys s \<and>
        (\<forall>d. heap_dir d \<and> kpde s d \<noteq> 0 \<longrightarrow> a AND PAGE_MASK \<noteq> table s d) \<longrightarrow> phys s' a = phys s a)"

lemma takes_runD:
  assumes "takes_run s st n s'"
  shows "run_frames st n s' \<union> new_tables s s' \<subseteq> free_pages s"
    "free_pages s' = free_pages s - (run_frames st n s' \<union> new_tables s s')"
    "used_pages s' = used_pages s \<union> run_frames st n s' \<union> new_tables s s'"
    "heap_dir d \<Longrightarrow> kpde s d = 0 \<Longrightarrow> kpde s' d \<noteq> 0 \<Longrightarrow> d \<in> (\<lambda>h. PDE_INDEX (heap_va h)) ` {st..<st + n}"
    "d < 1024 \<Longrightarrow> \<not> heap_dir d \<or> kpde s d \<noteq> 0 \<Longrightarrow> kpde s' d = kpde s d"
    "h < 130048 \<Longrightarrow> h \<notin> {st..<st + n} \<Longrightarrow> kpde s (PDE_INDEX (heap_va h)) \<noteq> 0 \<Longrightarrow> hpte s' h = hpte s h"
    "frame_used s (a AND PAGE_MASK) \<Longrightarrow> a AND PAGE_MASK \<noteq> kpd_phys s \<Longrightarrow>
      (\<And>d. heap_dir d \<Longrightarrow> kpde s d \<noteq> 0 \<Longrightarrow> a AND PAGE_MASK \<noteq> table s d) \<Longrightarrow> phys s' a = phys s a"
proof -
  note a = assms [unfolded takes_run_def]
  show "run_frames st n s' \<union> new_tables s s' \<subseteq> free_pages s" "free_pages s' = free_pages s - (run_frames st n s' \<union> new_tables s s')"
    "used_pages s' = used_pages s \<union> run_frames st n s' \<union> new_tables s s'" using a by - (elim conjE, assumption)+
  show "heap_dir d \<Longrightarrow> kpde s d = 0 \<Longrightarrow> kpde s' d \<noteq> 0 \<Longrightarrow> d \<in> (\<lambda>h. PDE_INDEX (heap_va h)) ` {st..<st + n}" using a by (elim conjE) simp
  show "d < 1024 \<Longrightarrow> \<not> heap_dir d \<or> kpde s d \<noteq> 0 \<Longrightarrow> kpde s' d = kpde s d" using a by (elim conjE) blast
  show "h < 130048 \<Longrightarrow> h \<notin> {st..<st + n} \<Longrightarrow> kpde s (PDE_INDEX (heap_va h)) \<noteq> 0 \<Longrightarrow> hpte s' h = hpte s h" using a by (elim conjE) blast
  show "frame_used s (a AND PAGE_MASK) \<Longrightarrow> a AND PAGE_MASK \<noteq> kpd_phys s \<Longrightarrow>
      (\<And>d. heap_dir d \<Longrightarrow> kpde s d \<noteq> 0 \<Longrightarrow> a AND PAGE_MASK \<noteq> table s d) \<Longrightarrow> phys s' a = phys s a" using a by (elim conjE) blast
qed

lemma mmap_page_present_ok:
  assumes inv: "kheap_inv s" and h: "h < 130048" "kheap_pages s h = 0"
    and pde: "kpde s (PDE_INDEX (heap_va h)) \<noteq> 0" and free: "free_pages s \<noteq> {}"
  shows "\<exists>s'. mmap_page 3 (of_nat h) s = Some s' \<and> kheap_inv s' \<and>
    heap_view s' = (heap_view s)(h \<mapsto> (\<lambda>_. 0)) \<and> kheap_pages s' = (kheap_pages s)(h := 1) \<and>
    card (free_pages s) \<le> card (free_pages s') + 2 \<and> takes_run s h 1 s'"
proof -
  let ?d = "PDE_INDEX (heap_va h)" and ?p = "PTE_INDEX (heap_va h)"
  let ?T = "table s ?d"
  obtain n arr l where r: "n \<in> free_pages s" "pmm_inv (s\<lparr>bitmap := arr\<rparr>)"
    "free_pages (s\<lparr>bitmap := arr\<rparr>) = free_pages s - {n}"
    "used_pages (s\<lparr>bitmap := arr\<rparr>) = insert n (used_pages s)"
    "mmap_page 3 (of_nat h) s = Some (s\<lparr>bitmap := arr,
      phys := store32 (zero_frame (phys s) (page_addr n)) (entry ?T ?p) (page_addr n OR 3),
      kheap_pages := (kheap_pages s)(h := 1), invlpg_log := l\<rparr>)" (is "_ = Some ?s'")
    by (rule mmap_page_table_present [OF inv h(1) pde free])
  let ?f = "page_addr n" and ?m = "zero_frame (phys s) (page_addr n)"
  note wf = kheap_inv_basic [OF inv]
  have d: "heap_dir ?d" "?d < 1024" "?d \<noteq> 768" using heap_va_index(4) [OF h(1)] heap_dir_lt by blast+
  note T = kheap_inv_table [OF inv d(1) pde]
  have f: "page_aligned ?f" "?f \<notin> win_frames s" "\<And>g. frame_used s g \<Longrightarrow> ?f \<noteq> g" "unat ?f div 4096 = n"
    using fresh_frame [OF wf(3) r(1)] wf(4) by blast+
  have Ta: "page_aligned ?T" by simp
  have kp: "page_aligned (kpd_phys s)" "kpd_phys s \<in> win_frames s" using wf(1) by (simp_all add: win_wf_def win_frames_def)
  let ?s0 = "s\<lparr>phys := ?m, invlpg_log := l\<rparr>"
  have w0: "win_wf ?s0" "closed ?s0" "win_frames ?s0 = win_frames s"
    using zero_keeps [OF wf(1,2) f(1,2)] by blast+
  have "may_write ?s0 ?T ?p" using T(3) Ta w0(3) by (intro may_write_fresh) simp_all
  from write_keeps [OF w0(1,2) this, where v = "?f OR 3" and l = l] same_winD [of ?s' "?s0\<lparr>phys := store32 (phys ?s0) (entry ?T ?p) (?f OR 3), invlpg_log := l\<rparr>"]
  have w: "win_wf ?s'" "closed ?s'" "win_frames ?s' = win_frames s"
    using w0(3) by (simp_all add: same_win_def)
  have ne: "kpd_phys s \<noteq> ?f" "kpd_phys s \<noteq> ?T" using kp(2) f(2) T(3) by metis+
  have k: "kpde ?s' e = kpde s e" if "e < 1024" for e
  proof -
    have "kpd_phys ?s' = kpd_phys s" by (simp add: kpd_phys_def)
    with that ne kp(1) Ta f(1) show ?thesis by (simp add: kpde_def load_store)
  qed
  have t: "table ?s' e = table s e" if "e < 1024" for e using k [OF that] by (simp add: table_def)
  have pm: "pmm_inv ?s'" "used_pages ?s' = insert n (used_pages s)" "free_pages ?s' = free_pages s - {n}"
    using r(2-4) pmm_cong [of ?s' "s\<lparr>bitmap := arr\<rparr>"] by simp_all
  have grow: "frame_used ?s' g" if "frame_used s g" for g
    by (rule frame_used_grow [OF _ that]) (use pm(2) in blast)
  have old': "hpte ?s' j = hpte s j" if "j < 130048" "j \<noteq> h" "kpde s (PDE_INDEX (heap_va j)) \<noteq> 0" for j
  proof -
    let ?e = "PDE_INDEX (heap_va j)"
    have j: "j < 130048" "heap_dir ?e" "?e < 1024" using that heap_va_index(4) heap_dir_lt by auto
    have e: "kpde s ?e \<noteq> 0" using that(3) .
    have "table s ?e \<noteq> ?T \<or> PTE_INDEX (heap_va j) \<noteq> ?p"
      using kheap_inv_table(4) [OF inv j(2) e d(1) pde] heap_va_inject [OF j(1) h(1)] that(2) by blast
    moreover have "table s ?e \<noteq> ?f" using f(3) kheap_inv_table(2) [OF inv j(2) e] by metis
    ultimately show ?thesis
      unfolding hpte_def t [OF j(3)] by (auto simp: load32_store32_entry load32_zero_frame)
  qed
  have old: "hpte ?s' j = hpte s j" if "mapped s j" "j \<noteq> h" for j
    using old' [of j] that kheap_inv_page(1) [OF inv that(1)] by (simp add: mapped_def)
  have hp: "hpte ?s' h = ?f OR 3" using t [OF d(2)] by (simp add: hpte_def)
  then have hf: "hframe ?s' h = ?f" using f(1) by (simp add: hframe_def page_aligned_frame)
  have "kheap_inv ?s'"
  proof (rule kheap_inv_extend [OF inv h(1) w(1,2) pm(1) w(3) grow])
    show "\<not> denies True (hpte ?s' h)" unfolding hp using f(1) by (simp add: denies_def page_aligned_flag)
    show "frame_used ?s' (hframe ?s' h)" unfolding hf using f(1,4) pm(2) by (simp add: frame_used_def)
    show "\<not> frame_used s (hframe ?s' h)" unfolding hf using f(3) by blast
    show "hframe ?s' h \<noteq> table ?s' ?d" unfolding hf t [OF d(2)] using f(3) T(2) by blast
  qed (use k t T pde old grow d heap_dir_lt in \<open>auto\<close>)
  moreover have ph: "phys ?s' a = phys s a" if "frame_used s (a AND PAGE_MASK)"
      "\<forall>d. heap_dir d \<and> kpde s d \<noteq> 0 \<longrightarrow> a AND PAGE_MASK \<noteq> table s d" for a
    using that f(3) [OF that(1)] d(1) pde Ta by (auto simp: store32_other_frame zero_frame_def)
  moreover have "heap_view ?s' = (heap_view s)(h \<mapsto> (\<lambda>_. 0))"
  proof (rule heap_view_extend [OF inv h(1)])
    show "phys ?s' a = phys s a" if "frame_used s (a AND PAGE_MASK)"
      "\<forall>d. heap_dir d \<and> kpde s d \<noteq> 0 \<longrightarrow> a AND PAGE_MASK \<noteq> table s d" for a
      by (rule ph [OF that])
    show "phys ?s' a = 0" if "a AND PAGE_MASK = hframe ?s' h" for a
    proof -
      have "a AND PAGE_MASK \<noteq> ?T" using that hf f(3) T(2) by metis
      with that hf Ta show ?thesis by (simp add: store32_other_frame zero_frame_def)
    qed
  qed (use old in \<open>simp_all add: hframe_def\<close>)
  moreover have "card (free_pages s) \<le> card (free_pages ?s') + 2" using pm(3) r(1) by simp
  moreover have "takes_run s h 1 ?s'"
  proof -
    have s: "run_frames h 1 ?s' = {n}" "new_tables s ?s' = {}" using hf f(4) k heap_dir_lt by (auto simp: run_frames_def new_tables_def)
    show ?thesis unfolding takes_run_def s using pm(2,3) r(1) k heap_dir_lt old' ph by auto
  qed
  ultimately show ?thesis using r(5) by (intro exI [of _ ?s']) simp
qed

lemma mmap_page_absent_ok:
  assumes inv: "kheap_inv s" and h: "h < 130048" "kheap_pages s h = 0"
    and pde: "kpde s (PDE_INDEX (heap_va h)) = 0" and free: "2 \<le> card (free_pages s)"
  shows "\<exists>s'. mmap_page 3 (of_nat h) s = Some s' \<and> kheap_inv s' \<and>
    heap_view s' = (heap_view s)(h \<mapsto> (\<lambda>_. 0)) \<and> kheap_pages s' = (kheap_pages s)(h := 1) \<and>
    card (free_pages s) \<le> card (free_pages s') + 2 \<and> takes_run s h 1 s'"
proof -
  let ?d = "PDE_INDEX (heap_va h)" and ?p = "PTE_INDEX (heap_va h)"
  obtain n k arr l where r: "n \<in> free_pages s" "k \<in> free_pages s" "n \<noteq> k" "pmm_inv (s\<lparr>bitmap := arr\<rparr>)"
    "free_pages (s\<lparr>bitmap := arr\<rparr>) = free_pages s - {n, k}"
    "used_pages (s\<lparr>bitmap := arr\<rparr>) = insert k (insert n (used_pages s))"
    "mmap_page 3 (of_nat h) s = Some (s\<lparr>bitmap := arr,
      phys := store32 (store32 (zero_frame (zero_frame (phys s) (page_addr n)) (page_addr k))
          (entry (kpd_phys s) ?d) (page_addr k OR 3)) (entry (page_addr k) ?p) (page_addr n OR 3),
      kheap_pages := (kheap_pages s)(h := 1), invlpg_log := l\<rparr>)" (is "_ = Some ?s'")
    by (rule mmap_page_table_absent [OF inv h(1) pde free])
  let ?f = "page_addr n" and ?g = "page_addr k"
  let ?m = "zero_frame (zero_frame (phys s) ?f) ?g" and ?K = "entry (kpd_phys s) ?d"
  note wf = kheap_inv_basic [OF inv]
  have d: "heap_dir ?d" "?d < 1024" "?d \<noteq> 768" using heap_va_index(4) [OF h(1)] heap_dir_lt by blast+
  have f: "page_aligned ?f" "?f \<notin> win_frames s" "\<And>g. frame_used s g \<Longrightarrow> ?f \<noteq> g" "unat ?f div 4096 = n"
    and g: "page_aligned ?g" "?g \<notin> win_frames s" "\<And>f. frame_used s f \<Longrightarrow> ?g \<noteq> f" "unat ?g div 4096 = k"
    using fresh_frame [OF wf(3)] r(1,2) wf(4) by blast+
  have fg: "?f \<noteq> ?g" using f(4) g(4) r(3) by auto
  have kp: "page_aligned (kpd_phys s)" "kpd_phys s \<in> win_frames s" using wf(1) by (simp_all add: win_wf_def win_frames_def)
  have ne: "kpd_phys s \<noteq> ?f" "kpd_phys s \<noteq> ?g" using kp(2) f(2) g(2) by metis+
  have kps: "kpd_phys ?s' = kpd_phys s" by (simp add: kpd_phys_def)
  have w: "win_wf ?s'" "closed ?s'" "win_frames ?s' = win_frames s"
  proof -
    let ?s1 = "s\<lparr>phys := zero_frame (phys s) ?f, invlpg_log := l\<rparr>"
    let ?s2 = "?s1\<lparr>phys := zero_frame (phys ?s1) ?g, invlpg_log := l\<rparr>"
    let ?s3 = "?s2\<lparr>phys := store32 (phys ?s2) ?K (?g OR 3), invlpg_log := l\<rparr>"
    have 1: "win_wf ?s1" "closed ?s1" "win_frames ?s1 = win_frames s"
      using zero_keeps [OF wf(1,2) f(1,2)] by blast+
    have 2: "win_wf ?s2" "closed ?s2" "win_frames ?s2 = win_frames s"
      using zero_keeps [OF 1(1,2) g(1)] g(2) 1(3) by simp_all
    have "may_write ?s2 (kpd_phys s) ?d"
      using may_write_kpd [OF 2(1) d(2,3)] by simp
    from write_keeps [OF 2(1,2) this, where v = "?g OR 3" and l = l]
    have 3: "win_wf ?s3" "closed ?s3" "win_frames ?s3 = win_frames s" using 2(3) by simp_all
    have "may_write ?s3 ?g ?p" by (rule may_write_fresh) (use 3(3) g in simp_all)
    from write_keeps [OF 3(1,2) this, where v = "?f OR 3" and l = l] 3(3)
      same_winD [of ?s' "?s3\<lparr>phys := store32 (phys ?s3) (entry ?g ?p) (?f OR 3), invlpg_log := l\<rparr>"]
    show "win_wf ?s'" "closed ?s'" "win_frames ?s' = win_frames s" by (simp_all add: same_win_def)
  qed
  have k: "kpde ?s' e = (if e = ?d then ?g OR 3 else kpde s e)" if "e < 1024" for e
  proof -
    have "kpde ?s' e = load32 (store32 ?m ?K (?g OR 3)) (entry (kpd_phys s) e)"
      unfolding kpde_def kps using that ne kp(1) g(1) by (simp add: load32_store32_entry)
    with that ne kp(1) d(2) show ?thesis by (simp add: kpde_def load32_store32_entry load32_zero_frame)
  qed
  have t: "table ?s' e = (if e = ?d then ?g else table s e)" if "e < 1024" for e
    using k [OF that] g(1) by (simp add: table_def page_aligned_frame)
  have pm: "pmm_inv ?s'" "used_pages ?s' = insert k (insert n (used_pages s))" "free_pages ?s' = free_pages s - {n, k}"
    using r(4-6) pmm_cong [of ?s' "s\<lparr>bitmap := arr\<rparr>"] by simp_all
  have grow: "frame_used ?s' x" if "frame_used s x" for x
    by (rule frame_used_grow [OF _ that]) (use pm(2) in blast)
  have old': "hpte ?s' j = hpte s j" if "j < 130048" "kpde s (PDE_INDEX (heap_va j)) \<noteq> 0" for j
  proof -
    let ?e = "PDE_INDEX (heap_va j)" and ?q = "PTE_INDEX (heap_va j)"
    have j: "heap_dir ?e" "?e < 1024" using that heap_va_index(4) heap_dir_lt by auto
    have e: "kpde s ?e \<noteq> 0" "?e \<noteq> ?d" using that(2) pde by auto
    note T = kheap_inv_table(2,3) [OF inv j(1) e(1)]
    have n: "table s ?e \<noteq> ?g" "table s ?e \<noteq> ?f" "table s ?e \<noteq> kpd_phys s" using f(3) g(3) T kp(2) by metis+
    have "hpte ?s' j = load32 (store32 (store32 ?m ?K (?g OR 3)) (entry ?g ?p) (?f OR 3)) (entry (table s ?e) ?q)"
      using e(2) t [OF j(2)] by (simp add: hpte_def)
    also have "\<dots> = load32 (phys s) (entry (table s ?e) ?q)"
      using n g(1) kp(1) d(2) by (simp add: load32_store32_entry load32_zero_frame)
    finally show ?thesis by (simp add: hpte_def)
  qed
  have old: "hpte ?s' j = hpte s j" if "mapped s j" "j \<noteq> h" for j
    using old' [of j] that kheap_inv_page(1) [OF inv that(1)] by (simp add: mapped_def)
  have hp: "hpte ?s' h = ?f OR 3" using t [OF d(2)] by (simp add: hpte_def)
  then have hf: "hframe ?s' h = ?f" using f(1) by (simp add: hframe_def page_aligned_frame)
  have "kheap_inv ?s'"
  proof (rule kheap_inv_extend [OF inv h(1) w(1,2) pm(1) w(3) grow])
    show "\<not> denies True (hpte ?s' h)" unfolding hp using f(1) by (simp add: denies_def page_aligned_flag)
    show "frame_used ?s' (hframe ?s' h)" unfolding hf using f(1,4) pm(2) by (simp add: frame_used_def)
    show "\<not> frame_used s (hframe ?s' h)" unfolding hf using f(3) by blast
    show "hframe ?s' h \<noteq> table ?s' ?d" unfolding hf t [OF d(2)] using fg by simp
    show "\<not> denies True (kpde ?s' ?d)" unfolding k [OF d(2)] using g(1) by (simp add: denies_def page_aligned_flag)
    show "frame_used ?s' (table ?s' ?d)" unfolding t [OF d(2)] using g(1,4) pm(2) by (simp add: frame_used_def)
    show "kpde ?s' ?d = kpde s ?d \<and> kpde s ?d \<noteq> 0 \<or> kpde s ?d = 0 \<and> \<not> frame_used s (table ?s' ?d)"
      unfolding t [OF d(2)] using g(3) pde by auto
    show "table ?s' ?d \<notin> win_frames s" unfolding t [OF d(2)] using g(2) by simp
    show "kpde ?s' e = kpde s e" if "heap_dir e" "e \<noteq> ?d" for e using k that heap_dir_lt by simp
    show "hpte ?s' j = hpte s j" if "mapped s j" "j \<noteq> h" for j by (rule old [OF that])
  qed simp_all
  moreover have ph: "phys ?s' a = ?m a" if "a AND PAGE_MASK \<noteq> ?g" "a AND PAGE_MASK \<noteq> kpd_phys s" for a
    using that g(1) kp(1) d(2) by (simp add: store32_other_frame)
  have kept: "phys ?s' a = phys s a" if "frame_used s (a AND PAGE_MASK)" "a AND PAGE_MASK \<noteq> kpd_phys s" for a
  proof -
    have "a AND PAGE_MASK \<noteq> ?g" "a AND PAGE_MASK \<noteq> ?f" using that f(3) g(3) by metis+
    then show ?thesis using ph that(2) by (simp add: zero_frame_def)
  qed
  moreover have "heap_view ?s' = (heap_view s)(h \<mapsto> (\<lambda>_. 0))"
  proof (rule heap_view_extend [OF inv h(1)])
    show "phys ?s' a = phys s a" if "frame_used s (a AND PAGE_MASK)" "a AND PAGE_MASK \<notin> win_frames s" for a
      using kept [OF that(1)] that(2) kp(2) by metis
    show "phys ?s' a = 0" if "a AND PAGE_MASK = hframe ?s' h" for a
      using that hf ph [of a] fg ne by (simp add: zero_frame_def)
  qed (use old in \<open>simp_all add: hframe_def\<close>)
  moreover have "card (free_pages s) \<le> card (free_pages ?s') + 2" using pm(3) r(1-3) by simp
  moreover have "takes_run s h 1 ?s'"
  proof -
    have "?g OR 3 \<noteq> 0" using page_aligned_flag [OF g(1), of 0 3] by auto
    then have "kpde ?s' ?d \<noteq> 0" using k [OF d(2)] by simp
    then have nt: "{e. heap_dir e \<and> kpde s e = 0 \<and> kpde ?s' e \<noteq> 0} = {?d}"
      using k heap_dir_lt d(1) pde by (auto simp del: kpde_simps split: if_splits)
    have s: "run_frames h 1 ?s' = {n}" "new_tables s ?s' = {k}"
      using hf f(4) g(4) t [OF d(2)] unfolding run_frames_def new_tables_def nt by simp_all
    show ?thesis unfolding takes_run_def s using pm(2,3) r(1,2) k d pde heap_dir_lt old' kept by auto
  qed
  ultimately show ?thesis using r(7) by (intro exI [of _ ?s']) simp
qed

lemma mmap_page_ok:
  assumes "kheap_inv s" and "h < 130048" and "kheap_pages s h = 0" and "2 \<le> card (free_pages s)"
  obtains s' where "mmap_page 3 (of_nat h) s = Some s'" "kheap_inv s'"
    "heap_view s' = (heap_view s)(h \<mapsto> (\<lambda>_. 0))" "kheap_pages s' = (kheap_pages s)(h := 1)"
    "card (free_pages s) \<le> card (free_pages s') + 2" "takes_run s h 1 s'"
proof (cases "kpde s (PDE_INDEX (heap_va h)) = 0")
  case True
  then show thesis using mmap_page_absent_ok [OF assms(1-3) True assms(4)] that by blast
next
  case False
  have "free_pages s \<noteq> {}" using assms(4) by auto
  then show thesis using mmap_page_present_ok [OF assms(1-3) False] that by blast
qed

section \<open>A run of pages\<close>

lemma mem_rest_pages [mem_rests]:
  "set_kheap_page i x s = Some s' \<Longrightarrow> mem_rest s' = mem_rest s"
  by (auto simp: set_kheap_page_def split: if_splits)

lemma mem_rest_page [mem_rests]:
  "mmap_page fl h s = Some s' \<Longrightarrow> mem_rest s' = mem_rest s" "unmmap_page v s = Some s' \<Longrightarrow> mem_rest s' = mem_rest s"
  by (auto simp: mmap_page_def unmmap_page_def bind_Some_iff Let_def split: if_splits dest!: mem_rests)

text \<open>Page \<open>st\<close> and the \<open>n - 1\<close> pages after it are outside the heap's map.\<close>

definition heap_run :: "'a mem_state_scheme \<Rightarrow> nat \<Rightarrow> nat \<Rightarrow> bool" where
  "heap_run s st n \<longleftrightarrow> st + n \<le> 130048 \<and> free_run (\<lambda>h. kheap_pages s h \<noteq> 0) st n"

lemma takes_run_empty: "takes_run s st 0 s"
  by (simp add: takes_run_def run_frames_def new_tables_def)

text \<open>Two runs one after the other.\<close>

lemma takes_run_Suc:
  assumes a: "takes_run s st 1 s1" and b: "takes_run s1 (Suc st) n s'" and st: "st < 130048" "kpde s1 (PDE_INDEX (heap_va st)) \<noteq> 0"
    and kp: "kpd_phys s1 = kpd_phys s"
  shows "takes_run s st (Suc n) s'"
proof -
  note A = takes_runD [OF a] and B = takes_runD [OF b]
  have e: "kpde s' d = kpde s1 d" "table s' d = table s1 d" if "kpde s1 d \<noteq> 0" "heap_dir d" for d
    using B(5) [of d] that heap_dir_lt [OF that(2)] by (simp_all add: table_def)
  have e1: "kpde s1 d = kpde s d" if "kpde s d \<noteq> 0" "heap_dir d" for d
    using A(5) [of d] that heap_dir_lt [OF that(2)] by simp
  have "hframe s' st = hframe s1 st" using B(6) [OF st(1) _ st(2)] by (simp add: hframe_def)
  then have F: "run_frames st (Suc n) s' = run_frames st 1 s1 \<union> run_frames (Suc st) n s'"
  proof -
    have "{st..<st + Suc n} = insert st {Suc st..<Suc st + n}" "{st..<st + 1} = {st}" by auto
    then show ?thesis using \<open>hframe s' st = hframe s1 st\<close> unfolding run_frames_def by simp
  qed
  have "{d. heap_dir d \<and> kpde s d = 0 \<and> kpde s' d \<noteq> 0} =
      {d. heap_dir d \<and> kpde s1 d = 0 \<and> kpde s' d \<noteq> 0} \<union> {d. heap_dir d \<and> kpde s d = 0 \<and> kpde s1 d \<noteq> 0}"
  proof (intro set_eqI iffI)
    fix d assume "d \<in> {d. heap_dir d \<and> kpde s1 d = 0 \<and> kpde s' d \<noteq> 0} \<union> {d. heap_dir d \<and> kpde s d = 0 \<and> kpde s1 d \<noteq> 0}"
    then show "d \<in> {d. heap_dir d \<and> kpde s d = 0 \<and> kpde s' d \<noteq> 0}" using e(1) [of d] e1 [of d] by (cases "kpde s d = 0") auto
  qed auto
  then have T: "new_tables s s' = new_tables s s1 \<union> new_tables s1 s'" unfolding new_tables_def using e(2) by (auto simp: image_Un)
  have sub: "run_frames st (Suc n) s' \<union> new_tables s s' \<subseteq> free_pages s" unfolding F T using A(1,2) B(1) by auto
  have fp: "free_pages s' = free_pages s - (run_frames st (Suc n) s' \<union> new_tables s s')" unfolding F T B(2) A(2) by auto
  have up: "used_pages s' = used_pages s \<union> run_frames st (Suc n) s' \<union> new_tables s s'" unfolding F T B(3) A(3) by auto
  have dirs: "d \<in> (\<lambda>h. PDE_INDEX (heap_va h)) ` {st..<st + Suc n}" if "heap_dir d" "kpde s d = 0" "kpde s' d \<noteq> 0" for d
    using A(4) [OF that(1,2)] B(4) [OF that(1) _ that(3)] by (cases "kpde s1 d = 0") auto
  have keep: "heap_dir d \<and> kpde s d = 0 \<or> kpde s' d = kpde s d" if "d < 1024" for d using A(5) [OF that] B(5) [OF that] by metis
  have old: "hpte s' h = hpte s h" if h: "h < 130048" "h \<notin> {st..<st + Suc n}" "kpde s (PDE_INDEX (heap_va h)) \<noteq> 0" for h
    using A(6) [OF h(1) _ h(3)] B(6) [OF h(1)] h(2,3) e1 [OF h(3) heap_va_index(4) [OF h(1)]] by auto
  have "phys s' x = phys s x" if u: "frame_used s (x AND PAGE_MASK)" "x AND PAGE_MASK \<noteq> kpd_phys s"
      and nt: "\<And>d. heap_dir d \<Longrightarrow> kpde s d \<noteq> 0 \<Longrightarrow> x AND PAGE_MASK \<noteq> table s d" for x
  proof -
    have "phys s' x = phys s1 x"
    proof (rule B(7))
      show "frame_used s1 (x AND PAGE_MASK)" using u(1) A(3) by (simp add: frame_used_def)
      show "x AND PAGE_MASK \<noteq> table s1 d" if d: "heap_dir d" "kpde s1 d \<noteq> 0" for d
      proof (cases "kpde s d = 0")
        case True
        then have "unat (table s1 d) div 4096 \<in> free_pages s" using d A(1) by (auto simp: new_tables_def)
        then show ?thesis using u(1) by (auto simp: frame_used_def free_pages_def used_pages_def)
      qed (use nt [OF d(1)] e1 d(1) in \<open>simp add: table_def\<close>)
    qed (use u(2) kp in simp)
    then show ?thesis using A(7) [OF u nt] by simp
  qed
  then show ?thesis unfolding takes_run_def using sub fp up dirs keep old by blast
qed

lemma mmap_loop_ok:
  assumes "kheap_inv s" and "heap_run s st n" and "2 * n \<le> card (free_pages s)"
  shows "\<exists>s'. mmap_loop n 3 (of_nat st) s = Some s' \<and> kheap_inv s' \<and>
    heap_view s' = (\<lambda>h. if st \<le> h \<and> h < st + n then Some (\<lambda>_. 0) else heap_view s h) \<and> takes_run s st n s'"
  using assms
proof (induction n arbitrary: st s)
  case 0
  then show ?case by (auto simp: fun_eq_iff takes_run_empty)
next
  case (Suc n)
  from Suc.prems(2) have st: "st < 130048" "kheap_pages s st = 0" "st + 1 + n \<le> 130048"
    "\<And>k. k < n \<Longrightarrow> kheap_pages s (st + 1 + k) = 0"
    by (auto simp: heap_run_def free_run_def dest: spec [of _ 0] spec [of _ "Suc k" for k])
  have "2 \<le> card (free_pages s)" using Suc.prems(3) by simp
  then obtain s1 where s1: "mmap_page 3 (of_nat st) s = Some s1" "kheap_inv s1"
    "heap_view s1 = (heap_view s)(st \<mapsto> (\<lambda>_. 0))" "kheap_pages s1 = (kheap_pages s)(st := 1)"
    "card (free_pages s) \<le> card (free_pages s1) + 2" "takes_run s st 1 s1"
    using mmap_page_ok [OF Suc.prems(1) st(1,2)] by metis
  have run: "heap_run s1 (st + 1) n" using st s1(4) by (simp add: heap_run_def free_run_def)
  have "2 * n \<le> card (free_pages s1)" using Suc.prems(3) s1(5) by simp
  from Suc.IH [OF s1(2) run this] obtain s' where s': "mmap_loop n 3 (of_nat (st + 1)) s1 = Some s'" "kheap_inv s'"
    "heap_view s' = (\<lambda>h. if st + 1 \<le> h \<and> h < st + 1 + n then Some (\<lambda>_. 0) else heap_view s1 h)"
    "takes_run s1 (st + 1) n s'" by blast
  have "(of_nat st :: u32) + 1 = of_nat (st + 1)" by simp
  with s1(1) s'(1) have "mmap_loop (Suc n) 3 (of_nat st) s = Some s'" by (simp add: add.commute)
  moreover have "heap_view s' = (\<lambda>h. if st \<le> h \<and> h < st + Suc n then Some (\<lambda>_. 0) else heap_view s h)"
    unfolding s'(3) s1(3) by auto
  moreover have "takes_run s st (Suc n) s'"
  proof (rule takes_run_Suc [OF s1(6) _ st(1)])
    have "mapped s1 st" using s1(4) st(1) by (simp add: mapped_def)
    then show "kpde s1 (PDE_INDEX (heap_va st)) \<noteq> 0" by (rule kheap_inv_page(1) [OF s1(2)])
    show "kpd_phys s1 = kpd_phys s" by (rule mem_restD(5) [OF mem_rest_page(1) [OF s1(1)]])
  qed (use s'(4) in simp)
  ultimately show ?case using s'(2) by blast
qed

lemma kheap_scan_correct:
  assumes "scan_inv (\<lambda>h. pages h \<noteq> 0) (unat npages) (unat i) (unat acc)" and "unat i \<le> 130048"
  shows "first_run_end (\<lambda>h. pages h \<noteq> 0) (unat npages) 130048 (unat (kheap_scan pages npages i acc))"
  using assms
proof (induction pages npages i acc rule: kheap_scan.induct)
  case (1 pages npages i acc)
  have acc: "unat acc < unat npages" using "1.prems"(1) by (simp add: scan_inv_def)
  show ?case
  proof (cases "i < KHEAP_PAGES_NUM")
    case False
    then have "unat i = 130048" using "1.prems"(2) by (simp add: KHEAP_PAGES_NUM_eq word_less_nat_alt)
    then show ?thesis using "1.prems"(1) False
      by (simp add: kheap_scan.simps [of pages] first_run_end_def scan_inv_def)
  next
    case True
    then have lt: "unat i < 130048" by (simp add: KHEAP_PAGES_NUM_eq word_less_nat_alt)
    then have i: "unat (i + 1) = unat i + 1" by (simp add: unat_add_u32)
    have a: "unat (acc + 1) = unat acc + 1" using acc unat_Suc_u32 [of acc npages] by (simp add: word_less_nat_alt)
    consider "pages (unat i) \<noteq> 0" | "pages (unat i) = 0" "acc + 1 = npages" | "pages (unat i) = 0" "acc + 1 \<noteq> npages"
      by blast
    then show ?thesis
    proof cases
      case 1
      then show ?thesis
        using "1.IH"(1) [OF True] scan_inv_used [OF "1.prems"(1)] True lt i
        by (simp add: kheap_scan.simps [of pages npages i])
    next
      case 2
      then show ?thesis
        using scan_inv_found [OF "1.prems"(1), of 130048] True lt a
        by (simp add: kheap_scan.simps [of pages npages i])
    next
      case 3
      then have "unat acc + 1 \<noteq> unat npages" using a by (metis word_unat_eq_iff)
      with 3 show ?thesis
        using "1.IH"(2) [OF True _ 3(2)] scan_inv_free [OF "1.prems"(1)] True lt i a
        by (simp add: kheap_scan.simps [of pages npages i])
    qed
  qed
qed

lemma free_virt_area_idx_first:
  assumes "0 < npages" and "heap_run s st0 (unat npages)"
  obtains st where "free_virt_area_idx npages s = of_nat st" "heap_run s st (unat npages)"
    "\<And>k. heap_run s k (unat npages) \<Longrightarrow> st \<le> k"
proof -
  let ?u = "\<lambda>h. kheap_pages s h \<noteq> 0" and ?p = "unat npages"
  define r where "r = kheap_scan (kheap_pages s) npages 0 0"
  have p: "0 < ?p" using assms(1) by (simp add: word_less_nat_alt)
  have e: "first_run_end ?u ?p 130048 (unat r)"
    using kheap_scan_correct [of "kheap_pages s" npages 0 0] scan_inv_start [OF p] by (simp add: r_def)
  have lt: "unat r < 130048"
    using e assms(2) by (auto simp: first_run_end_def heap_run_def split: if_splits)
  with e have r: "?p \<le> unat r + 1" "free_run ?u (unat r + 1 - ?p) ?p" "\<And>k. free_run ?u k ?p \<Longrightarrow> unat r + 1 \<le> k + ?p"
    by (auto simp: first_run_end_def)
  have "unat (r - (npages - 1)) = unat r - (?p - 1)"
    using r(1) p by (simp add: unat_sub_if_size word_le_nat_alt word_size unat_minus_one word_less_nat_alt)
  then have "unat (free_virt_area_idx npages s) = unat r + 1 - ?p"
    using p by (simp add: free_virt_area_idx_def r_def)
  then have "free_virt_area_idx npages s = of_nat (unat r + 1 - ?p)" by (metis of_nat_unat ucast_id)
  moreover have "heap_run s (unat r + 1 - ?p) ?p" using r(1,2) lt by (simp add: heap_run_def)
  moreover have "unat r + 1 - ?p \<le> k" if "heap_run s k ?p" for k
    using r(3) [of k] that by (simp add: heap_run_def)
  ultimately show thesis by (rule that)
qed

lemma mmap_ok:
  assumes "kheap_inv s" and "0 < npages" and "heap_run s st0 (unat npages)"
    and "2 * unat npages \<le> card (free_pages s)"
  obtains st s' where "mmap npages 3 s = Some (heap_va st, s')" "heap_run s st (unat npages)"
    "\<And>k. heap_run s k (unat npages) \<Longrightarrow> st \<le> k" "kheap_inv s'"
    "heap_view s' = (\<lambda>h. if st \<le> h \<and> h < st + unat npages then Some (\<lambda>_. 0) else heap_view s h)" "takes_run s st (unat npages) s'"
proof -
  obtain st where st: "free_virt_area_idx npages s = of_nat st" "heap_run s st (unat npages)"
    "\<And>k. heap_run s k (unat npages) \<Longrightarrow> st \<le> k"
    using free_virt_area_idx_first [OF assms(2,3)] by metis
  from mmap_loop_ok [OF assms(1) st(2) assms(4)] obtain s' where
    "mmap_loop (unat npages) 3 (of_nat st) s = Some s'" "kheap_inv s'"
    "heap_view s' = (\<lambda>h. if st \<le> h \<and> h < st + unat npages then Some (\<lambda>_. 0) else heap_view s h)" "takes_run s st (unat npages) s'"
    by blast
  then show thesis using that st by (auto simp: mmap_def heap_va_def)
qed

section \<open>Giving a page back\<close>

lemma unmmap_page_eq:
  assumes inv: "kheap_inv s" and m: "mapped s h"
  obtains n arr l where "n \<in> used_pages s" "hframe s h = page_addr n" "pmm_inv (s\<lparr>bitmap := arr\<rparr>)"
    "free_pages (s\<lparr>bitmap := arr\<rparr>) = insert n (free_pages s)"
    "used_pages (s\<lparr>bitmap := arr\<rparr>) = used_pages s - {n}"
    "unmmap_page (heap_va h) s = Some (s\<lparr>bitmap := arr,
      phys := store32 (phys s) (entry (table s (PDE_INDEX (heap_va h))) (PTE_INDEX (heap_va h))) 0,
      kheap_pages := (kheap_pages s)(h := 0), invlpg_log := l\<rparr>)"
proof -
  let ?d = "PDE_INDEX (heap_va h)" and ?p = "PTE_INDEX (heap_va h)" and ?t = "tmp_map_addr s"
  let ?T = "table s ?d"
  note wf = kheap_inv_basic [OF inv]
  have h: "h < 130048" using m by (simp add: mapped_def)
  have d: "heap_dir ?d" "?d < 1024" using heap_va_index(4) [OF h] heap_dir_lt by blast+
  note pde = kheap_inv_page(1) [OF inv m]
  note T = kheap_inv_table [OF inv d(1) pde]
  define n where "n = unat (hframe s h) div 4096"
  have n: "n \<in> used_pages s" "hframe s h = page_addr n"
    using kheap_inv_page(3) [OF inv m] page_addr_of_frame [of "hframe s h"]
    by (simp_all add: frame_used_def n_def)
  let ?s1 = "opened ?T s"
  have "pmm_inv ?s1" "n < page_count ?s1" "free_pages ?s1 = free_pages s" "used_pages ?s1 = used_pages s"
    using wf(3) n(1) pmm_cong [of ?s1 s] by (auto simp: used_pages_def)
  then obtain arr where b: "pmm_free (page_addr n) 1 ?s1 = Some (?s1\<lparr>bitmap := arr\<rparr>)" "pmm_inv (?s1\<lparr>bitmap := arr\<rparr>)"
    "free_pages (?s1\<lparr>bitmap := arr\<rparr>) = insert n (free_pages s)" "used_pages (?s1\<lparr>bitmap := arr\<rparr>) = used_pages s - {n}"
    using pmm_free_one [of ?s1 n] by metis
  have mw: "may_write s ?T ?p" using T(3) by (intro may_write_fresh) simp_all
  note ww = window_write(1) [OF wf(1,2) mw] window_write(2,3) [OF wf(1,2) mw, where v = 0]
  let ?M = "store32 (phys s) (entry ?T ?p) 0"
  have v: "vload32 (entry ?t ?p) ?s1 = Some (hpte s h)" using ww(1) [of ?s1] by (simp add: hpte_def same_win_def)
  let ?s2 = "?s1\<lparr>bitmap := arr\<rparr>"
  let ?s3 = "?s2\<lparr>phys := store32 ?M (slot s) (?T OR 3)\<rparr>"
  have st: "vstore32 (entry ?t ?p) 0 ?s2 = Some ?s3" by (rule ww(2)) (simp add: same_win_def)
  let ?s4 = "?s3\<lparr>kheap_pages := (kheap_pages s)(h := 0)\<rparr>"
  have u: "unmap_tmp_page ?s4 = Some (?s4\<lparr>phys := ?M, invlpg_log := invlpg_log ?s4 @ [?t]\<rparr>)"
    by (rule ww(3)) (simp add: same_win_def)
  have idx: "(heap_va h - KHEAP_START) div PAGE_SIZE = of_nat h"
    using heap_page_index [OF h] .
  have hl: "(of_nat h :: u32) < KHEAP_PAGES_NUM" "unat (of_nat h :: u32) = h"
    using h by (simp_all add: KHEAP_PAGES_NUM_eq word_less_nat_alt unat_of_nat)
  have "unmmap_page (heap_va h) s = Some (s\<lparr>bitmap := arr, phys := ?M,
      kheap_pages := (kheap_pages s)(h := 0), invlpg_log := invlpg_log s @ [?t, ?t, heap_va h]\<rparr>)"
    using b(1) v st u n(2) hl
    by (simp add: unmmap_page_def idx kpd_load [OF wf(1) d(2)] map_tmp_page_eq [OF wf(1)] set_kheap_page_def
        invlpg_def hframe_def Let_def flip: table_def)
  moreover have "pmm_inv (s\<lparr>bitmap := arr\<rparr>)" "free_pages (s\<lparr>bitmap := arr\<rparr>) = insert n (free_pages s)"
    "used_pages (s\<lparr>bitmap := arr\<rparr>) = used_pages s - {n}"
    using b(2-4) pmm_cong [of "?s2" "s\<lparr>bitmap := arr\<rparr>"] by auto
  ultimately show thesis using that [OF n] by blast
qed

lemma kheap_inv_shrink:
  assumes inv: "kheap_inv s" and m: "mapped s h"
    and wf: "win_wf s'" "closed s'" "pmm_inv s'" "win_frames s' = win_frames s"
      "\<And>g. frame_used s g \<Longrightarrow> g \<noteq> hframe s h \<Longrightarrow> frame_used s' g"
    and kh: "kheap_pages s' = (kheap_pages s)(h := 0)"
    and dirs: "\<And>e. heap_dir e \<Longrightarrow> kpde s' e = kpde s e"
    and old: "\<And>h'. mapped s h' \<Longrightarrow> h' \<noteq> h \<Longrightarrow> hpte s' h' = hpte s h'"
  shows "kheap_inv s'"
proof -
  have tab: "table s' e = table s e" if "heap_dir e" for e using dirs [OF that] by (simp add: table_def)
  have mp: "mapped s' k \<longleftrightarrow> k \<noteq> h \<and> mapped s k" for k by (simp add: mapped_def kh)
  have hf: "hframe s' k = hframe s k" if "mapped s' k" for k
    using old [of k] that mp [of k] by (simp add: hframe_def)
  have "\<forall>f \<in> win_frames s'. frame_used s' f"
    using kheap_inv_basic(4) [OF inv] kheap_inv_page(4) [OF inv m] wf(4,5) by metis
  moreover have "\<not> denies True (kpde s' e) \<and> frame_used s' (table s' e) \<and> table s' e \<notin> win_frames s'"
    if "heap_dir e" "kpde s' e \<noteq> 0" for e
    using kheap_inv_table(1-3) [OF inv that(1)] kheap_inv_page(5) [OF inv m that(1)] that(2)
      dirs [OF that(1)] tab [OF that(1)] wf(4,5) by metis
  moreover have "e = e'" if "heap_dir e" "heap_dir e'" "kpde s' e \<noteq> 0" "kpde s' e' \<noteq> 0" "table s' e = table s' e'" for e e'
    using kheap_inv_table(4) [OF inv that(1) _ that(2)] that dirs tab by simp
  moreover have "kpde s' (PDE_INDEX (heap_va k)) \<noteq> 0 \<and> \<not> denies True (hpte s' k) \<and>
      frame_used s' (hframe s' k) \<and> hframe s' k \<notin> win_frames s' \<and>
      (\<forall>e. heap_dir e \<and> kpde s' e \<noteq> 0 \<longrightarrow> hframe s' k \<noteq> table s' e)" if k: "mapped s' k" for k
  proof -
    have ks: "mapped s k" "k \<noteq> h" "heap_dir (PDE_INDEX (heap_va k))"
      using k mp [of k] heap_va_index(4) [of k] by (auto simp: mapped_def)
    have "hframe s k \<noteq> hframe s h" using kheap_inv_page(6) [OF inv ks(1) m] ks(2) by blast
    with kheap_inv_page(1-5) [OF inv ks(1)] show ?thesis
      using hf [OF k] wf(4,5) dirs tab old [OF ks(1,2)] dirs [OF ks(3)] by metis
  qed
  moreover have "k = k'" if "mapped s' k" "mapped s' k'" "hframe s' k = hframe s' k'" for k k'
    using that hf mp kheap_inv_page(6) [OF inv, of k k'] by metis
  ultimately show ?thesis unfolding kheap_inv_def using wf(1-3) by blast
qed

lemma unmmap_page_ok:
  assumes inv: "kheap_inv s" and m: "mapped s h"
  obtains s' where "unmmap_page (heap_va h) s = Some s'" "kheap_inv s'"
    "heap_view s' = (heap_view s)(h := None)" "kheap_pages s' = (kheap_pages s)(h := 0)"
    "free_pages s' = insert (unat (hframe s h) div 4096) (free_pages s)"
    "\<And>k. mapped s k \<Longrightarrow> k \<noteq> h \<Longrightarrow> hframe s' k = hframe s k"
proof -
  let ?d = "PDE_INDEX (heap_va h)" and ?p = "PTE_INDEX (heap_va h)"
  let ?T = "table s ?d"
  obtain n arr l where r: "n \<in> used_pages s" "hframe s h = page_addr n" "pmm_inv (s\<lparr>bitmap := arr\<rparr>)"
    "free_pages (s\<lparr>bitmap := arr\<rparr>) = insert n (free_pages s)"
    "used_pages (s\<lparr>bitmap := arr\<rparr>) = used_pages s - {n}"
    "unmmap_page (heap_va h) s = Some (s\<lparr>bitmap := arr, phys := store32 (phys s) (entry ?T ?p) 0,
      kheap_pages := (kheap_pages s)(h := 0), invlpg_log := l\<rparr>)" (is "_ = Some ?s'")
    by (rule unmmap_page_eq [OF inv m])
  note wf = kheap_inv_basic [OF inv]
  have h: "h < 130048" using m by (simp add: mapped_def)
  have d: "heap_dir ?d" "?d < 1024" using heap_va_index(4) [OF h] heap_dir_lt by blast+
  note pde = kheap_inv_page(1) [OF inv m]
  note T = kheap_inv_table [OF inv d(1) pde]
  have kp: "page_aligned (kpd_phys s)" "kpd_phys s \<noteq> ?T" using wf(1) T(3) by (auto simp: win_wf_def win_frames_def)
  have "may_write s ?T ?p" using T(3) by (intro may_write_fresh) simp_all
  from write_keeps [OF wf(1,2) this, where v = 0 and l = l]
    same_winD [of ?s' "s\<lparr>phys := store32 (phys s) (entry ?T ?p) 0, invlpg_log := l\<rparr>"]
  have w: "win_wf ?s'" "closed ?s'" "win_frames ?s' = win_frames s" by (simp_all add: same_win_def)
  have kps: "kpd_phys ?s' = kpd_phys s" by (simp add: kpd_phys_def)
  have k: "kpde ?s' e = kpde s e" if "heap_dir e" for e
    unfolding kpde_def kps using kp heap_dir_lt [OF that] by (simp add: load32_store32_entry)
  then have t: "table ?s' e = table s e" if "heap_dir e" for e using that by (simp add: table_def)
  have pm: "pmm_inv ?s'" "used_pages ?s' = used_pages s - {n}" "free_pages ?s' = insert n (free_pages s)"
    using r(3-5) pmm_cong [of ?s' "s\<lparr>bitmap := arr\<rparr>"] by simp_all
  have n: "unat (hframe s h) div 4096 = n" "n < 1048576"
    using r(1,2) unat_page_addr [of n] page_count_bound [OF wf(3)] by (auto simp: used_pages_def)
  have old: "hpte ?s' j = hpte s j" if "mapped s j" "j \<noteq> h" for j
  proof -
    let ?e = "PDE_INDEX (heap_va j)"
    have j: "j < 130048" "heap_dir ?e" using that heap_va_index(4) by (auto simp: mapped_def)
    have "table s ?e \<noteq> ?T \<or> PTE_INDEX (heap_va j) \<noteq> ?p"
      using kheap_inv_table(4) [OF inv j(2) kheap_inv_page(1) [OF inv that(1)] d(1) pde]
        heap_va_inject [OF j(1) h] that(2) by blast
    then show ?thesis unfolding hpte_def t [OF j(2)] by (auto simp: load32_store32_entry)
  qed
  have used: "frame_used ?s' g" if "frame_used s g" "g \<noteq> hframe s h" for g
    using that page_addr_of_frame [of g] r(2) by (auto simp: frame_used_def pm(2))
  have "kheap_inv ?s'"
    by (rule kheap_inv_shrink [OF inv m w(1,2) pm(1) w(3) used]) (use k old in simp_all)
  moreover have hf: "hframe ?s' j = hframe s j" if "mapped s j" "j \<noteq> h" for j
    using old [OF that] by (simp add: hframe_def)
  moreover have "heap_view ?s' = (heap_view s)(h := None)"
  proof
    fix j
    have ph: "phys ?s' (hframe s j + off) = phys s (hframe s j + off)" if "mapped s j" "off < 4096" for off
      using kheap_inv_page(5) [OF inv that(1) d(1) pde] frame_offset [of "hframe s j" off] that(2)
      by (simp add: store32_other_frame)
    have "mapped ?s' j \<longleftrightarrow> j \<noteq> h \<and> mapped s j" by (simp add: mapped_def)
    then show "heap_view ?s' j = ((heap_view s)(h := None)) j"
      using ph hf [of j] by (auto simp: heap_view_def fun_eq_iff)
  qed
  ultimately show thesis using that [OF r(6)] pm(3) n(1) by simp
qed

lemma unmmap_loop_ok:
  assumes "kheap_inv s" and "\<And>k. st \<le> k \<Longrightarrow> k < st + n \<Longrightarrow> mapped s k"
  shows "\<exists>s'. unmmap_loop n (heap_va st) s = Some s' \<and> kheap_inv s' \<and>
    heap_view s' = (\<lambda>h. if st \<le> h \<and> h < st + n then None else heap_view s h) \<and>
    free_pages s' = free_pages s \<union> (\<lambda>h. unat (hframe s h) div 4096) ` {st..<st + n}"
  using assms
proof (induction n arbitrary: st s)
  case 0
  then show ?case by (auto simp: fun_eq_iff)
next
  case (Suc n)
  have m: "mapped s st" using Suc.prems(2) [of st] by simp
  obtain s1 where s1: "unmmap_page (heap_va st) s = Some s1" "kheap_inv s1"
    "heap_view s1 = (heap_view s)(st := None)" "kheap_pages s1 = (kheap_pages s)(st := 0)"
    "free_pages s1 = insert (unat (hframe s st) div 4096) (free_pages s)"
    "\<And>k. mapped s k \<Longrightarrow> k \<noteq> st \<Longrightarrow> hframe s1 k = hframe s k"
    using unmmap_page_ok [OF Suc.prems(1) m] by metis
  have m1: "mapped s1 k" if "st + 1 \<le> k" "k < st + 1 + n" for k
    using Suc.prems(2) [of k] that s1(4) by (simp add: mapped_def)
  from Suc.IH [OF s1(2) m1] obtain s' where s': "unmmap_loop n (heap_va (st + 1)) s1 = Some s'" "kheap_inv s'"
    "heap_view s' = (\<lambda>h. if st + 1 \<le> h \<and> h < st + 1 + n then None else heap_view s1 h)"
    "free_pages s' = free_pages s1 \<union> (\<lambda>h. unat (hframe s1 h) div 4096) ` {st + 1..<st + 1 + n}" by blast
  have "heap_va st + PAGE_SIZE = heap_va (st + 1)" by (simp add: heap_va_def algebra_simps)
  with s1(1) s'(1) have r: "unmmap_loop (Suc n) (heap_va st) s = Some s'" by simp
  have v: "heap_view s' = (\<lambda>h. if st \<le> h \<and> h < st + Suc n then None else heap_view s h)"
    unfolding s'(3) s1(3) by (auto simp: fun_eq_iff)
  have "(\<lambda>h. unat (hframe s1 h) div 4096) ` {st + 1..<st + 1 + n} =
      (\<lambda>h. unat (hframe s h) div 4096) ` {st + 1..<st + 1 + n}"
    using s1(6) Suc.prems(2) by (intro image_cong) auto
  moreover have ix: "{st..<st + Suc n} = insert st {st + 1..<st + 1 + n}" by auto
  ultimately have "free_pages s' = free_pages s \<union> (\<lambda>h. unat (hframe s h) div 4096) ` {st..<st + Suc n}"
    unfolding s'(4) s1(5) ix by auto
  then show ?case using s'(2) r v by blast
qed

section \<open>The heap through the MMU\<close>

text \<open>With the kernel's own page directory loaded, a heap address is read and written in its page.\<close>

lemma heap_translate:
  assumes inv: "kheap_inv s" and m: "mapped s h" and c: "cr3 s = kpd_phys s" and off: "off < 4096"
  shows "translate (phys s) (cr3 s) w (heap_va h + off) = Some (hframe s h + off)"
proof -
  have h: "h < 130048" using m by (simp add: mapped_def)
  note ix = heap_va_index(3,4) [OF h]
  have o: "PDE_INDEX (heap_va h + off) = PDE_INDEX (heap_va h)" "PTE_INDEX (heap_va h + off) = PTE_INDEX (heap_va h)"
    using index_offset [OF ix(1), of off] off by (simp_all add: word_less_nat_alt)
  have f: "(heap_va h + off) AND 0xFFF = off"
    using mask_page_offset(2) [OF ix(1), of off] off by (simp add: word_less_nat_alt)
  have k: "kpd_phys s AND PAGE_MASK = kpd_phys s"
    using kheap_inv_basic(1) [OF inv] by (simp add: win_wf_def mask_page_aligned)
  show ?thesis
    using kheap_inv_table(1) [OF inv ix(2) kheap_inv_page(1) [OF inv m]] kheap_inv_page(2) [OF inv m]
    by (simp add: translate_def o f c k denies_mono hframe_def Let_def flip: kpde_def table_def hpte_def)
qed

lemma kheap_inv_cong:
  assumes inv: "kheap_inv s"
    and wf: "win_wf s'" "closed s'" "pmm_inv s'" "win_frames s' = win_frames s" "\<And>g. frame_used s' g = frame_used s g"
    and dirs: "\<And>e. heap_dir e \<Longrightarrow> kpde s' e = kpde s e"
    and mp: "\<And>k. mapped s' k = mapped s k" and pt: "\<And>k. mapped s k \<Longrightarrow> hpte s' k = hpte s k"
  shows "kheap_inv s'"
proof -
  have t: "table s' e = table s e" if "heap_dir e" for e using dirs [OF that] by (simp add: table_def)
  have f: "hframe s' k = hframe s k" if "mapped s k" for k using pt [OF that] by (simp add: hframe_def)
  have "\<not> denies True (kpde s' e) \<and> frame_used s' (table s' e) \<and> table s' e \<notin> win_frames s'"
    if "heap_dir e" "kpde s' e \<noteq> 0" for e
    using kheap_inv_table(1-3) [OF inv that(1)] that dirs t wf(4,5) by simp
  moreover have "e = e'" if "heap_dir e" "heap_dir e'" "kpde s' e \<noteq> 0" "kpde s' e' \<noteq> 0" "table s' e = table s' e'" for e e'
    using kheap_inv_table(4) [OF inv that(1) _ that(2)] that dirs t by simp
  moreover have "kpde s' (PDE_INDEX (heap_va k)) \<noteq> 0 \<and> \<not> denies True (hpte s' k) \<and>
      frame_used s' (hframe s' k) \<and> hframe s' k \<notin> win_frames s' \<and>
      (\<forall>e. heap_dir e \<and> kpde s' e \<noteq> 0 \<longrightarrow> hframe s' k \<noteq> table s' e)" if "mapped s' k" for k
  proof -
    have k: "mapped s k" "heap_dir (PDE_INDEX (heap_va k))"
      using that mp [of k] heap_va_index(4) by (auto simp: mapped_def)
    show ?thesis
      using kheap_inv_page(1-5) [OF inv k(1)] dirs t f [OF k(1)] pt [OF k(1)] dirs [OF k(2)] wf(4,5) by metis
  qed
  moreover have "k = k'" if "mapped s' k" "mapped s' k'" "hframe s' k = hframe s' k'" for k k'
    using that mp f kheap_inv_page(6) [OF inv, of k k'] by metis
  moreover have "\<forall>f \<in> win_frames s'. frame_used s' f" using kheap_inv_basic(4) [OF inv] wf(4,5) by simp
  ultimately show ?thesis unfolding kheap_inv_def using wf(1-3) by blast
qed

text \<open>Bytes of heap pages carry no bookkeeping: changing them changes the view only.\<close>

lemma heap_bytes_change:
  assumes inv: "kheap_inv s" and m: "mapped s h"
    and ch: "\<And>a. a AND PAGE_MASK \<noteq> hframe s h \<Longrightarrow> mem a = phys s a"
  shows "kheap_inv (s\<lparr>phys := mem\<rparr>)" "hframe (s\<lparr>phys := mem\<rparr>) k = hframe s k \<or> \<not> mapped s k"
    "heap_view (s\<lparr>phys := mem\<rparr>) = (heap_view s)(h \<mapsto> \<lambda>off. if off < 4096 then mem (hframe s h + off) else 0)"
proof -
  let ?s' = "s\<lparr>phys := mem\<rparr>"
  note wf = kheap_inv_basic [OF inv]
  have keep: "load32 mem (entry b i) = load32 (phys s) (entry b i)" if "b \<noteq> hframe s h" "page_aligned b" "i < 1024" for b i
    by (rule load32_frame_cong [OF that(2,3)]) (use ch that(1) in blast)
  have nw: "b \<noteq> hframe s h" if "b \<in> win_frames s" for b using that kheap_inv_page(4) [OF inv m] by metis
  have al: "page_aligned (cr3 s)" "page_aligned (kpd_phys s)" using wf(1) by (simp_all add: win_wf_def)
  have w: "win_wf ?s'" "boot_pt ?s' = boot_pt s" "slot ?s' = slot s"
    using win_wf_cong [OF wf(1), of mem] keep nw al by (simp_all add: win_frames_def)
  have "closed ?s'"
    using wf(2) keep [of "boot_pt s" "PTE_INDEX (tmp_map_addr s)"] nw w(3)
    by (simp add: closed_def win_frames_def) (simp add: slot_def)
  have fr: "win_frames ?s' = win_frames s" using w(2) by (simp add: win_frames_def)
  have k: "kpde ?s' e = kpde s e" if "e < 1024" for e
    using keep [of "kpd_phys s" e] nw al that by (simp add: kpde_def win_frames_def)
  then have t: "table ?s' e = table s e" if "e < 1024" for e using that by (simp add: table_def)
  have p: "hpte ?s' j = hpte s j" if "mapped s j" for j
  proof -
    have "heap_dir (PDE_INDEX (heap_va j))" using that heap_va_index(4) by (simp add: mapped_def)
    then have "table s (PDE_INDEX (heap_va j)) \<noteq> hframe s h"
      using kheap_inv_page(5) [OF inv m] kheap_inv_page(1) [OF inv that] by metis
    from keep [OF this] show ?thesis by (simp add: hpte_def t)
  qed
  have mp: "mapped ?s' j = mapped s j" for j by (simp add: mapped_def)
  have hf: "hframe ?s' j = hframe s j" if "mapped s j" for j using p [OF that] by (simp add: hframe_def)
  then show "hframe ?s' k = hframe s k \<or> \<not> mapped s k" by blast
  have us: "frame_used ?s' g = frame_used s g" for g
    using pmm_cong [of ?s' s] by (simp add: frame_used_def)
  have "pmm_inv ?s'" using wf(3) pmm_cong [of ?s' s] by simp
  then show "kheap_inv ?s'"
    using kheap_inv_cong [OF inv w(1) \<open>closed ?s'\<close> _ fr] us k heap_dir_lt mp p by blast
  have "mem (hframe s j + off) = phys s (hframe s j + off)" if "mapped s j" "j \<noteq> h" "off < 4096" for j off
    using frame_offset [of "hframe s j" off] kheap_inv_page(6) [OF inv that(1) m] that by (intro ch) auto
  then show "heap_view ?s' = (heap_view s)(h \<mapsto> \<lambda>off. if off < 4096 then mem (hframe s h + off) else 0)"
    using m by (auto simp: heap_view_def mp hf fun_eq_iff)
qed

lemma mapped_view: "mapped s h \<longleftrightarrow> heap_view s h \<noteq> None"
  by (simp add: heap_view_def)

section \<open>The contract\<close>

text \<open>
  What the slab allocator and the scheduler rely on: pages come zeroed at addresses nobody has, and
  giving them back takes exactly these out of the view.
\<close>

definition span :: "nat \<Rightarrow> u32 \<Rightarrow> nat set" where
  "span st n = {st..<st + unat n}"

locale page_heap =
  fixes map_pages :: "u32 \<Rightarrow> 's \<Rightarrow> (addr \<times> 's) option"
    and unmap_pages :: "addr \<Rightarrow> u32 \<Rightarrow> 's \<Rightarrow> 's option"
    and invar :: "'s \<Rightarrow> bool"
    and view :: "'s \<Rightarrow> nat \<Rightarrow> (u32 \<Rightarrow> u8) option"
    and room :: "'s \<Rightarrow> u32 \<Rightarrow> bool"
  assumes map_ok: "invar s \<Longrightarrow> 0 < n \<Longrightarrow> room s n \<Longrightarrow>
      \<exists>st s'. map_pages n s = Some (heap_va st, s') \<and> invar s' \<and> st + unat n \<le> 130048 \<and>
        (\<forall>h \<in> span st n. view s h = None) \<and>
        view s' = (\<lambda>h. if h \<in> span st n then Some (\<lambda>_. 0) else view s h)"
    and unmap_ok: "invar s \<Longrightarrow> \<forall>h \<in> span st n. view s h \<noteq> None \<Longrightarrow>
      \<exists>s'. unmap_pages (heap_va st) n s = Some s' \<and> invar s' \<and>
        view s' = (\<lambda>h. if h \<in> span st n then None else view s h)"
begin

lemma map_unmap:
  assumes "invar s" and "0 < n" and "room s n"
  shows "\<exists>a s' s''. map_pages n s = Some (a, s') \<and> unmap_pages a n s' = Some s'' \<and> invar s'' \<and> view s'' = view s"
proof -
  from map_ok [OF assms] obtain st s' where m: "map_pages n s = Some (heap_va st, s')" "invar s'"
    "\<forall>h \<in> span st n. view s h = None" "view s' = (\<lambda>h. if h \<in> span st n then Some (\<lambda>_. 0) else view s h)" by blast
  from m(4) have "\<forall>h \<in> span st n. view s' h \<noteq> None" by simp
  from unmap_ok [OF m(2) this] obtain s'' where u: "unmap_pages (heap_va st) n s' = Some s''" "invar s''"
    "view s'' = (\<lambda>h. if h \<in> span st n then None else view s' h)" by blast
  have "view s'' = view s" unfolding u(3) m(4) using m(3) by auto
  with m(1) u(1,2) show ?thesis by blast
qed

lemma map_map_disjoint:
  assumes "invar s" and "0 < n" and "map_pages n s = Some (a, s')" "room s n" and "0 < k" and "room s' k"
  shows "\<exists>st st' s''. a = heap_va st \<and> st + unat n \<le> 130048 \<and> map_pages k s' = Some (heap_va st', s'') \<and> st' + unat k \<le> 130048 \<and>
    span st n \<inter> span st' k = {} \<and> (\<forall>h. view s' h \<noteq> None \<longrightarrow> view s'' h = view s' h) \<and> (\<forall>h \<in> span st n. view s' h = Some (\<lambda>_. 0))"
proof -
  from map_ok [OF assms(1,2,4)] assms(3) obtain st where m: "a = heap_va st" "invar s'" "st + unat n \<le> 130048"
    "view s' = (\<lambda>h. if h \<in> span st n then Some (\<lambda>_. 0) else view s h)" by auto
  from map_ok [OF m(2) assms(5,6)] obtain st' s'' where k: "map_pages k s' = Some (heap_va st', s'')" "st' + unat k \<le> 130048"
    "\<forall>h \<in> span st' k. view s' h = None" "view s'' = (\<lambda>h. if h \<in> span st' k then Some (\<lambda>_. 0) else view s' h)" by blast
  have "span st n \<inter> span st' k = {}" using k(3) m(4) by (auto simp: disjoint_iff)
  moreover have "\<forall>h. view s' h \<noteq> None \<longrightarrow> view s'' h = view s' h" "\<forall>h \<in> span st n. view s' h = Some (\<lambda>_. 0)" using k(3,4) m(4) by auto
  ultimately show ?thesis using m(1,3) k(1,2) by blast
qed

end

definition heap_room :: "'a mem_state_scheme \<Rightarrow> u32 \<Rightarrow> bool" where
  "heap_room s n \<longleftrightarrow> (\<exists>st. heap_run s st (unat n)) \<and> 2 * unat n \<le> card (free_pages s)"

lemma heap_run_view: "heap_run s st (unat n) \<Longrightarrow> h \<in> span st n \<Longrightarrow> heap_view s h = None"
  by (auto simp: span_def heap_run_def free_run_def heap_view_def mapped_def dest!: spec [of _ "h - st"])

interpretation kh: page_heap "\<lambda>n. mmap n 3" unmmap kheap_inv heap_view heap_room
proof
  fix s :: "'a mem_state_scheme" and n :: u32 and st :: nat
  assume inv: "kheap_inv s"
  {
    assume n: "0 < n" and room: "heap_room s n"
    then obtain st0 where r: "heap_run s st0 (unat n)" "2 * unat n \<le> card (free_pages s)" by (auto simp: heap_room_def)
    show "\<exists>st s'. mmap n 3 s = Some (heap_va st, s') \<and> kheap_inv s' \<and> st + unat n \<le> 130048 \<and>
        (\<forall>h \<in> span st n. heap_view s h = None) \<and>
        heap_view s' = (\<lambda>h. if h \<in> span st n then Some (\<lambda>_. 0) else heap_view s h)"
    proof (rule mmap_ok [OF inv n r])
      fix st s'
      assume a: "mmap n 3 s = Some (heap_va st, s')" "heap_run s st (unat n)" "kheap_inv s'"
        "heap_view s' = (\<lambda>h. if st \<le> h \<and> h < st + unat n then Some (\<lambda>_. 0) else heap_view s h)"
      have "st + unat n \<le> 130048" using a(2) by (simp add: heap_run_def)
      moreover have "heap_view s' = (\<lambda>h. if h \<in> span st n then Some (\<lambda>_. 0) else heap_view s h)"
        using a(4) by (simp add: span_def)
      ultimately show ?thesis using a(1,3) heap_run_view [OF a(2)] by blast
    qed
  }
  assume "\<forall>h \<in> span st n. heap_view s h \<noteq> None"
  then have m: "\<And>k. st \<le> k \<Longrightarrow> k < st + unat n \<Longrightarrow> mapped s k" by (simp add: span_def mapped_view)
  show "\<exists>s'. unmmap (heap_va st) n s = Some s' \<and> kheap_inv s' \<and>
      heap_view s' = (\<lambda>h. if h \<in> span st n then None else heap_view s h)"
    using unmmap_loop_ok [OF inv m, of st "unat n"] by (auto simp: unmmap_def span_def)
qed

text \<open>Disjoint runs of pages are disjoint ranges of addresses.\<close>

lemma span_addresses:
  assumes "st + unat n \<le> 130048" and "st' + unat k \<le> 130048" and "0 < n" and "0 < k" and "span st n \<inter> span st' k = {}"
  shows "unat (heap_va st) + unat n * 4096 \<le> unat (heap_va st') \<or> unat (heap_va st') + unat k * 4096 \<le> unat (heap_va st)"
proof -
  have nk: "0 < unat n" "0 < unat k" using assms(3,4) by (simp_all add: word_less_nat_alt)
  have v: "unat (heap_va st) = 3225419776 + st * 4096" "unat (heap_va st') = 3225419776 + st' * 4096"
    using unat_heap_va assms(1,2) nk by simp_all
  have "st + unat n \<le> st' \<or> st' + unat k \<le> st"
  proof (rule ccontr)
    assume c: "\<not> ?thesis"
    then have "max st st' \<in> span st n \<inter> span st' k" using nk by (auto simp: span_def)
    then show False using assms(5) by simp
  qed
  then show ?thesis unfolding v by auto
qed

lemma heap_byte_access:
  assumes "kheap_inv s" and "heap_view s h = Some page" and "cr3 s = kpd_phys s" and "off < 4096"
  shows "vload8 (heap_va h + off) s = Some (page off)"
    and "\<exists>s'. vstore8 (heap_va h + off) v s = Some s' \<and> kheap_inv s' \<and> heap_view s' = (heap_view s)(h \<mapsto> page(off := v))"
proof -
  have m: "mapped s h" and pg: "page = (\<lambda>off. if off < 4096 then phys s (hframe s h + off) else 0)"
    using assms(2) by (auto simp: heap_view_def split: if_splits)
  note tr = heap_translate [OF assms(1) m assms(3,4)]
  show "vload8 (heap_va h + off) s = Some (page off)" using tr assms(4) by (simp add: vload8_def pg)
  let ?m = "(phys s)(hframe s h + off := v)"
  have st: "vstore8 (heap_va h + off) v s = Some (s\<lparr>phys := ?m\<rparr>)" using tr by (simp add: vstore8_def)
  have "?m a = phys s a" if "a AND PAGE_MASK \<noteq> hframe s h" for a
    using that frame_offset [of "hframe s h" off] assms(4) by auto
  note ch = heap_bytes_change [OF assms(1) m, of ?m, OF this]
  have "(\<lambda>o'. if o' < 4096 then ?m (hframe s h + o') else 0) = page(off := v)"
    using assms(4) by (auto simp: pg fun_eq_iff)
  with ch(1,3) st show "\<exists>s'. vstore8 (heap_va h + off) v s = Some s' \<and> kheap_inv s' \<and>
      heap_view s' = (heap_view s)(h \<mapsto> page(off := v))" by auto
qed

lemma mem_rest_loop [mem_rests]:
  "mmap_loop n fl h s = Some s' \<Longrightarrow> mem_rest s' = mem_rest s" "unmmap_loop n v s = Some s' \<Longrightarrow> mem_rest s' = mem_rest s"
  by (induction n arbitrary: h v s) (auto simp: bind_Some_iff dest!: mem_rests)

lemma mem_rest_mmap [mem_rests]:
  "mmap n fl s = Some (a, s') \<Longrightarrow> mem_rest s' = mem_rest s" "unmmap v n s = Some s' \<Longrightarrow> mem_rest s' = mem_rest s"
  by (auto simp: mmap_def unmmap_def bind_Some_iff Let_def dest!: mem_rests)

section \<open>Properties\<close>

text \<open>
  C1: \<open>mmap\<close> finds the lowest run of free heap pages and backs each page with a zeroed physical page of its own, as long as a run
  exists and two physical pages per heap page are free. It takes exactly the physical pages of the run and one for each page
  table it adds, all of them free before; it adds a table only where a page of the run has none. Every other heap page, every other
  entry of the directory and of the heap's page tables, the bytes of every other frame in use and the rest of the state stay
  as they were.
\<close>

theorem mmap_maps_first_run:
  assumes "kheap_inv s" and "0 < npages" and "heap_run s st0 (unat npages)"
    and "2 * unat npages \<le> card (free_pages s)"
  shows "\<exists>st s'. mmap npages 3 s = Some (KHEAP_START + of_nat st * PAGE_SIZE, s') \<and>
    heap_run s st (unat npages) \<and> (\<forall>k < st. \<not> heap_run s k (unat npages)) \<and> kheap_inv s' \<and>
    heap_view s' = (\<lambda>h. if st \<le> h \<and> h < st + unat npages then Some (\<lambda>_. 0) else heap_view s h) \<and>
    run_frames st (unat npages) s' \<union> new_tables s s' \<subseteq> free_pages s \<and>
    free_pages s' = free_pages s - (run_frames st (unat npages) s' \<union> new_tables s s') \<and>
    used_pages s' = used_pages s \<union> run_frames st (unat npages) s' \<union> new_tables s s' \<and>
    (\<forall>d. heap_dir d \<and> kpde s d = 0 \<and> kpde s' d \<noteq> 0 \<longrightarrow> d \<in> (\<lambda>h. PDE_INDEX (heap_va h)) ` {st..<st + unat npages}) \<and>
    (\<forall>d < 1024. heap_dir d \<and> kpde s d = 0 \<or> kpde s' d = kpde s d) \<and>
    (\<forall>h < 130048. h \<notin> {st..<st + unat npages} \<and> kpde s (PDE_INDEX (heap_va h)) \<noteq> 0 \<longrightarrow> hpte s' h = hpte s h) \<and>
    (\<forall>a. frame_used s (a AND PAGE_MASK) \<and> a AND PAGE_MASK \<noteq> kpd_phys s \<and>
       (\<forall>d. heap_dir d \<and> kpde s d \<noteq> 0 \<longrightarrow> a AND PAGE_MASK \<noteq> table s d) \<longrightarrow> phys s' a = phys s a) \<and>
    mem_rest s' = mem_rest s"
proof (rule mmap_ok [OF assms])
  fix st s'
  assume tr: "takes_run s st (unat npages) s'"
  assume a: "mmap npages 3 s = Some (heap_va st, s')" "heap_run s st (unat npages)"
    "\<And>k. heap_run s k (unat npages) \<Longrightarrow> st \<le> k" "kheap_inv s'"
    "heap_view s' = (\<lambda>h. if st \<le> h \<and> h < st + unat npages then Some (\<lambda>_. 0) else heap_view s h)"
  have "\<forall>k < st. \<not> heap_run s k (unat npages)" using a(3) not_less by blast
  then show ?thesis using a(1) [unfolded heap_va_def] a(2,4,5) tr [unfolded takes_run_def] mem_rest_mmap(1) [OF a(1)]
    by (elim conjE) (intro exI [of _ st] exI [of _ s'] conjI; assumption)
qed

text \<open>
  C2: \<open>unmmap\<close> takes exactly the given pages out of the heap and returns exactly their
  physical pages to the bitmap; the invariant and all other pages survive.
\<close>

theorem unmmap_releases_run:
  assumes "kheap_inv s" and "\<forall>k. st \<le> k \<and> k < st + unat npages \<longrightarrow> mapped s k"
  shows "\<exists>s'. unmmap (heap_va st) npages s = Some s' \<and> kheap_inv s' \<and>
    heap_view s' = (\<lambda>h. if st \<le> h \<and> h < st + unat npages then None else heap_view s h) \<and>
    free_pages s' = free_pages s \<union> (\<lambda>h. unat (hframe s h) div 4096) ` {st..<st + unat npages}"
  using unmmap_loop_ok [OF assms(1), of st "unat npages"] assms(2) by (auto simp: unmmap_def)

text \<open>
  Mapping pages and unmapping them at the returned address gives back the heap as it was.
\<close>

theorem mmap_unmmap_restores_heap:
  assumes "kheap_inv s" and "0 < npages" and "heap_room s npages"
  shows "\<exists>a s' s''. mmap npages 3 s = Some (a, s') \<and> unmmap a npages s' = Some s'' \<and> kheap_inv s'' \<and>
    heap_view s'' = heap_view s"
  using assms by (rule kh.map_unmap)

text \<open>
  C15: Two successive mappings lie in the heap and do not overlap: the address range of one ends before that of the other begins. The second
  leaves the bytes of the first, and of every other page of the heap, alone.
\<close>

theorem mmap_regions_disjoint:
  assumes "kheap_inv s" and "0 < n" and "mmap n 3 s = Some (a, s')" and "heap_room s n"
    and "0 < k" and "heap_room s' k"
  shows "\<exists>st st' s''. a = heap_va st \<and> st + unat n \<le> 130048 \<and> mmap k 3 s' = Some (heap_va st', s'') \<and> st' + unat k \<le> 130048 \<and>
    (unat (heap_va st) + unat n * 4096 \<le> unat (heap_va st') \<or> unat (heap_va st') + unat k * 4096 \<le> unat (heap_va st)) \<and>
    (\<forall>h \<in> span st n. heap_view s'' h = Some (\<lambda>_. 0)) \<and>
    (\<forall>h. heap_view s' h \<noteq> None \<longrightarrow> heap_view s'' h = heap_view s' h)"
proof -
  from kh.map_map_disjoint [OF assms] obtain st st' s'' where d: "a = heap_va st" "st + unat n \<le> 130048" "mmap k 3 s' = Some (heap_va st', s'')"
    "st' + unat k \<le> 130048" "span st n \<inter> span st' k = {}" "\<forall>h. heap_view s' h \<noteq> None \<longrightarrow> heap_view s'' h = heap_view s' h"
    "\<forall>h \<in> span st n. heap_view s' h = Some (\<lambda>_. 0)" by blast
  from span_addresses [OF d(2,4) assms(2,5) d(5)] d show ?thesis by (intro exI [of _ st] exI [of _ st'] exI [of _ s'']) simp
qed

text \<open>
  Through the processor's page walk, with the kernel's page directory loaded, a load from a heap page
  returns its byte and a store changes that byte of the heap and nothing else.
\<close>

theorem heap_page_access:
  assumes "kheap_inv s" and "heap_view s h = Some page" and "cr3 s = kpd_phys s" and "off < 4096"
  shows "vload8 (heap_va h + off) s = Some (page off) \<and>
    (\<exists>s'. vstore8 (heap_va h + off) v s = Some s' \<and> kheap_inv s' \<and>
      heap_view s' = (heap_view s)(h \<mapsto> page(off := v)))"
  using heap_byte_access [OF assms] by blast

section \<open>Witnesses\<close>

lemma booted_kheap: "kheap_inv booted" "heap_run booted 0 n = (n \<le> 130048)" "heap_view booted h = None"
proof -
  have "kpde booted d = 0" if "heap_dir d" for d
    using heap_dir_lt [OF that] by (simp add: kpde_def booted_load)
  then show "kheap_inv booted"
    unfolding kheap_inv_def booted_win(3) using booted_win(1,2) booted_pages(1)
    by (auto simp: mapped_def frame_used_def booted_consts booted_sets)
qed (simp_all add: heap_run_def free_run_def heap_view_def mapped_def)

lemma booted_room: "heap_room booted 2"
  unfolding heap_room_def by (auto simp: booted_sets intro!: exI [of _ 0]) (simp add: booted_kheap)

theorem mmap_maps_first_run_witness:
  "\<exists>st s'. mmap 2 3 booted = Some (KHEAP_START + of_nat st * PAGE_SIZE, s') \<and> heap_view s' st = Some (\<lambda>_. 0) \<and>
    run_frames st 2 s' \<subseteq> {264..<512}"
proof -
  have "heap_run booted 0 (unat (2 :: u32))" "2 * unat (2 :: u32) \<le> card (free_pages booted)"
    by (simp_all add: booted_kheap booted_sets)
  from mmap_maps_first_run [OF booted_kheap(1) _ this] obtain st s' where
    m: "mmap 2 3 booted = Some (KHEAP_START + of_nat st * PAGE_SIZE, s')"
      "heap_view s' = (\<lambda>h. if st \<le> h \<and> h < st + unat (2 :: u32) then Some (\<lambda>_. 0) else heap_view booted h)"
      "run_frames st (unat (2 :: u32)) s' \<union> new_tables booted s' \<subseteq> free_pages booted" by auto
  have "heap_view s' st = Some (\<lambda>_. 0)" "run_frames st 2 s' \<subseteq> {264..<512}" using m(2,3) by (simp_all add: booted_sets)
  with m(1) show ?thesis by blast
qed

lemma booted_mapped:
  obtains s' where "mmap 2 3 booted = Some (heap_va 0, s')" "kheap_inv s'" "heap_view s' 0 = Some (\<lambda>_. 0)"
    "heap_view s' 1 = Some (\<lambda>_. 0)" "cr3 s' = kpd_phys s'"
proof -
  have r: "heap_run booted 0 (unat (2 :: u32))" "2 * unat (2 :: u32) \<le> card (free_pages booted)"
    by (simp_all add: booted_kheap booted_sets)
  show thesis
  proof (rule mmap_ok [OF booted_kheap(1) _ r])
    fix st s'
    assume a: "mmap 2 3 booted = Some (heap_va st, s')" "\<And>k. heap_run booted k (unat (2 :: u32)) \<Longrightarrow> st \<le> k" "kheap_inv s'"
      "heap_view s' = (\<lambda>h. if st \<le> h \<and> h < st + unat (2 :: u32) then Some (\<lambda>_. 0) else heap_view booted h)"
    have "st = 0" using a(2) [OF r(1)] by simp
    moreover have "cr3 s' = kpd_phys s'" using mem_restD(1,5) [OF mem_rest_mmap(1) [OF a(1)]] by simp
    ultimately show thesis using that a by simp
  qed simp
qed

theorem unmmap_releases_run_witness:
  "\<exists>s s'. unmmap (heap_va 0) 2 (s :: mem_state) = Some s' \<and> heap_view s 0 = Some (\<lambda>_. 0) \<and> heap_view s' 0 = None"
proof (rule booted_mapped)
  fix s :: mem_state
  assume s: "kheap_inv s" "heap_view s 0 = Some (\<lambda>_. 0)" "heap_view s 1 = Some (\<lambda>_. 0)"
  have "\<forall>k. 0 \<le> k \<and> k < 0 + unat (2 :: u32) \<longrightarrow> mapped s k"
  proof (intro allI impI)
    fix k
    assume "0 \<le> k \<and> k < 0 + unat (2 :: u32)"
    then have "k = 0 \<or> k = 1" by auto
    with s(2,3) show "mapped s k" by (auto simp: mapped_view)
  qed
  from unmmap_releases_run [OF s(1) this] obtain s' where u: "unmmap (heap_va 0) 2 s = Some s'"
    "heap_view s' = (\<lambda>h. if 0 \<le> h \<and> h < 0 + unat (2 :: u32) then None else heap_view s h)" by blast
  have "heap_view s' 0 = None" unfolding u(2) by simp
  with u(1) s(2) show ?thesis by blast
qed

theorem mmap_unmmap_restores_heap_witness:
  "\<exists>a s' s''. mmap 2 3 booted = Some (a, s') \<and> unmmap a 2 s' = Some s'' \<and> heap_view s'' = heap_view booted"
  using mmap_unmmap_restores_heap [OF booted_kheap(1) _ booted_room] by auto

lemma booted_mapped_room: "mmap 1 3 booted = Some (a, s') \<Longrightarrow> heap_room s' 1"
proof -
  assume m: "mmap 1 3 booted = Some (a, s')"
  obtain t where t: "mmap_page 3 (of_nat 0) booted = Some t" "kheap_pages t = (kheap_pages booted)(0 := 1)"
    "card (free_pages booted) \<le> card (free_pages t) + 2"
    by (rule mmap_page_ok [OF booted_kheap(1), of 0]) (simp_all add: booted_sets)
  obtain st where st: "free_virt_area_idx 1 booted = of_nat st" "\<And>k. heap_run booted k (unat (1 :: u32)) \<Longrightarrow> st \<le> k"
    by (rule free_virt_area_idx_first [of 1 booted 0]) (simp_all add: booted_kheap)
  have "st = 0" using st(2) [of 0] by (simp add: booted_kheap)
  then have "s' = t" using m t(1) st(1) by (simp add: mmap_def Let_def)
  with t(2,3) show "heap_room s' 1"
    unfolding heap_room_def by (auto simp: booted_sets heap_run_def free_run_def intro!: exI [of _ 1])
qed

theorem mmap_regions_disjoint_witness:
  "\<exists>a s' st' s''. mmap 1 3 booted = Some (a, s') \<and> mmap 1 3 s' = Some (heap_va st', s'') \<and> a \<noteq> heap_va st'"
proof -
  have r: "heap_room booted 1" unfolding heap_room_def
    by (auto simp: booted_sets intro!: exI [of _ 0]) (simp add: booted_kheap)
  from kh.map_ok [OF booted_kheap(1) _ r] obtain st s' where m: "mmap 1 3 booted = Some (heap_va st, s')" by auto
  from mmap_regions_disjoint [OF booted_kheap(1) _ m r _ booted_mapped_room [OF m]] m obtain st' s''
    where "mmap 1 3 s' = Some (heap_va st', s'')" "unat (heap_va st) + 4096 \<le> unat (heap_va st') \<or> unat (heap_va st') + 4096 \<le> unat (heap_va st)" by auto
  then show ?thesis using m by (intro exI [of _ "heap_va st"] exI [of _ s'] exI [of _ st'] exI [of _ s'']) auto
qed

theorem heap_page_access_witness:
  "\<exists>s s'. vload8 (heap_va 0 + 5) (s :: mem_state) = Some 0 \<and> vstore8 (heap_va 0 + 5) 7 s = Some s' \<and> heap_view s' 0 = Some ((\<lambda>_. 0)(5 := 7))"
proof (rule booted_mapped)
  fix s :: mem_state
  assume s: "kheap_inv s" "heap_view s 0 = Some (\<lambda>_. 0)" "cr3 s = kpd_phys s"
  have "(5 :: u32) < 4096" by simp
  from heap_page_access [OF s this, of 7] obtain s' where s': "vload8 (heap_va 0 + 5) s = Some 0"
    "vstore8 (heap_va 0 + 5) 7 s = Some s'" "heap_view s' = (heap_view s)(0 \<mapsto> (\<lambda>_. 0)(5 := 7))" by blast
  have "heap_view s' 0 = Some ((\<lambda>_. 0)(5 := 7))" unfolding s'(3) by simp
  with s'(1,2) show ?thesis by blast
qed

end
