(* ===== verification/Cpu_Tables.thy ===== *)
theory Cpu_Tables
  imports Paging
begin

text \<open>
  The processor tables: segment descriptors and the task state segment of \<open>kernel/gdt/gdt.c\<close>,
  interrupt gates of \<open>kernel/idt/idt.c\<close>, the two interrupt controllers of \<open>kernel/pic.c\<close> and the
  interval timer's divisor of \<open>kernel/timer.c\<close>.

  The addresses the linker gives to the tables and the entry points of the interrupt stubs are
  components of the state. The decoders at the end read a descriptor the way the processor does,
  and the initialisation words of the controllers are interpreted by \<open>pic_out\<close>, so that the
  properties speak of what the hardware is told and not of how the bytes are put together.
\<close>

section \<open>State\<close>

record gdt_entry =
  limit_low :: u16
  base_low :: u16
  base_middle :: u8
  access :: u8
  granularity :: u8
  base_high :: u8

record idt_entry =
  isr_low :: u16
  kernel_cs :: u16
  reserved :: u8
  attributes :: u8
  isr_high :: u16

text \<open>The fields of \<open>struct tss\<close> the kernel writes; the others stay zero.\<close>

record tss =
  esp0 :: u32
  ss0 :: u32
  iomap_base :: u16

record cpu_state = mem_state +
  gdt_entries :: "gdt_entry list"
  gdt_limit :: u16
  gdt_base :: u32
  tss :: tss
  idt_entries :: "idt_entry list"
  idt_limit :: u16
  idt_base :: u32
  gdt_entries_addr :: addr
  tss_addr :: addr
  idt_entries_addr :: addr
  isr_stub_table :: "addr list"
  irq0_stub :: addr
  irq1_stub :: addr
  syscall_stub :: addr

section \<open>Segment descriptors\<close>

definition gdt_gate :: "u32 \<Rightarrow> u32 \<Rightarrow> u8 \<Rightarrow> u8 \<Rightarrow> gdt_entry" where
  "gdt_gate base limit acc gran = \<lparr>
     limit_low = ucast (limit AND 0xFFFF),
     base_low = ucast (base AND 0xFFFF),
     base_middle = ucast (drop_bit 16 base AND 0xFF),
     access = acc,
     granularity = ucast (drop_bit 16 limit AND 0x0F) OR (gran AND 0xF0),
     base_high = ucast (drop_bit 24 base AND 0xFF)\<rparr>"

definition gdt_set_gate :: "nat \<Rightarrow> u32 \<Rightarrow> u32 \<Rightarrow> u8 \<Rightarrow> u8 \<Rightarrow> 'a cpu_state_scheme \<Rightarrow> 'a cpu_state_scheme option" where
  "gdt_set_gate num base limit acc gran s = do {
     es \<leftarrow> array_set (gdt_entries s) num (gdt_gate base limit acc gran);
     Some (s\<lparr>gdt_entries := es\<rparr>) }"

text \<open>\<open>sizeof(gdt_entry_t)\<close>, \<open>sizeof(tss_t)\<close> and \<open>sizeof(idt_entry_t)\<close>.\<close>

definition sizeof_gdt_entry :: u32 where "sizeof_gdt_entry = 8"
definition sizeof_tss :: u32 where "sizeof_tss = 104"
definition sizeof_idt_entry :: u32 where "sizeof_idt_entry = 8"

definition gdt_init :: "'a cpu_state_scheme \<Rightarrow> 'a cpu_state_scheme option" where
  "gdt_init s = do {
     let s = s\<lparr>gdt_limit := ucast (sizeof_gdt_entry * 6 - 1), gdt_base := gdt_entries_addr s,
               tss := (tss s)\<lparr>ss0 := 0x10, iomap_base := ucast sizeof_tss\<rparr>\<rparr>;
     s \<leftarrow> gdt_set_gate 0 0 0 0 0 s;
     s \<leftarrow> gdt_set_gate 1 0 0xFFFFFFFF 0x9A 0xCF s;
     s \<leftarrow> gdt_set_gate 2 0 0xFFFFFFFF 0x92 0xCF s;
     s \<leftarrow> gdt_set_gate 3 0 0xFFFFFFFF 0xF2 0xCF s;
     s \<leftarrow> gdt_set_gate 4 0 0xFFFFFFFF 0xFA 0xCF s;
     s \<leftarrow> gdt_set_gate 5 (tss_addr s) (sizeof_tss - 1) 0x89 0x0 s;
     terminal_writestring ''GDT initialized\<newline>'' s }"

section \<open>Interrupt gates\<close>

definition idt_gate :: "addr \<Rightarrow> u8 \<Rightarrow> idt_entry" where
  "idt_gate isr flags = \<lparr>
     isr_low = ucast (isr AND 0xFFFF), kernel_cs = 0x08, reserved = 0, attributes = flags,
     isr_high = ucast (drop_bit 16 isr)\<rparr>"

definition idt_set_descriptor :: "u8 \<Rightarrow> addr \<Rightarrow> u8 \<Rightarrow> 'a cpu_state_scheme \<Rightarrow> 'a cpu_state_scheme option" where
  "idt_set_descriptor vector isr flags s = do {
     es \<leftarrow> array_set (idt_entries s) (unat vector) (idt_gate isr flags);
     Some (s\<lparr>idt_entries := es\<rparr>) }"

fun idt_exceptions :: "nat list \<Rightarrow> 'a cpu_state_scheme \<Rightarrow> 'a cpu_state_scheme option" where
  "idt_exceptions [] s = Some s"
| "idt_exceptions (vector # vs) s = do {
     isr \<leftarrow> array_get (isr_stub_table s) vector;
     s \<leftarrow> idt_set_descriptor (of_nat vector) isr 0x8E s;
     idt_exceptions vs s }"

definition idt_init :: "'a cpu_state_scheme \<Rightarrow> 'a cpu_state_scheme option" where
  "idt_init s = do {
     let s = s\<lparr>idt_base := idt_entries_addr s, idt_limit := ucast (sizeof_idt_entry * 256 - 1)\<rparr>;
     s \<leftarrow> idt_exceptions [0..<32] s;
     s \<leftarrow> idt_set_descriptor 32 (irq0_stub s) 0x8E s;
     s \<leftarrow> idt_set_descriptor 33 (irq1_stub s) 0x8E s;
     s \<leftarrow> idt_set_descriptor 0x80 (syscall_stub s) 0xEE s;
     terminal_writestring ''IDT initialized\<newline>'' s }"

section \<open>Interrupt controllers and timer\<close>

definition pic_init :: "u32 \<Rightarrow> u32 \<Rightarrow> 'a term_state_scheme \<Rightarrow> 'a term_state_scheme option" where
  "pic_init offset1 offset2 s = (
     let s = io_wait (outb PIC1_COMMAND 0x11 s);
         s = io_wait (outb PIC2_COMMAND 0x11 s);
         s = io_wait (outb PIC1_DATA (ucast offset1) s);
         s = io_wait (outb PIC2_DATA (ucast offset2) s);
         s = io_wait (outb PIC1_DATA (push_bit 2 1) s);
         s = io_wait (outb PIC2_DATA 2 s);
         s = io_wait (outb PIC1_DATA 0x01 s);
         s = io_wait (outb PIC2_DATA 0x01 s);
         s = outb PIC1_DATA 0xFC s;
         s = outb PIC2_DATA 0xFF s
     in terminal_writestring ''PIC initialized\<newline>'' s)"

text \<open>
  \<open>PIT_BASE_FREQ / PIT_HZ\<close> is a floating-point quotient far outside \<open>uint16_t\<close>, and C leaves the
  result of such a conversion open: what the compiler makes of it is an argument.
\<close>

definition pit_init :: "u16 \<Rightarrow> 'a io_state_scheme \<Rightarrow> 'a io_state_scheme" where
  "pit_init divisor s = (
     let s = outb 0x43 0x36 s;
         s = outb 0x40 (ucast (divisor AND 0xFF)) s
     in outb 0x40 (ucast (drop_bit 8 divisor)) s)"

section \<open>How the processor reads a descriptor\<close>

definition seg_base :: "gdt_entry \<Rightarrow> u32" where
  "seg_base e = ucast (base_low e) OR push_bit 16 (ucast (base_middle e)) OR push_bit 24 (ucast (base_high e))"

definition seg_limit :: "gdt_entry \<Rightarrow> u32" where
  "seg_limit e = ucast (limit_low e) OR push_bit 16 (ucast (granularity e AND 0x0F))"

text \<open>The highest offset inside the segment: the limit counts pages when the granularity bit is set.\<close>

definition seg_last :: "gdt_entry \<Rightarrow> u32" where
  "seg_last e = (if bit (granularity e) 7 then push_bit 12 (seg_limit e) OR 0xFFF else seg_limit e)"

definition seg_dpl :: "gdt_entry \<Rightarrow> u8" where
  "seg_dpl e = drop_bit 5 (access e) AND 3"

definition gate_offset :: "idt_entry \<Rightarrow> addr" where
  "gate_offset e = ucast (isr_low e) OR push_bit 16 (ucast (isr_high e))"

definition gate_dpl :: "idt_entry \<Rightarrow> u8" where
  "gate_dpl e = drop_bit 5 (attributes e) AND 3"

text \<open>The descriptor a selector names.\<close>

definition segment :: "'a cpu_state_scheme \<Rightarrow> u16 \<Rightarrow> gdt_entry" where
  "segment s sel = gdt_entries s ! (unat sel div 8)"

lemma mask_consts:
  "(0xFFFF :: u32) = mask 16" "(0xFF :: u32) = mask 8" "(0x0F :: u32) = mask 4" "(0x0F :: u8) = mask 4"
  "(0xFFFFF :: u32) = mask 20" "(0xFF :: u16) = mask 8" "(0xF0 :: u8) = push_bit 4 (mask 4)"
  by (simp_all add: mask_eq_exp_minus_1)

lemma gdt_gate_base: "seg_base (gdt_gate base limit acc gran) = base"
proof (rule bit_word_eqI)
  fix n :: nat
  have "24 + (n - 24) = n" if "24 \<le> n" using that by simp
  moreover have "16 + (n - 16) = n" if "16 \<le> n" using that by simp
  moreover assume "n < LENGTH(32)"
  ultimately show "bit (seg_base (gdt_gate base limit acc gran)) n = bit base n"
    unfolding seg_base_def gdt_gate_def mask_consts by (cases "16 \<le> n"; cases "24 \<le> n") (auto simp: bit_simps)
qed

lemma gdt_gate_limit: "seg_limit (gdt_gate base limit acc gran) = limit AND 0xFFFFF"
  unfolding seg_limit_def gdt_gate_def mask_consts by (rule bit_word_eqI) (auto simp: bit_simps)

lemma gdt_gate_gran: "n < 8 \<Longrightarrow> 4 \<le> n \<Longrightarrow> bit (granularity (gdt_gate base limit acc gran)) n = bit gran n"
  unfolding gdt_gate_def mask_consts by (auto simp: bit_simps)

lemma idt_gate_offset: "gate_offset (idt_gate isr flags) = isr"
  unfolding gate_offset_def idt_gate_def mask_consts by (rule bit_word_eqI) (auto simp: bit_simps)

section \<open>The tables after initialisation\<close>

lemma off_screen_cpu:
  assumes "off_screen s' = off_screen s"
  shows "gdt_entries s' = gdt_entries s" "gdt_base s' = gdt_base s" "gdt_limit s' = gdt_limit s" "tss s' = tss s"
    "idt_entries s' = idt_entries s" "idt_base s' = idt_base s" "idt_limit s' = idt_limit s"
  using arg_cong [OF assms, of gdt_entries] arg_cong [OF assms, of gdt_base] arg_cong [OF assms, of gdt_limit]
    arg_cong [OF assms, of tss] arg_cong [OF assms, of idt_entries] arg_cong [OF assms, of idt_base]
    arg_cong [OF assms, of idt_limit]
  by (simp_all add: off_screen_def)

lemma init_messages: "message ''GDT initialized\<newline>''" "message ''IDT initialized\<newline>''" "message ''PIC initialized\<newline>''"
  by (simp_all add: message_def cstr_def)

lemma access_gate: "access (gdt_gate base limit acc gran) = acc"
  by (simp add: gdt_gate_def)

lemma gdt_gate_flat:
  "seg_base (gdt_gate 0 0xFFFFFFFF acc 0xCF) = 0" "seg_last (gdt_gate 0 0xFFFFFFFF acc 0xCF) = 0xFFFFFFFF"
proof -
  have "bit (0xCF :: u8) 7" by (simp add: bit_iff_odd)
  then show "seg_last (gdt_gate 0 0xFFFFFFFF acc 0xCF) = 0xFFFFFFFF"
    by (simp add: seg_last_def gdt_gate_limit gdt_gate_gran)
qed (rule gdt_gate_base)

text \<open>
  After \<open>gdt_init\<close> the four code and data selectors name flat segments over the whole address
  space, privilege 0 for the kernel's selectors and 3 for the user's, code and data as their names
  say; the task selector names exactly the bytes of the task state segment.
\<close>

theorem gdt_init_segments:
  assumes "term_ok 1 s" and "length (gdt_entries s) = 6"
  shows "\<exists>s'. gdt_init s = Some s' \<and>
    (\<forall>sel \<in> {0x08, 0x10, 0x23, 0x1B}. seg_base (segment s' sel) = 0 \<and> seg_last (segment s' sel) = 0xFFFFFFFF) \<and>
    (\<forall>sel \<in> {0x08, 0x10}. seg_dpl (segment s' sel) = 0) \<and> (\<forall>sel \<in> {0x23, 0x1B}. seg_dpl (segment s' sel) = 3) \<and>
    (\<forall>sel \<in> {0x08, 0x23}. bit (access (segment s' sel)) 3) \<and> (\<forall>sel \<in> {0x10, 0x1B}. \<not> bit (access (segment s' sel)) 3) \<and>
    seg_base (segment s' 0x28) = tss_addr s \<and> seg_last (segment s' 0x28) = sizeof_tss - 1 \<and>
    gdt_base s' = gdt_entries_addr s \<and> gdt_limit s' = 47 \<and> ss0 (tss s') = 0x10 \<and> iomap_base (tss s') = 104"
proof -
  obtain e0 e1 e2 e3 e4 e5 where e: "gdt_entries s = [e0, e1, e2, e3, e4, e5]"
    using assms(2) by (auto simp: numeral_eq_Suc length_Suc_conv)
  let ?s1 = "s\<lparr>gdt_limit := 47, gdt_base := gdt_entries_addr s, tss := (tss s)\<lparr>ss0 := 0x10, iomap_base := 104\<rparr>,
    gdt_entries := [gdt_gate 0 0 0 0, gdt_gate 0 0xFFFFFFFF 0x9A 0xCF, gdt_gate 0 0xFFFFFFFF 0x92 0xCF,
      gdt_gate 0 0xFFFFFFFF 0xF2 0xCF, gdt_gate 0 0xFFFFFFFF 0xFA 0xCF, gdt_gate (tss_addr s) (sizeof_tss - 1) 0x89 0x0]\<rparr>"
  have i: "gdt_init s = terminal_writestring ''GDT initialized\<newline>'' ?s1"
    by (simp add: gdt_init_def gdt_set_gate_def array_set_def e sizeof_gdt_entry_def sizeof_tss_def Let_def)
  have "term_ok 1 ?s1" using assms(1) same_screen_room(2) [of s ?s1] by (simp add: same_screen_def)
  then obtain s' where s': "gdt_init s = Some s'" "off_screen s' = off_screen ?s1"
    using terminal_message_ok [of 0 ?s1 "''GDT initialized\<newline>''"] i by (auto simp: init_messages)
  have g: "gdt_entries s' = gdt_entries ?s1" "gdt_base s' = gdt_entries_addr s" "gdt_limit s' = 47"
    "tss s' = (tss s)\<lparr>ss0 := 0x10, iomap_base := 104\<rparr>"
    using off_screen_cpu [OF s'(2)] by simp_all
  have "seg_last (gdt_gate (tss_addr s) (sizeof_tss - 1) 0x89 0) = sizeof_tss - 1"
    by (simp add: seg_last_def gdt_gate_limit gdt_gate_gran sizeof_tss_def)
  then show ?thesis
    using s'(1) by (simp add: g segment_def gdt_gate_flat gdt_gate_base seg_dpl_def access_gate bit_iff_odd drop_bit_eq_div)
qed

lemma idt_exceptions_ok:
  assumes "\<And>v. v \<in> set vs \<Longrightarrow> v < 256 \<and> v < length (isr_stub_table s)" and "length (idt_entries s) = 256" and "distinct vs"
  shows "\<exists>es. idt_exceptions vs s = Some (s\<lparr>idt_entries := es\<rparr>) \<and> length es = 256 \<and>
    (\<forall>v. es ! v = (if v \<in> set vs then idt_gate (isr_stub_table s ! v) 0x8E else idt_entries s ! v))"
  using assms
proof (induction vs arbitrary: s)
  case Nil
  then show ?case by (intro exI [of _ "idt_entries s"]) simp
next
  case (Cons v vs)
  let ?s1 = "s\<lparr>idt_entries := (idt_entries s)[v := idt_gate (isr_stub_table s ! v) 0x8E]\<rparr>"
  have v: "v < 256" "v < length (isr_stub_table s)" "unat (of_nat v :: u8) = v"
    using Cons.prems(1) [of v] by (simp_all add: unat_of_nat)
  have "\<And>w. w \<in> set vs \<Longrightarrow> w < 256 \<and> w < length (isr_stub_table ?s1)" "length (idt_entries ?s1) = 256" "distinct vs"
    using Cons.prems by simp_all
  from Cons.IH [OF this] obtain es where es: "idt_exceptions vs ?s1 = Some (?s1\<lparr>idt_entries := es\<rparr>)" "length es = 256"
    "\<forall>w. es ! w = (if w \<in> set vs then idt_gate (isr_stub_table ?s1 ! w) 0x8E else idt_entries ?s1 ! w)" by blast
  have "idt_exceptions (v # vs) s = Some (s\<lparr>idt_entries := es\<rparr>)"
    using es(1) v Cons.prems(2) by (simp add: array_get_def array_set_def idt_set_descriptor_def)
  moreover have "es ! w = (if w \<in> set (v # vs) then idt_gate (isr_stub_table s ! w) 0x8E else idt_entries s ! w)" for w
    using es(3) v Cons.prems(2,3) by (auto simp: nth_list_update)
  ultimately show ?case using es(2) by blast
qed

text \<open>
  After \<open>idt_init\<close> vectors 0 to 31 lead to the exception stubs and 32 and 33 to the timer and
  keyboard stubs, all callable from ring 0 only, vector 128 leads to the system call stub and is the
  only new gate a user program may raise; every other gate is unchanged.
\<close>

theorem idt_init_gates:
  assumes "term_ok 1 s" and "length (idt_entries s) = 256" and "32 \<le> length (isr_stub_table s)"
  shows "\<exists>s'. idt_init s = Some s' \<and>
    (\<forall>v < 32. gate_offset (idt_entries s' ! v) = isr_stub_table s ! v \<and> gate_dpl (idt_entries s' ! v) = 0) \<and>
    gate_offset (idt_entries s' ! 32) = irq0_stub s \<and> gate_dpl (idt_entries s' ! 32) = 0 \<and>
    gate_offset (idt_entries s' ! 33) = irq1_stub s \<and> gate_dpl (idt_entries s' ! 33) = 0 \<and>
    gate_offset (idt_entries s' ! 128) = syscall_stub s \<and> gate_dpl (idt_entries s' ! 128) = 3 \<and>
    (\<forall>v. 34 \<le> v \<and> v \<noteq> 128 \<longrightarrow> idt_entries s' ! v = idt_entries s ! v) \<and>
    idt_base s' = idt_entries_addr s \<and> idt_limit s' = 2047"
proof -
  let ?s0 = "s\<lparr>idt_base := idt_entries_addr s, idt_limit := 2047\<rparr>"
  obtain es where es: "idt_exceptions [0..<32] ?s0 = Some (?s0\<lparr>idt_entries := es\<rparr>)" "length es = 256"
    "\<And>v. es ! v = (if v < 32 then idt_gate (isr_stub_table s ! v) 0x8E else idt_entries s ! v)"
    using idt_exceptions_ok [of "[0..<32]" ?s0] assms(2,3) by auto
  let ?es = "es[32 := idt_gate (irq0_stub s) 0x8E, 33 := idt_gate (irq1_stub s) 0x8E, 128 := idt_gate (syscall_stub s) 0xEE]"
  let ?s1 = "?s0\<lparr>idt_entries := ?es\<rparr>"
  have i: "idt_init s = terminal_writestring ''IDT initialized\<newline>'' ?s1"
    using es(1,2) by (simp add: idt_init_def idt_set_descriptor_def array_set_def sizeof_idt_entry_def Let_def)
  have "term_ok 1 ?s1" using assms(1) same_screen_room(2) [of s ?s1] by (simp add: same_screen_def)
  then obtain s' where s': "idt_init s = Some s'" "off_screen s' = off_screen ?s1"
    using terminal_message_ok [of 0 ?s1 "''IDT initialized\<newline>''"] i by (auto simp: init_messages)
  have g: "idt_entries s' = ?es" "idt_base s' = idt_entries_addr s" "idt_limit s' = 2047"
    using off_screen_cpu [OF s'(2)] by simp_all
  have d: "gate_dpl (idt_gate isr 0x8E) = 0" "gate_dpl (idt_gate isr 0xEE) = 3" for isr
    by (simp_all add: gate_dpl_def idt_gate_def drop_bit_eq_div)
  have "(\<forall>v < 32. gate_offset (?es ! v) = isr_stub_table s ! v \<and> gate_dpl (?es ! v) = 0)"
    "(\<forall>v. 34 \<le> v \<and> v \<noteq> 128 \<longrightarrow> ?es ! v = idt_entries s ! v)"
    by (auto simp: nth_list_update es(3) idt_gate_offset d)
  moreover have "?es ! 32 = idt_gate (irq0_stub s) 0x8E" "?es ! 33 = idt_gate (irq1_stub s) 0x8E"
    "?es ! 128 = idt_gate (syscall_stub s) 0xEE" using es(2) by (simp_all add: nth_list_update)
  ultimately show ?thesis using s'(1) g by (simp add: idt_gate_offset d)
qed

section \<open>What the interrupt controllers make of their initialisation\<close>

text \<open>
  An 8259A expects three more words on its data port after the first initialisation word on its
  command port: the vector offset, the cascade wiring and the mode; from then on its data port is
  the interrupt mask.
\<close>

record pic =
  expects :: nat
  vector_offset :: u8
  cascade :: u8
  irq_mask :: u8

definition pic_out :: "u16 \<Rightarrow> u16 \<Rightarrow> io_event \<Rightarrow> pic \<Rightarrow> pic" where
  "pic_out command data e p =
     (case e of
        Out8 port v \<Rightarrow>
          if port = command then (if bit v 4 then p\<lparr>expects := 3, irq_mask := 0\<rparr> else p)
          else if port = data then
            (if expects p = 3 then p\<lparr>expects := 2, vector_offset := v\<rparr>
             else if expects p = 2 then p\<lparr>expects := 1, cascade := v\<rparr>
             else if expects p = 1 then p\<lparr>expects := 0\<rparr>
             else p\<lparr>irq_mask := v\<rparr>)
          else p
      | Out16 port v \<Rightarrow> p)"

lemma terminal_trace:
  assumes "off_screen s' = off_screen s"
  shows "io_trace s' = io_trace s"
  using arg_cong [OF assms, of io_trace] by (simp add: off_screen_def)

text \<open>
  Whatever state the two controllers are in, the words \<open>pic_init\<close> sends leave the first one at
  the first offset with its second line cascaded and only timer and keyboard unmasked, the second one
  at the second offset with everything masked.
\<close>

theorem pic_init_programs:
  assumes "term_ok 1 s"
  shows "\<exists>s' sent. pic_init offset1 offset2 s = Some s' \<and> io_trace s' = io_trace s @ sent \<and>
    fold (pic_out PIC1_COMMAND PIC1_DATA) sent p =
      p\<lparr>expects := 0, vector_offset := ucast offset1, cascade := 4, irq_mask := 0xFC\<rparr> \<and>
    fold (pic_out PIC2_COMMAND PIC2_DATA) sent q =
      q\<lparr>expects := 0, vector_offset := ucast offset2, cascade := 2, irq_mask := 0xFF\<rparr>"
proof -
  note ports = PIC1_COMMAND_def PIC1_DATA_def PIC2_COMMAND_def PIC2_DATA_def
  let ?sent = "[Out8 0x20 0x11, Out8 0x80 0, Out8 0xA0 0x11, Out8 0x80 0, Out8 0x21 (ucast offset1), Out8 0x80 0,
     Out8 0xA1 (ucast offset2), Out8 0x80 0, Out8 0x21 4, Out8 0x80 0, Out8 0xA1 2, Out8 0x80 0,
     Out8 0x21 1, Out8 0x80 0, Out8 0xA1 1, Out8 0x80 0, Out8 0x21 0xFC, Out8 0xA1 0xFF]"
  let ?s1 = "s\<lparr>io_trace := io_trace s @ ?sent\<rparr>"
  have i: "pic_init offset1 offset2 s = terminal_writestring ''PIC initialized\<newline>'' ?s1"
    by (simp add: pic_init_def outb_def io_wait_def ports Let_def push_bit_eq_mult)
  have "term_ok 1 ?s1" using assms same_screen_room(2) [of s ?s1] by (simp add: same_screen_def)
  then obtain s' where s': "pic_init offset1 offset2 s = Some s'" "off_screen s' = off_screen ?s1"
    using terminal_message_ok [of 0 ?s1 "''PIC initialized\<newline>''"] i by (auto simp: init_messages)
  have "io_trace s' = io_trace s @ ?sent" using terminal_trace [OF s'(2)] by simp
  moreover have "fold (pic_out PIC1_COMMAND PIC1_DATA) ?sent p =
      p\<lparr>expects := 0, vector_offset := ucast offset1, cascade := 4, irq_mask := 0xFC\<rparr>"
    "fold (pic_out PIC2_COMMAND PIC2_DATA) ?sent q =
      q\<lparr>expects := 0, vector_offset := ucast offset2, cascade := 2, irq_mask := 0xFF\<rparr>"
    by (simp_all add: pic_out_def ports bit_iff_odd)
  ultimately show ?thesis using s'(1) by blast
qed

section \<open>Witnesses\<close>

definition boot_cpu :: cpu_state where
  "boot_cpu = mem_state.extend booted (cpu_state.fields
     (replicate 6 (gdt_gate 0 0 0 0)) 0 0 \<lparr>esp0 = 0, ss0 = 0, iomap_base = 0\<rparr>
     (replicate 256 (idt_gate 0 0)) 0 0 0xC0110000 0xC0110040 0xC0111000
     (map (\<lambda>v. 0xC0101000 + of_nat v * 16) [0..<32]) 0xC0101200 0xC0101240 0xC0101280)"

lemma boot_cpu_ok: "term_ok 1 boot_cpu" "length (gdt_entries boot_cpu) = 6" "length (idt_entries boot_cpu) = 256"
  "length (isr_stub_table boot_cpu) = 32" "tss_addr boot_cpu = 0xC0110040" "syscall_stub boot_cpu = 0xC0101280"
proof -
  have "same_screen booted boot_cpu" by (simp add: same_screen_def boot_cpu_def mem_state.defs cpu_state.defs)
  then show "term_ok 1 boot_cpu" using booted_ok [of 1] by (simp add: same_screen_room(2))
qed (simp_all add: boot_cpu_def mem_state.defs cpu_state.defs)

theorem gdt_init_segments_witness:
  "\<exists>s'. gdt_init boot_cpu = Some s' \<and> seg_dpl (segment s' 0x23) = 3 \<and> seg_base (segment s' 0x28) = 0xC0110040"
  using gdt_init_segments [OF boot_cpu_ok(1,2)] by (auto simp: boot_cpu_ok)

theorem idt_init_gates_witness:
  "\<exists>s'. idt_init boot_cpu = Some s' \<and> gate_offset (idt_entries s' ! 128) = 0xC0101280"
  using idt_init_gates [OF boot_cpu_ok(1,3)] by (auto simp: boot_cpu_ok)

theorem pic_init_programs_witness:
  "\<exists>s' sent. pic_init 0x20 0x28 boot_cpu = Some s' \<and>
    vector_offset (fold (pic_out PIC1_COMMAND PIC1_DATA) sent \<lparr>expects = 0, vector_offset = 0, cascade = 0, irq_mask = 0\<rparr>) = 0x20"
proof -
  let ?p = "\<lparr>expects = 0, vector_offset = 0, cascade = 0, irq_mask = 0\<rparr> :: pic"
  from pic_init_programs [OF boot_cpu_ok(1), of "0x20" "0x28" ?p ?p] obtain s' sent where
    s: "pic_init 0x20 0x28 boot_cpu = Some s'"
      "fold (pic_out PIC1_COMMAND PIC1_DATA) sent ?p =
        ?p\<lparr>expects := 0, vector_offset := ucast (0x20 :: u32), cascade := 4, irq_mask := 0xFC\<rparr>" by blast
  have "vector_offset (fold (pic_out PIC1_COMMAND PIC1_DATA) sent ?p) = 0x20" unfolding s(2) by simp
  with s(1) show ?thesis by blast
qed

end
