(* ===== verification/Slab.thy ===== *)
theory Slab
  imports Kheap Cpu_Tables
begin

text \<open>
  The slab allocator of \<open>kernel/memory.c\<close>: \<open>kmalloc\<close>, \<open>kfree\<close>, \<open>kmemcpy\<close> and \<open>kmemset\<close>. A \<open>slab_t\<close>
  lives in the first bytes of a heap page and is read and written there byte by byte through the
  page walk; \<open>slab_caches\<close> is a table of the kernel image, at the address the linker chose.

  The free list starts right behind the slab's header, and so do the objects. The properties show that this
  is harmless while objects are given back in the opposite order of their allocation, and that
  otherwise \<open>kfree\<close> writes into objects that are still in use.
\<close>

section \<open>State\<close>

record slab_cache =
  obj_size :: u32
  partial :: addr
  full :: addr

record slab_state = cpu_state +
  slab_caches :: "slab_cache list"
  slab_caches_addr :: addr

definition slab_classes :: "u32 list" where
  "slab_classes = [16, 32, 64, 128, 256, 512, 1024, 2048]"

section \<open>Fields of a slab\<close>

definition vload16 :: "addr \<Rightarrow> 'a mem_state_scheme \<Rightarrow> u16 option" where
  "vload16 va s = do { pa \<leftarrow> translate (phys s) (cr3 s) False va; Some (load16 (phys s) pa) }"

definition vstore16 :: "addr \<Rightarrow> u16 \<Rightarrow> 'a mem_state_scheme \<Rightarrow> 'a mem_state_scheme option" where
  "vstore16 va v s = do {
     pa \<leftarrow> translate (phys s) (cr3 s) True va;
     Some (s\<lparr>phys := store16 (phys s) pa v\<rparr>) }"

definition SLAB_NEXT :: u32 where "SLAB_NEXT = 0"
definition SLAB_PREV :: u32 where "SLAB_PREV = 4"
definition SLAB_OWNER :: u32 where "SLAB_OWNER = 8"
definition SLAB_TOTAL :: u32 where "SLAB_TOTAL = 12"
definition SLAB_FREE :: u32 where "SLAB_FREE = 14"
definition SLAB_LIST :: u32 where "SLAB_LIST = 16"
definition sizeof_slab :: u32 where "sizeof_slab = 16"

text \<open>A \<open>slab_cache_t\<close> pointer is the address of one of the eight entries of \<open>slab_caches\<close>.\<close>

definition cache_addr :: "'a slab_state_scheme \<Rightarrow> nat \<Rightarrow> addr" where
  "cache_addr s i = slab_caches_addr s + of_nat i * 12"

definition cache_index :: "addr \<Rightarrow> 'a slab_state_scheme \<Rightarrow> nat option" where
  "cache_index p s = (let i = unat ((p - slab_caches_addr s) div 12) in
     if i < length (slab_caches s) \<and> p = cache_addr s i then Some i else None)"

definition set_partial :: "nat \<Rightarrow> addr \<Rightarrow> 'a slab_state_scheme \<Rightarrow> 'a slab_state_scheme" where
  "set_partial i p s = s\<lparr>slab_caches := (slab_caches s)[i := (slab_caches s ! i)\<lparr>partial := p\<rparr>]\<rparr>"

definition set_full :: "nat \<Rightarrow> addr \<Rightarrow> 'a slab_state_scheme \<Rightarrow> 'a slab_state_scheme" where
  "set_full i p s = s\<lparr>slab_caches := (slab_caches s)[i := (slab_caches s ! i)\<lparr>full := p\<rparr>]\<rparr>"

section \<open>Allocation\<close>

fun class_from :: "u32 list \<Rightarrow> u32 \<Rightarrow> int \<Rightarrow> int" where
  "class_from [] sz i = -1"
| "class_from (c # cs) sz i = (if sz \<le> c then i else class_from cs sz (i + 1))"

definition size_to_class :: "u32 \<Rightarrow> int" where
  "size_to_class sz = class_from slab_classes sz 0"

definition fp_allocation :: "u32 \<Rightarrow> 'a mem_state_scheme \<Rightarrow> (addr \<times> 'a mem_state_scheme) option" where
  "fp_allocation sz s = do {
     let npages = (sz + sizeof_slab) div PAGE_SIZE + 1;
     (virt_addr, s) \<leftarrow> mmap npages 3 s;
     s \<leftarrow> vstore16 (virt_addr + SLAB_TOTAL) (ucast npages) s;
     s \<leftarrow> vstore32 (virt_addr + SLAB_OWNER) NULL s;
     Some (virt_addr + sizeof_slab, s) }"

text \<open>Taking the last entry of the free list of a partial slab.\<close>

definition kmalloc_partial :: "nat \<Rightarrow> addr \<Rightarrow> 'a slab_state_scheme \<Rightarrow> (addr \<times> 'a slab_state_scheme) option" where
  "kmalloc_partial idx slab s = do {
     free_count \<leftarrow> vload16 (slab + SLAB_FREE) s;
     s \<leftarrow> vstore16 (slab + SLAB_FREE) (free_count - 1) s;
     a \<leftarrow> vload32 (slab + SLAB_LIST + 4 * (ucast free_count - 1)) s;
     free_count \<leftarrow> vload16 (slab + SLAB_FREE) s;
     if free_count = 0 then do {
       next \<leftarrow> vload32 (slab + SLAB_NEXT) s;
       s \<leftarrow> (if next \<noteq> NULL then vstore32 (next + SLAB_PREV) NULL s else Some s);
       next \<leftarrow> vload32 (slab + SLAB_NEXT) s;
       let s = set_partial idx next s;
       let old_full = full (slab_caches s ! idx);
       s \<leftarrow> (if old_full \<noteq> NULL then vstore32 (old_full + SLAB_PREV) slab s else Some s);
       s \<leftarrow> vstore32 (slab + SLAB_NEXT) (full (slab_caches s ! idx)) s;
       s \<leftarrow> vstore32 (slab + SLAB_PREV) NULL s;
       Some (a, set_full idx slab s) }
     else Some (a, s) }"

text \<open>
  Filling the free list of a new slab: \<open>free_list[i] = addr_start + obj_size * i\<close>. The loop's bound
  \<open>new_slab->free_count\<close> lies below the list and keeps its value.
\<close>

fun fill_free_list :: "nat list \<Rightarrow> addr \<Rightarrow> u32 \<Rightarrow> 'a mem_state_scheme \<Rightarrow> 'a mem_state_scheme option" where
  "fill_free_list [] slab sz s = Some s"
| "fill_free_list (i # is) slab sz s = do {
     s \<leftarrow> vstore32 (slab + SLAB_LIST + 4 * of_nat i) (slab + sizeof_slab + sz * of_nat i) s;
     fill_free_list is slab sz s }"

definition kmalloc_new :: "nat \<Rightarrow> 'a slab_state_scheme \<Rightarrow> (addr \<times> 'a slab_state_scheme) option" where
  "kmalloc_new idx s = do {
     let sz = obj_size (slab_caches s ! idx);
     (slab, s) \<leftarrow> mmap 1 3 s;
     let total_count = (ucast ((PAGE_SIZE - sizeof_slab) div sz) :: u16);
     s \<leftarrow> vstore32 (slab + SLAB_NEXT) NULL s;
     s \<leftarrow> vstore32 (slab + SLAB_PREV) NULL s;
     s \<leftarrow> vstore32 (slab + SLAB_OWNER) (cache_addr s idx) s;
     s \<leftarrow> vstore16 (slab + SLAB_TOTAL) total_count s;
     s \<leftarrow> vstore16 (slab + SLAB_FREE) total_count s;
     s \<leftarrow> fill_free_list [0..<unat total_count] slab sz s;
     let s = set_partial idx slab s;
     free_count \<leftarrow> vload16 (slab + SLAB_FREE) s;
     s \<leftarrow> vstore16 (slab + SLAB_FREE) (free_count - 1) s;
     a \<leftarrow> vload32 (slab + SLAB_LIST + 4 * (ucast free_count - 1)) s;
     Some (a, s) }"

definition kmalloc :: "u32 \<Rightarrow> 'a slab_state_scheme \<Rightarrow> (addr \<times> 'a slab_state_scheme) option" where
  "kmalloc sz s = (
     let slab_class_idx = size_to_class sz in
     if slab_class_idx < 0 then fp_allocation sz s
     else do {
       slab_cache \<leftarrow> array_get (slab_caches s) (nat slab_class_idx);
       if partial slab_cache \<noteq> NULL then kmalloc_partial (nat slab_class_idx) (partial slab_cache) s
       else kmalloc_new (nat slab_class_idx) s })"

section \<open>Release\<close>

text \<open>\<open>if (slab->prev != NULL) slab->prev->next = slab->next; if (slab->next != NULL) slab->next->prev = slab->prev;\<close>\<close>

definition unlink_slab :: "addr \<Rightarrow> 'a mem_state_scheme \<Rightarrow> 'a mem_state_scheme option" where
  "unlink_slab slab s = do {
     prev \<leftarrow> vload32 (slab + SLAB_PREV) s;
     s \<leftarrow> (if prev \<noteq> NULL then do { next \<leftarrow> vload32 (slab + SLAB_NEXT) s; vstore32 (prev + SLAB_NEXT) next s } else Some s);
     next \<leftarrow> vload32 (slab + SLAB_NEXT) s;
     if next \<noteq> NULL then do { prev \<leftarrow> vload32 (slab + SLAB_PREV) s; vstore32 (next + SLAB_PREV) prev s } else Some s }"

definition kfree :: "addr \<Rightarrow> 'a slab_state_scheme \<Rightarrow> 'a slab_state_scheme option" where
  "kfree ptr s = do {
     let slab = align_down_4k ptr;
     owner \<leftarrow> vload32 (slab + SLAB_OWNER) s;
     if owner = NULL then do {
       total_count \<leftarrow> vload16 (slab + SLAB_TOTAL) s;
       unmmap slab (ucast total_count) s }
     else do {
       idx \<leftarrow> cache_index owner s;
       free_count \<leftarrow> vload16 (slab + SLAB_FREE) s;
       s \<leftarrow> vstore32 (slab + SLAB_LIST + 4 * ucast free_count) ptr s;
       s \<leftarrow> vstore16 (slab + SLAB_FREE) (free_count + 1) s;
       s \<leftarrow> (if free_count + 1 = 1 then do {
                s \<leftarrow> unlink_slab slab s;
                next \<leftarrow> vload32 (slab + SLAB_NEXT) s;
                let s = (if full (slab_caches s ! idx) = slab then set_full idx next s else s);
                let old_partial = partial (slab_caches s ! idx);
                s \<leftarrow> (if old_partial \<noteq> NULL then vstore32 (old_partial + SLAB_PREV) slab s else Some s);
                s \<leftarrow> vstore32 (slab + SLAB_NEXT) old_partial s;
                s \<leftarrow> vstore32 (slab + SLAB_PREV) NULL s;
                Some (set_partial idx slab s) }
              else Some s);
       free_count \<leftarrow> vload16 (slab + SLAB_FREE) s;
       total_count \<leftarrow> vload16 (slab + SLAB_TOTAL) s;
       if free_count = total_count then do {
         s \<leftarrow> unlink_slab slab s;
         next \<leftarrow> vload32 (slab + SLAB_NEXT) s;
         let s = (if partial (slab_caches s ! idx) = slab then set_partial idx next s else s);
         unmmap slab 1 s }
       else Some s } }"

text \<open>\<open>kmemcpy\<close> and \<open>kmemset\<close>, byte by byte in increasing order.\<close>

fun kmemcpy_loop :: "nat \<Rightarrow> addr \<Rightarrow> addr \<Rightarrow> 'a mem_state_scheme \<Rightarrow> 'a mem_state_scheme option" where
  "kmemcpy_loop 0 to from s = Some s"
| "kmemcpy_loop (Suc n) to from s = do {
     b \<leftarrow> vload8 from s;
     s \<leftarrow> vstore8 to b s;
     kmemcpy_loop n (to + 1) (from + 1) s }"

definition kmemcpy :: "addr \<Rightarrow> addr \<Rightarrow> u32 \<Rightarrow> 'a mem_state_scheme \<Rightarrow> 'a mem_state_scheme option" where
  "kmemcpy to from sz s = kmemcpy_loop (unat sz) to from s"

fun kmemset_loop :: "nat \<Rightarrow> addr \<Rightarrow> u8 \<Rightarrow> 'a mem_state_scheme \<Rightarrow> 'a mem_state_scheme option" where
  "kmemset_loop 0 ptr x s = Some s"
| "kmemset_loop (Suc n) ptr x s = do { s \<leftarrow> vstore8 ptr x s; kmemset_loop n (ptr + 1) x s }"

definition kmemset :: "addr \<Rightarrow> u32 \<Rightarrow> u32 \<Rightarrow> 'a mem_state_scheme \<Rightarrow> 'a mem_state_scheme option" where
  "kmemset ptr x n s = kmemset_loop (unat n) ptr (ucast x) s"

section \<open>Words and half-words of heap pages\<close>

lemma offset_bytes:
  assumes "page_aligned f" and "off < 4096" and "unat off + unat k < 4096"
  shows "(f + off + k) AND PAGE_MASK = f" and "off + k < 4096"
proof -
  have u: "unat (off + k) = unat off + unat k" using assms(3) by (simp add: unat_add_u32)
  show "off + k < 4096" using assms(3) by (simp add: word_less_nat_alt u)
  from frame_offset [OF assms(1) this] show "(f + off + k) AND PAGE_MASK = f" by (simp add: add.assoc)
qed

lemma heap_load:
  assumes "kheap_inv s" and "heap_view s h = Some page" and "cr3 s = kpd_phys s"
  shows "unat off + 3 < 4096 \<Longrightarrow> vload32 (heap_va h + off) s = Some (load32 page off)"
    and "unat off + 1 < 4096 \<Longrightarrow> vload16 (heap_va h + off) s = Some (load16 page off)"
proof -
  have m: "mapped s h" and pg: "page = (\<lambda>off. if off < 4096 then phys s (hframe s h + off) else 0)"
    using assms(2) by (auto simp: heap_view_def split: if_splits)
  have p: "page (off + k) = phys s (hframe s h + off + k)" if "unat off + unat k < 4096" for k
    using that offset_bytes(2) [of "hframe s h" off k] by (simp add: pg word_less_nat_alt add.assoc)
  have tr: "translate (phys s) (cr3 s) w (heap_va h + off) = Some (hframe s h + off)" if "unat off < 4096" for w
    using heap_translate [OF assms(1) m assms(3)] that by (simp add: word_less_nat_alt)
  show "unat off + 3 < 4096 \<Longrightarrow> vload32 (heap_va h + off) s = Some (load32 page off)"
    using tr p [of 0] p [of 1] p [of 2] p [of 3] by (simp add: vload32_def load32_def)
  show "unat off + 1 < 4096 \<Longrightarrow> vload16 (heap_va h + off) s = Some (load16 page off)"
    using tr p [of 0] p [of 1] by (simp add: vload16_def load16_def)
qed

lemma heap_change:
  assumes "kheap_inv s" and "heap_view s h = Some page" and "cr3 s = kpd_phys s" and "unat off < 4096"
    and "\<And>a. a AND PAGE_MASK \<noteq> hframe s h \<Longrightarrow> mem a = phys s a"
    and "\<And>o'. o' < 4096 \<Longrightarrow> mem (hframe s h + o') = page' o'" and "\<And>o'. \<not> o' < 4096 \<Longrightarrow> page' o' = 0"
  shows "kheap_inv (s\<lparr>phys := mem\<rparr>)" "heap_view (s\<lparr>phys := mem\<rparr>) = (heap_view s)(h \<mapsto> page')"
proof -
  have m: "mapped s h" using assms(2) by (auto simp: heap_view_def split: if_splits)
  show "kheap_inv (s\<lparr>phys := mem\<rparr>)" by (rule heap_bytes_change(1) [OF assms(1) m assms(5)])
  have "(\<lambda>off. if off < 4096 then mem (hframe s h + off) else 0) = page'" using assms(6,7) by (auto simp: fun_eq_iff)
  then show "heap_view (s\<lparr>phys := mem\<rparr>) = (heap_view s)(h \<mapsto> page')"
    using heap_bytes_change(3) [OF assms(1) m assms(5)] by simp
qed

lemma heap_store:
  assumes "kheap_inv s" and "heap_view s h = Some page" and "cr3 s = kpd_phys s"
  shows "unat off + 3 < 4096 \<Longrightarrow> \<exists>s'. vstore32 (heap_va h + off) v s = Some s' \<and> kheap_inv s' \<and>
      heap_view s' = (heap_view s)(h \<mapsto> store32 page off v) \<and> mem_rest s' = mem_rest s"
    and "unat off + 1 < 4096 \<Longrightarrow> \<exists>s'. vstore16 (heap_va h + off) w s = Some s' \<and> kheap_inv s' \<and>
      heap_view s' = (heap_view s)(h \<mapsto> store16 page off w) \<and> mem_rest s' = mem_rest s"
proof -
  have m: "mapped s h" and pg: "page = (\<lambda>off. if off < 4096 then phys s (hframe s h + off) else 0)"
    using assms(2) by (auto simp: heap_view_def split: if_splits)
  let ?f = "hframe s h"
  have tr: "translate (phys s) (cr3 s) w (heap_va h + off) = Some (?f + off)" if "unat off < 4096" for w
    using heap_translate [OF assms(1) m assms(3)] that by (simp add: word_less_nat_alt)
  have b: "(?f + off + k) AND PAGE_MASK = ?f" "off + k < 4096" if "unat off + unat k < 4096" for k
    using that offset_bytes [of ?f off k] by (simp_all add: word_less_nat_alt)
  {
    assume o: "unat off + 3 < 4096"
    note bs = b [of 0] b [of 1] b [of 2] b [of 3]
    let ?m = "store32 (phys s) (?f + off) v"
    have st: "vstore32 (heap_va h + off) v s = Some (s\<lparr>phys := ?m\<rparr>)" using tr o by (simp add: vstore32_def)
    have "kheap_inv (s\<lparr>phys := ?m\<rparr>) \<and> heap_view (s\<lparr>phys := ?m\<rparr>) = (heap_view s)(h \<mapsto> store32 page off v)"
      by (intro conjI heap_change [OF assms, of off ?m "store32 page off v"])
        (use o bs in \<open>auto simp: store32_def pg add.assoc\<close>)
    with st show "\<exists>s'. vstore32 (heap_va h + off) v s = Some s' \<and> kheap_inv s' \<and>
      heap_view s' = (heap_view s)(h \<mapsto> store32 page off v) \<and> mem_rest s' = mem_rest s" by simp
  }
  assume o: "unat off + 1 < 4096"
  note bs = b [of 0] b [of 1]
  let ?m = "store16 (phys s) (?f + off) w"
  have st: "vstore16 (heap_va h + off) w s = Some (s\<lparr>phys := ?m\<rparr>)" using tr o by (simp add: vstore16_def)
  have "kheap_inv (s\<lparr>phys := ?m\<rparr>) \<and> heap_view (s\<lparr>phys := ?m\<rparr>) = (heap_view s)(h \<mapsto> store16 page off w)"
    by (intro conjI heap_change [OF assms, of off ?m "store16 page off w"])
      (use o bs in \<open>auto simp: store16_def pg add.assoc\<close>)
  with st show "\<exists>s'. vstore16 (heap_va h + off) w s = Some s' \<and> kheap_inv s' \<and>
      heap_view s' = (heap_view s)(h \<mapsto> store16 page off w) \<and> mem_rest s' = mem_rest s" by simp
qed

section \<open>Working on one page\<close>

text \<open>The heap is in order, the kernel's page directory is loaded, and heap page \<open>h\<close> holds \<open>page\<close>.\<close>

definition on_page :: "'a mem_state_scheme \<Rightarrow> nat \<Rightarrow> memory \<Rightarrow> bool" where
  "on_page s h page \<longleftrightarrow> kheap_inv s \<and> heap_view s h = Some page \<and> cr3 s = kpd_phys s"

definition others_kept :: "nat \<Rightarrow> 'a mem_state_scheme \<Rightarrow> 'a mem_state_scheme \<Rightarrow> bool" where
  "others_kept h s s' \<longleftrightarrow> (\<forall>k. k \<noteq> h \<longrightarrow> heap_view s' k = heap_view s k) \<and> mem_rest s' = mem_rest s"

lemma others_kept_refl [simp]: "others_kept h s s"
  by (simp add: others_kept_def)

lemma others_kept_trans [trans]: "others_kept h s t \<Longrightarrow> others_kept h t u \<Longrightarrow> others_kept h s u"
  by (simp add: others_kept_def)

lemma on_page_load:
  assumes "on_page s h page"
  shows "unat off + 3 < 4096 \<Longrightarrow> vload32 (heap_va h + off) s = Some (load32 page off)"
    and "unat off + 1 < 4096 \<Longrightarrow> vload16 (heap_va h + off) s = Some (load16 page off)"
  using assms heap_load unfolding on_page_def by blast+

lemma on_page_store32:
  assumes "on_page s h page" and "unat off + 3 < 4096"
  obtains s' where "vstore32 (heap_va h + off) v s = Some s'" "on_page s' h (store32 page off v)" "others_kept h s s'"
proof -
  from assms(1) have s: "kheap_inv s" "heap_view s h = Some page" "cr3 s = kpd_phys s" by (simp_all add: on_page_def)
  from heap_store(1) [OF s assms(2)] obtain s' where s': "vstore32 (heap_va h + off) v s = Some s'" "kheap_inv s'"
    "heap_view s' = (heap_view s)(h \<mapsto> store32 page off v)" "mem_rest s' = mem_rest s" by blast
  have "on_page s' h (store32 page off v)" using s' s(3) mem_restD(1,5) [OF s'(4)] by (simp add: on_page_def)
  moreover have "others_kept h s s'" using s'(3,4) by (simp add: others_kept_def)
  ultimately show thesis by (rule that [OF s'(1)])
qed

lemma on_page_store16:
  assumes "on_page s h page" and "unat off + 1 < 4096"
  obtains s' where "vstore16 (heap_va h + off) v s = Some s'" "on_page s' h (store16 page off v)" "others_kept h s s'"
proof -
  from assms(1) have s: "kheap_inv s" "heap_view s h = Some page" "cr3 s = kpd_phys s" by (simp_all add: on_page_def)
  from heap_store(2) [OF s assms(2)] obtain s' where s': "vstore16 (heap_va h + off) v s = Some s'" "kheap_inv s'"
    "heap_view s' = (heap_view s)(h \<mapsto> store16 page off v)" "mem_rest s' = mem_rest s" by blast
  have "on_page s' h (store16 page off v)" using s' s(3) mem_restD(1,5) [OF s'(4)] by (simp add: on_page_def)
  moreover have "others_kept h s s'" using s'(3,4) by (simp add: others_kept_def)
  ultimately show thesis by (rule that [OF s'(1)])
qed

lemma others_kept_caches:
  fixes s s' :: "'a slab_state_scheme"
  assumes "others_kept h s s'"
  shows "slab_caches s' = slab_caches s" "slab_caches_addr s' = slab_caches_addr s"
proof -
  have "mem_rest s' = mem_rest s" using assms by (simp add: others_kept_def)
  from arg_cong [OF this, of slab_caches] arg_cong [OF this, of slab_caches_addr]
  show "slab_caches s' = slab_caches s" "slab_caches_addr s' = slab_caches_addr s" by (simp_all add: mem_rest_def)
qed

lemma caches_keep_heap [simp]:
  "win_wf (s\<lparr>slab_caches := x\<rparr>) = win_wf s" "kheap_inv (s\<lparr>slab_caches := x\<rparr>) = kheap_inv s"
  "heap_view (s\<lparr>slab_caches := x\<rparr>) = heap_view s" "on_page (s\<lparr>slab_caches := x\<rparr>) h page = on_page s h page"
proof -
  let ?t = "s\<lparr>slab_caches := x\<rparr>"
  have w: "win_wf ?t = win_wf s" "closed ?t = closed s" "win_frames ?t = win_frames s"
    by (simp_all add: win_wf_def kmapped_def boot_pt_def kpd_phys_def closed_def slot_def win_frames_def)
  have k: "kpde ?t = kpde s" "mapped ?t = mapped s" by (simp_all add: fun_eq_iff kpde_def kpd_phys_def mapped_def)
  then have t: "table ?t = table s" by (simp add: fun_eq_iff table_def)
  then have p: "hpte ?t = hpte s" by (simp add: fun_eq_iff hpte_def)
  then have f: "hframe ?t = hframe s" by (simp add: fun_eq_iff hframe_def)
  have u: "pmm_inv ?t = pmm_inv s" "frame_used ?t = frame_used s"
    by (simp_all add: fun_eq_iff pmm_inv_def frame_used_def used_pages_def page_used_def page_count_def)
  show "win_wf ?t = win_wf s" by (rule w(1))
  show i: "kheap_inv ?t = kheap_inv s" by (simp only: kheap_inv_def w k t p f u)
  show v: "heap_view ?t = heap_view s" by (simp add: fun_eq_iff heap_view_def k f)
  show "on_page ?t h page = on_page s h page" by (simp add: on_page_def i v kpd_phys_def)
qed

section \<open>Slab pages\<close>

text \<open>
  The page of a slab with objects of size \<open>c\<close> whose first \<open>k\<close> objects are free and whose free list
  names them in order; the objects from number \<open>k\<close> on are in use.
\<close>

definition slab_count :: "u32 \<Rightarrow> nat" where
  "slab_count c = 4080 div unat c"

definition slab_page :: "memory \<Rightarrow> addr \<Rightarrow> addr \<Rightarrow> u32 \<Rightarrow> nat \<Rightarrow> bool" where
  "slab_page page slab owner c k \<longleftrightarrow> load32 page SLAB_OWNER = owner \<and> load16 page SLAB_TOTAL = of_nat (slab_count c) \<and>
     load16 page SLAB_FREE = of_nat k \<and> k \<le> slab_count c \<and>
     (\<forall>i < k. load32 page (SLAB_LIST + 4 * of_nat i) = slab + sizeof_slab + c * of_nat i)"

lemma slab_count_bound: "c \<in> set slab_classes \<Longrightarrow> slab_count c \<le> 255 \<and> 0 < slab_count c \<and> 16 \<le> unat c"
  by (auto simp: slab_classes_def slab_count_def)

lemma list_slot:
  assumes "k < 256"
  shows "unat (SLAB_LIST + 4 * of_nat k :: u32) = 16 + 4 * k"
proof -
  have "unat (of_nat k :: u32) = k" using assms by (simp add: unat_of_nat_u32)
  then have "unat (4 * of_nat k :: u32) = 4 * k" using assms unat_mult_u32 [of 4 "of_nat k"] by simp
  then show ?thesis using assms by (simp add: SLAB_LIST_def unat_add_u32)
qed

lemma object_offset:
  assumes "c \<in> set slab_classes" and "i < slab_count c"
  shows "unat (sizeof_slab + c * of_nat i) = 16 + unat c * i" and "16 + unat c * i + unat c \<le> 4096"
proof -
  have i: "unat (of_nat i :: u32) = i" using assms slab_count_bound by (intro unat_of_nat_u32) fastforce
  have "unat c * (i + 1) \<le> 4080"
    using assms(2) unfolding slab_count_def by (metis Suc_eq_plus1 Suc_leI div_times_less_eq_dividend le_trans mult.commute mult_le_mono1)
  then show l: "16 + unat c * i + unat c \<le> 4096" by (simp add: algebra_simps)
  then have "unat (c * of_nat i) = unat c * i" using unat_mult_u32 [of c "of_nat i"] i by simp
  with l show "unat (sizeof_slab + c * of_nat i) = 16 + unat c * i" by (simp add: sizeof_slab_def unat_add_u32)
qed

lemmas slab_offsets = SLAB_NEXT_def SLAB_PREV_def SLAB_OWNER_def SLAB_TOTAL_def SLAB_FREE_def

lemma slab_off_bounds:
  "unat SLAB_NEXT + 3 < 4096" "unat SLAB_PREV + 3 < 4096" "unat SLAB_OWNER + 3 < 4096"
  "unat SLAB_TOTAL + 1 < 4096" "unat SLAB_FREE + 1 < 4096"
  by (simp_all add: slab_offsets)

lemma slab_page_agree:
  assumes "slab_page page slab owner c k" and "c \<in> set slab_classes"
    and "\<And>a. 8 \<le> unat a \<Longrightarrow> unat a < 16 + 4 * k \<Longrightarrow> page' a = page a"
  shows "slab_page page' slab owner c k"
proof -
  have k: "k \<le> slab_count c" "k < 256" using assms(1) slab_count_bound [OF assms(2)] by (auto simp: slab_page_def)
  have "load32 page' SLAB_OWNER = load32 page SLAB_OWNER"
    by (rule load32_agree) (auto simp: slab_offsets intro!: assms(3))
  moreover have "load16 page' SLAB_TOTAL = load16 page SLAB_TOTAL" "load16 page' SLAB_FREE = load16 page SLAB_FREE"
    by (rule load16_agree; auto simp: slab_offsets intro!: assms(3))+
  moreover have "load32 page' (SLAB_LIST + 4 * of_nat i) = load32 page (SLAB_LIST + 4 * of_nat i)" if "i < k" for i
    using that k list_slot [of i] by (intro load32_agree assms(3)) auto
  ultimately show ?thesis using assms(1) by (simp add: slab_page_def)
qed

text \<open>Objects in use lie behind the live part of the free list, so writing them cannot disturb it.\<close>

lemma slab_page_user_write:
  assumes "slab_page page slab owner c k" and "c \<in> set slab_classes"
    and "\<And>a. unat a < 16 + unat c * k \<Longrightarrow> page' a = page a"
  shows "slab_page page' slab owner c k"
proof (rule slab_page_agree [OF assms(1,2)])
  fix a :: u32
  assume "unat a < 16 + 4 * k"
  moreover have "4 * k \<le> unat c * k" using slab_count_bound [OF assms(2)] by simp
  ultimately show "page' a = page a" by (intro assms(3)) linarith
qed

lemma slab_page_count:
  assumes "slab_page page slab owner c k'" and "c \<in> set slab_classes" and "k \<le> k'"
  shows "slab_page (store16 page SLAB_FREE (of_nat k)) slab owner c k"
proof -
  have k: "k \<le> slab_count c" "k' < 256" "k' \<le> slab_count c"
    using assms slab_count_bound [OF assms(2)] by (auto simp: slab_page_def)
  have "load32 (store16 page SLAB_FREE (of_nat k)) SLAB_OWNER = load32 page SLAB_OWNER"
    "load16 (store16 page SLAB_FREE (of_nat k)) SLAB_TOTAL = load16 page SLAB_TOTAL"
    by (rule load_store_mixed; simp add: slab_offsets)+
  moreover have "load32 (store16 page SLAB_FREE (of_nat k)) (SLAB_LIST + 4 * of_nat i) = load32 page (SLAB_LIST + 4 * of_nat i)"
    if "i < k" for i
    using that k assms(3) list_slot [of i] by (intro load_store_mixed) (simp_all add: slab_offsets)
  ultimately show ?thesis using assms(1,3) k(1) by (simp add: slab_page_def)
qed

lemma slab_page_push:
  assumes "slab_page page slab owner c k" and "c \<in> set slab_classes" and "k < slab_count c"
  shows "slab_page (store16 (store32 page (SLAB_LIST + 4 * of_nat k) (slab + sizeof_slab + c * of_nat k)) SLAB_FREE (of_nat (k + 1)))
    slab owner c (k + 1)"
proof -
  let ?p = "store32 page (SLAB_LIST + 4 * of_nat k) (slab + sizeof_slab + c * of_nat k)"
  have k: "k < 256" using assms slab_count_bound [OF assms(2)] by auto
  note u = list_slot [OF k]
  have "load32 ?p SLAB_OWNER = load32 page SLAB_OWNER" "load16 ?p SLAB_TOTAL = load16 page SLAB_TOTAL"
    using u k by (auto simp: slab_offsets intro!: load32_store32_range load_store_mixed)
  moreover have "load32 (store16 ?p SLAB_FREE w) (SLAB_LIST + 4 * of_nat i) = load32 ?p (SLAB_LIST + 4 * of_nat i)" if "i < k + 1" for i w
    using that k list_slot [of i] by (intro load_store_mixed) (simp_all add: slab_offsets)
  moreover have "load32 (store16 ?p SLAB_FREE w) SLAB_OWNER = load32 ?p SLAB_OWNER"
    "load16 (store16 ?p SLAB_FREE w) SLAB_TOTAL = load16 ?p SLAB_TOTAL" for w
    by (rule load_store_mixed; simp add: slab_offsets)+
  moreover have "load32 ?p (SLAB_LIST + 4 * of_nat i) = load32 page (SLAB_LIST + 4 * of_nat i)" if "i < k" for i
    using that k u list_slot [of i] by (intro load32_store32_range) simp_all
  ultimately show ?thesis using assms(1,3) by (auto simp: slab_page_def less_Suc_eq)
qed

section \<open>Allocation from a slab\<close>

lemma slot_arith:
  assumes "k < 256"
  shows "(of_nat (Suc k) :: u16) - 1 = of_nat k" "ucast (of_nat (Suc k) :: u16) = (of_nat k + 1 :: u32)"
    "ucast (of_nat k :: u16) = (of_nat k :: u32)" "(of_nat k :: u16) = 0 \<longleftrightarrow> k = 0" "unat (of_nat k :: u16) = k"
proof -
  have "unat (of_nat (Suc k) :: u16) = Suc k" using assms unat_of_nat [of "Suc k", where 'a = 16] by simp
  then have "ucast (of_nat (Suc k) :: u16) = (of_nat (Suc k) :: u32)" by (metis of_nat_unat)
  then show "ucast (of_nat (Suc k) :: u16) = (of_nat k + 1 :: u32)" by simp
  show u: "unat (of_nat k :: u16) = k" using assms unat_of_nat [of k, where 'a = 16] by simp
  then show "ucast (of_nat k :: u16) = (of_nat k :: u32)" by (metis of_nat_unat)
  show "(of_nat k :: u16) = 0 \<longleftrightarrow> k = 0" using u by (simp add: word_unat_eq_iff)
qed simp

lemma take_last:
  assumes "on_page s h page" and "slab_page page (heap_va h) owner c (Suc k)" and "c \<in> set slab_classes"
  obtains s' where "vload16 (heap_va h + SLAB_FREE) s = Some (of_nat (Suc k))"
    "vstore16 (heap_va h + SLAB_FREE) (of_nat k) s = Some s'"
    "vload32 (heap_va h + SLAB_LIST + 4 * of_nat k) s' = Some (heap_va h + sizeof_slab + c * of_nat k)"
    "vload16 (heap_va h + SLAB_FREE) s' = Some (of_nat k)"
    "on_page s' h (store16 page SLAB_FREE (of_nat k))" "others_kept h s s'"
    "slab_page (store16 page SLAB_FREE (of_nat k)) (heap_va h) owner c k"
proof -
  have k: "k < 256" using assms(2) slab_count_bound [OF assms(3)] by (auto simp: slab_page_def)
  have b: "unat SLAB_FREE + 1 < 4096" "unat (SLAB_LIST + 4 * of_nat k :: u32) + 3 < 4096"
    using list_slot [OF k] k by (simp_all add: slab_offsets)
  obtain s' where s': "vstore16 (heap_va h + SLAB_FREE) (of_nat k) s = Some s'"
    "on_page s' h (store16 page SLAB_FREE (of_nat k))" "others_kept h s s'"
    by (rule on_page_store16 [OF assms(1) b(1)])
  have "load32 (store16 page SLAB_FREE (of_nat k)) (SLAB_LIST + 4 * of_nat k) = load32 page (SLAB_LIST + 4 * of_nat k)"
    using list_slot [OF k] k by (intro load_store_mixed) (simp_all add: slab_offsets)
  also have "\<dots> = heap_va h + sizeof_slab + c * of_nat k" using assms(2) by (simp add: slab_page_def)
  finally have "vload32 (heap_va h + SLAB_LIST + 4 * of_nat k) s' = Some (heap_va h + sizeof_slab + c * of_nat k)"
    using on_page_load(1) [OF s'(2) b(2)] by (simp add: add.assoc)
  moreover have "vload16 (heap_va h + SLAB_FREE) s = Some (of_nat (Suc k))"
    using on_page_load(2) [OF assms(1) b(1)] assms(2) by (simp add: slab_page_def)
  moreover have "vload16 (heap_va h + SLAB_FREE) s' = Some (of_nat k)"
    using on_page_load(2) [OF s'(2) b(1)] by simp
  ultimately show thesis
    using that s' slab_page_count [OF assms(2,3), of k] by simp
qed

lemma kmalloc_partial_ok:
  assumes "on_page s h page" and "slab_page page (heap_va h) owner c (Suc k)" and "c \<in> set slab_classes" and "0 < k"
  obtains s' where "kmalloc_partial idx (heap_va h) s = Some (heap_va h + sizeof_slab + c * of_nat k, s')"
    "on_page s' h (store16 page SLAB_FREE (of_nat k))" "others_kept h s s'"
    "slab_page (store16 page SLAB_FREE (of_nat k)) (heap_va h) owner c k"
proof -
  have k: "k < 256" using assms(2) slab_count_bound [OF assms(3)] by (auto simp: slab_page_def)
  obtain s' where t: "vload16 (heap_va h + SLAB_FREE) s = Some (of_nat (Suc k))"
    "vstore16 (heap_va h + SLAB_FREE) (of_nat k) s = Some s'"
    "vload32 (heap_va h + SLAB_LIST + 4 * of_nat k) s' = Some (heap_va h + sizeof_slab + c * of_nat k)"
    "vload16 (heap_va h + SLAB_FREE) s' = Some (of_nat k)"
    "on_page s' h (store16 page SLAB_FREE (of_nat k))" "others_kept h s s'"
    "slab_page (store16 page SLAB_FREE (of_nat k)) (heap_va h) owner c k"
    by (rule take_last [OF assms(1-3)])
  have "kmalloc_partial idx (heap_va h) s = Some (heap_va h + sizeof_slab + c * of_nat k, s')"
    using t(1-4) assms(4) slot_arith [OF k] by (simp add: kmalloc_partial_def del: of_nat_Suc)
  with t(5-7) show thesis by (intro that)
qed

text \<open>The last object of the only partial slab: the slab moves to an empty list of full slabs.\<close>

lemma kmalloc_partial_last:
  fixes s :: "'a slab_state_scheme"
  assumes "on_page s h page" and "slab_page page (heap_va h) owner c (Suc 0)" and "c \<in> set slab_classes"
    and "load32 page SLAB_NEXT = NULL" and "full (slab_caches s ! idx) = NULL" and "idx < length (slab_caches s)"
  obtains s' page' where "kmalloc_partial idx (heap_va h) s = Some (heap_va h + sizeof_slab, s')"
    "on_page s' h page'" "\<forall>j. j \<noteq> h \<longrightarrow> heap_view s' j = heap_view s j"
    "slab_page page' (heap_va h) owner c 0" "load32 page' SLAB_NEXT = NULL" "load32 page' SLAB_PREV = NULL"
    "slab_caches s' = (slab_caches s)[idx := (slab_caches s ! idx)\<lparr>partial := NULL, full := heap_va h\<rparr>]"
    "slab_caches_addr s' = slab_caches_addr s"
proof -
  let ?p1 = "store16 page SLAB_FREE 0"
  obtain s1 where t: "vload16 (heap_va h + SLAB_FREE) s = Some 1"
    "vstore16 (heap_va h + SLAB_FREE) 0 s = Some s1" "vload32 (heap_va h + SLAB_LIST) s1 = Some (heap_va h + sizeof_slab)"
    "vload16 (heap_va h + SLAB_FREE) s1 = Some 0" "on_page s1 h ?p1" "others_kept h s s1" "slab_page ?p1 (heap_va h) owner c 0"
    using take_last [OF assms(1-3)] by auto
  note c1 = others_kept_caches [OF t(6)]
  have "load32 ?p1 SLAB_NEXT = NULL" using assms(4) load_store_mixed(1) [of SLAB_NEXT SLAB_FREE page 0] by (simp add: slab_offsets)
  then have n: "vload32 (heap_va h + SLAB_NEXT) s1 = Some NULL" using on_page_load(1) [OF t(5), of SLAB_NEXT] by (simp add: slab_offsets)
  let ?s2 = "set_partial idx NULL s1"
  have o2: "on_page ?s2 h ?p1" using t(5) by (simp add: set_partial_def)
  obtain s3 where s3: "vstore32 (heap_va h + SLAB_NEXT) NULL ?s2 = Some s3" "on_page s3 h (store32 ?p1 SLAB_NEXT NULL)" "others_kept h ?s2 s3"
    by (rule on_page_store32 [OF o2 slab_off_bounds(1)])
  let ?p2 = "store32 (store32 ?p1 SLAB_NEXT NULL) SLAB_PREV NULL"
  obtain s4 where s4: "vstore32 (heap_va h + SLAB_PREV) NULL s3 = Some s4" "on_page s4 h ?p2" "others_kept h s3 s4"
    by (rule on_page_store32 [OF s3(2) slab_off_bounds(2)])
  have f: "full (slab_caches ?s2 ! idx) = NULL" using assms(5,6) by (simp add: set_partial_def c1)
  have "kmalloc_partial idx (heap_va h) s = Some (heap_va h + sizeof_slab, set_full idx (heap_va h) s4)"
    using t(1-4) n f s3(1) s4(1) by (simp add: kmalloc_partial_def)
  moreover have "on_page (set_full idx (heap_va h) s4) h ?p2" using s4(2) by (simp add: set_full_def)
  moreover have "\<forall>j. j \<noteq> h \<longrightarrow> heap_view (set_full idx (heap_va h) s4) j = heap_view s j"
    using t(6) s3(3) s4(3) by (simp add: others_kept_def set_full_def set_partial_def)
  moreover have "slab_page ?p2 (heap_va h) owner c 0"
    by (rule slab_page_agree [OF t(7) assms(3)]) (auto simp: slab_offsets store32_range)
  moreover have "load32 ?p2 SLAB_NEXT = NULL" using load32_store32_range [of SLAB_PREV SLAB_NEXT] by (simp add: slab_offsets)
  moreover have "load32 ?p2 SLAB_PREV = NULL" by simp
  moreover have "slab_caches (set_full idx (heap_va h) s4) = (slab_caches s)[idx := (slab_caches s ! idx)\<lparr>partial := NULL, full := heap_va h\<rparr>]"
    using others_kept_caches [OF s3(3)] others_kept_caches [OF s4(3)] c1 assms(6) by (simp add: set_full_def set_partial_def)
  moreover have "slab_caches_addr (set_full idx (heap_va h) s4) = slab_caches_addr s"
    using others_kept_caches [OF s3(3)] others_kept_caches [OF s4(3)] c1 by (simp add: set_full_def set_partial_def)
  ultimately show thesis by (rule that)
qed

section \<open>A new slab\<close>

lemma fill_free_list_ok:
  assumes "on_page s h page" and "k + m \<le> 255"
  shows "\<exists>s' page'. fill_free_list [k..<k + m] (heap_va h) c s = Some s' \<and> on_page s' h page' \<and> others_kept h s s' \<and>
    (\<forall>a. unat a < 16 + 4 * k \<longrightarrow> page' a = page a) \<and>
    (\<forall>i. k \<le> i \<and> i < k + m \<longrightarrow> load32 page' (SLAB_LIST + 4 * of_nat i) = heap_va h + sizeof_slab + c * of_nat i)"
  using assms
proof (induction m arbitrary: k s page)
  case 0
  then show ?case by auto
next
  case (Suc m)
  let ?o = "SLAB_LIST + 4 * of_nat k :: u32" and ?v = "heap_va h + sizeof_slab + c * of_nat k"
  have k: "k < 256" "k + 1 + m \<le> 255" "k < k + Suc m" using Suc.prems(2) by simp_all
  have u: "unat ?o = 16 + 4 * k" "unat ?o + 3 < 4096" using list_slot [OF k(1)] k by simp_all
  obtain s1 where s1: "vstore32 (heap_va h + ?o) ?v s = Some s1" "on_page s1 h (store32 page ?o ?v)" "others_kept h s s1"
    by (rule on_page_store32 [OF Suc.prems(1) u(2)])
  from Suc.IH [OF s1(2) k(2)] obtain s' page' where s': "fill_free_list [k + 1..<k + 1 + m] (heap_va h) c s1 = Some s'"
    "on_page s' h page'" "others_kept h s1 s'" "\<forall>a. unat a < 16 + 4 * (k + 1) \<longrightarrow> page' a = store32 page ?o ?v a"
    "\<forall>i. k + 1 \<le> i \<and> i < k + 1 + m \<longrightarrow> load32 page' (SLAB_LIST + 4 * of_nat i) = heap_va h + sizeof_slab + c * of_nat i"
    by blast
  have "[k..<k + Suc m] = k # [k + 1..<k + 1 + m]" using upt_conv_Cons [OF k(3)] by simp
  then have "fill_free_list [k..<k + Suc m] (heap_va h) c s = Some s'" using s1(1) s'(1) by (simp add: add.assoc)
  moreover have "page' a = page a" if "unat a < 16 + 4 * k" for a
    using that s'(4) u store32_range [of ?o a page ?v] by simp
  moreover have "load32 page' ?o = load32 (store32 page ?o ?v) ?o"
    using u s'(4) by (intro load32_agree) auto
  then have "load32 page' (SLAB_LIST + 4 * of_nat i) = heap_va h + sizeof_slab + c * of_nat i" if "k \<le> i" "i < k + Suc m" for i
    using s'(5) that by (cases "i = k") auto
  ultimately show ?case using s'(2) others_kept_trans [OF s1(3) s'(3)] by blast
qed

text \<open>The header fields written before the list.\<close>

lemma slab_page_init:
  assumes "c \<in> set slab_classes" and "\<And>a. unat a < 16 \<Longrightarrow> page' a = store16 (store16 (store32 (store32 (store32 page
      SLAB_NEXT NULL) SLAB_PREV NULL) SLAB_OWNER owner) SLAB_TOTAL (of_nat n)) SLAB_FREE (of_nat n) a"
    and "\<And>i. i < n \<Longrightarrow> load32 page' (SLAB_LIST + 4 * of_nat i) = slab + sizeof_slab + c * of_nat i" and "n = slab_count c"
  shows "slab_page page' slab owner c n" "load32 page' SLAB_NEXT = NULL" "load32 page' SLAB_PREV = NULL"
proof -
  let ?p = "store16 (store16 (store32 (store32 (store32 page
      SLAB_NEXT NULL) SLAB_PREV NULL) SLAB_OWNER owner) SLAB_TOTAL (of_nat n)) SLAB_FREE (of_nat n)"
  have l: "load32 ?p SLAB_NEXT = NULL" "load32 ?p SLAB_PREV = NULL" "load32 ?p SLAB_OWNER = owner" "load16 ?p SLAB_TOTAL = of_nat n"
    by (simp_all add: slab_offsets load_store_mixed load32_store32_range)
  have e: "load32 page' off = load32 ?p off" if "unat off + 3 < 16" for off
    using that assms(2) by (intro load32_agree) auto
  have e2: "load16 page' off = load16 ?p off" if "unat off + 1 < 16" for off
    using that assms(2) by (intro load16_agree) auto
  show "slab_page page' slab owner c n"
    using l e [of SLAB_OWNER] e2 [of SLAB_TOTAL] e2 [of SLAB_FREE] assms(3,4) by (simp add: slab_page_def slab_offsets)
  show "load32 page' SLAB_NEXT = NULL" "load32 page' SLAB_PREV = NULL"
    using l e [of SLAB_NEXT] e [of SLAB_PREV] by (simp_all add: slab_offsets)
qed

lemma fresh_slab_ok:
  fixes s :: "'a slab_state_scheme"
  assumes "kheap_inv s" and "cr3 s = kpd_phys s" and "heap_room s 1" and "idx < length (slab_caches s)"
    and c: "obj_size (slab_caches s ! idx) = c" "c \<in> set slab_classes"
  obtains st s' page' where "kmalloc_new idx s = Some (heap_va st + sizeof_slab + c * of_nat (slab_count c - 1), s')"
    "heap_view s st = None" "on_page s' st page'" "\<forall>k. k \<noteq> st \<longrightarrow> heap_view s' k = heap_view s k"
    "slab_page page' (heap_va st) (cache_addr s idx) c (slab_count c - 1)"
    "load32 page' SLAB_NEXT = NULL" "load32 page' SLAB_PREV = NULL"
    "slab_caches s' = (slab_caches s)[idx := (slab_caches s ! idx)\<lparr>partial := heap_va st\<rparr>]"
    "slab_caches_addr s' = slab_caches_addr s"
proof -
  let ?n = "slab_count c" and ?own = "cache_addr s idx"
  have n: "?n \<le> 255" "0 < ?n" using slab_count_bound [OF c(2)] by auto
  have u: "unat (of_nat ?n :: u32) = ?n" using n by (intro unat_of_nat_u32) simp
  then have "(PAGE_SIZE - sizeof_slab) div c = of_nat ?n"
    by (simp add: word_unat_eq_iff unat_div_distrib PAGE_SIZE_def sizeof_slab_def slab_count_def)
  moreover have "ucast (of_nat ?n :: u32) = (of_nat ?n :: u16)" using u by (metis of_nat_unat)
  ultimately have tc: "ucast ((PAGE_SIZE - sizeof_slab) div c) = (of_nat ?n :: u16)" by simp
  from kh.map_ok [OF assms(1) _ assms(3)] obtain st s1 where m: "mmap 1 3 s = Some (heap_va st, s1)" "kheap_inv s1"
    "heap_view s st = None" "heap_view s1 = (\<lambda>h. if h = st then Some (\<lambda>_. 0) else heap_view s h)"
    by (auto simp: span_def)
  have r1: "mem_rest s1 = mem_rest s" using m(1) by (auto dest: mem_rests)
  have o1: "on_page s1 st (\<lambda>_. 0)" using m(2,4) assms(2) mem_restD(1,5) [OF r1] by (simp add: on_page_def)
  obtain s2 where s2: "vstore32 (heap_va st + SLAB_NEXT) NULL s1 = Some s2" "on_page s2 st (store32 (\<lambda>_. 0) SLAB_NEXT NULL)" "others_kept st s1 s2"
    by (rule on_page_store32 [OF o1 slab_off_bounds(1)])
  let ?p3 = "store32 (store32 (\<lambda>_. 0) SLAB_NEXT NULL) SLAB_PREV NULL"
  obtain s3 where s3: "vstore32 (heap_va st + SLAB_PREV) NULL s2 = Some s3" "on_page s3 st ?p3" "others_kept st s2 s3"
    by (rule on_page_store32 [OF s2(2) slab_off_bounds(2)])
  have r3: "mem_rest s3 = mem_rest s" using r1 s2(3) s3(3) by (simp add: others_kept_def)
  have ca: "cache_addr s3 idx = ?own" using arg_cong [OF r3, of slab_caches_addr] by (simp add: cache_addr_def mem_rest_def)
  obtain s4 where s4: "vstore32 (heap_va st + SLAB_OWNER) ?own s3 = Some s4" "on_page s4 st (store32 ?p3 SLAB_OWNER ?own)" "others_kept st s3 s4"
    by (rule on_page_store32 [OF s3(2) slab_off_bounds(3)])
  obtain s5 where s5: "vstore16 (heap_va st + SLAB_TOTAL) (of_nat ?n) s4 = Some s5"
    "on_page s5 st (store16 (store32 ?p3 SLAB_OWNER ?own) SLAB_TOTAL (of_nat ?n))" "others_kept st s4 s5"
    by (rule on_page_store16 [OF s4(2) slab_off_bounds(4)])
  let ?p6 = "store16 (store16 (store32 ?p3 SLAB_OWNER ?own) SLAB_TOTAL (of_nat ?n)) SLAB_FREE (of_nat ?n)"
  obtain s6 where s6: "vstore16 (heap_va st + SLAB_FREE) (of_nat ?n) s5 = Some s6" "on_page s6 st ?p6" "others_kept st s5 s6"
    by (rule on_page_store16 [OF s5(2) slab_off_bounds(5)])
  from fill_free_list_ok [OF s6(2), of 0 ?n c] n(1) obtain s7 page where f: "fill_free_list [0..<?n] (heap_va st) c s6 = Some s7"
    "on_page s7 st page" "others_kept st s6 s7" "\<forall>a. unat a < 16 \<longrightarrow> page a = ?p6 a"
    "\<forall>i < ?n. load32 page (SLAB_LIST + 4 * of_nat i) = heap_va st + sizeof_slab + c * of_nat i" by auto
  note sp = slab_page_init [OF c(2), of page "\<lambda>_. 0" ?own ?n "heap_va st"]
  have r7: "others_kept st s1 s7" using s2(3) s3(3) s4(3) s5(3) s6(3) f(3) by (meson others_kept_trans)
  let ?s8 = "set_partial idx (heap_va st) s7"
  have o8: "on_page ?s8 st page" using f(2) by (simp add: set_partial_def)
  have "slab_page page (heap_va st) ?own c (Suc (?n - 1))" using sp f(4,5) n(2) by simp
  then obtain s9 where t: "vload16 (heap_va st + SLAB_FREE) ?s8 = Some (of_nat (Suc (?n - 1)))"
    "vstore16 (heap_va st + SLAB_FREE) (of_nat (?n - 1)) ?s8 = Some s9"
    "vload32 (heap_va st + SLAB_LIST + 4 * of_nat (?n - 1)) s9 = Some (heap_va st + sizeof_slab + c * of_nat (?n - 1))"
    "on_page s9 st (store16 page SLAB_FREE (of_nat (?n - 1)))" "others_kept st ?s8 s9"
    "slab_page (store16 page SLAB_FREE (of_nat (?n - 1))) (heap_va st) ?own c (?n - 1)"
    using take_last [OF o8 _ c(2)] by metis
  have un: "unat (of_nat ?n :: u16) = ?n" using slot_arith(5) [of ?n] n by simp
  have sc: "unat (of_nat ?n :: u16) = ?n" "(of_nat (Suc (?n - 1)) :: u16) = of_nat ?n" using un n(2) by simp_all
  have "kmalloc_new idx s = Some (heap_va st + sizeof_slab + c * of_nat (?n - 1), s9)"
    using m(1) s2(1) s3(1) s4(1) s5(1) s6(1) f(1) t(1-3) slot_arith(1,2) [of "?n - 1"] n
    by (simp add: kmalloc_new_def c(1) tc ca un Let_def del: of_nat_Suc)
  moreover have "\<forall>k. k \<noteq> st \<longrightarrow> heap_view s9 k = heap_view s k"
    using r7 t(5) m(4) by (simp add: others_kept_def set_partial_def)
  moreover have "load32 (store16 page SLAB_FREE w) SLAB_NEXT = NULL" "load32 (store16 page SLAB_FREE w) SLAB_PREV = NULL" for w
    using sp(2,3) f(4,5) load_store_mixed(1) [of SLAB_NEXT SLAB_FREE page w] load_store_mixed(1) [of SLAB_PREV SLAB_FREE page w]
    by (simp_all add: slab_offsets)
  moreover have "slab_caches s9 = (slab_caches s)[idx := (slab_caches s ! idx)\<lparr>partial := heap_va st\<rparr>]"
    "slab_caches_addr s9 = slab_caches_addr s"
  proof -
    have r: "mem_rest s7 = mem_rest s" using r7 r1 by (simp add: others_kept_def)
    from arg_cong [OF r, of slab_caches] arg_cong [OF r, of slab_caches_addr] others_kept_caches [OF t(5)]
    show "slab_caches s9 = (slab_caches s)[idx := (slab_caches s ! idx)\<lparr>partial := heap_va st\<rparr>]"
      "slab_caches_addr s9 = slab_caches_addr s" by (simp_all add: set_partial_def mem_rest_def)
  qed
  ultimately show thesis using that m(3) t(4,6) by blast
qed

section \<open>Release\<close>

lemma cache_index_addr:
  assumes "idx < length (slab_caches s)" and "length (slab_caches s) \<le> 8"
  shows "cache_index (cache_addr s idx) s = Some idx"
proof -
  have i: "idx < 8" using assms by simp
  have "unat (of_nat idx * 12 :: u32) = idx * 12"
    using i unat_mult_u32 [of "of_nat idx" 12] unat_of_nat_u32 [of idx] by simp
  then have "unat ((cache_addr s idx - slab_caches_addr s) div 12) = idx"
    by (simp add: cache_addr_def unat_div_distrib)
  with assms(1) show ?thesis by (simp add: cache_index_def Let_def)
qed

lemma align_down_page:
  assumes "h < 130048" and "unat off < 4096"
  shows "align_down_4k (heap_va h + off) = heap_va h"
  using frame_offset [OF heap_va_index(3) [OF assms(1)], of off] assms(2)
  by (simp add: align_down_4k_eq word_less_nat_alt)

lemma on_page_bound: "on_page s h page \<Longrightarrow> h < 130048"
  by (auto simp: on_page_def heap_view_def mapped_def split: if_splits)

text \<open>The pointer goes to the end of the free list and the count grows by one.\<close>

lemma kfree_prefix:
  assumes "on_page s h page" and "slab_page page (heap_va h) owner c k" and "c \<in> set slab_classes" and "k < slab_count c"
  obtains s' page' where "vload32 (heap_va h + SLAB_OWNER) s = Some owner" "vload16 (heap_va h + SLAB_FREE) s = Some (of_nat k)"
    "\<exists>t. vstore32 (heap_va h + SLAB_LIST + 4 * ucast (of_nat k :: u16)) ptr s = Some t \<and>
       vstore16 (heap_va h + SLAB_FREE) (of_nat k + 1) t = Some s'"
    "page' = store16 (store32 page (SLAB_LIST + 4 * of_nat k) ptr) SLAB_FREE (of_nat (k + 1))"
    "on_page s' h page'" "others_kept h s s'"
    "vload16 (heap_va h + SLAB_FREE) s' = Some (of_nat (k + 1))" "vload16 (heap_va h + SLAB_TOTAL) s' = Some (of_nat (slab_count c))"
proof -
  have k: "k < 256" using assms slab_count_bound [OF assms(3)] by auto
  let ?o = "SLAB_LIST + 4 * of_nat k :: u32"
  have u: "unat ?o = 16 + 4 * k" "unat ?o + 3 < 4096" using list_slot [OF k] assms(4) slab_count_bound [OF assms(3)] by auto
  obtain t where t: "vstore32 (heap_va h + ?o) ptr s = Some t" "on_page t h (store32 page ?o ptr)" "others_kept h s t"
    by (rule on_page_store32 [OF assms(1) u(2)])
  let ?p = "store16 (store32 page ?o ptr) SLAB_FREE (of_nat (k + 1))"
  obtain s' where s': "vstore16 (heap_va h + SLAB_FREE) (of_nat (k + 1)) t = Some s'" "on_page s' h ?p" "others_kept h t s'"
    by (rule on_page_store16 [OF t(2) slab_off_bounds(5)])
  have "load16 ?p SLAB_TOTAL = load16 (store32 page ?o ptr) SLAB_TOTAL" by (rule load_store_mixed) (simp_all add: slab_offsets)
  also have "\<dots> = of_nat (slab_count c)"
    using assms(2) u load_store_mixed(2) [of SLAB_TOTAL ?o page ptr] by (simp add: slab_page_def slab_offsets)
  finally have tc: "vload16 (heap_va h + SLAB_TOTAL) s' = Some (of_nat (slab_count c))"
    using on_page_load(2) [OF s'(2) slab_off_bounds(4)] by simp
  have "vload16 (heap_va h + SLAB_FREE) s' = Some (of_nat (k + 1))"
    using on_page_load(2) [OF s'(2) slab_off_bounds(5)] by simp
  moreover have "vload32 (heap_va h + SLAB_OWNER) s = Some owner" "vload16 (heap_va h + SLAB_FREE) s = Some (of_nat k)"
    using on_page_load(1) [OF assms(1) slab_off_bounds(3)] on_page_load(2) [OF assms(1) slab_off_bounds(5)] assms(2)
    by (simp_all add: slab_page_def)
  moreover have "\<exists>t. vstore32 (heap_va h + SLAB_LIST + 4 * ucast (of_nat k :: u16)) ptr s = Some t \<and>
       vstore16 (heap_va h + SLAB_FREE) (of_nat k + 1) t = Some s'"
    using t(1) s'(1) slot_arith(3) [OF k] by (simp add: add.assoc add.commute [of 1])
  ultimately show thesis using that s'(2) tc others_kept_trans [OF t(3) s'(3)] by blast
qed

lemma kfree_push:
  fixes s :: "'a slab_state_scheme"
  assumes "on_page s h page" and "slab_page page (heap_va h) (cache_addr s idx) c k" and "c \<in> set slab_classes"
    and "cache_addr s idx \<noteq> NULL" and "idx < length (slab_caches s)" and "length (slab_caches s) \<le> 8"
    and "0 < k" and "k + 1 < slab_count c" and "unat off < 4096"
  obtains s' where "kfree (heap_va h + off) s = Some s'" "others_kept h s s'"
    "on_page s' h (store16 (store32 page (SLAB_LIST + 4 * of_nat k) (heap_va h + off)) SLAB_FREE (of_nat (k + 1)))"
proof -
  have k: "k < 256" "k + 1 < 256" "slab_count c < 256" "k < slab_count c" using assms slab_count_bound [OF assms(3)] by auto
  obtain s' t where f: "vload32 (heap_va h + SLAB_OWNER) s = Some (cache_addr s idx)" "vload16 (heap_va h + SLAB_FREE) s = Some (of_nat k)"
    "vstore32 (heap_va h + SLAB_LIST + 4 * ucast (of_nat k :: u16)) (heap_va h + off) s = Some t"
    "vstore16 (heap_va h + SLAB_FREE) (of_nat k + 1) t = Some s'"
    "on_page s' h (store16 (store32 page (SLAB_LIST + 4 * of_nat k) (heap_va h + off)) SLAB_FREE (of_nat (k + 1)))" "others_kept h s s'"
    "vload16 (heap_va h + SLAB_FREE) s' = Some (of_nat (k + 1))" "vload16 (heap_va h + SLAB_TOTAL) s' = Some (of_nat (slab_count c))"
    using kfree_prefix [OF assms(1-3) k(4), of "heap_va h + off"] by metis
  have ne: "(of_nat k + 1 :: u16) \<noteq> 1" "(of_nat (k + 1) :: u16) \<noteq> of_nat (slab_count c)"
    using assms(7,8) k slot_arith(4,5) [of k] slot_arith(5) [of "k + 1"] slot_arith(5) [of "slab_count c"] by auto
  have "kfree (heap_va h + off) s = Some s'"
    using f(1-4,7,8) ne assms(4) cache_index_addr [OF assms(5,6)] align_down_page [OF on_page_bound [OF assms(1)] assms(9)]
    by (simp add: kfree_def Let_def)
  then show thesis using f(5,6) by (intro that)
qed

lemma unlink_alone:
  assumes "on_page s h page" and "load32 page SLAB_NEXT = NULL" and "load32 page SLAB_PREV = NULL"
  shows "unlink_slab (heap_va h) s = Some s" "vload32 (heap_va h + SLAB_NEXT) s = Some NULL"
  using on_page_load(1) [OF assms(1) slab_off_bounds(1)] on_page_load(1) [OF assms(1) slab_off_bounds(2)] assms(2,3)
  by (simp_all add: unlink_slab_def)

text \<open>Writing the free list and the counters keeps the links of the page.\<close>

lemma links_kept:
  assumes "16 \<le> unat off" and "unat off + 3 < 4096"
  shows "load32 (store16 (store32 page off v) SLAB_FREE w) SLAB_NEXT = load32 page SLAB_NEXT"
    "load32 (store16 (store32 page off v) SLAB_FREE w) SLAB_PREV = load32 page SLAB_PREV"
proof -
  have "load32 (store16 m SLAB_FREE w) SLAB_NEXT = load32 m SLAB_NEXT" "load32 (store16 m SLAB_FREE w) SLAB_PREV = load32 m SLAB_PREV" for m
    by (rule load_store_mixed; simp add: slab_offsets)+
  moreover have "load32 (store32 page off v) SLAB_NEXT = load32 page SLAB_NEXT" "load32 (store32 page off v) SLAB_PREV = load32 page SLAB_PREV"
    using assms by (auto simp: slab_offsets intro!: load32_store32_range)
  ultimately show "load32 (store16 (store32 page off v) SLAB_FREE w) SLAB_NEXT = load32 page SLAB_NEXT"
    "load32 (store16 (store32 page off v) SLAB_FREE w) SLAB_PREV = load32 page SLAB_PREV" by simp_all
qed

text \<open>Giving back the last object in use of a slab that is alone in its list returns the page.\<close>

lemma kfree_empties:
  fixes s :: "'a slab_state_scheme"
  assumes "on_page s h page" and "slab_page page (heap_va h) (cache_addr s idx) c k" and "c \<in> set slab_classes"
    and "cache_addr s idx \<noteq> NULL" and "idx < length (slab_caches s)" and "length (slab_caches s) \<le> 8"
    and "0 < k" and "k + 1 = slab_count c" and "unat off < 4096"
    and "load32 page SLAB_NEXT = NULL" and "load32 page SLAB_PREV = NULL" and "partial (slab_caches s ! idx) = heap_va h"
  obtains s' where "kfree (heap_va h + off) s = Some s'" "kheap_inv s'" "heap_view s' = (heap_view s)(h := None)"
    "slab_caches s' = (slab_caches s)[idx := (slab_caches s ! idx)\<lparr>partial := NULL\<rparr>]"
proof -
  have k: "k < 256" "k < slab_count c" using assms slab_count_bound [OF assms(3)] by auto
  have u: "16 \<le> unat (SLAB_LIST + 4 * of_nat k :: u32)" "unat (SLAB_LIST + 4 * of_nat k :: u32) + 3 < 4096"
    using list_slot [OF k(1)] k by auto
  let ?p = "store16 (store32 page (SLAB_LIST + 4 * of_nat k) (heap_va h + off)) SLAB_FREE (of_nat (k + 1))"
  obtain s1 t where f: "vload32 (heap_va h + SLAB_OWNER) s = Some (cache_addr s idx)" "vload16 (heap_va h + SLAB_FREE) s = Some (of_nat k)"
    "vstore32 (heap_va h + SLAB_LIST + 4 * ucast (of_nat k :: u16)) (heap_va h + off) s = Some t"
    "vstore16 (heap_va h + SLAB_FREE) (of_nat k + 1) t = Some s1" "on_page s1 h ?p" "others_kept h s s1"
    "vload16 (heap_va h + SLAB_FREE) s1 = Some (of_nat (k + 1))" "vload16 (heap_va h + SLAB_TOTAL) s1 = Some (of_nat (slab_count c))"
    using kfree_prefix [OF assms(1-3) k(2), of "heap_va h + off"] by metis
  note c1 = others_kept_caches [OF f(6)]
  have ul: "unlink_slab (heap_va h) s1 = Some s1" "vload32 (heap_va h + SLAB_NEXT) s1 = Some NULL"
    using unlink_alone [OF f(5)] links_kept [OF u, where page = page] assms(10,11) by simp_all
  let ?s2 = "set_partial idx NULL s1"
  have i2: "kheap_inv ?s2" "heap_view ?s2 h \<noteq> None" using f(5) by (simp_all add: set_partial_def on_page_def)
  then have "\<forall>j \<in> span h 1. heap_view ?s2 j \<noteq> None" by (simp add: span_def)
  from kh.unmap_ok [OF i2(1) this] obtain s' where s': "unmmap (heap_va h) 1 ?s2 = Some s'" "kheap_inv s'"
    "heap_view s' = (\<lambda>j. if j \<in> span h 1 then None else heap_view ?s2 j)" by blast
  have ne: "(of_nat k + 1 :: u16) \<noteq> 1" using assms(7) slot_arith(4) [OF k(1)] by simp
  have eq: "(1 + of_nat k :: u16) = of_nat (slab_count c)" using assms(8) by (metis of_nat_add of_nat_1 add.commute)
  have "kfree (heap_va h + off) s = Some s'"
    using f(1-4,7,8) ul ne eq s'(1) assms(4,12) c1 cache_index_addr [OF assms(5,6)]
      align_down_page [OF on_page_bound [OF assms(1)] assms(9)]
    by (simp add: kfree_def Let_def)
  moreover have "heap_view s' = (heap_view s)(h := None)"
    using s'(3) f(6) by (auto simp: fun_eq_iff span_def set_partial_def others_kept_def)
  moreover have "slab_caches s' = (slab_caches s)[idx := (slab_caches s ! idx)\<lparr>partial := NULL\<rparr>]"
  proof -
    have r: "mem_rest s' = mem_rest ?s2" using s'(1) by (auto dest: mem_rests)
    from arg_cong [OF r, of slab_caches] show ?thesis by (simp add: mem_rest_def set_partial_def c1)
  qed
  ultimately show thesis using s'(2) by (intro that)
qed

text \<open>Giving back an object of the only full slab while there is no partial one.\<close>

lemma kfree_full:
  fixes s :: "'a slab_state_scheme"
  assumes "on_page s h page" and "slab_page page (heap_va h) (cache_addr s idx) c 0" and "c \<in> set slab_classes"
    and "cache_addr s idx \<noteq> NULL" and "idx < length (slab_caches s)" and "length (slab_caches s) \<le> 8"
    and "1 < slab_count c" and "unat off < 4096" and "load32 page SLAB_NEXT = NULL" and "load32 page SLAB_PREV = NULL"
    and "full (slab_caches s ! idx) = heap_va h" and "partial (slab_caches s ! idx) = NULL"
  obtains s' page' where "kfree (heap_va h + off) s = Some s'" "on_page s' h page'" "load32 page' SLAB_LIST = heap_va h + off"
    "\<forall>a. 20 \<le> unat a \<longrightarrow> page' a = page a"
proof -
  have n: "slab_count c < 256" "0 < slab_count c" using assms slab_count_bound [OF assms(3)] by auto
  let ?p = "store16 (store32 page SLAB_LIST (heap_va h + off)) SLAB_FREE 1"
  obtain s1 t where "vload32 (heap_va h + SLAB_OWNER) s = Some (cache_addr s idx)" "vload16 (heap_va h + SLAB_FREE) s = Some (of_nat 0)"
    "vstore32 (heap_va h + SLAB_LIST + 4 * ucast (of_nat 0 :: u16)) (heap_va h + off) s = Some t"
    "vstore16 (heap_va h + SLAB_FREE) (of_nat 0 + 1) t = Some s1"
    "on_page s1 h (store16 (store32 page (SLAB_LIST + 4 * of_nat 0) (heap_va h + off)) SLAB_FREE (of_nat (0 + 1)))" "others_kept h s s1"
    "vload16 (heap_va h + SLAB_FREE) s1 = Some (of_nat (0 + 1))" "vload16 (heap_va h + SLAB_TOTAL) s1 = Some (of_nat (slab_count c))"
    using kfree_prefix [OF assms(1-3) n(2), of "heap_va h + off"] by metis
  note f = this [simplified]
  note c1 = others_kept_caches [OF f(6)]
  have ul: "unlink_slab (heap_va h) s1 = Some s1" "vload32 (heap_va h + SLAB_NEXT) s1 = Some NULL"
    using unlink_alone [OF f(5)] links_kept [of SLAB_LIST page] assms(9,10) by (simp_all add: SLAB_LIST_def)
  let ?s2 = "set_full idx NULL s1"
  have o2: "on_page ?s2 h ?p" using f(5) by (simp add: set_full_def)
  obtain s3 where s3: "vstore32 (heap_va h + SLAB_NEXT) NULL ?s2 = Some s3" "on_page s3 h (store32 ?p SLAB_NEXT NULL)" "others_kept h ?s2 s3"
    by (rule on_page_store32 [OF o2 slab_off_bounds(1)])
  let ?p4 = "store32 (store32 ?p SLAB_NEXT NULL) SLAB_PREV NULL"
  obtain s4 where s4: "vstore32 (heap_va h + SLAB_PREV) NULL s3 = Some s4" "on_page s4 h ?p4" "others_kept h s3 s4"
    by (rule on_page_store32 [OF s3(2) slab_off_bounds(2)])
  let ?s5 = "set_partial idx (heap_va h) s4"
  have o5: "on_page ?s5 h ?p4" using s4(2) by (simp add: set_partial_def)
  have hi: "?p4 a = ?p a" if "8 \<le> unat a" for a using that by (simp add: slab_offsets store32_range)
  have "load16 ?p4 SLAB_FREE = load16 ?p SLAB_FREE" "load16 ?p4 SLAB_TOTAL = load16 ?p SLAB_TOTAL" "load32 ?p4 SLAB_LIST = load32 ?p SLAB_LIST"
    by (rule load16_agree load32_agree; simp add: slab_offsets SLAB_LIST_def hi [unfolded slab_offsets SLAB_LIST_def])+
  moreover have "load16 ?p SLAB_FREE = 1" "load16 ?p SLAB_TOTAL = of_nat (slab_count c)" "load32 ?p SLAB_LIST = heap_va h + off"
    using on_page_load(2) [OF f(5) slab_off_bounds(5)] f(7) on_page_load(2) [OF f(5) slab_off_bounds(4)] f(8)
      load_store_mixed(1) [of SLAB_LIST SLAB_FREE "store32 page SLAB_LIST (heap_va h + off)" 1]
    by (simp_all add: SLAB_LIST_def SLAB_FREE_def)
  ultimately have l5: "vload16 (heap_va h + SLAB_FREE) ?s5 = Some 1" "vload16 (heap_va h + SLAB_TOTAL) ?s5 = Some (of_nat (slab_count c))"
    "load32 ?p4 SLAB_LIST = heap_va h + off"
    using on_page_load(2) [OF o5 slab_off_bounds(5)] on_page_load(2) [OF o5 slab_off_bounds(4)] by simp_all
  have ne: "(1 :: u16) \<noteq> of_nat (slab_count c)" using assms(7) slot_arith(5) [OF n(1)] by (metis less_irrefl_nat unat_1)
  have c2: "partial (slab_caches ?s2 ! idx) = NULL" using assms(5,12) by (simp add: set_full_def c1)
  have "kfree (heap_va h + off) s = Some ?s5"
    using f(1-4) ul l5(1,2) ne c2 s3(1) s4(1) assms(4,11) c1 cache_index_addr [OF assms(5,6)]
      align_down_page [OF on_page_bound [OF assms(1)] assms(8)]
    by (simp add: kfree_def Let_def)
  moreover have "?p4 a = page a" if "20 \<le> unat a" for a
    using that hi [of a] store16_range [of SLAB_FREE a] store32_range [of SLAB_LIST a] by (simp add: SLAB_FREE_def SLAB_LIST_def)
  ultimately show thesis using that o5 l5(3) by blast
qed

section \<open>Large allocations\<close>

lemma big_roundtrip:
  fixes s :: "'a slab_state_scheme"
  assumes "kheap_inv s" and "cr3 s = kpd_phys s" and "2048 < sz" and "unat sz < 268431344"
    and "heap_room s ((sz + sizeof_slab) div PAGE_SIZE + 1)"
  obtains p s' s'' where "kmalloc sz s = Some (p, s')" "kheap_inv s'" "kfree p s' = Some s''" "kheap_inv s''"
    "heap_view s'' = heap_view s" "slab_caches s'' = slab_caches s"
proof -
  define n where "n = (sz + sizeof_slab) div PAGE_SIZE + 1"
  have u: "unat (sz + sizeof_slab) = unat sz + 16" using assms(4) by (simp add: sizeof_slab_def unat_add_u32)
  then have "unat ((sz + sizeof_slab) div PAGE_SIZE) = (unat sz + 16) div 4096" by (simp add: unat_div_distrib PAGE_SIZE_def)
  moreover have "(unat sz + 16) div 4096 < 65535" using assms(4) by simp
  ultimately have un: "0 < unat n" "unat n < 65536" by (simp_all add: n_def unat_add_u32)
  then have n0: "0 < n" by (simp add: word_less_nat_alt)
  have uc: "ucast (ucast n :: u16) = n"
    using un(2) by (simp add: word_unat_eq_iff unsigned_ucast_eq unsigned_take_bit_eq take_bit_nat_eq_self)
  from kh.map_ok [OF assms(1) n0, folded n_def] assms(5) obtain st s1 where m: "mmap n 3 s = Some (heap_va st, s1)" "kheap_inv s1"
    "\<forall>h \<in> span st n. heap_view s h = None" "heap_view s1 = (\<lambda>h. if h \<in> span st n then Some (\<lambda>_. 0) else heap_view s h)"
    by (auto simp: n_def)
  have st: "st \<in> span st n" using un by (simp add: span_def)
  have r1: "mem_rest s1 = mem_rest s" using m(1) by (auto dest: mem_rests)
  have o1: "on_page s1 st (\<lambda>_. 0)" using m(2,4) st assms(2) mem_restD(1,5) [OF r1] by (simp add: on_page_def)
  obtain s2 where s2: "vstore16 (heap_va st + SLAB_TOTAL) (ucast n) s1 = Some s2" "on_page s2 st (store16 (\<lambda>_. 0) SLAB_TOTAL (ucast n))" "others_kept st s1 s2"
    by (rule on_page_store16 [OF o1 slab_off_bounds(4)])
  let ?p = "store32 (store16 (\<lambda>_. 0) SLAB_TOTAL (ucast n)) SLAB_OWNER NULL"
  obtain s3 where s3: "vstore32 (heap_va st + SLAB_OWNER) NULL s2 = Some s3" "on_page s3 st ?p" "others_kept st s2 s3"
    by (rule on_page_store32 [OF s2(2) slab_off_bounds(3)])
  have cl: "size_to_class sz = - 1" using assms(3) by (simp add: size_to_class_def slab_classes_def word_le_nat_alt word_less_nat_alt)
  have k: "kmalloc sz s = Some (heap_va st + sizeof_slab, s3)"
    using m(1) s2(1) s3(1) by (simp add: kmalloc_def fp_allocation_def cl Let_def flip: n_def)
  have i3: "kheap_inv s3" using s3(2) by (simp add: on_page_def)
  have l: "vload32 (heap_va st + SLAB_OWNER) s3 = Some NULL" "vload16 (heap_va st + SLAB_TOTAL) s3 = Some (ucast n)"
    using on_page_load(1) [OF s3(2) slab_off_bounds(3)] on_page_load(2) [OF s3(2) slab_off_bounds(4)]
    by (simp_all add: slab_offsets load_store_mixed)
  have v3: "heap_view s3 h = (if h = st then Some ?p else if h \<in> span st n then Some (\<lambda>_. 0) else heap_view s h)" for h
    using s2(3) s3(2,3) m(4) by (cases "h = st") (simp_all add: others_kept_def on_page_def)
  then have "\<forall>h \<in> span st n. heap_view s3 h \<noteq> None" by simp
  from kh.unmap_ok [OF i3 this] obtain s4 where s4: "unmmap (heap_va st) n s3 = Some s4" "kheap_inv s4"
    "heap_view s4 = (\<lambda>h. if h \<in> span st n then None else heap_view s3 h)" by blast
  have "kfree (heap_va st + sizeof_slab) s3 = Some s4"
    using l s4(1) align_down_page [OF on_page_bound [OF s3(2)], of sizeof_slab] by (simp add: kfree_def uc sizeof_slab_def)
  moreover have "heap_view s4 = heap_view s" unfolding s4(3) using v3 m(3) st by (auto simp: fun_eq_iff)
  moreover have "slab_caches s4 = slab_caches s"
  proof -
    have "mem_rest s4 = mem_rest s" using s4(1) r1 s2(3) s3(3) by (auto simp: others_kept_def dest!: mem_rests)
    from arg_cong [OF this, of slab_caches] show ?thesis by (simp add: mem_rest_def)
  qed
  ultimately show thesis using that k i3 s4(2) by blast
qed

section \<open>Copying and filling\<close>

lemma kmemset_page:
  assumes "on_page s h page" and "unat off + n \<le> 4096"
  shows "\<exists>s' page'. kmemset_loop n (heap_va h + off) x s = Some s' \<and> on_page s' h page' \<and> others_kept h s s' \<and>
    (\<forall>a. page' a = (if unat off \<le> unat a \<and> unat a < unat off + n then x else page a))"
  using assms
proof (induction n arbitrary: off s page)
  case 0
  then show ?case by auto
next
  case (Suc n)
  have o: "off < 4096" "unat off < 4096" using Suc.prems(2) by (simp_all add: word_less_nat_alt)
  have s: "kheap_inv s" "heap_view s h = Some page" "cr3 s = kpd_phys s" using Suc.prems(1) by (simp_all add: on_page_def)
  from heap_byte_access(2) [OF s o(1)] obtain s1 where s1: "vstore8 (heap_va h + off) x s = Some s1" "kheap_inv s1"
    "heap_view s1 = (heap_view s)(h \<mapsto> page(off := x))" by blast
  have r: "mem_rest s1 = mem_rest s" using s1(1) by (auto dest: mem_rests)
  have o1: "on_page s1 h (page(off := x))" using s1 s(3) mem_restD(1,5) [OF r] by (simp add: on_page_def)
  have k1: "others_kept h s s1" using s1(3) r by (simp add: others_kept_def)
  have u: "unat (off + 1) = unat off + 1" using o(2) by (simp add: unat_add_u32)
  with Suc.prems(2) have "unat (off + 1) + n \<le> 4096" by simp
  from Suc.IH [OF o1 this] obtain s' page' where s': "kmemset_loop n (heap_va h + (off + 1)) x s1 = Some s'" "on_page s' h page'"
    "others_kept h s1 s'" "\<forall>a. page' a = (if unat (off + 1) \<le> unat a \<and> unat a < unat (off + 1) + n then x else (page(off := x)) a)" by blast
  have "kmemset_loop (Suc n) (heap_va h + off) x s = Some s'" using s1(1) s'(1) by (simp add: add.assoc)
  moreover have "page' a = (if unat off \<le> unat a \<and> unat a < unat off + Suc n then x else page a)" for a
    using s'(4) u by (auto simp: word_unat_eq_iff)
  ultimately show ?case using s'(2) others_kept_trans [OF k1 s'(3)] by blast
qed

lemma kmemcpy_page:
  assumes "on_page s h page" and "heap_view s g = Some src" and "g \<noteq> h"
    and "unat off + n \<le> 4096" and "unat from + n \<le> 4096"
  shows "\<exists>s' page'. kmemcpy_loop n (heap_va h + off) (heap_va g + from) s = Some s' \<and> on_page s' h page' \<and> others_kept h s s' \<and>
    (\<forall>i < n. page' (off + of_nat i) = src (from + of_nat i)) \<and>
    (\<forall>a. \<not> (unat off \<le> unat a \<and> unat a < unat off + n) \<longrightarrow> page' a = page a)"
  using assms
proof (induction n arbitrary: off "from" s page)
  case 0
  then show ?case by auto
next
  case (Suc n)
  have o: "off < 4096" "from < 4096" "unat off < 4096" "unat from < 4096" using Suc.prems(4,5) by (simp_all add: word_less_nat_alt)
  have s: "kheap_inv s" "heap_view s h = Some page" "cr3 s = kpd_phys s" using Suc.prems(1) by (simp_all add: on_page_def)
  have ld: "vload8 (heap_va g + from) s = Some (src from)" by (rule heap_byte_access(1) [OF s(1) Suc.prems(2) s(3) o(2)])
  from heap_byte_access(2) [OF s o(1)] obtain s1 where s1: "vstore8 (heap_va h + off) (src from) s = Some s1" "kheap_inv s1"
    "heap_view s1 = (heap_view s)(h \<mapsto> page(off := src from))" by blast
  have r: "mem_rest s1 = mem_rest s" using s1(1) by (auto dest: mem_rests)
  have o1: "on_page s1 h (page(off := src from))" using s1 s(3) mem_restD(1,5) [OF r] by (simp add: on_page_def)
  have k1: "others_kept h s s1" using s1(3) r by (simp add: others_kept_def)
  have g1: "heap_view s1 g = Some src" using s1(3) Suc.prems(2,3) by simp
  have u: "unat (off + 1) = unat off + 1" "unat (from + 1) = unat from + 1" using o by (simp_all add: unat_add_u32)
  with Suc.prems(4,5) have "unat (off + 1) + n \<le> 4096" "unat (from + 1) + n \<le> 4096" by simp_all
  from Suc.IH [OF o1 g1 Suc.prems(3) this] obtain s' page' where s':
    "kmemcpy_loop n (heap_va h + (off + 1)) (heap_va g + (from + 1)) s1 = Some s'" "on_page s' h page'" "others_kept h s1 s'"
    "\<forall>i < n. page' (off + 1 + of_nat i) = src (from + 1 + of_nat i)"
    "\<forall>a. \<not> (unat (off + 1) \<le> unat a \<and> unat a < unat (off + 1) + n) \<longrightarrow> page' a = (page(off := src from)) a" by blast
  have "kmemcpy_loop (Suc n) (heap_va h + off) (heap_va g + from) s = Some s'" using ld s1(1) s'(1) by (simp add: add.assoc)
  moreover have "page' off = src from" using s'(5) u by (auto dest!: spec [of _ off])
  then have "page' (off + of_nat i) = src (from + of_nat i)" if "i < Suc n" for i
    using that s'(4) by (cases i) (simp_all add: add.assoc)
  moreover have "page' a = page a" if "\<not> (unat off \<le> unat a \<and> unat a < unat off + Suc n)" for a
    using s'(5) u that by (auto simp: word_unat_eq_iff dest!: spec [of _ a])
  ultimately show ?case using s'(2) others_kept_trans [OF k1 s'(3)] by blast
qed

section \<open>Properties\<close>

text \<open>The table of caches as the kernel image has it: one per class, small enough not to wrap.\<close>

definition caches_ok :: "'a slab_state_scheme \<Rightarrow> bool" where
  "caches_ok s \<longleftrightarrow> map obj_size (slab_caches s) = slab_classes \<and> (\<forall>i < 8. cache_addr s i \<noteq> NULL)"

lemma caches_okD:
  assumes "caches_ok s" and "i < 8"
  shows "length (slab_caches s) = 8" "obj_size (slab_caches s ! i) = slab_classes ! i" "slab_classes ! i \<in> set slab_classes"
    "cache_addr s i \<noteq> NULL"
proof -
  have l: "length slab_classes = 8" by (simp add: slab_classes_def)
  with assms(1) show len: "length (slab_caches s) = 8" by (metis caches_ok_def length_map)
  show "obj_size (slab_caches s ! i) = slab_classes ! i" using assms len by (metis caches_ok_def nth_map)
  show "slab_classes ! i \<in> set slab_classes" using assms(2) l by simp
  show "cache_addr s i \<noteq> NULL" using assms by (simp add: caches_ok_def)
qed

lemma class_from_index:
  "class_from cs sz i = -1 \<or> (\<exists>j < length cs. class_from cs sz i = i + int j)"
proof (induction cs arbitrary: i)
  case (Cons c cs)
  from Cons.IH [of "i + 1"] show ?case by (auto intro: exI [of _ "Suc j" for j])
qed simp

lemma size_to_class_index:
  assumes "\<not> size_to_class sz < 0"
  shows "nat (size_to_class sz) < 8"
  using class_from_index [of slab_classes sz 0] assms by (auto simp: size_to_class_def slab_classes_def)

text \<open>
  C18: \<open>kmalloc\<close> from a slab whose first \<open>k + 1\<close> objects are free returns object number \<open>k\<close>; the slab then has the first
  \<open>k\<close> objects free, nothing outside its counter changed, and however the caller fills this object and the ones
  given out before it, the slab's bookkeeping stays intact, although free list and objects share their memory.
\<close>

theorem kmalloc_takes_last_object:
  fixes s :: "'a slab_state_scheme"
  assumes "on_page s h page" and "caches_ok s" and "size_to_class sz = int i" and "i < 8"
    and "partial (slab_caches s ! i) = heap_va h" and "heap_va h \<noteq> NULL" and "0 < k"
    and "slab_page page (heap_va h) (cache_addr s i) (slab_classes ! i) (Suc k)"
  shows "\<exists>s' page'. kmalloc sz s = Some (heap_va h + sizeof_slab + slab_classes ! i * of_nat k, s') \<and>
    on_page s' h page' \<and> others_kept h s s' \<and> (\<forall>a. 16 \<le> unat a \<longrightarrow> page' a = page a) \<and>
    (\<forall>filled. (\<forall>a. unat a < 16 + unat (slab_classes ! i) * k \<longrightarrow> filled a = page' a) \<longrightarrow>
      slab_page filled (heap_va h) (cache_addr s i) (slab_classes ! i) k)"
proof -
  note c = caches_okD [OF assms(2,4)]
  obtain s' where s': "kmalloc_partial i (heap_va h) s = Some (heap_va h + sizeof_slab + slab_classes ! i * of_nat k, s')"
    "on_page s' h (store16 page SLAB_FREE (of_nat k))" "others_kept h s s'"
    "slab_page (store16 page SLAB_FREE (of_nat k)) (heap_va h) (cache_addr s i) (slab_classes ! i) k"
    by (rule kmalloc_partial_ok [OF assms(1,8) c(3) assms(7)])
  have "kmalloc sz s = Some (heap_va h + sizeof_slab + slab_classes ! i * of_nat k, s')"
    using s'(1) assms(3-6) c(1) by (simp add: kmalloc_def array_get_def)
  moreover have "\<forall>a. 16 \<le> unat a \<longrightarrow> store16 page SLAB_FREE (of_nat k) a = page a"
    by (simp add: store16_range SLAB_FREE_def)
  ultimately show ?thesis using s'(2-4) slab_page_user_write [OF s'(4) c(3)] by blast
qed

text \<open>
  With no partial slab \<open>kmalloc\<close> maps a new page, makes a slab of it whose objects are all free but the
  last, returns that one, and records the slab as the cache's partial slab; every other heap page is unchanged.
\<close>

theorem kmalloc_new_slab:
  fixes s :: "'a slab_state_scheme"
  assumes "kheap_inv s" and "cr3 s = kpd_phys s" and "heap_room s 1" and "caches_ok s"
    and "size_to_class sz = int i" and "i < 8" and "partial (slab_caches s ! i) = NULL"
  shows "\<exists>st s' page'. kmalloc sz s = Some (heap_va st + sizeof_slab + slab_classes ! i * of_nat (slab_count (slab_classes ! i) - 1), s') \<and>
    heap_view s st = None \<and> on_page s' st page' \<and> (\<forall>j. j \<noteq> st \<longrightarrow> heap_view s' j = heap_view s j) \<and>
    slab_page page' (heap_va st) (cache_addr s i) (slab_classes ! i) (slab_count (slab_classes ! i) - 1) \<and>
    partial (slab_caches s' ! i) = heap_va st"
proof -
  note c = caches_okD [OF assms(4,6)]
  have i: "i < length (slab_caches s)" using c(1) assms(6) by simp
  obtain st s' page' where f: "kmalloc_new i s = Some (heap_va st + sizeof_slab + slab_classes ! i * of_nat (slab_count (slab_classes ! i) - 1), s')"
    "heap_view s st = None" "on_page s' st page'" "\<forall>k. k \<noteq> st \<longrightarrow> heap_view s' k = heap_view s k"
    "slab_page page' (heap_va st) (cache_addr s i) (slab_classes ! i) (slab_count (slab_classes ! i) - 1)"
    "slab_caches s' = (slab_caches s)[i := (slab_caches s ! i)\<lparr>partial := heap_va st\<rparr>]"
    by (rule fresh_slab_ok [OF assms(1-3) i c(2,3)])
  have "kmalloc sz s = kmalloc_new i s" using assms(5-7) c(1) by (simp add: kmalloc_def array_get_def)
  moreover have "partial (slab_caches s' ! i) = heap_va st" using f(6) i by simp
  ultimately show ?thesis using f(1-5) by (intro exI [of _ st] exI [of _ s'] exI [of _ page']) simp
qed

text \<open>
  C19: Releasing the object allocated last from a slab that has a free object already and at least one more object in use
  makes it free again and leaves the bytes of all objects still in use alone. The two other cases, a full slab and the only object in use, are
  separate branches of \<open>kfree\<close>: the first writes over object 0, the second gives the page back.
\<close>

theorem kfree_last_in_first_out:
  fixes s :: "'a slab_state_scheme"
  assumes "on_page s h page" and "caches_ok s" and "i < 8" and "0 < k" and "k + 1 < slab_count (slab_classes ! i)"
    and "slab_page page (heap_va h) (cache_addr s i) (slab_classes ! i) k"
  shows "\<exists>s' page'. kfree (heap_va h + sizeof_slab + slab_classes ! i * of_nat k) s = Some s' \<and>
    on_page s' h page' \<and> others_kept h s s' \<and> slab_page page' (heap_va h) (cache_addr s i) (slab_classes ! i) (k + 1) \<and>
    (\<forall>a. 16 + unat (slab_classes ! i) * (k + 1) \<le> unat a \<longrightarrow> page' a = page a)"
proof -
  let ?c = "slab_classes ! i" and ?o = "SLAB_LIST + 4 * of_nat k :: u32"
  note c = caches_okD [OF assms(2,3)]
  have k: "k < slab_count ?c" "k < 256" using assms(5) slab_count_bound [OF c(3)] by auto
  have off: "unat (sizeof_slab + ?c * of_nat k) < 4096" using object_offset [OF c(3) k(1)] slab_count_bound [OF c(3)] by simp
  have l: "i < length (slab_caches s)" "length (slab_caches s) \<le> 8" using c(1) assms(3) by simp_all
  obtain s' where s': "kfree (heap_va h + (sizeof_slab + ?c * of_nat k)) s = Some s'" "others_kept h s s'"
    "on_page s' h (store16 (store32 page ?o (heap_va h + (sizeof_slab + ?c * of_nat k))) SLAB_FREE (of_nat (k + 1)))"
    by (rule kfree_push [OF assms(1,6) c(3,4) l assms(4,5) off])
  have u: "unat ?o = 16 + 4 * k" by (rule list_slot [OF k(2)])
  have "16 * (k + 1) \<le> unat ?c * (k + 1)" using slab_count_bound [OF c(3)] by (intro mult_le_mono1) simp
  then have "\<forall>a. 16 + unat ?c * (k + 1) \<le> unat a \<longrightarrow>
      store16 (store32 page ?o (heap_va h + (sizeof_slab + ?c * of_nat k))) SLAB_FREE (of_nat (k + 1)) a = page a"
    using u k by (auto simp: SLAB_FREE_def store16_range store32_range)
  moreover have "kfree (heap_va h + sizeof_slab + ?c * of_nat k) s = Some s'" using s'(1) by (simp add: add.assoc)
  moreover have "slab_page (store16 (store32 page ?o (heap_va h + (sizeof_slab + ?c * of_nat k))) SLAB_FREE (of_nat (k + 1)))
      (heap_va h) (cache_addr s i) ?c (k + 1)"
    using slab_page_push [OF assms(6) c(3) k(1)] by (simp only: add.assoc)
  ultimately show ?thesis using s'(2,3) by blast
qed

text \<open>
  C21: Releasing any object but the first one of a full slab destroys an object in use: the first four bytes of object 0,
  which has not been released, become the released pointer.
\<close>

theorem kfree_full_slab_overwrites:
  fixes s :: "'a slab_state_scheme"
  assumes "on_page s h page" and "caches_ok s" and "i < 8" and "1 < slab_count (slab_classes ! i)" and "j < slab_count (slab_classes ! i)"
    and "slab_page page (heap_va h) (cache_addr s i) (slab_classes ! i) 0"
    and "load32 page SLAB_NEXT = NULL" and "load32 page SLAB_PREV = NULL"
    and "full (slab_caches s ! i) = heap_va h" and "partial (slab_caches s ! i) = NULL"
  shows "\<exists>s' page'. kfree (heap_va h + sizeof_slab + slab_classes ! i * of_nat j) s = Some s' \<and> on_page s' h page' \<and>
    load32 page' (sizeof_slab + slab_classes ! i * 0) = heap_va h + sizeof_slab + slab_classes ! i * of_nat j"
proof -
  let ?c = "slab_classes ! i"
  note c = caches_okD [OF assms(2,3)]
  have off: "unat (sizeof_slab + ?c * of_nat j) < 4096" using object_offset [OF c(3) assms(5)] slab_count_bound [OF c(3)] by simp
  have l: "i < length (slab_caches s)" "length (slab_caches s) \<le> 8" using c(1) assms(3) by simp_all
  obtain s' page' where "kfree (heap_va h + (sizeof_slab + ?c * of_nat j)) s = Some s'" "on_page s' h page'"
    "load32 page' SLAB_LIST = heap_va h + (sizeof_slab + ?c * of_nat j)"
    by (rule kfree_full [OF assms(1,6) c(3,4) l assms(4) off assms(7-10)])
  then show ?thesis by (auto simp: add.assoc SLAB_LIST_def sizeof_slab_def)
qed

text \<open>
  C20: For the classes with more than one object per page, allocating from an empty cache and releasing the object
  gives back the page and restores heap and caches.
\<close>

theorem kmalloc_kfree_empty_cache:
  fixes s :: "'a slab_state_scheme"
  assumes "kheap_inv s" and "cr3 s = kpd_phys s" and "heap_room s 1" and "caches_ok s"
    and "size_to_class sz = int i" and "i < 7" and "partial (slab_caches s ! i) = NULL"
  shows "\<exists>p s' s''. kmalloc sz s = Some (p, s') \<and> kfree p s' = Some s'' \<and> kheap_inv s'' \<and>
    heap_view s'' = heap_view s \<and> slab_caches s'' = slab_caches s"
proof -
  have i8: "i < 8" using assms(6) by simp
  note c = caches_okD [OF assms(4) i8]
  let ?c = "slab_classes ! i"
  let ?n = "slab_count ?c"
  have "i \<in> {0, 1, 2, 3, 4, 5, 6}" using assms(6) by auto
  then have n: "2 < ?n" by (auto simp: slab_classes_def slab_count_def)
  have i: "i < length (slab_caches s)" using c(1) i8 by simp
  obtain st s1 page where f: "kmalloc_new i s = Some (heap_va st + sizeof_slab + ?c * of_nat (?n - 1), s1)"
    "heap_view s st = None" "on_page s1 st page" "\<forall>k. k \<noteq> st \<longrightarrow> heap_view s1 k = heap_view s k"
    "slab_page page (heap_va st) (cache_addr s i) ?c (?n - 1)" "load32 page SLAB_NEXT = NULL" "load32 page SLAB_PREV = NULL"
    "slab_caches s1 = (slab_caches s)[i := (slab_caches s ! i)\<lparr>partial := heap_va st\<rparr>]" "slab_caches_addr s1 = slab_caches_addr s"
    by (rule fresh_slab_ok [OF assms(1-3) i c(2,3)])
  have ca: "cache_addr s1 i = cache_addr s i" using f(9) by (simp add: cache_addr_def)
  have l: "i < length (slab_caches s1)" "length (slab_caches s1) \<le> 8" using f(8) c(1) i8 by simp_all
  have off: "unat (sizeof_slab + ?c * of_nat (?n - 1)) < 4096"
    using object_offset [OF c(3), of "?n - 1"] slab_count_bound [OF c(3)] n by simp
  have "slab_page page (heap_va st) (cache_addr s1 i) ?c (?n - 1)" "cache_addr s1 i \<noteq> NULL" "0 < ?n - 1" "?n - 1 + 1 = ?n"
    "partial (slab_caches s1 ! i) = heap_va st" using f(5,8) ca c(4) n i by simp_all
  then obtain s2 where s2: "kfree (heap_va st + (sizeof_slab + ?c * of_nat (?n - 1))) s1 = Some s2" "kheap_inv s2"
    "heap_view s2 = (heap_view s1)(st := None)" "slab_caches s2 = (slab_caches s1)[i := (slab_caches s1 ! i)\<lparr>partial := NULL\<rparr>]"
    using kfree_empties [OF f(3) _ c(3) _ l _ _ off f(6,7)] by metis
  have "kmalloc sz s = kmalloc_new i s" using assms(5,7) i8 c(1) by (simp add: kmalloc_def array_get_def)
  moreover have "heap_view s2 = heap_view s" unfolding s2(3) using f(2,4) by (auto simp: fun_eq_iff)
  moreover have "slab_caches s2 = slab_caches s"
    using s2(4) f(8) i assms(7) by (simp add: list_update_same_conv)
  ultimately show ?thesis using f(1) s2(1,2) by (auto simp: add.assoc)
qed

text \<open>
  An allocation above the largest class gets whole pages of its own, and releasing it restores the heap.
\<close>

theorem kmalloc_kfree_large:
  fixes s :: "'a slab_state_scheme"
  assumes "kheap_inv s" and "cr3 s = kpd_phys s" and "2048 < sz" and "unat sz < 268431344"
    and "heap_room s ((sz + sizeof_slab) div PAGE_SIZE + 1)"
  shows "\<exists>p s' s''. kmalloc sz s = Some (p, s') \<and> kfree p s' = Some s'' \<and> kheap_inv s'' \<and>
    heap_view s'' = heap_view s \<and> slab_caches s'' = slab_caches s"
  using big_roundtrip [OF assms] by metis

lemma heap_va_nonnull: "h < 130048 \<Longrightarrow> heap_va h \<noteq> NULL"
  using unat_heap_va [of h] by (auto simp: word_unat_eq_iff)

text \<open>
  The largest class has one object per page, and a new slab of it goes to the partial list with no object left:
  the second allocation of 1025 to 2048 bytes reads entry \<open>-1\<close> of the free list, which is the counters themselves,
  and returns the address \<open>0xFFFF0001\<close>, outside the heap.
\<close>

theorem kmalloc_2048_second_is_garbage:
  fixes s :: "'a slab_state_scheme"
  assumes "kheap_inv s" and "cr3 s = kpd_phys s" and "heap_room s 1" and "caches_ok s"
    and "1024 < sz" and "sz \<le> 2048" and "partial (slab_caches s ! 7) = NULL"
  shows "\<exists>p s' s''. kmalloc sz s = Some (p, s') \<and> kmalloc sz s' = Some (0xFFFF0001, s'')"
proof -
  have i8: "7 < (8 :: nat)" by simp
  note c = caches_okD [OF assms(4) i8]
  have c7: "slab_classes ! 7 = 2048" "slab_count 2048 = 1" by (simp_all add: slab_classes_def slab_count_def)
  have cl: "size_to_class sz = 7"
    using assms(5,6) by (simp add: size_to_class_def slab_classes_def word_le_nat_alt word_less_nat_alt)
  have i: "7 < length (slab_caches s)" using c(1) by simp
  obtain st s1 page where f: "kmalloc_new 7 s = Some (heap_va st + sizeof_slab + 2048 * of_nat (slab_count 2048 - 1), s1)"
    "on_page s1 st page" "slab_page page (heap_va st) (cache_addr s 7) 2048 (slab_count 2048 - 1)"
    "slab_caches s1 = (slab_caches s)[7 := (slab_caches s ! 7)\<lparr>partial := heap_va st\<rparr>]"
    using fresh_slab_ok [OF assms(1-3) i c(2,3), unfolded c7(1)] by metis
  have k1: "kmalloc sz s = kmalloc_new 7 s" using assms(7) i by (simp add: kmalloc_def array_get_def cl)
  have p1: "partial (slab_caches s1 ! 7) = heap_va st" "7 < length (slab_caches s1)" using f(4) i by simp_all
  have h: "load16 page SLAB_TOTAL = 1" "load16 page SLAB_FREE = 0" using f(3) c7 by (simp_all add: slab_page_def)
  obtain s2 where s2: "vstore16 (heap_va st + SLAB_FREE) (0 - 1) s1 = Some s2" "on_page s2 st (store16 page SLAB_FREE (0 - 1))"
    by (rule on_page_store16 [OF f(2) slab_off_bounds(5)])
  have "load16 (store16 page SLAB_FREE (0 - 1)) SLAB_TOTAL = 1"
    using h(1) load_store_mixed(3) [of SLAB_TOTAL SLAB_FREE page "0 - 1"] by (simp add: slab_offsets)
  moreover have "SLAB_TOTAL + 2 = SLAB_FREE" by (simp add: slab_offsets)
  ultimately have "load32 (store16 page SLAB_FREE (0 - 1)) SLAB_TOTAL = ucast (1 :: u16) OR push_bit 16 (ucast (- 1 :: u16))"
    unfolding load32_halves by simp
  also have "\<dots> = 0xFFFF0001" by code_simp
  finally have "vload32 (heap_va st + SLAB_TOTAL) s2 = Some 0xFFFF0001"
    using on_page_load(1) [OF s2(2), of SLAB_TOTAL] by (simp add: SLAB_TOTAL_def)
  moreover have "heap_va st + SLAB_TOTAL = heap_va st + SLAB_LIST - 4" by (simp add: SLAB_TOTAL_def SLAB_LIST_def)
  ultimately have "vload32 (heap_va st + SLAB_LIST - 4) s2 = Some 0xFFFF0001" by (simp only:)
  moreover have "vload16 (heap_va st + SLAB_FREE) s1 = Some 0" "vload16 (heap_va st + SLAB_FREE) s2 = Some (0 - 1)"
    using on_page_load(2) [OF f(2) slab_off_bounds(5)] on_page_load(2) [OF s2(2) slab_off_bounds(5)] h(2) by simp_all
  ultimately have "kmalloc_partial 7 (heap_va st) s1 = Some (0xFFFF0001, s2)"
    using s2(1) by (simp add: kmalloc_partial_def)
  then have "kmalloc sz s1 = Some (0xFFFF0001, s2)"
    using p1 heap_va_nonnull [OF on_page_bound [OF f(2)]] by (simp add: kmalloc_def array_get_def cl)
  with k1 f(1) show ?thesis by auto
qed

section \<open>Witnesses\<close>

text \<open>The heap depends on seven components of the state, whatever else the record holds.\<close>

lemma same_mem:
  fixes s :: "'a mem_state_scheme" and t :: "'b mem_state_scheme"
  assumes sel: "phys t = phys s" "cr3 t = cr3 s" "kernel_page_directory t = kernel_page_directory s"
    "tmp_map_addr t = tmp_map_addr s" "kheap_pages t = kheap_pages s" "bitmap t = bitmap s" "bitmap_size t = bitmap_size s"
  shows "kheap_inv t = kheap_inv s" "heap_view t = heap_view s" "heap_room t n = heap_room s n" "kpd_phys t = kpd_phys s"
    "free_pages t = free_pages s"
proof -
  show kp: "kpd_phys t = kpd_phys s" by (simp add: kpd_phys_def sel)
  have b: "boot_pt t = boot_pt s" "slot t = slot s" "kmapped t = kmapped s"
    by (simp_all add: boot_pt_def slot_def kmapped_def fun_eq_iff kp sel)
  have w: "win_wf t = win_wf s" "closed t = closed s" "win_frames t = win_frames s"
    by (simp_all add: win_wf_def closed_def win_frames_def kp sel b)
  have k: "kpde t = kpde s" "mapped t = mapped s" by (simp_all add: fun_eq_iff kpde_def mapped_def kp sel)
  then have tb: "table t = table s" by (simp add: fun_eq_iff table_def)
  then have p: "hpte t = hpte s" by (simp add: fun_eq_iff hpte_def sel)
  then have f: "hframe t = hframe s" by (simp add: fun_eq_iff hframe_def)
  show u: "free_pages t = free_pages s" by (simp add: free_pages_def page_used_def page_count_def sel)
  have u2: "pmm_inv t = pmm_inv s" "frame_used t = frame_used s"
    by (simp_all add: fun_eq_iff pmm_inv_def frame_used_def used_pages_def page_used_def page_count_def sel)
  show "kheap_inv t = kheap_inv s" by (simp only: kheap_inv_def w k tb p f u2)
  show "heap_view t = heap_view s" by (simp add: fun_eq_iff heap_view_def k f sel)
  show "heap_room t n = heap_room s n" by (simp add: heap_room_def heap_run_def u sel)
qed

definition boot_slab :: slab_state where
  "boot_slab = cpu_state.extend boot_cpu (slab_state.fields
     (map (\<lambda>c. \<lparr>obj_size = c, partial = NULL, full = NULL\<rparr>) slab_classes) 0xC0112000)"

lemma boot_slab_mem: "phys boot_slab = phys booted" "cr3 boot_slab = cr3 booted"
  "kernel_page_directory boot_slab = kernel_page_directory booted" "tmp_map_addr boot_slab = tmp_map_addr booted"
  "kheap_pages boot_slab = kheap_pages booted" "bitmap boot_slab = bitmap booted" "bitmap_size boot_slab = bitmap_size booted"
  by (simp_all add: boot_slab_def boot_cpu_def cpu_state.defs mem_state.defs)

lemma boot_slab_caches: "slab_caches boot_slab = map (\<lambda>c. \<lparr>obj_size = c, partial = NULL, full = NULL\<rparr>) slab_classes"
  "slab_caches_addr boot_slab = 0xC0112000" "caches_ok boot_slab"
proof -
  show c: "slab_caches boot_slab = map (\<lambda>c. \<lparr>obj_size = c, partial = NULL, full = NULL\<rparr>) slab_classes"
    "slab_caches_addr boot_slab = 0xC0112000"
    by (simp_all add: boot_slab_def cpu_state.defs slab_state.defs)
  have "cache_addr boot_slab i \<noteq> NULL" if "i < 8" for i
  proof -
    have "i \<in> {0, 1, 2, 3, 4, 5, 6, 7}" using that by auto
    then show ?thesis by (elim insertE emptyE) (simp_all add: cache_addr_def c)
  qed
  then show "caches_ok boot_slab" by (simp add: caches_ok_def c comp_def)
qed

lemmas boot_slab_same = same_mem [where s = booted and t = boot_slab, OF boot_slab_mem]

lemma booted_room_n: "unat n \<le> 124 \<Longrightarrow> heap_room booted n"
  unfolding heap_room_def by (auto simp: booted_sets booted_kheap intro!: exI [of _ 0])

lemma boot_slab_heap: "kheap_inv boot_slab" "cr3 boot_slab = kpd_phys boot_slab" "unat n \<le> 124 \<Longrightarrow> heap_room boot_slab n"
  using boot_slab_same booted_kheap(1) booted_room_n boot_slab_mem(2) by simp_all

theorem kmalloc_new_slab_witness:
  "\<exists>st s'. kmalloc 100 boot_slab = Some (heap_va st + sizeof_slab + 128 * 30, s') \<and> partial (slab_caches s' ! 3) = heap_va st"
  using kmalloc_new_slab [OF boot_slab_heap(1,2,3) boot_slab_caches(3), of 100 3]
  by (auto simp: boot_slab_caches size_to_class_def slab_classes_def slab_count_def)

theorem kmalloc_kfree_empty_cache_witness:
  "\<exists>p s' s''. kmalloc 100 boot_slab = Some (p, s') \<and> kfree p s' = Some s'' \<and> heap_view s'' = heap_view boot_slab"
  using kmalloc_kfree_empty_cache [OF boot_slab_heap(1,2,3) boot_slab_caches(3), of 100 3]
  by (auto simp: boot_slab_caches size_to_class_def slab_classes_def)

theorem kmalloc_kfree_large_witness:
  "\<exists>p s' s''. kmalloc 10000 boot_slab = Some (p, s') \<and> kfree p s' = Some s'' \<and> heap_view s'' = heap_view boot_slab"
proof -
  have "heap_room boot_slab ((10000 + sizeof_slab) div PAGE_SIZE + 1)"
    by (rule boot_slab_heap(3)) (simp add: sizeof_slab_def PAGE_SIZE_def)
  from kmalloc_kfree_large [OF boot_slab_heap(1,2) _ _ this] show ?thesis by auto
qed

theorem kmalloc_2048_second_is_garbage_witness:
  "\<exists>p s' s''. kmalloc 2000 boot_slab = Some (p, s') \<and> kmalloc 2000 s' = Some (0xFFFF0001, s'')"
  by (rule kmalloc_2048_second_is_garbage [OF boot_slab_heap(1,2,3) boot_slab_caches(3)])
    (simp_all add: boot_slab_caches slab_classes_def)

text \<open>Three allocations from the class of 1024 bytes, which has three objects per page, fill a slab.\<close>

lemma boot_slab_filled:
  obtains st p1 p2 p3 and s1 s2 s3 :: slab_state where
    "on_page s1 st p1" "caches_ok s1" "partial (slab_caches s1 ! 6) = heap_va st" "slab_page p1 (heap_va st) (cache_addr s1 6) 1024 2"
    "on_page s2 st p2" "caches_ok s2" "slab_page p2 (heap_va st) (cache_addr s2 6) 1024 1"
    "on_page s3 st p3" "caches_ok s3" "slab_page p3 (heap_va st) (cache_addr s3 6) 1024 0"
    "load32 p3 SLAB_NEXT = NULL" "load32 p3 SLAB_PREV = NULL"
    "full (slab_caches s3 ! 6) = heap_va st" "partial (slab_caches s3 ! 6) = NULL"
proof -
  have c6: "slab_classes ! 6 = 1024" "slab_count 1024 = 3" "(1024 :: u32) \<in> set slab_classes" "length slab_classes = 8"
    by (simp_all add: slab_classes_def slab_count_def)
  have i: "6 < length (slab_caches boot_slab)" "obj_size (slab_caches boot_slab ! 6) = 1024" "full (slab_caches boot_slab ! 6) = NULL"
    by (simp_all add: boot_slab_caches c6)
  have room: "heap_room boot_slab 1" by (rule boot_slab_heap(3)) simp
  obtain st p1 and s1 :: slab_state where a: "on_page s1 st p1" "slab_page p1 (heap_va st) (cache_addr boot_slab 6) 1024 (slab_count 1024 - 1)"
    "load32 p1 SLAB_NEXT = NULL" "slab_caches s1 = (slab_caches boot_slab)[6 := (slab_caches boot_slab ! 6)\<lparr>partial := heap_va st\<rparr>]"
    "slab_caches_addr s1 = slab_caches_addr boot_slab"
    using fresh_slab_ok [OF boot_slab_heap(1,2) room i(1,2) c6(3)] by metis
  have sp1: "slab_page p1 (heap_va st) (cache_addr s1 6) 1024 (Suc 1)" using a(2,5) c6 by (simp add: cache_addr_def numeral_2_eq_2)
  have m1: "map obj_size (slab_caches s1) = slab_classes"
    using a(4) i(2) c6 by (simp add: map_update boot_slab_caches comp_def list_update_same_conv)
  have ca: "cache_addr s1 = cache_addr boot_slab" using a(5) by (simp add: fun_eq_iff cache_addr_def)
  have ok1: "caches_ok s1" using m1 ca boot_slab_caches(3) by (simp add: caches_ok_def)
  let ?p2 = "store16 p1 SLAB_FREE (of_nat 1)"
  obtain s2 :: slab_state where b: "on_page s2 st ?p2" "others_kept st s1 s2" "slab_page ?p2 (heap_va st) (cache_addr s1 6) 1024 1"
    by (rule kmalloc_partial_ok [OF a(1) sp1 c6(3), of 0]) simp
  note k2 = others_kept_caches [OF b(2)]
  have ok2: "caches_ok s2" using ok1 k2 by (simp add: caches_ok_def cache_addr_def)
  have n2: "load32 ?p2 SLAB_NEXT = NULL" using a(3) load_store_mixed(1) [of SLAB_NEXT SLAB_FREE p1 "of_nat 1"] by (simp add: slab_offsets)
  have sp2: "slab_page ?p2 (heap_va st) (cache_addr s1 6) 1024 (Suc 0)" using b(3) by simp
  have f2: "full (slab_caches s2 ! 6) = NULL" "6 < length (slab_caches s2)" using k2 a(4) i by simp_all
  obtain p3 and s3 :: slab_state where d: "on_page s3 st p3" "slab_page p3 (heap_va st) (cache_addr s1 6) 1024 0" "load32 p3 SLAB_NEXT = NULL"
    "load32 p3 SLAB_PREV = NULL" "slab_caches s3 = (slab_caches s2)[6 := (slab_caches s2 ! 6)\<lparr>partial := NULL, full := heap_va st\<rparr>]"
    "slab_caches_addr s3 = slab_caches_addr s2"
    using kmalloc_partial_last [OF b(1) sp2 c6(3) n2 f2] by metis
  have m3: "map obj_size (slab_caches s3) = slab_classes"
    using d(5) m1 k2(1) f2(2) by (simp add: map_update list_update_same_conv) (metis list_update_id nth_map)
  have ok3: "caches_ok s3" using m3 d(6) ok2 by (simp add: caches_ok_def cache_addr_def)
  show thesis
    by (rule that [OF a(1) ok1 _ _ b(1) ok2 _ d(1) ok3 _ d(3,4)])
      (use a(4) i(1) sp1 b(3) d(2,5,6) k2 f2(2) in \<open>simp_all add: cache_addr_def numeral_2_eq_2\<close>)
qed

theorem kmalloc_takes_last_object_witness:
  "\<exists>s h s'. kmalloc 1000 (s :: slab_state) = Some (heap_va h + sizeof_slab + 1024, s')"
proof (rule boot_slab_filled)
  fix st p1 and s1 :: slab_state
  assume a: "on_page s1 st p1" "caches_ok s1" "partial (slab_caches s1 ! 6) = heap_va st" "slab_page p1 (heap_va st) (cache_addr s1 6) 1024 2"
  have c: "slab_classes ! 6 = 1024" "size_to_class 1000 = int 6" by (simp_all add: slab_classes_def size_to_class_def)
  have "slab_page p1 (heap_va st) (cache_addr s1 6) (slab_classes ! 6) (Suc 1)" using a(4) c by (simp add: numeral_2_eq_2)
  from kmalloc_takes_last_object [OF a(1,2) c(2) _ a(3) heap_va_nonnull [OF on_page_bound [OF a(1)]] _ this]
  show ?thesis unfolding c(1) by fastforce
qed

theorem kfree_last_in_first_out_witness:
  "\<exists>s h s' page'. kfree (heap_va h + sizeof_slab + 1024) (s :: slab_state) = Some s' \<and> slab_page page' (heap_va h) (cache_addr s 6) 1024 2"
proof (rule boot_slab_filled)
  fix st p2 and s2 :: slab_state
  assume a: "on_page s2 st p2" "caches_ok s2" "slab_page p2 (heap_va st) (cache_addr s2 6) 1024 1"
  have c: "slab_classes ! 6 = 1024" "slab_count 1024 = 3" by (simp_all add: slab_classes_def slab_count_def)
  have "slab_page p2 (heap_va st) (cache_addr s2 6) (slab_classes ! 6) 1" "1 + 1 < slab_count (slab_classes ! 6)"
    using a(3) by (simp_all add: c)
  from kfree_last_in_first_out [OF a(1,2) _ _ this(2,1)] obtain s' page' where
    "kfree (heap_va st + sizeof_slab + 1024 * of_nat 1) s2 = Some s'" "slab_page page' (heap_va st) (cache_addr s2 6) 1024 (1 + 1)"
    unfolding c(1) by auto
  then have "kfree (heap_va st + sizeof_slab + 1024) s2 = Some s'" "slab_page page' (heap_va st) (cache_addr s2 6) 1024 2"
    by (simp_all add: numeral_2_eq_2)
  then show ?thesis by blast
qed

theorem kfree_full_slab_overwrites_witness:
  "\<exists>s h s' page'. kfree (heap_va h + sizeof_slab + 1024 * of_nat 2) (s :: slab_state) = Some s' \<and> on_page s' h page' \<and>
     load32 page' sizeof_slab = heap_va h + sizeof_slab + 1024 * of_nat 2"
proof (rule boot_slab_filled)
  fix st p3 and s3 :: slab_state
  assume a: "on_page s3 st p3" "caches_ok s3" "slab_page p3 (heap_va st) (cache_addr s3 6) 1024 0"
    "load32 p3 SLAB_NEXT = NULL" "load32 p3 SLAB_PREV = NULL"
    "full (slab_caches s3 ! 6) = heap_va st" "partial (slab_caches s3 ! 6) = NULL"
  have c: "slab_classes ! 6 = 1024" "slab_count 1024 = 3" by (simp_all add: slab_classes_def slab_count_def)
  from kfree_full_slab_overwrites [OF a(1,2), of 6 2] a(3-7) show ?thesis unfolding c by auto
qed

end
