(* ===== verification/Linked_List.thy ===== *)
theory Linked_List
  imports Kernel_Prelude
begin

text \<open>
  Linked structures in a typed heap. The kernel walks its lists with one loop in four places: the task
  ring in \<open>enqueue_task\<close> and \<open>task_exit\<close>, the dead queue in \<open>push_dead_queue\<close> and the children of a directory
  in \<open>mount_file_on_dir\<close>. \<open>walk_until\<close> is that loop; a list is a path along the next pointers. The
  locale states what a heap with next pointers promises, and its lemmas say what appending at
  the end of a walk does; the components interpret it on their own structures.
\<close>

text \<open>Following \<open>nx\<close> from \<open>a\<close> visits \<open>xs\<close> and arrives at \<open>b\<close>.\<close>

fun path :: "(addr \<Rightarrow> addr option) \<Rightarrow> addr \<Rightarrow> addr list \<Rightarrow> addr \<Rightarrow> bool" where
  "path nx a [] b \<longleftrightarrow> a = b"
| "path nx a (x # xs) b \<longleftrightarrow> a = x \<and> (\<exists>c. nx x = Some c \<and> path nx c xs b)"

text \<open>\<open>while (tmp->next != stop) tmp = tmp->next;\<close>\<close>

partial_function (option) walk_until :: "(addr \<Rightarrow> addr option) \<Rightarrow> addr \<Rightarrow> addr \<Rightarrow> addr option" where
  "walk_until nx stop p = (case nx p of None \<Rightarrow> None | Some n \<Rightarrow> if n = stop then Some p else walk_until nx stop n)"

lemma path_append [simp]: "path nx a (xs @ ys) b \<longleftrightarrow> (\<exists>c. path nx a xs c \<and> path nx c ys b)"
  by (induction xs arbitrary: a) auto

lemma path_cong: "(\<And>x. x \<in> set xs \<Longrightarrow> nx x = nx' x) \<Longrightarrow> path nx a xs b = path nx' a xs b"
  by (induction xs arbitrary: a) auto

lemma path_upd_other [simp]: "p \<notin> set xs \<Longrightarrow> path (nx(p := q)) a xs b = path nx a xs b"
  by (rule path_cong) auto

lemma path_dom: "path nx a xs b \<Longrightarrow> x \<in> set xs \<Longrightarrow> nx x \<noteq> None"
  by (induction xs arbitrary: a) auto

lemma walk_until_last:
  assumes "path nx p xs stop" and "xs \<noteq> []" and "stop \<notin> set (tl xs)"
  shows "walk_until nx stop p = Some (last xs)"
  using assms
proof (induction xs arbitrary: p)
  case (Cons x xs)
  then obtain c where c: "p = x" "nx x = Some c" "path nx c xs stop" by auto
  show ?case
  proof (cases xs)
    case Nil
    with c show ?thesis by (simp add: walk_until.simps)
  next
    case (Cons y ys)
    then have "c = y" "y \<noteq> stop" using c(3) Cons.prems(3) by auto
    moreover have "walk_until nx stop c = Some (last xs)"
      using Cons.IH [OF c(3)] Cons Cons.prems(3) by auto
    ultimately show ?thesis using c Cons by (simp add: walk_until.simps [of nx stop x])
  qed
qed simp

lemma path_last_upd:
  assumes "path nx a xs b" and "distinct xs" and "xs \<noteq> []"
  shows "path (nx(last xs \<mapsto> c)) a xs c"
proof -
  obtain ys y where xs: "xs = ys @ [y]" using assms(3) by (metis append_butlast_last_id)
  with assms show ?thesis by auto
qed

text \<open>The heap of a linked structure: next pointers can be read and written independently.\<close>

locale linked_heap =
  fixes nxt :: "'s \<Rightarrow> addr \<Rightarrow> addr option"
    and set_nxt :: "addr \<Rightarrow> addr \<Rightarrow> 's \<Rightarrow> 's option"
  assumes set_nxt_some: "nxt s p \<noteq> None \<Longrightarrow> set_nxt p q s \<noteq> None"
    and nxt_set_nxt: "set_nxt p q s = Some s' \<Longrightarrow> nxt s' = (nxt s)(p \<mapsto> q)"
begin

lemma set_nxt_ok:
  assumes "nxt s p \<noteq> None"
  obtains s' where "set_nxt p q s = Some s'" "nxt s' = (nxt s)(p \<mapsto> q)"
  using set_nxt_some [OF assms] nxt_set_nxt by blast

text \<open>Linking a node in at the end of a walk, its own next pointer set to the stop before or after.\<close>

lemma append_at_end:
  assumes "path (nxt s) a xs stop" and "distinct xs" and "xs \<noteq> []" and "stop \<notin> set (tl xs)"
    and "nxt s new = Some stop" and "new \<notin> set xs"
  shows "\<exists>t s'. walk_until (nxt s) stop a = Some t \<and> set_nxt t new s = Some s' \<and>
    path (nxt s') a (xs @ [new]) stop \<and> nxt s' = (nxt s)(last xs \<mapsto> new)"
proof -
  have w: "walk_until (nxt s) stop a = Some (last xs)" by (rule walk_until_last [OF assms(1,3,4)])
  have "nxt s (last xs) \<noteq> None" using path_dom [OF assms(1)] assms(3) by simp
  then obtain s' where s': "set_nxt (last xs) new s = Some s'" "nxt s' = (nxt s)(last xs \<mapsto> new)"
    by (rule set_nxt_ok)
  have "path (nxt s') a xs new" unfolding s'(2) by (rule path_last_upd [OF assms(1-3)])
  moreover have "new \<noteq> last xs" using assms(3,6) by auto
  ultimately have "path (nxt s') a (xs @ [new]) stop" using assms(5) by (simp add: s'(2))
  with w s' show ?thesis by blast
qed

text \<open>Unlinking the first node of a ring.\<close>

lemma unlink_head:
  assumes "path (nxt s) a (a # xs) a" and "distinct (a # xs)" and "xs \<noteq> []"
  shows "\<exists>t n s'. walk_until (nxt s) a a = Some t \<and> nxt s a = Some n \<and> n = hd xs \<and> set_nxt t n s = Some s' \<and>
    path (nxt s') (hd xs) xs (hd xs) \<and> nxt s' = (nxt s)(last xs \<mapsto> hd xs)"
proof -
  have w: "walk_until (nxt s) a a = Some (last xs)"
    using walk_until_last [OF assms(1)] assms(2,3) by simp
  obtain n where n: "nxt s a = Some n" "path (nxt s) n xs a" using assms(1) by auto
  then have h: "n = hd xs" using assms(3) by (cases xs) auto
  have "nxt s (last xs) \<noteq> None" using path_dom [OF n(2)] assms(3) by simp
  then obtain s' where s': "set_nxt (last xs) n s = Some s'" "nxt s' = (nxt s)(last xs \<mapsto> n)"
    by (rule set_nxt_ok)
  have "path (nxt s') n xs n" unfolding s'(2) by (rule path_last_upd [OF n(2)]) (use assms(2,3) in simp_all)
  with w n(1) h s' show ?thesis by blast
qed

end

end
