(* ===== verification/Vfs.thy ===== *)
theory Vfs
  imports Slab Linked_List
begin

text \<open>
  The virtual file system of \<open>kernel/filesystem/fs.c\<close>: vnodes, their tree, open files. Each kind of
  structure has a heap of its own, keyed by the address \<open>kmalloc\<close> returned for it; a pointer
  without an object behind it, the null pointer above all, makes an operation undefined. Function
  pointers are names of the functions the kernel stores there.
\<close>

section \<open>State\<close>

datatype read_fn = tty_read_fn
datatype write_fn = tty_write_fn
datatype ioctl_fn = tty_ioctl_fn

record vnode_ops =
  op_read :: "read_fn option"
  op_write :: "write_fn option"
  op_ioctl :: "ioctl_fn option"

record vnode =
  vn_name :: string
  vn_parent :: addr
  vn_children :: addr
  vn_next_sibling :: addr
  vn_ops :: addr

record file_t =
  f_name :: string
  f_ops :: addr
  f_flags :: u32

record vfs_state = slab_state +
  vnodes :: "addr \<Rightarrow> vnode option"
  files :: "addr \<Rightarrow> file_t option"
  ops_heap :: "addr \<Rightarrow> vnode_ops option"
  global_vfs_root :: addr
  global_tty :: addr

definition RONLY_FLAG :: u32 where "RONLY_FLAG = push_bit 0 1"
definition WONLY_FLAG :: u32 where "WONLY_FLAG = push_bit 0 0"
definition ECHO_FLAG :: u32 where "ECHO_FLAG = push_bit 1 1"

section \<open>Operations\<close>

definition create_vnode :: "string \<Rightarrow> 'a vfs_state_scheme \<Rightarrow> (addr \<times> 'a vfs_state_scheme) option" where
  "create_vnode name s = do {
     (vnode, s) \<leftarrow> kmalloc 20 s;
     Some (vnode, s\<lparr>vnodes := (vnodes s)(vnode \<mapsto> \<lparr>vn_name = name, vn_parent = NULL, vn_children = NULL,
       vn_next_sibling = NULL, vn_ops = NULL\<rparr>)\<rparr>) }"

definition sibling :: "'a vfs_state_scheme \<Rightarrow> addr \<Rightarrow> addr option" where
  "sibling s p = map_option vn_next_sibling (vnodes s p)"

definition set_sibling :: "addr \<Rightarrow> addr \<Rightarrow> 'a vfs_state_scheme \<Rightarrow> 'a vfs_state_scheme option" where
  "set_sibling p q s = do {
     v \<leftarrow> vnodes s p;
     Some (s\<lparr>vnodes := (vnodes s)(p \<mapsto> v\<lparr>vn_next_sibling := q\<rparr>)\<rparr>) }"

definition mount_file_on_dir :: "addr \<Rightarrow> addr \<Rightarrow> 'a vfs_state_scheme \<Rightarrow> 'a vfs_state_scheme option" where
  "mount_file_on_dir file dir s = do {
     f \<leftarrow> vnodes s file;
     let s = s\<lparr>vnodes := (vnodes s)(file \<mapsto> f\<lparr>vn_parent := dir\<rparr>)\<rparr>;
     d \<leftarrow> vnodes s dir;
     if vn_children d = NULL
     then Some (s\<lparr>vnodes := (vnodes s)(dir \<mapsto> d\<lparr>vn_children := file\<rparr>)\<rparr>)
     else do {
       tmp \<leftarrow> walk_until (sibling s) NULL (vn_children d);
       set_sibling tmp file s } }"

definition tty_ops :: "'a vfs_state_scheme \<Rightarrow> (addr \<times> 'a vfs_state_scheme) option" where
  "tty_ops s = do {
     (ops, s) \<leftarrow> kmalloc 16 s;
     Some (ops, s\<lparr>ops_heap := (ops_heap s)(ops \<mapsto> \<lparr>op_read = Some tty_read_fn, op_write = Some tty_write_fn,
       op_ioctl = Some tty_ioctl_fn\<rparr>)\<rparr>) }"

text \<open>\<open>file_path\<close> is the name in the header of the first module, a string of the boot image.\<close>

definition init_vfs :: "u8 list \<Rightarrow> 'a vfs_state_scheme \<Rightarrow> 'a vfs_state_scheme option" where
  "init_vfs file_path s = do {
     let s = debug_write file_path s;
     (root, s) \<leftarrow> create_vnode ''/'' s;
     let s = s\<lparr>global_vfs_root := root\<rparr>;
     (dev_dir, s) \<leftarrow> create_vnode ''dev'' s;
     (tty, s) \<leftarrow> create_vnode ''tty'' s;
     let s = s\<lparr>global_tty := tty\<rparr>;
     (ops, s) \<leftarrow> tty_ops s;
     t \<leftarrow> vnodes s (global_tty s);
     let s = s\<lparr>vnodes := (vnodes s)(global_tty s \<mapsto> t\<lparr>vn_ops := ops\<rparr>)\<rparr>;
     s \<leftarrow> mount_file_on_dir (global_tty s) dev_dir s;
     mount_file_on_dir dev_dir (global_vfs_root s) s }"

definition open_file :: "addr \<Rightarrow> u8 \<Rightarrow> 'a vfs_state_scheme \<Rightarrow> (addr \<times> 'a vfs_state_scheme) option" where
  "open_file vnode flags s = do {
     (file, s) \<leftarrow> kmalloc 12 s;
     v \<leftarrow> vnodes s vnode;
     Some (file, s\<lparr>files := (files s)(file \<mapsto> \<lparr>f_name = vn_name v, f_ops = vn_ops v, f_flags = ucast flags\<rparr>)\<rparr>) }"

section \<open>The tree\<close>

interpretation sib: linked_heap sibling set_sibling
  by unfold_locales (auto simp: sibling_def set_sibling_def bind_Some_iff fun_eq_iff)

text \<open>The children of a directory, in the order they were mounted.\<close>

definition children_are :: "'a vfs_state_scheme \<Rightarrow> addr \<Rightarrow> addr list \<Rightarrow> bool" where
  "children_are s dir xs \<longleftrightarrow> (\<exists>d. vnodes s dir = Some d \<and> path (sibling s) (vn_children d) xs NULL \<and> distinct xs \<and> NULL \<notin> set xs)"

lemma sibling_parent:
  "vnodes s p = Some v \<Longrightarrow> sibling (s\<lparr>vnodes := (vnodes s)(p \<mapsto> v\<lparr>vn_parent := d\<rparr>)\<rparr>) = sibling s"
  "vnodes s p = Some v \<Longrightarrow> sibling (s\<lparr>vnodes := (vnodes s)(p \<mapsto> v\<lparr>vn_children := c\<rparr>)\<rparr>) = sibling s"
  by (auto simp: sibling_def fun_eq_iff)

text \<open>
  Mounting a fresh vnode makes it the last child of the directory, after all the children mounted
  before, and records the directory as its parent.
\<close>

theorem mount_file_on_dir_appends:
  assumes "children_are s dir xs" and "vnodes s file = Some f" and "vn_next_sibling f = NULL"
    and "file \<noteq> dir" and "file \<noteq> NULL" and "file \<notin> set xs"
  shows "\<exists>s' f'. mount_file_on_dir file dir s = Some s' \<and> children_are s' dir (xs @ [file]) \<and>
    vnodes s' file = Some f' \<and> vn_parent f' = dir"
proof -
  let ?f = "f\<lparr>vn_parent := dir\<rparr>"
  let ?s1 = "s\<lparr>vnodes := (vnodes s)(file \<mapsto> ?f)\<rparr>"
  from assms(1) obtain d where d: "vnodes s dir = Some d" "path (sibling s) (vn_children d) xs NULL" "distinct xs" "NULL \<notin> set xs"
    by (auto simp: children_are_def)
  have sb: "sibling ?s1 = sibling s" by (rule sibling_parent(1) [OF assms(2)])
  have d1: "vnodes ?s1 dir = Some d" using d(1) assms(4) by simp
  have ns: "sibling s file = Some NULL" using assms(2,3) by (simp add: sibling_def)
  show ?thesis
  proof (cases xs)
    case Nil
    let ?s2 = "?s1\<lparr>vnodes := (vnodes ?s1)(dir \<mapsto> d\<lparr>vn_children := file\<rparr>)\<rparr>"
    have "vn_children d = NULL" using d(2) Nil by simp
    then have m: "mount_file_on_dir file dir s = Some ?s2" using assms(2) d1 by (simp add: mount_file_on_dir_def)
    have "sibling ?s2 = sibling s" using sibling_parent(2) [OF d1] sb by simp
    then have "children_are ?s2 dir [file]" unfolding children_are_def using ns assms(5) by simp
    with m Nil assms(4) show ?thesis by (intro exI [of _ ?s2] exI [of _ ?f]) simp
  next
    case (Cons x ys)
    have c: "vn_children d \<noteq> NULL" "xs \<noteq> []" using d(2,4) Cons by auto
    have "NULL \<notin> set (tl xs)" using d(4) Cons by simp
    from sib.append_at_end [of ?s1, unfolded sb, OF d(2,3) c(2) this ns assms(6)] obtain t s' where
      s': "walk_until (sibling s) NULL (vn_children d) = Some t" "set_sibling t file ?s1 = Some s'"
        "path (sibling s') (vn_children d) (xs @ [file]) NULL" by blast
    have m: "mount_file_on_dir file dir s = Some s'"
      using assms(2) d1 c s'(1,2) sb by (simp add: mount_file_on_dir_def)
    obtain v where v: "vnodes ?s1 t = Some v" "s' = ?s1\<lparr>vnodes := (vnodes ?s1)(t \<mapsto> v\<lparr>vn_next_sibling := file\<rparr>)\<rparr>"
      using s'(2) by (auto simp: set_sibling_def bind_Some_iff)
    have "\<exists>d'. vnodes s' dir = Some d' \<and> vn_children d' = vn_children d"
      using v d1 by (cases "t = dir") auto
    then have "children_are s' dir (xs @ [file])" unfolding children_are_def using s'(3) d(3,4) assms(5,6) by auto
    moreover have "\<exists>f'. vnodes s' file = Some f' \<and> vn_parent f' = dir" using v by (cases "t = file") auto
    ultimately show ?thesis using m by blast
  qed
qed

definition boot_vfs :: vfs_state where
  "boot_vfs = slab_state.extend boot_slab (vfs_state.fields Map.empty Map.empty Map.empty NULL NULL)"

theorem mount_file_on_dir_appends_witness:
  "\<exists>s' f'. mount_file_on_dir 0xC0400FF0 0xC0400FD0 (boot_vfs\<lparr>vnodes := Map.empty
     (0xC0400FF0 \<mapsto> \<lparr>vn_name = ''tty'', vn_parent = NULL, vn_children = NULL, vn_next_sibling = NULL, vn_ops = NULL\<rparr>,
      0xC0400FD0 \<mapsto> \<lparr>vn_name = ''dev'', vn_parent = NULL, vn_children = NULL, vn_next_sibling = NULL, vn_ops = NULL\<rparr>)\<rparr>) = Some s' \<and>
     vnodes s' 0xC0400FF0 = Some f' \<and> vn_parent f' = 0xC0400FD0"
  (is "\<exists>s' f'. mount_file_on_dir _ _ ?s = _ \<and> _")
proof -
  have "children_are ?s 0xC0400FD0 []" "vnodes ?s 0xC0400FF0 = Some \<lparr>vn_name = ''tty'', vn_parent = NULL, vn_children = NULL, vn_next_sibling = NULL, vn_ops = NULL\<rparr>"
    by (simp_all add: children_are_def)
  from mount_file_on_dir_appends [OF this] show ?thesis by auto
qed

end
