(* ===== verification/Address_Space.thy ===== *)
theory Address_Space
  imports Slab
begin

text \<open>
  Address spaces of user programs: \<open>mmap_ring3\<close> and \<open>unmmap_ring3\<close> of \<open>kernel/memory.c\<close>, the system calls of
  \<open>kernel/syscall/mmap.c\<close> and \<open>kernel/syscall/munmap.c\<close>, and \<open>init_video_memory\<close> of
  \<open>kernel/graphics/framebuffer.c\<close>, which maps the framebuffer behind the heap.

  The system calls take the physical address of the current task's page directory as an argument.
\<close>

section \<open>Creating an address space\<close>

record user_module =
  mod_start :: addr
  mod_end :: addr

text \<open>The loop that copies the kernel's half of the page directory.\<close>

fun copy_kernel_half :: "nat list \<Rightarrow> addr \<Rightarrow> 'a mem_state_scheme \<Rightarrow> 'a mem_state_scheme option" where
  "copy_kernel_half [] pd s = Some s"
| "copy_kernel_half (i # is) pd s = do {
     e \<leftarrow> vload32 (entry (kernel_page_directory s) (of_nat i)) s;
     s \<leftarrow> vstore32 (entry pd (of_nat i)) e s;
     copy_kernel_half is pd s }"

definition mmap_ring3 :: "user_module \<Rightarrow> 'a mem_state_scheme \<Rightarrow> (addr \<times> 'a mem_state_scheme) option" where
  "mmap_ring3 userspace_module s = do {
     (page_table_entry_phys_addr1, s) \<leftarrow> pmm_alloc 1 s;
     (tmp_virt_page_table_entry1, s) \<leftarrow> map_tmp_page page_table_entry_phys_addr1 s;
     s \<leftarrow> zero_loop tmp_virt_page_table_entry1 0 s;
     let user_code2 = mod_start userspace_module + KERNEL_BASE;
     let limit = (ucast (mod_end userspace_module - mod_start userspace_module) :: u16);
     s \<leftarrow> kmemcpy_loop (unat limit) tmp_virt_page_table_entry1 user_code2 s;
     s \<leftarrow> unmap_tmp_page s;
     (page_table_entry_phys_addr2, s) \<leftarrow> pmm_alloc 1 s;
     s \<leftarrow> zero_page page_table_entry_phys_addr2 s;
     (page_table_phys_addr, s) \<leftarrow> pmm_alloc 1 s;
     (tmp_virt_page_table, s) \<leftarrow> map_tmp_page page_table_phys_addr s;
     s \<leftarrow> zero_loop tmp_virt_page_table 0 s;
     s \<leftarrow> vstore32 (entry tmp_virt_page_table 1)
           ((page_table_entry_phys_addr1 AND PAGE_MASK) OR PAGE_PRESENT OR PAGE_WRITABLE OR PAGE_USER) s;
     s \<leftarrow> vstore32 (entry tmp_virt_page_table 2)
           ((page_table_entry_phys_addr2 AND PAGE_MASK) OR PAGE_PRESENT OR PAGE_WRITABLE OR PAGE_USER) s;
     s \<leftarrow> unmap_tmp_page s;
     (page_directory_phys_addr, s) \<leftarrow> pmm_alloc 1 s;
     (tmp_virt_page_directory, s) \<leftarrow> map_tmp_page page_directory_phys_addr s;
     s \<leftarrow> zero_loop tmp_virt_page_directory 0 s;
     s \<leftarrow> vstore32 (entry tmp_virt_page_directory 0)
           ((page_table_phys_addr AND PAGE_MASK) OR PAGE_PRESENT OR PAGE_WRITABLE OR PAGE_USER) s;
     s \<leftarrow> copy_kernel_half [768..<1024] tmp_virt_page_directory s;
     s \<leftarrow> unmap_tmp_page s;
     Some (page_directory_phys_addr, s) }"

section \<open>Taking an address space down\<close>

text \<open>The body of the two loops for directory entry \<open>pte_idx\<close> and table entry \<open>pt_idx\<close>.\<close>

definition unmmap_ring3_entry :: "addr \<Rightarrow> u32 \<Rightarrow> u32 \<Rightarrow> 'a mem_state_scheme \<Rightarrow> 'a mem_state_scheme option" where
  "unmmap_ring3_entry pd pte_idx pt_idx s = do {
     (pt_addr, s) \<leftarrow> read_entry pd pte_idx s;
     s \<leftarrow> (if pt_addr AND PAGE_PRESENT \<noteq> 0 then do {
              (tmp_pt, s) \<leftarrow> map_tmp_page pt_addr s;
              t_addr \<leftarrow> vload32 (entry tmp_pt pt_idx) s;
              s \<leftarrow> (if t_addr \<noteq> 0 then do {
                       s \<leftarrow> terminal_writestring ''table free\<newline>'' s;
                       s \<leftarrow> vstore32 (entry tmp_pt pt_idx) 0 s;
                       pmm_free (t_addr AND PAGE_MASK) 1 s }
                     else Some s);
              unmap_tmp_page s }
            else Some s);
     if pt_idx + 1 \<ge> 1024 then do {
       (tmp_pd, s) \<leftarrow> map_tmp_page pd s;
       e \<leftarrow> vload32 (entry tmp_pd pte_idx) s;
       s \<leftarrow> (if e AND PAGE_PRESENT \<noteq> 0 then do {
                s \<leftarrow> terminal_writestring ''page table free\<newline>'' s;
                s \<leftarrow> vstore32 (entry tmp_pd pte_idx) 0 s;
                pmm_free (pt_addr AND PAGE_MASK) 1 s }
              else Some s);
       unmap_tmp_page s }
     else Some s }"

fun unmmap_ring3_table :: "nat list \<Rightarrow> addr \<Rightarrow> u32 \<Rightarrow> 'a mem_state_scheme \<Rightarrow> 'a mem_state_scheme option" where
  "unmmap_ring3_table [] pd pte_idx s = Some s"
| "unmmap_ring3_table (j # js) pd pte_idx s = do {
     s \<leftarrow> unmmap_ring3_entry pd pte_idx (of_nat j) s;
     unmmap_ring3_table js pd pte_idx s }"

text \<open>The inner loop starts at entry 1 in the first table and at entry 0 in the others.\<close>

fun unmmap_ring3_dirs :: "nat list \<Rightarrow> nat \<Rightarrow> addr \<Rightarrow> 'a mem_state_scheme \<Rightarrow> 'a mem_state_scheme option" where
  "unmmap_ring3_dirs [] pt_idx pd s = Some s"
| "unmmap_ring3_dirs (i # is) pt_idx pd s = do {
     s \<leftarrow> unmmap_ring3_table [pt_idx..<1024] pd (of_nat i) s;
     unmmap_ring3_dirs is 0 pd s }"

definition unmmap_ring3 :: "addr \<Rightarrow> 'a mem_state_scheme \<Rightarrow> 'a mem_state_scheme option" where
  "unmmap_ring3 page_directory_phys_addr s = do {
     s \<leftarrow> unmmap_ring3_dirs [0..<768] 1 page_directory_phys_addr s;
     pmm_free (page_directory_phys_addr AND PAGE_MASK) 1 s }"

section \<open>Mapping and unmapping pages of the current address space\<close>

text \<open>
  \<open>sys_mmap\<close>: one visit of the two loops. The result is the pages mapped so far and the first
  address. The window stays open when the entry is in use.
\<close>

definition sys_mmap_new_page :: "addr \<Rightarrow> u32 \<Rightarrow> 'a mem_state_scheme \<Rightarrow> 'a mem_state_scheme option" where
  "sys_mmap_new_page pt_addr pt_idx s = do {
     (page_phys_addr, s) \<leftarrow> pmm_alloc 1 s;
     s \<leftarrow> zero_page page_phys_addr s;
     write_entry pt_addr pt_idx ((page_phys_addr AND PAGE_MASK) OR PAGE_PRESENT OR PAGE_WRITABLE OR PAGE_USER) s }"

definition sys_mmap_count :: "u32 \<Rightarrow> u32 \<Rightarrow> u32 \<Rightarrow> u32 \<Rightarrow> u32 \<times> u32" where
  "sys_mmap_count pte_idx pt_idx mapped_pages first_addr =
     (mapped_pages + 1, if mapped_pages = 0 then push_bit 22 pte_idx OR push_bit 12 pt_idx else first_addr)"

definition sys_mmap_entry :: "addr \<Rightarrow> u32 \<Rightarrow> u32 \<Rightarrow> u32 \<Rightarrow> u32 \<Rightarrow> 'a mem_state_scheme \<Rightarrow>
    ((u32 \<times> u32) \<times> 'a mem_state_scheme) option" where
  "sys_mmap_entry pd pte_idx pt_idx mapped_pages first_addr s = do {
     (pt_addr, s) \<leftarrow> read_entry pd pte_idx s;
     if pt_addr = 0 then do {
       (page_table_phys_addr, s) \<leftarrow> pmm_alloc 1 s;
       s \<leftarrow> zero_page page_table_phys_addr s;
       let pt_addr = (page_table_phys_addr AND PAGE_MASK) OR PAGE_PRESENT OR PAGE_WRITABLE OR PAGE_USER;
       s \<leftarrow> write_entry pd pte_idx pt_addr s;
       s \<leftarrow> sys_mmap_new_page pt_addr pt_idx s;
       Some (sys_mmap_count pte_idx pt_idx mapped_pages first_addr, invlpg (push_bit 22 pte_idx OR push_bit 12 pt_idx) s) }
     else do {
       (tmp_pt, s) \<leftarrow> map_tmp_page pt_addr s;
       e \<leftarrow> vload32 (entry tmp_pt pt_idx) s;
       if e = 0 then do {
         s \<leftarrow> unmap_tmp_page s;
         s \<leftarrow> sys_mmap_new_page pt_addr pt_idx s;
         Some (sys_mmap_count pte_idx pt_idx mapped_pages first_addr, invlpg (push_bit 22 pte_idx OR push_bit 12 pt_idx) s) }
       else Some ((mapped_pages, first_addr), s) } }"

text \<open>
  The loops visit the pages of the address space in increasing order, page 1 first; the page number
  \<open>n\<close> stands for the pair of indices.
\<close>

fun sys_mmap_loop :: "nat list \<Rightarrow> addr \<Rightarrow> u32 \<Rightarrow> u32 \<Rightarrow> u32 \<Rightarrow> 'a mem_state_scheme \<Rightarrow> (u32 \<times> 'a mem_state_scheme) option" where
  "sys_mmap_loop [] pd total_pages mapped_pages first_addr s = Some (-1, s)"
| "sys_mmap_loop (n # ns) pd total_pages mapped_pages first_addr s = do {
     ((mapped', first'), s) \<leftarrow> sys_mmap_entry pd (of_nat (n div 1024)) (of_nat (n mod 1024)) mapped_pages first_addr s;
     if mapped' \<noteq> mapped_pages \<and> mapped' = total_pages then Some (first', s)
     else sys_mmap_loop ns pd total_pages mapped' first' s }"

definition sys_mmap :: "addr \<Rightarrow> u32 \<Rightarrow> 'a mem_state_scheme \<Rightarrow> (u32 \<times> 'a mem_state_scheme) option" where
  "sys_mmap pd len s = (
     let total_pages = len div PAGE_SIZE + (if len mod PAGE_SIZE > 0 then 1 else 0) in
     sys_mmap_loop [1..<1048576] pd total_pages 0 0 s)"

text \<open>\<open>sys_munmap\<close>: the inner loop, from \<open>pte_index\<close> in every table.\<close>

fun sys_munmap_table :: "nat list \<Rightarrow> u32 \<Rightarrow> u32 \<Rightarrow> u32 \<Rightarrow> u32 \<Rightarrow> 'a mem_state_scheme \<Rightarrow> (u32 \<times> 'a mem_state_scheme) option" where
  "sys_munmap_table [] i pt_addr total_pages current_pages s = Some (current_pages, s)"
| "sys_munmap_table (j # js) i pt_addr total_pages current_pages s =
     (if current_pages \<ge> total_pages then Some (current_pages, s)
      else do {
        (tmp_pt, s) \<leftarrow> map_tmp_page pt_addr s;
        phys_addr \<leftarrow> vload32 (entry tmp_pt (of_nat j)) s;
        s \<leftarrow> vstore32 (entry tmp_pt (of_nat j)) 0 s;
        s \<leftarrow> unmap_tmp_page s;
        s \<leftarrow> pmm_free phys_addr 1 s;
        sys_munmap_table js i pt_addr total_pages (current_pages + 1)
          (invlpg (push_bit 22 i OR push_bit 12 (of_nat j)) s) })"

fun sys_munmap_dirs :: "nat list \<Rightarrow> addr \<Rightarrow> nat \<Rightarrow> u32 \<Rightarrow> u32 \<Rightarrow> 'a mem_state_scheme \<Rightarrow> 'a mem_state_scheme option" where
  "sys_munmap_dirs [] pd pte_index total_pages current_pages s = Some s"
| "sys_munmap_dirs (i # is) pd pte_index total_pages current_pages s = do {
     (pt_addr, s) \<leftarrow> read_entry pd (of_nat i) s;
     (current_pages, s) \<leftarrow> sys_munmap_table [pte_index..<1024] (of_nat i) pt_addr total_pages current_pages s;
     sys_munmap_dirs is pd pte_index total_pages current_pages s }"

definition sys_munmap :: "addr \<Rightarrow> addr \<Rightarrow> u32 \<Rightarrow> 'a mem_state_scheme \<Rightarrow> (u32 \<times> 'a mem_state_scheme) option" where
  "sys_munmap pd a len s = do {
     s \<leftarrow> sys_munmap_dirs [unat (PDE_INDEX a)..<1024] pd (unat (PTE_INDEX a)) (pages_required len) 0 s;
     Some (0, s) }"

section \<open>The framebuffer\<close>

fun video_loop :: "nat \<Rightarrow> u32 \<Rightarrow> u32 \<Rightarrow> u32 \<Rightarrow> 'a mem_state_scheme \<Rightarrow> 'a mem_state_scheme option" where
  "video_loop 0 base_pde base_pte base_addr s = Some s"
| "video_loop (Suc n) base_pde base_pte base_addr s = do {
     pde \<leftarrow> vload32 (entry (kernel_page_directory s) base_pde) s;
     s \<leftarrow> (if pde = 0 then do {
              (page_table_phys_addr, s) \<leftarrow> pmm_alloc 1 s;
              s \<leftarrow> zero_page page_table_phys_addr s;
              vstore32 (entry (kernel_page_directory s) base_pde)
                ((page_table_phys_addr AND PAGE_MASK) OR PAGE_PRESENT OR PAGE_WRITABLE) s }
            else Some s);
     pde \<leftarrow> vload32 (entry (kernel_page_directory s) base_pde) s;
     s \<leftarrow> write_entry pde base_pte ((base_addr AND PAGE_MASK) OR PAGE_PRESENT OR PAGE_WRITABLE) s;
     let s = invlpg (push_bit 22 base_pde OR push_bit 12 base_pte) s;
     let (base_pde, base_pte) = (if base_pte + 1 \<ge> 1024 then (base_pde + 1, 0) else (base_pde, base_pte + 1));
     let s = (if base_pde \<ge> 1024 then debug_write (cstr ''erro'') s else s);
     video_loop n base_pde base_pte (base_addr + PAGE_SIZE) s }"

text \<open>The fields of the multiboot information the loader fills in for the framebuffer.\<close>

record mb_framebuffer =
  mb_fb_addr :: u64
  mb_fb_pitch :: u32
  mb_fb_width :: u32
  mb_fb_height :: u32

definition init_video_memory :: "mb_framebuffer \<Rightarrow> 'a mem_state_scheme \<Rightarrow> 'a mem_state_scheme option" where
  "init_video_memory mbi s = (
     let s = s\<lparr>framebuffer_width := mb_fb_width mbi, framebuffer_height := mb_fb_height mbi,
               framebuffer_pitch := mb_fb_pitch mbi\<rparr> in
     video_loop (unat (mb_fb_pitch mbi * mb_fb_height mbi div PAGE_SIZE)) (PDE_INDEX KHEAP_END) (PTE_INDEX KHEAP_END)
       (ucast (mb_fb_addr mbi)) s)"

end
