(* ===== verification/Frames.thy ===== *)
theory Frames
  imports Address_Space
begin

text \<open>
  What the memory and terminal operations leave alone. The operations of \<open>kernel/memory.c\<close> change
  physical memory, the bitmap, the page map of the heap and the slab caches, those of \<open>kernel/tty.c\<close> the
  screen; the state of the components above them, which the record keeps in its extension, stays as it is.
  The rules are collected in \<open>more_kept\<close>, so that the proofs about tasks and files discharge every call below them by \<open>dest!\<close>.
\<close>

named_theorems more_kept \<open>operations that keep the extension of the memory state\<close>

lemma bind_SomeE: "Option.bind m f = Some y \<Longrightarrow> (\<And>x. m = Some x \<Longrightarrow> f x = Some y \<Longrightarrow> P) \<Longrightarrow> P"
  by (auto simp: bind_Some_iff)

lemma bind_pair_SomeE:
  "Option.bind m (\<lambda>(a, b). f a b) = Some y \<Longrightarrow> (\<And>a b. m = Some (a, b) \<Longrightarrow> f a b = Some y \<Longrightarrow> P) \<Longrightarrow> P"
  by (auto simp: bind_Some_iff)

lemma if_SomeE: "(if b then x else z) = Some y \<Longrightarrow> (b \<Longrightarrow> x = Some y \<Longrightarrow> P) \<Longrightarrow> (\<not> b \<Longrightarrow> z = Some y \<Longrightarrow> P) \<Longrightarrow> P"
  by (cases b) auto

section \<open>The terminal\<close>

lemma term_more_putchar: "terminal_putchar c s = Some s' \<Longrightarrow> term_state.more s' = term_state.more s"
  by (rule off_screenD(6) [OF terminal_putchar_off_screen])

lemma term_more_write: "terminal_write cs s = Some s' \<Longrightarrow> term_state.more s' = term_state.more s"
  by (rule off_screenD(6) [OF terminal_write_off_screen])

lemma mem_more_of_term:
  fixes s s' :: "'a mem_state_scheme"
  shows "term_state.more s' = term_state.more s \<Longrightarrow> mem_state.more s' = mem_state.more s"
  by (cases s, cases s') simp

lemma more_kept_writestring [more_kept]:
  fixes s :: "'a mem_state_scheme"
  shows "terminal_writestring str s = Some s' \<Longrightarrow> mem_state.more s' = mem_state.more s"
  unfolding terminal_writestring_def by (rule mem_more_of_term [OF term_more_write])

section \<open>Memory\<close>

lemmas more_kept_mem [more_kept] = mem_rests [THEN mem_restD(6)]

lemma more_kept_invlpg [simp]: "mem_state.more (invlpg a s) = mem_state.more s"
  by (simp add: invlpg_def)

lemma more_kept_store16 [more_kept]: "vstore16 a v s = Some s' \<Longrightarrow> mem_state.more s' = mem_state.more s"
  by (auto simp: vstore16_def bind_Some_iff)

lemma more_kept_fp [more_kept]: "fp_allocation n s = Some (a, s') \<Longrightarrow> mem_state.more s' = mem_state.more s"
  by (auto simp: fp_allocation_def bind_Some_iff Let_def dest!: more_kept)

lemma more_kept_unlink [more_kept]: "unlink_slab a s = Some s' \<Longrightarrow> mem_state.more s' = mem_state.more s"
  by (auto simp: unlink_slab_def bind_Some_iff split: if_splits dest!: more_kept)

lemma more_kept_fill [more_kept]: "fill_free_list is a n s = Some s' \<Longrightarrow> mem_state.more s' = mem_state.more s"
  by (induction "is" arbitrary: s) (auto simp: bind_Some_iff dest!: more_kept_mem)

lemma more_kept_memcpy [more_kept]: "kmemcpy_loop n to from s = Some s' \<Longrightarrow> mem_state.more s' = mem_state.more s"
  by (induction n arbitrary: to "from" s) (auto simp: bind_Some_iff dest!: more_kept_mem)

lemma more_kept_copy_half [more_kept]: "copy_kernel_half is pd s = Some s' \<Longrightarrow> mem_state.more s' = mem_state.more s"
  by (induction "is" arbitrary: s) (auto simp: bind_Some_iff dest!: more_kept_mem)

lemma more_kept_mmap_ring3 [more_kept]: "mmap_ring3 m s = Some (pd, s') \<Longrightarrow> mem_state.more s' = mem_state.more s"
  unfolding mmap_ring3_def Let_def
  apply (elim bind_pair_SomeE bind_SomeE)
  apply ((drule more_kept)+, simp)
  done

lemma more_kept_entry [more_kept]: "unmmap_ring3_entry pd i j s = Some s' \<Longrightarrow> mem_state.more s' = mem_state.more s"
  by (auto simp: unmmap_ring3_entry_def bind_Some_iff split: if_splits dest!: more_kept)

lemma more_kept_table [more_kept]: "unmmap_ring3_table js pd i s = Some s' \<Longrightarrow> mem_state.more s' = mem_state.more s"
  by (induction js arbitrary: s) (auto simp: bind_Some_iff dest!: more_kept_entry)

lemma more_kept_dirs [more_kept]: "unmmap_ring3_dirs is j pd s = Some s' \<Longrightarrow> mem_state.more s' = mem_state.more s"
  by (induction "is" arbitrary: j s) (auto simp: bind_Some_iff dest!: more_kept_table)

lemma more_kept_unmmap_ring3 [more_kept]: "unmmap_ring3 pd s = Some s' \<Longrightarrow> mem_state.more s' = mem_state.more s"
  by (auto simp: unmmap_ring3_def bind_Some_iff dest!: more_kept)

section \<open>The slab allocator\<close>

text \<open>Above the caches nothing changes.\<close>

named_theorems slab_kept \<open>operations that keep the extension of the slab state\<close>

lemma slab_more_of_mem:
  fixes s s' :: "'a slab_state_scheme"
  shows "mem_state.more s' = mem_state.more s \<Longrightarrow> slab_state.more s' = slab_state.more s"
  by (cases s, cases s') simp

lemmas slab_kept_mem [slab_kept] = more_kept [THEN slab_more_of_mem]

lemma slab_more_caches [simp]:
  "slab_state.more (set_partial i p s) = slab_state.more s" "slab_state.more (set_full i p s) = slab_state.more s"
  "slab_state.more (if b then set_partial i p s else s) = slab_state.more s"
  "slab_state.more (if b then set_full i p s else s) = slab_state.more s"
  by (simp_all add: set_partial_def set_full_def)

lemma slab_kept_partial [slab_kept]: "kmalloc_partial i p s = Some (a, s') \<Longrightarrow> slab_state.more s' = slab_state.more s"
  by (auto simp: kmalloc_partial_def bind_Some_iff Let_def split: if_splits dest!: slab_kept_mem)

lemma slab_kept_new [slab_kept]: "kmalloc_new i s = Some (a, s') \<Longrightarrow> slab_state.more s' = slab_state.more s"
  by (auto simp: kmalloc_new_def bind_Some_iff Let_def dest!: slab_kept_mem)

lemma slab_kept_kmalloc [slab_kept]: "kmalloc n s = Some (a, s') \<Longrightarrow> slab_state.more s' = slab_state.more s"
  by (auto simp: kmalloc_def bind_Some_iff Let_def split: if_splits dest!: slab_kept)

lemma slab_kept_kfree [slab_kept]: "kfree p s = Some s' \<Longrightarrow> slab_state.more s' = slab_state.more s"
  unfolding kfree_def Let_def
  apply (elim bind_pair_SomeE bind_SomeE if_SomeE)
  apply ((drule slab_kept_mem)+, clarsimp)+
  done

end
