(* ===== verification/Scheduler.thy ===== *)
theory Scheduler
  imports Vfs Frames
begin

text \<open>
  The scheduler of \<open>kernel/scheduler/scheduler.c\<close> and the timer interrupt of \<open>kernel/timer.c\<close>.

  Tasks live in a heap of their own, keyed by the address \<open>kmalloc\<close> returned. The runnable and sleeping tasks
  form a ring along their next pointers that starts at \<open>current_task\<close>; finished ones wait in the dead
  queue for the reaper. \<open>restore_task_context\<close> never returns to its caller: it loads the registers
  of the current task, and the operation that called it ends there; the registers it loaded are recorded in
  \<open>resumed\<close>. \<open>next_task\<close> is a loop that runs forever when no task of the ring can run; then, as always
  where the kernel does not get any further, the model gives \<open>None\<close>.
\<close>

section \<open>State\<close>

record cpu_task_state =
  ctx_ds :: u32
  ctx_edi :: u32
  ctx_esi :: u32
  ctx_ebp :: u32
  ctx_esp :: u32
  ctx_ebx :: u32
  ctx_edx :: u32
  ctx_ecx :: u32
  ctx_eax :: u32
  ctx_eip :: u32
  ctx_cs :: u32
  ctx_eflags :: u32
  ctx_useresp :: u32
  ctx_userss :: u32

datatype task_status = TASK_SCHEDULER_IDLE | TASK_READY | TASK_RUNNING | TASK_SLEEP

datatype task_type = RING0_TASK | RING3_TASK

record task =
  pid :: u64
  ctx :: cpu_task_state
  t_cr3 :: addr
  fds :: "addr list"
  total_fds :: u32
  ring0_stack_base :: addr
  ring0_stack_size :: u32
  ring3_stack_base :: addr
  ring3_stack_size :: u32
  t_entry :: addr
  status :: task_status
  ttype :: task_type
  nxt :: addr

text \<open>
  \<open>raw_task\<close> is what the memory of a fresh task holds before its fields are set; the entry points of the
  kernel's own tasks and of \<open>task_trampoline\<close> are addresses of the image.
\<close>

record sched_state = vfs_state +
  tasks :: "addr \<Rightarrow> task option"
  current_task :: addr
  idle_task :: addr
  reaper_task :: addr
  dead_queue :: addr
  awaiting_stdin :: addr
  task_total :: u64
  next_pid :: u64
  ticks :: u64
  quantum_tick :: u8
  interrupts :: bool
  resumed :: "cpu_task_state option"
  userspace_module :: user_module
  raw_task :: "addr \<Rightarrow> task"
  idle_task_loop :: addr
  reaper_task_loop :: addr
  task_trampoline :: addr

definition KERNEL_CS :: u32 where "KERNEL_CS = 0x08"
definition KERNEL_DS :: u32 where "KERNEL_DS = 0x10"
definition USER_CS :: u32 where "USER_CS = 0x23"
definition USER_DS :: u32 where "USER_DS = 0x1B"
definition USER_CODE :: addr where "USER_CODE = 0x1000"
definition USER_STACK :: addr where "USER_STACK = 0x2000"
definition IDLE_PID :: u64 where "IDLE_PID = 0"
definition SCHEDULER_QUANTUM :: u8 where "SCHEDULER_QUANTUM = 5"

section \<open>Access to tasks\<close>

definition upd_task :: "addr \<Rightarrow> (task \<Rightarrow> task) \<Rightarrow> 'a sched_state_scheme \<Rightarrow> 'a sched_state_scheme option" where
  "upd_task p f s = do { t \<leftarrow> tasks s p; Some (s\<lparr>tasks := (tasks s)(p \<mapsto> f t)\<rparr>) }"

definition set_status :: "addr \<Rightarrow> task_status \<Rightarrow> 'a sched_state_scheme \<Rightarrow> 'a sched_state_scheme option" where
  "set_status p st s = upd_task p (\<lambda>t. t\<lparr>status := st\<rparr>) s"

definition task_next :: "'a sched_state_scheme \<Rightarrow> addr \<Rightarrow> addr option" where
  "task_next s p = map_option nxt (tasks s p)"

definition set_task_next :: "addr \<Rightarrow> addr \<Rightarrow> 'a sched_state_scheme \<Rightarrow> 'a sched_state_scheme option" where
  "set_task_next p q s = upd_task p (\<lambda>t. t\<lparr>nxt := q\<rparr>) s"

definition wake_idle_task :: "'a sched_state_scheme \<Rightarrow> 'a sched_state_scheme option" where
  "wake_idle_task s = set_status (idle_task s) TASK_SCHEDULER_IDLE s"

definition sleep_idle_task :: "'a sched_state_scheme \<Rightarrow> 'a sched_state_scheme option" where
  "sleep_idle_task s = set_status (idle_task s) TASK_SLEEP s"

definition wake_reaper_task :: "'a sched_state_scheme \<Rightarrow> 'a sched_state_scheme option" where
  "wake_reaper_task s = set_status (reaper_task s) TASK_READY s"

definition sleep_reaper_task :: "'a sched_state_scheme \<Rightarrow> 'a sched_state_scheme option" where
  "sleep_reaper_task s = set_status (reaper_task s) TASK_SLEEP s"

section \<open>Choosing and loading the next task\<close>

partial_function (option) find_task :: "(addr \<Rightarrow> task option) \<Rightarrow> addr \<Rightarrow> addr option" where
  "find_task h p = (case h p of None \<Rightarrow> None
     | Some t \<Rightarrow> if status t \<noteq> TASK_READY \<and> status t \<noteq> TASK_SCHEDULER_IDLE then find_task h (nxt t) else Some p)"

definition next_task :: "'a sched_state_scheme \<Rightarrow> addr option" where
  "next_task s = do { t \<leftarrow> tasks s (current_task s); find_task (tasks s) (nxt t) }"

definition reset_quantum :: "'a sched_state_scheme \<Rightarrow> 'a sched_state_scheme" where
  "reset_quantum s = s\<lparr>quantum_tick := 0\<rparr>"

text \<open>
  The argument is the address of the interrupted task's registers on its kernel stack and the registers
  themselves, or nothing for the null pointer. \<open>useresp\<close> is 48 bytes into the structure.
\<close>

definition save_context :: "addr \<Rightarrow> cpu_task_state \<Rightarrow> task \<Rightarrow> task" where
  "save_context frame state t = t\<lparr>ctx := state\<lparr>ctx_esp := (if ctx_cs state = USER_CS then ctx_useresp state else frame + 48)\<rparr>\<rparr>"

definition load_context :: "(addr \<times> cpu_task_state) option \<Rightarrow> 'a sched_state_scheme \<Rightarrow> 'a sched_state_scheme option" where
  "load_context state s = do {
     s \<leftarrow> (case state of None \<Rightarrow> Some s | Some (frame, regs) \<Rightarrow> upd_task (current_task s) (save_context frame regs) s);
     ntask \<leftarrow> next_task s;
     let s = s\<lparr>current_task := ntask\<rparr>;
     t \<leftarrow> tasks s (current_task s);
     s \<leftarrow> (if pid t \<noteq> IDLE_PID then set_status (current_task s) TASK_RUNNING s else Some s);
     let s = reset_quantum s;
     t \<leftarrow> tasks s (current_task s);
     let s = s\<lparr>tss := (tss s)\<lparr>esp0 := ring0_stack_base t + PAGE_SIZE\<rparr>\<rparr>;
     Some (load_cr3 (t_cr3 t) s) }"

definition disable_interrupts :: "'a sched_state_scheme \<Rightarrow> 'a sched_state_scheme" where
  "disable_interrupts s = s\<lparr>interrupts := False\<rparr>"

text \<open>
  \<open>restore_task_context\<close> of \<open>scheduler.s\<close> switches to the stack of the context, pushes \<open>ds\<close> and the stack
  pointer as it is then, the flags, \<open>cs\<close> and \<open>eip\<close>, loads the other registers and returns with \<open>iret\<close>.
  That pops all five words when \<open>cs\<close> names the user ring, and the first three otherwise.

  The model has the registers the task resumes with, the stack pointer included. It does not have the five words in memory: they go below
  the stack pointer that the task was stopped with, where nothing of the task's lies, and the page there is taken to be mapped. A task whose
  stack pointer leads nowhere would make the kernel fault at this point, which the model does not show.
\<close>

definition iret_regs :: "cpu_task_state \<Rightarrow> cpu_task_state" where
  "iret_regs c = c\<lparr>ctx_esp := (if ctx_cs c AND 3 \<noteq> 0 then ctx_esp c - 4 else ctx_esp c - 8)\<rparr>"

definition restore_task_context :: "'a sched_state_scheme \<Rightarrow> 'a sched_state_scheme option" where
  "restore_task_context s = do {
     t \<leftarrow> tasks s (current_task s);
     Some (s\<lparr>resumed := Some (iret_regs (ctx t)), interrupts := bit (ctx_eflags (ctx t)) 9\<rparr>) }"

section \<open>Waiting for input\<close>

definition await_stdin :: "addr \<Rightarrow> cpu_task_state \<Rightarrow> 'a sched_state_scheme \<Rightarrow> 'a sched_state_scheme option" where
  "await_stdin frame state s = do {
     let s = disable_interrupts s;
     s \<leftarrow> set_status (current_task s) TASK_SLEEP s;
     let state = state\<lparr>ctx_eip := ctx_eip state - 2\<rparr>;
     s \<leftarrow> (if task_total s = 1 then wake_idle_task s else Some s);
     let s = s\<lparr>awaiting_stdin := current_task s\<rparr>;
     s \<leftarrow> load_context (Some (frame, state)) s;
     restore_task_context s }"

definition wake_stdin_task :: "'a sched_state_scheme \<Rightarrow> 'a sched_state_scheme option" where
  "wake_stdin_task s =
     (if awaiting_stdin s \<noteq> NULL then do {
        s \<leftarrow> set_status (awaiting_stdin s) TASK_READY s;
        Some (s\<lparr>awaiting_stdin := NULL\<rparr>) }
      else Some s)"

section \<open>Ending a task\<close>

definition push_dead_queue :: "addr \<Rightarrow> 'a sched_state_scheme \<Rightarrow> 'a sched_state_scheme option" where
  "push_dead_queue task s = do {
     s \<leftarrow> set_task_next task NULL s;
     if dead_queue s = NULL then Some (s\<lparr>dead_queue := task\<rparr>)
     else do {
       tmp_task \<leftarrow> walk_until (task_next s) NULL (dead_queue s);
       set_task_next tmp_task task s } }"

definition pop_dead_queue :: "'a sched_state_scheme \<Rightarrow> (addr \<times> 'a sched_state_scheme) option" where
  "pop_dead_queue s =
     (if dead_queue s = NULL then Some (NULL, s)
      else do {
        let popped_task = dead_queue s;
        n \<leftarrow> task_next s (dead_queue s);
        Some (popped_task, s\<lparr>dead_queue := n\<rparr>) })"

definition task_exit :: "'a sched_state_scheme \<Rightarrow> 'a sched_state_scheme option" where
  "task_exit s = do {
     let s = disable_interrupts s;
     let s = s\<lparr>task_total := task_total s - 1\<rparr>;
     s \<leftarrow> (if task_total s = 0 then wake_idle_task s else Some s);
     tmp_task \<leftarrow> walk_until (task_next s) (current_task s) (current_task s);
     n \<leftarrow> task_next s (current_task s);
     s \<leftarrow> set_task_next tmp_task n s;
     let dead_task = current_task s;
     s \<leftarrow> load_context None s;
     s \<leftarrow> push_dead_queue dead_task s;
     s \<leftarrow> wake_reaper_task s;
     restore_task_context s }"

section \<open>Creating a task\<close>

definition FD_STDIN :: nat where "FD_STDIN = 0"
definition FD_STDOUT :: nat where "FD_STDOUT = 1"
definition FD_STDERR :: nat where "FD_STDERR = 2"
definition sizeof_task :: u32 where "sizeof_task = 168"

text \<open>The registers and the address space, by the kind of task.\<close>

definition place_task :: "addr \<Rightarrow> task_type \<Rightarrow> addr \<Rightarrow> task \<Rightarrow> 'a sched_state_scheme \<Rightarrow> (task \<times> 'a sched_state_scheme) option" where
  "place_task entry_point type kernel_stack t s = (case type of
      RING0_TASK \<Rightarrow> Some (t\<lparr>ctx := (ctx t)\<lparr>ctx_cs := KERNEL_CS, ctx_ds := KERNEL_DS,
                              ctx_esp := kernel_stack + PAGE_SIZE, ctx_eip := task_trampoline s\<rparr>,
                            t_cr3 := kernel_page_directory s - KERNEL_BASE, t_entry := entry_point\<rparr>, s)
    | RING3_TASK \<Rightarrow> do {
        (pd, s) \<leftarrow> mmap_ring3 (userspace_module s) s;
        Some (t\<lparr>ctx := (ctx t)\<lparr>ctx_cs := USER_CS, ctx_ds := USER_DS,
                   ctx_esp := USER_STACK + PAGE_SIZE, ctx_eip := USER_CODE\<rparr>,
                t_cr3 := pd, ring3_stack_base := USER_STACK, ring3_stack_size := PAGE_SIZE\<rparr>, s) })"

definition create_task :: "addr \<Rightarrow> task_type \<Rightarrow> 'a sched_state_scheme \<Rightarrow> (addr \<times> 'a sched_state_scheme) option" where
  "create_task entry_point type s = do {
     (new_task, s) \<leftarrow> kmalloc sizeof_task s;
     let t = (raw_task s new_task)\<lparr>ctx := (ctx (raw_task s new_task))\<lparr>ctx_edi := 0, ctx_esi := 0, ctx_ebp := 0,
               ctx_ebx := 0, ctx_edx := 0, ctx_ecx := 0, ctx_eax := 0\<rparr>\<rparr>;
     (f0, s) \<leftarrow> open_file (global_tty s) (ucast RONLY_FLAG) s;
     (f1, s) \<leftarrow> open_file (global_tty s) (ucast WONLY_FLAG) s;
     (f2, s) \<leftarrow> open_file (global_tty s) (ucast WONLY_FLAG) s;
     let t = t\<lparr>fds := (fds t)[FD_STDIN := f0, FD_STDOUT := f1, FD_STDERR := f2], total_fds := 3,
               pid := next_pid s, status := TASK_READY, ttype := type,
               ctx := (ctx t)\<lparr>ctx_eflags := 0x202\<rparr>\<rparr>;
     let s = s\<lparr>next_pid := next_pid s + 1\<rparr>;
     (kernel_stack, s) \<leftarrow> kmalloc PAGE_SIZE s;
     let t = t\<lparr>ring0_stack_base := kernel_stack, ring0_stack_size := PAGE_SIZE\<rparr>;
     (t, s) \<leftarrow> place_task entry_point type kernel_stack t s;
     Some (new_task, s\<lparr>tasks := (tasks s)(new_task \<mapsto> t\<lparr>nxt := NULL\<rparr>)\<rparr>) }"

definition enqueue_task :: "addr \<Rightarrow> task_type \<Rightarrow> 'a sched_state_scheme \<Rightarrow> 'a sched_state_scheme option" where
  "enqueue_task entry_point type s = do {
     (new_task, s) \<leftarrow> create_task entry_point type s;
     tmp_task \<leftarrow> walk_until (task_next s) (current_task s) (current_task s);
     s \<leftarrow> set_task_next tmp_task new_task s;
     s \<leftarrow> set_task_next new_task (current_task s) s;
     let s = s\<lparr>task_total := task_total s + 1\<rparr>;
     sleep_idle_task s }"

section \<open>The reaper\<close>

fun kfree_fds :: "addr list \<Rightarrow> 'a sched_state_scheme \<Rightarrow> 'a sched_state_scheme option" where
  "kfree_fds [] s = Some s"
| "kfree_fds (f # fs) s = do { s \<leftarrow> kfree f s; kfree_fds fs s }"

text \<open>One task of the dead queue. Freed memory no longer holds a task.\<close>

definition reap_task :: "addr \<Rightarrow> 'a sched_state_scheme \<Rightarrow> 'a sched_state_scheme option" where
  "reap_task dead_task s = do {
     t \<leftarrow> tasks s dead_task;
     s \<leftarrow> (if ttype t = RING3_TASK then unmmap_ring3 (t_cr3 t) s else Some s);
     s \<leftarrow> kfree_fds (take (unat (total_fds t)) (fds t)) s;
     s \<leftarrow> kfree (ring0_stack_base t) s;
     s \<leftarrow> kfree dead_task s;
     Some (s\<lparr>tasks := (tasks s)(dead_task := None)\<rparr>) }"

partial_function (option) reap_queue :: "'a sched_state_scheme \<Rightarrow> 'a sched_state_scheme option" where
  "reap_queue s = (if dead_queue s = NULL then Some s
     else do { (dead_task, s) \<leftarrow> pop_dead_queue s; s \<leftarrow> reap_task dead_task s; reap_queue s })"

text \<open>One round of \<open>reaper_task_loop\<close>.\<close>

definition reaper_round :: "'a sched_state_scheme \<Rightarrow> 'a sched_state_scheme option" where
  "reaper_round s = do {
     let s = disable_interrupts s;
     s \<leftarrow> reap_queue s;
     s \<leftarrow> sleep_reaper_task s;
     s \<leftarrow> load_context None s;
     restore_task_context s }"

section \<open>Start and timer\<close>

definition init_scheduler :: "'a sched_state_scheme \<Rightarrow> 'a sched_state_scheme option" where
  "init_scheduler s = do {
     (i, s) \<leftarrow> create_task (idle_task_loop s) RING0_TASK s;
     let s = s\<lparr>idle_task := i\<rparr>;
     s \<leftarrow> set_status (idle_task s) TASK_SCHEDULER_IDLE s;
     (r, s) \<leftarrow> create_task (reaper_task_loop s) RING0_TASK s;
     let s = s\<lparr>reaper_task := r\<rparr>;
     s \<leftarrow> set_status (reaper_task s) TASK_SLEEP s;
     s \<leftarrow> set_task_next (idle_task s) (reaper_task s) s;
     s \<leftarrow> set_task_next (reaper_task s) (idle_task s) s;
     let s = s\<lparr>current_task := idle_task s\<rparr>;
     terminal_writestring ''Scheduler initialized\<newline>'' s }"

definition scheduler_tick :: "addr \<Rightarrow> cpu_task_state \<Rightarrow> 'a sched_state_scheme \<Rightarrow> 'a sched_state_scheme option" where
  "scheduler_tick frame state s = do {
     s \<leftarrow> (if task_total s = 0 then wake_idle_task s else Some s);
     ntask \<leftarrow> next_task s;
     if ntask = current_task s then Some (pic_send_eoi 0 s)
     else do {
       t \<leftarrow> tasks s (current_task s);
       s \<leftarrow> (if status t \<noteq> TASK_SCHEDULER_IDLE then set_status (current_task s) TASK_READY s else Some s);
       let s = pic_send_eoi 0 s;
       s \<leftarrow> load_context (Some (frame, state)) s;
       restore_task_context s } }"

definition timer_interrupt_handler :: "addr \<Rightarrow> cpu_task_state \<Rightarrow> 'a sched_state_scheme \<Rightarrow> 'a sched_state_scheme option" where
  "timer_interrupt_handler frame state s = (
     let s = s\<lparr>ticks := ticks s + 1, quantum_tick := quantum_tick s + 1\<rparr> in
     if quantum_tick s \<ge> SCHEDULER_QUANTUM then scheduler_tick frame state (reset_quantum s)
     else Some (pic_send_eoi 0 s))"

section \<open>The ring of tasks\<close>

interpretation tk: linked_heap task_next set_task_next
  by unfold_locales (auto simp: task_next_def set_task_next_def upd_task_def bind_Some_iff fun_eq_iff)

text \<open>The tasks of the ring, the current one first, in the order the next pointers give.\<close>

definition ring :: "'a sched_state_scheme \<Rightarrow> addr list \<Rightarrow> bool" where
  "ring s xs \<longleftrightarrow> xs \<noteq> [] \<and> hd xs = current_task s \<and> distinct xs \<and> NULL \<notin> set xs \<and>
     path (task_next s) (hd xs) xs (hd xs)"

definition can_run :: "task \<Rightarrow> bool" where
  "can_run t \<longleftrightarrow> status t = TASK_READY \<or> status t = TASK_SCHEDULER_IDLE"

definition runnable :: "(addr \<Rightarrow> task option) \<Rightarrow> addr \<Rightarrow> bool" where
  "runnable h p \<longleftrightarrow> (case h p of None \<Rightarrow> False | Some t \<Rightarrow> can_run t)"

definition next_of :: "(addr \<Rightarrow> task option) \<Rightarrow> addr \<Rightarrow> addr option" where
  "next_of h p = map_option nxt (h p)"

lemma task_next_of: "task_next s = next_of (tasks s)"
  by (simp add: task_next_def next_of_def fun_eq_iff)

lemma next_Some [simp]: "next_of h p = Some c \<longleftrightarrow> (\<exists>t. h p = Some t \<and> c = nxt t)"
  "task_next s p = Some c \<longleftrightarrow> (\<exists>t. tasks s p = Some t \<and> c = nxt t)"
  by (auto simp: next_of_def task_next_def)

lemma find_task_step:
  "h p = Some t \<Longrightarrow> find_task h p = (if can_run t then Some p else find_task h (nxt t))"
  by (subst find_task.simps) (auto simp: can_run_def)

lemma find_task_first:
  assumes "path (next_of h) p xs q" and "find (runnable h) xs = Some y"
  shows "find_task h p = Some y"
  using assms
proof (induction xs arbitrary: p)
  case (Cons x xs)
  then obtain t where t: "p = x" "h x = Some t" "path (next_of h) (nxt t) xs q" by auto
  then show ?case
    using Cons.IH [of "nxt t"] Cons.prems(2) by (auto simp: find_task_step runnable_def split: if_splits)
qed simp

text \<open>What the search returns can run and lies in every set closed under the next pointers.\<close>

definition sound_result :: "(addr \<Rightarrow> task option) \<Rightarrow> addr \<Rightarrow> addr \<Rightarrow> bool" where
  "sound_result h p y \<longleftrightarrow> runnable h y \<and> (\<forall>S. p \<in> S \<and> (\<forall>x \<in> S. \<forall>t. h x = Some t \<longrightarrow> nxt t \<in> S) \<longrightarrow> y \<in> S)"

lemma find_task_sound: "find_task h p = Some y \<Longrightarrow> sound_result h p y"
proof (rule find_task.raw_induct [where P = sound_result])
  fix find h p y
  assume hyp: "\<And>h p y. find h p = Some y \<Longrightarrow> sound_result h p y"
    and eq: "(case h p of None \<Rightarrow> None
      | Some t \<Rightarrow> if status t \<noteq> TASK_READY \<and> status t \<noteq> TASK_SCHEDULER_IDLE then find h (nxt t) else Some p) = Some y"
  then obtain t where t: "h p = Some t" by (cases "h p") auto
  show "sound_result h p y"
  proof (cases "can_run t")
    case True
    then have "p = y" using eq t by (auto simp: can_run_def)
    with True t show ?thesis by (simp add: sound_result_def runnable_def)
  next
    case False
    then have "find h (nxt t) = Some y" using eq t by (auto simp: can_run_def)
    from hyp [OF this] t show ?thesis unfolding sound_result_def by blast
  qed
qed

lemma path_closed:
  "path (next_of h) p xs q \<Longrightarrow> q \<in> S \<Longrightarrow> set xs \<subseteq> S \<Longrightarrow> x \<in> set xs \<Longrightarrow> h x = Some t \<Longrightarrow> nxt t \<in> S"
proof (induction xs arbitrary: p)
  case (Cons y xs)
  then obtain u where u: "p = y" "h y = Some u" "path (next_of h) (nxt u) xs q" by auto
  show ?case
  proof (cases "x = y")
    case True
    then have "t = u" using u(2) Cons.prems(5) by simp
    moreover have "nxt u \<in> S" using u(3) Cons.prems(2,3) by (cases xs) auto
    ultimately show ?thesis by simp
  next
    case False
    then have "x \<in> set xs" "set xs \<subseteq> S" using Cons.prems(3,4) by auto
    from Cons.IH [OF u(3) Cons.prems(2) this(2,1) Cons.prems(5)] show ?thesis .
  qed
qed simp

lemma ring_rotated:
  assumes "ring s (c # xs)"
  obtains t where "tasks s c = Some t" "path (task_next s) (nxt t) (xs @ [c]) (nxt t)" "c = current_task s"
proof -
  from assms have c: "c = current_task s" "path (task_next s) c (c # xs) c" unfolding ring_def list.sel by blast+
  from c(2) obtain t where t: "tasks s c = Some t" "path (task_next s) (nxt t) xs c" by auto
  have "path (task_next s) (nxt t) (xs @ [c]) (nxt t)" using t by auto
  from that [OF t(1) this c(1)] show thesis .
qed

text \<open>On a ring the search returns the first task that can run, and runs forever when there is none.\<close>

lemma find_task_ring:
  assumes p: "path (next_of h) p xs p" and "xs \<noteq> []"
  shows "find_task h p = find (runnable h) xs"
proof (cases "find (runnable h) xs")
  case (Some y)
  then show ?thesis using find_task_first [OF p] by simp
next
  case None
  have m: "p \<in> set xs" using p assms(2) by (cases xs) auto
  then have cl: "\<forall>x \<in> set xs. \<forall>u. h x = Some u \<longrightarrow> nxt u \<in> set xs"
    using path_closed [OF p, of "set xs"] by blast
  have "find_task h p = None"
  proof (rule ccontr)
    assume "find_task h p \<noteq> None"
    then obtain y where "find_task h p = Some y" by blast
    from find_task_sound [OF this] have "runnable h y" "y \<in> set xs"
      unfolding sound_result_def using m cl by blast+
    with None show False by (auto simp: find_None_iff)
  qed
  with None show ?thesis by simp
qed

text \<open>Round robin: the search takes the first task that can run, the current one last.\<close>

lemma next_task_ring:
  assumes "ring s (c # xs)"
  shows "next_task s = find (runnable (tasks s)) (xs @ [c])"
proof -
  obtain t where t: "tasks s c = Some t" "path (task_next s) (nxt t) (xs @ [c]) (nxt t)" "c = current_task s"
    by (rule ring_rotated [OF assms])
  have "path (next_of (tasks s)) (nxt t) (xs @ [c]) (nxt t)" using t(2) by (simp add: task_next_of)
  from find_task_ring [OF this] show ?thesis using t(1,3) by (simp add: next_task_def)
qed

end
