(* ===== verification/Round_Robin.thy ===== *)
theory Round_Robin
  imports Scheduler
begin

text \<open>
  Preemption: what a timer tick does to the ring of tasks, and that every task that can run gets the
  processor after at most as many ticks as it is places away from it.
\<close>

section \<open>Switching tasks\<close>

text \<open>What \<open>load_context\<close> does once the next task is found.\<close>

definition running :: "task \<Rightarrow> task" where
  "running t = (if pid t = IDLE_PID then t else t\<lparr>status := TASK_RUNNING\<rparr>)"

definition dispatch :: "addr \<Rightarrow> task \<Rightarrow> 'a sched_state_scheme \<Rightarrow> 'a sched_state_scheme" where
  "dispatch y t s = load_cr3 (t_cr3 t) (s\<lparr>current_task := y, tasks := (tasks s)(y \<mapsto> running t), quantum_tick := 0,
     tss := (tss s)\<lparr>esp0 := ring0_stack_base t + PAGE_SIZE\<rparr>\<rparr>)"

lemma running_keeps [simp]: "nxt (running t) = nxt t" "ctx (running t) = ctx t" "pid (running t) = pid t"
  "t_cr3 (running t) = t_cr3 t" "ring0_stack_base (running t) = ring0_stack_base t"
  by (simp_all add: running_def)

lemma tasks_upd_same: "tasks s y = Some t \<Longrightarrow> s\<lparr>tasks := (tasks s)(y \<mapsto> t)\<rparr> = s"
  by (cases s) (simp add: fun_upd_idem)

lemma load_context_None:
  assumes "next_task s = Some y" and "tasks s y = Some t"
  shows "load_context None s = Some (dispatch y t s)"
proof -
  have "tasks (s\<lparr>current_task := y\<rparr>) y = Some t" using assms(2) by simp
  from tasks_upd_same [OF this] assms show ?thesis
    by (auto simp: load_context_def dispatch_def running_def set_status_def upd_task_def reset_quantum_def Let_def)
qed

lemma load_context_Some:
  assumes "tasks s (current_task s) = Some tc"
  shows "load_context (Some (f, r)) s = load_context None (s\<lparr>tasks := (tasks s)(current_task s \<mapsto> save_context f r tc)\<rparr>)"
  using assms by (simp add: load_context_def upd_task_def)

lemma dispatch_simps [simp]:
  "tasks (dispatch y t s) = (tasks s)(y \<mapsto> running t)" "current_task (dispatch y t s) = y"
  "quantum_tick (dispatch y t s) = 0" "cr3 (dispatch y t s) = t_cr3 t"
  "esp0 (tss (dispatch y t s)) = ring0_stack_base t + PAGE_SIZE" "dead_queue (dispatch y t s) = dead_queue s"
  "task_total (dispatch y t s) = task_total s" "idle_task (dispatch y t s) = idle_task s"
  "reaper_task (dispatch y t s) = reaper_task s" "awaiting_stdin (dispatch y t s) = awaiting_stdin s"
  by (simp_all add: dispatch_def load_cr3_def)

lemma pic_send_eoi_sched [simp]:
  "tasks (pic_send_eoi n s) = tasks s" "current_task (pic_send_eoi n s) = current_task s"
  "task_total (pic_send_eoi n s) = task_total s" "idle_task (pic_send_eoi n s) = idle_task s"
  "reaper_task (pic_send_eoi n s) = reaper_task s" "dead_queue (pic_send_eoi n s) = dead_queue s"
  "awaiting_stdin (pic_send_eoi n s) = awaiting_stdin s" "quantum_tick (pic_send_eoi n s) = quantum_tick s"
  "resumed (pic_send_eoi n s) = resumed s" "ticks (pic_send_eoi n s) = ticks s"
  by (simp_all add: pic_send_eoi_def outb_def Let_def)

lemma restore_task_context_eq:
  "tasks s (current_task s) = Some t \<Longrightarrow>
    restore_task_context s = Some (s\<lparr>resumed := Some (iret_regs (ctx t)), interrupts := bit (ctx_eflags (ctx t)) 9\<rparr>)"
  by (simp add: restore_task_context_def)

section \<open>Rotating the ring\<close>

lemma task_next_cong:
  assumes "\<And>p. map_option nxt (tasks s' p) = map_option nxt (tasks s p)"
  shows "task_next s' = task_next s"
  using assms by (simp add: task_next_def fun_eq_iff)

lemma path_rotate:
  "path nx c (c # us @ y # vs) c \<Longrightarrow> path nx y (y # vs @ c # us) y"
  by auto

lemma ring_rotate:
  assumes "ring s (c # us @ y # vs)" and "task_next s' = task_next s" and "current_task s' = y"
  shows "ring s' (y # vs @ c # us)"
proof -
  have "path (task_next s) c (c # us @ y # vs) c" using assms(1) unfolding ring_def list.sel by blast
  from path_rotate [OF this] have "path (task_next s') y (y # vs @ c # us) y" unfolding assms(2) .
  moreover have "distinct (y # vs @ c # us)" "NULL \<notin> set (y # vs @ c # us)"
    using assms(1) unfolding ring_def by auto
  ultimately show ?thesis using assms(3) unfolding ring_def list.sel by blast
qed

lemma ring_member: "ring s xs \<Longrightarrow> x \<in> set xs \<Longrightarrow> \<exists>t. tasks s x = Some t"
  unfolding ring_def using path_dom [of "task_next s"] by (fastforce simp: task_next_def)

lemma ring_hd: "ring s (c # xs) \<Longrightarrow> current_task s = c"
  by (simp add: ring_def)

lemma ring_distinct: "ring s xs \<Longrightarrow> distinct xs"
  by (simp add: ring_def)

lemma find_append_Cons: "(\<And>x. x \<in> set us \<Longrightarrow> \<not> P x) \<Longrightarrow> P y \<Longrightarrow> find P (us @ y # vs) = Some y"
  by (induction us) auto

lemma find_runnable_ring:
  assumes "ring s (c # us @ y # vs)" and "\<And>x. x \<in> set us \<Longrightarrow> \<not> runnable (tasks s) x" and "runnable (tasks s) y"
  shows "next_task s = Some y"
proof -
  have "find (runnable (tasks s)) (us @ y # vs @ [c]) = Some y" using assms(2,3) by (rule find_append_Cons)
  with next_task_ring [OF assms(1)] show ?thesis by simp
qed

text \<open>The task as preemption leaves it.\<close>

definition preempted :: "addr \<Rightarrow> cpu_task_state \<Rightarrow> task \<Rightarrow> task" where
  "preempted f r t = save_context f r (if status t = TASK_SCHEDULER_IDLE then t else t\<lparr>status := TASK_READY\<rparr>)"

lemma preempted_simps [simp]: "nxt (preempted f r t) = nxt t" "pid (preempted f r t) = pid t"
  "ctx (preempted f r t) = r\<lparr>ctx_esp := (if ctx_cs r = USER_CS then ctx_useresp r else f + 48)\<rparr>"
  "can_run (preempted f r t)"
  by (simp_all add: preempted_def save_context_def can_run_def)

text \<open>The tasks once the idle task has been woken, if it has to be.\<close>

definition woken :: "bool \<Rightarrow> 'a sched_state_scheme \<Rightarrow> addr \<Rightarrow> task option" where
  "woken b s = (if b then (tasks s)(idle_task s := map_option (\<lambda>t. t\<lparr>status := TASK_SCHEDULER_IDLE\<rparr>) (tasks s (idle_task s))) else tasks s)"

lemma woken_next [simp]: "map_option nxt (woken b s p) = map_option nxt (tasks s p)"
  by (simp add: woken_def option.map_comp comp_def)

lemma wake_idle_if:
  assumes "tasks s (idle_task s) \<noteq> None"
  shows "(if b then wake_idle_task s else Some s) = Some (s\<lparr>tasks := woken b s\<rparr>)"
  using assms by (auto simp: wake_idle_task_def set_status_def upd_task_def woken_def)

lemma woken_False [simp]: "woken False s = tasks s"
  by (simp add: woken_def)

text \<open>\<open>scheduler_tick\<close> behind its first statement.\<close>

definition tick_cont :: "addr \<Rightarrow> cpu_task_state \<Rightarrow> 'a sched_state_scheme \<Rightarrow> 'a sched_state_scheme option" where
  "tick_cont frame state s = do {
     ntask \<leftarrow> next_task s;
     if ntask = current_task s then Some (pic_send_eoi 0 s)
     else do {
       t \<leftarrow> tasks s (current_task s);
       s \<leftarrow> (if status t \<noteq> TASK_SCHEDULER_IDLE then set_status (current_task s) TASK_READY s else Some s);
       s \<leftarrow> load_context (Some (frame, state)) (pic_send_eoi 0 s);
       restore_task_context s } }"

lemma scheduler_tick_cont:
  "tasks s (idle_task s) \<noteq> None \<Longrightarrow> scheduler_tick f r s = tick_cont f r (s\<lparr>tasks := woken (task_total s = 0) s\<rparr>)"
  unfolding scheduler_tick_def tick_cont_def Let_def by (simp add: wake_idle_if)

lemma tasks_same [simp]: "s\<lparr>tasks := tasks s\<rparr> = s"
  by (cases s) simp

lemma scheduler_tick_busy: "task_total s \<noteq> 0 \<Longrightarrow> scheduler_tick f r s = tick_cont f r s"
  unfolding scheduler_tick_def tick_cont_def Let_def by simp

lemma tick_cont_switch:
  assumes r: "ring s (c # us @ y # vs)" and n: "\<And>x. x \<in> set us \<Longrightarrow> \<not> runnable (tasks s) x" and y: "runnable (tasks s) y"
    and tc: "tasks s c = Some tc" and ty: "tasks s y = Some ty"
  obtains s' where "tick_cont f rg s = Some s'" "ring s' (y # vs @ c # us)"
    "tasks s' = (tasks s)(c \<mapsto> preempted f rg tc, y \<mapsto> running ty)"
    "resumed s' = Some (iret_regs (ctx ty))" "cr3 s' = t_cr3 ty" "esp0 (tss s') = ring0_stack_base ty + PAGE_SIZE"
    "quantum_tick s' = 0" "task_total s' = task_total s" "idle_task s' = idle_task s" "reaper_task s' = reaper_task s"
    "dead_queue s' = dead_queue s" "awaiting_stdin s' = awaiting_stdin s" 
    "s' = s\<lparr>tasks := (tasks s)(c \<mapsto> preempted f rg tc, y \<mapsto> running ty), current_task := y, quantum_tick := 0, cr3 := t_cr3 ty,
       tss := (tss s)\<lparr>esp0 := ring0_stack_base ty + PAGE_SIZE\<rparr>, resumed := Some (iret_regs (ctx ty)),
       interrupts := bit (ctx_eflags (ctx ty)) 9, io_trace := io_trace s @ [Out8 0x20 0x20]\<rparr>"
proof -
  have c: "current_task s = c" and cy: "y \<noteq> c" and xs: "y \<notin> set us" "c \<notin> set us"
    using ring_hd [OF r] ring_distinct [OF r] by auto
  define s1 where "s1 = pic_send_eoi 0 (s\<lparr>tasks := (tasks s)(c \<mapsto> (if status tc = TASK_SCHEDULER_IDLE then tc else tc\<lparr>status := TASK_READY\<rparr>))\<rparr>)"
  define s2 where "s2 = s1\<lparr>tasks := (tasks s1)(c \<mapsto> preempted f rg tc)\<rparr>"
  have t1: "tasks s1 = (tasks s)(c \<mapsto> (if status tc = TASK_SCHEDULER_IDLE then tc else tc\<lparr>status := TASK_READY\<rparr>))"
    and t2: "tasks s2 = (tasks s)(c \<mapsto> preempted f rg tc)" by (simp_all add: s1_def s2_def)
  have "task_next s2 = task_next s" by (rule task_next_cong) (simp add: t2 tc)
  then have r2: "ring s2 (c # us @ y # vs)" using r c by (simp add: ring_def s2_def s1_def)
  have nt2: "next_task s2 = Some y"
    by (rule find_runnable_ring [OF r2]) (use n y xs cy in \<open>auto simp: runnable_def t2\<close>)
  define s3 where "s3 = dispatch y ty s2"
  have "tasks s1 (current_task s1) = Some (if status tc = TASK_SCHEDULER_IDLE then tc else tc\<lparr>status := TASK_READY\<rparr>)"
    by (simp add: t1) (simp add: s1_def c)
  from load_context_Some [OF this] have "load_context (Some (f, rg)) s1 = load_context None s2"
    by (simp add: s2_def preempted_def) (simp add: s1_def c)
  also have "\<dots> = Some s3" unfolding s3_def by (rule load_context_None [OF nt2]) (use ty cy in \<open>simp add: t2\<close>)
  finally have e3: "load_context (Some (f, rg)) s1 = Some s3" .
  define s4 where "s4 = s3\<lparr>resumed := Some (iret_regs (ctx ty)), interrupts := bit (ctx_eflags (ctx ty)) 9\<rparr>"
  have e4: "restore_task_context s3 = Some s4" unfolding s4_def
    using restore_task_context_eq [of s3 "running ty"] by (simp add: s3_def)
  define sx where "sx = s\<lparr>tasks := (tasks s)(c \<mapsto> (if status tc = TASK_SCHEDULER_IDLE then tc else tc\<lparr>status := TASK_READY\<rparr>))\<rparr>"
  have m: "(if status tc \<noteq> TASK_SCHEDULER_IDLE then set_status c TASK_READY s else Some s) = Some sx"
    using tc tasks_upd_same [OF tc] by (simp add: set_status_def upd_task_def sx_def)
  have "next_task s = Some y" by (rule find_runnable_ring [OF r n y])
  then have "tick_cont f rg s = (if status tc \<noteq> TASK_SCHEDULER_IDLE then set_status c TASK_READY s else Some s) \<bind>
      (\<lambda>s. load_context (Some (f, rg)) (pic_send_eoi 0 s) \<bind> restore_task_context)"
    using c cy tc unfolding tick_cont_def Let_def by simp
  also have "\<dots> = load_context (Some (f, rg)) s1 \<bind> restore_task_context" unfolding m by (simp add: s1_def sx_def)
  also have "\<dots> = Some s4" using e3 e4 by simp
  finally have e: "tick_cont f rg s = Some s4" .
  have t4: "tasks s4 = (tasks s)(c \<mapsto> preempted f rg tc, y \<mapsto> running ty)" by (simp add: s4_def s3_def t2)
  have "task_next s4 = task_next s" by (rule task_next_cong) (simp add: t4 tc ty)
  then have r4: "ring s4 (y # vs @ c # us)" by (rule ring_rotate [OF r]) (simp add: s4_def s3_def)
  have "resumed s4 = Some (iret_regs (ctx ty))" "cr3 s4 = t_cr3 ty" "esp0 (tss s4) = ring0_stack_base ty + PAGE_SIZE"
    "quantum_tick s4 = 0" by (simp_all add: s4_def s3_def)
  moreover have "task_total s4 = task_total s" "idle_task s4 = idle_task s" "reaper_task s4 = reaper_task s"
    "dead_queue s4 = dead_queue s" "awaiting_stdin s4 = awaiting_stdin s"
    by (simp_all add: s4_def s3_def s2_def s1_def)
  moreover have "s4 = s\<lparr>tasks := (tasks s)(c \<mapsto> preempted f rg tc, y \<mapsto> running ty), current_task := y, quantum_tick := 0, cr3 := t_cr3 ty,
       tss := (tss s)\<lparr>esp0 := ring0_stack_base ty + PAGE_SIZE\<rparr>, resumed := Some (iret_regs (ctx ty)),
       interrupts := bit (ctx_eflags (ctx ty)) 9, io_trace := io_trace s @ [Out8 0x20 0x20]\<rparr>"
    by (cases s) (simp add: s4_def s3_def s2_def s1_def dispatch_def load_cr3_def pic_send_eoi_def outb_def PIC1_COMMAND_def)
  ultimately show thesis by (rule that [OF e r4 t4])
qed

lemma ring_tasks_unique: "ring s xs \<Longrightarrow> x \<in> set xs \<Longrightarrow> tasks s x = Some (the (tasks s x))"
  using ring_member by fastforce

lemma split_at_first:
  assumes "find P xs = Some y"
  obtains us vs where "xs = us @ y # vs" "\<forall>x \<in> set us. \<not> P x" "P y"
  using assms
proof (induction xs arbitrary: thesis)
  case (Cons x xs)
  show ?case
  proof (cases "P x")
    case True
    then show ?thesis using Cons.prems(1) [of "[]" xs] Cons.prems(2) by simp
  next
    case False
    then have "find P xs = Some y" using Cons.prems(2) by simp
    then obtain us vs where u: "xs = us @ y # vs" "\<forall>x \<in> set us. \<not> P x" "P y" using Cons.IH by metis
    show ?thesis by (rule Cons.prems(1) [of "x # us" vs]) (use u False in auto)
  qed
qed simp

section \<open>Every task gets its turn\<close>

text \<open>
  A run of ticks, each with the registers of the task it interrupts. No other event comes between them.
\<close>

fun run_ticks :: "(addr \<times> cpu_task_state) list \<Rightarrow> 'a sched_state_scheme \<Rightarrow> 'a sched_state_scheme option" where
  "run_ticks [] s = Some s"
| "run_ticks ((f, r) # es) s = do { s \<leftarrow> scheduler_tick f r s; run_ticks es s }"

lemma ticks_reach:
  assumes "ring s (c # us @ y # vs)" and "runnable (tasks s) y" and "task_total s \<noteq> 0" and "length us < length es"
  shows "\<exists>n s'. n \<le> Suc (length us) \<and> run_ticks (take n es) s = Some s' \<and> current_task s' = y"
  using assms
proof (induction "length us" arbitrary: s c us vs es rule: less_induct)
  case less
  obtain f r es' where es: "es = (f, r) # es'" using less.prems(4) by (cases es) auto
  obtain z where z: "find (runnable (tasks s)) (us @ [y]) = Some z"
    using less.prems(2) by (cases "find (runnable (tasks s)) (us @ [y])") (auto simp: find_None_iff)
  then obtain us1 us2 where z1: "us @ [y] = us1 @ z # us2" "\<forall>x \<in> set us1. \<not> runnable (tasks s) x" "runnable (tasks s) z"
    by (rule split_at_first)
  have "us @ y # vs = us1 @ z # us2 @ vs" using arg_cong [OF z1(1), of "\<lambda>l. l @ vs"] by simp
  with less.prems(1) have r: "ring s (c # us1 @ z # us2 @ vs)" by (simp only:)
  have z2: "z \<in> set (c # us1 @ z # us2 @ vs)" by simp
  note tk = ring_tasks_unique [OF r]
  obtain s1 where s1: "scheduler_tick f r s = Some s1" "ring s1 (z # (us2 @ vs) @ c # us1)"
    "tasks s1 = (tasks s)(c \<mapsto> preempted f r (the (tasks s c)), z \<mapsto> running (the (tasks s z)))" "task_total s1 = task_total s"
    by (rule tick_cont_switch [OF r bspec [OF z1(2)] z1(3) tk tk [OF z2], of f r]) (use scheduler_tick_busy [OF less.prems(3)] in auto)
  show ?case
  proof (cases us2 rule: rev_cases)
    case Nil
    then have "z = y" using z1(1) by simp
    then show ?thesis using s1 ring_hd [OF s1(2)] es by (intro exI [of _ 1] exI [of _ s1]) simp
  next
    case (snoc us3 y')
    then have y': "y' = y" and us: "us = us1 @ z # us3" using z1(1) by auto
    have r1: "ring s1 (z # us3 @ y # vs @ c # us1)" using s1(2) snoc y' by simp
    have "y \<noteq> z" using ring_distinct [OF r1] by auto
    moreover have "y \<noteq> c" using ring_distinct [OF less.prems(1)] by auto
    ultimately have "runnable (tasks s1) y" using less.prems(2) s1(3) by (simp add: runnable_def)
    moreover have "length us3 < length us" "length us3 < length es'" using us less.prems(4) es by auto
    ultimately obtain n s' where n: "n \<le> Suc (length us3)" "run_ticks (take n es') s1 = Some s'" "current_task s' = y"
      using less.hyps [OF _ r1, of es'] less.prems(3) s1(4) by auto
    have "run_ticks (take (Suc n) es) s = Some s'" using s1(1) n(2) es by simp
    moreover have "Suc n \<le> Suc (length us)" using n(1) us by simp
    ultimately show ?thesis using n(3) by blast
  qed
qed

section \<open>Properties\<close>


text \<open>
  C23: Round robin starves nobody: a task that can run and has \<open>k\<close> tasks before it in the ring has the processor after at
  most \<open>k + 1\<close> ticks.
\<close>

theorem ready_task_gets_processor:
  assumes "ring s (c # us @ y # vs)" and "runnable (tasks s) y" and "task_total s \<noteq> 0" and "length us < length es"
  shows "\<exists>n s'. n \<le> Suc (length us) \<and> run_ticks (take n es) s = Some s' \<and> current_task s' = y"
  by (rule ticks_reach [OF assms])

text \<open>
  When a preempted user task gets the processor back all its registers are as they were, but the stack
  pointer is 4 lower: \<open>restore_task_context\<close> pushes \<open>ds\<close> on the task's stack before it pushes the stack
  pointer that \<open>iret\<close> loads.
\<close>

theorem preempted_task_resumes_lower:
  assumes "ring s (c # us @ y # vs)" and "\<forall>x \<in> set us \<union> set vs. \<not> runnable (tasks s) x" and "runnable (tasks s) y"
    and "task_total s \<noteq> 0" and "ctx_cs regs = USER_CS"
  shows "\<exists>s1 s2. scheduler_tick f regs s = Some s1 \<and> scheduler_tick f2 regs2 s1 = Some s2 \<and> current_task s2 = c \<and>
    resumed s2 = Some (regs\<lparr>ctx_esp := ctx_useresp regs - 4\<rparr>)"
proof -
  let ?tc = "the (tasks s c)" and ?ty = "the (tasks s y)"
  have t: "tasks s c = Some ?tc" "tasks s y = Some ?ty" by (rule ring_tasks_unique [OF assms(1)]; simp)+
  have n: "\<And>x. x \<in> set us \<Longrightarrow> \<not> runnable (tasks s) x" using assms(2) by blast
  obtain s1 where s1: "scheduler_tick f regs s = Some s1" "ring s1 (y # vs @ c # us)"
    "tasks s1 = (tasks s)(c \<mapsto> preempted f regs ?tc, y \<mapsto> running ?ty)" "task_total s1 = task_total s"
    by (rule tick_cont_switch [OF assms(1) n assms(3) t, of f regs]) (use scheduler_tick_busy [OF assms(4)] in auto)
  have d: "y \<noteq> c" "c \<notin> set vs" "y \<notin> set vs" using ring_distinct [OF assms(1)] by auto
  then have n1: "\<And>x. x \<in> set vs \<Longrightarrow> \<not> runnable (tasks s1) x" and c1: "runnable (tasks s1) c"
    and t1: "tasks s1 y = Some (running ?ty)" "tasks s1 c = Some (preempted f regs ?tc)"
    using assms(2) by (auto simp: s1(3) runnable_def)
  obtain s2 where s2: "scheduler_tick f2 regs2 s1 = Some s2" "ring s2 (c # us @ y # vs)"
    "resumed s2 = Some (iret_regs (ctx (preempted f regs ?tc)))"
    by (rule tick_cont_switch [OF s1(2) n1 c1 t1, of f2 regs2]) (use scheduler_tick_busy [of s1 f2 regs2] s1(4) assms(4) in auto)
  have "iret_regs (ctx (preempted f regs ?tc)) = regs\<lparr>ctx_esp := ctx_useresp regs - 4\<rparr>"
    using assms(5) by (simp add: iret_regs_def USER_CS_def)
  with s1(1) s2 ring_hd [OF s2(2)] show ?thesis by auto
qed

section \<open>An example\<close>

text \<open>The idle task, the reaper and two user tasks, the first of which runs.\<close>

definition plain_ctx :: cpu_task_state where
  "plain_ctx = \<lparr>ctx_ds = USER_DS, ctx_edi = 0, ctx_esi = 0, ctx_ebp = 0, ctx_esp = 0x3000, ctx_ebx = 0, ctx_edx = 0,
     ctx_ecx = 0, ctx_eax = 0, ctx_eip = USER_CODE, ctx_cs = USER_CS, ctx_eflags = 0x202, ctx_useresp = 0x3000, ctx_userss = USER_DS\<rparr>"

definition plain_task :: "u64 \<Rightarrow> task_status \<Rightarrow> addr \<Rightarrow> task" where
  "plain_task p st n = \<lparr>pid = p, ctx = plain_ctx, t_cr3 = 0x105000, fds = replicate 16 NULL, total_fds = 0,
     ring0_stack_base = 0xC0410000, ring0_stack_size = PAGE_SIZE, ring3_stack_base = USER_STACK, ring3_stack_size = PAGE_SIZE,
     t_entry = NULL, status = st, ttype = RING3_TASK, nxt = n\<rparr>"

definition four_tasks :: sched_state where
  "four_tasks = vfs_state.extend boot_vfs (sched_state.fields
     (Map.empty (1 \<mapsto> plain_task 0 TASK_READY 2, 2 \<mapsto> plain_task 1 TASK_SLEEP 3,
                 3 \<mapsto> plain_task 2 TASK_RUNNING 4, 4 \<mapsto> plain_task 3 TASK_READY 1))
     3 1 2 NULL NULL 2 4 0 0 False None \<lparr>mod_start = 0, mod_end = 0\<rparr> (\<lambda>_. plain_task 0 TASK_READY NULL) 0 0 0)"

lemma four_tasks_simps [simp]:
  "tasks four_tasks = Map.empty (1 \<mapsto> plain_task 0 TASK_READY 2, 2 \<mapsto> plain_task 1 TASK_SLEEP 3,
     3 \<mapsto> plain_task 2 TASK_RUNNING 4, 4 \<mapsto> plain_task 3 TASK_READY 1)"
  "current_task four_tasks = 3" "idle_task four_tasks = 1" "reaper_task four_tasks = 2" "task_total four_tasks = 2"
  "dead_queue four_tasks = NULL" "awaiting_stdin four_tasks = NULL" "quantum_tick four_tasks = 0"
  by (simp_all add: four_tasks_def vfs_state.defs sched_state.defs)

lemma plain_task_simps [simp]:
  "pid (plain_task p st n) = p" "ctx (plain_task p st n) = plain_ctx" "status (plain_task p st n) = st" "nxt (plain_task p st n) = n"
  by (simp_all add: plain_task_def)

lemma ring_four_tasks: "ring four_tasks [3, 4, 1, 2]"
  by (simp add: ring_def)


theorem ready_task_gets_processor_witness:
  "\<exists>n s'. n \<le> 2 \<and> run_ticks (take n (replicate 2 (0xC0410FC8, plain_ctx))) four_tasks = Some s' \<and> current_task s' = 1"
  using ready_task_gets_processor [of four_tasks 3 "[4]" 1 "[2]" "replicate 2 (0xC0410FC8, plain_ctx)"] ring_four_tasks
  by (simp add: runnable_def can_run_def numeral_2_eq_2)

theorem preempted_task_resumes_lower_witness:
  "\<exists>s1 s2. scheduler_tick 0xC0410FC8 plain_ctx (four_tasks\<lparr>tasks := (tasks four_tasks)(1 \<mapsto> plain_task 0 TASK_SLEEP 2)\<rparr>) = Some s1 \<and>
     scheduler_tick 0 plain_ctx s1 = Some s2 \<and> current_task s2 = 3 \<and> resumed s2 = Some (plain_ctx\<lparr>ctx_esp := 0x2FFC\<rparr>)"
proof -
  let ?s = "four_tasks\<lparr>tasks := (tasks four_tasks)(1 \<mapsto> plain_task 0 TASK_SLEEP 2)\<rparr>"
  have "ring ?s (3 # [] @ 4 # [1, 2])" by (simp add: ring_def)
  from preempted_task_resumes_lower [OF this, where regs = plain_ctx and f = "0xC0410FC8" and ?f2.0 = 0 and ?regs2.0 = plain_ctx] show ?thesis
    by (simp add: runnable_def can_run_def plain_ctx_def)
qed

end
