(* ===== verification/Task_Life.thy ===== *)
theory Task_Life
  imports Round_Robin
begin

text \<open>
  The end of a task: \<open>task_exit\<close> takes the current task out of the ring, appends it to the dead queue and
  wakes the reaper, which takes the tasks out in the same order and frees them.
\<close>

section \<open>The dead queue\<close>

definition dead :: "'a sched_state_scheme \<Rightarrow> addr list \<Rightarrow> bool" where
  "dead s ds \<longleftrightarrow> path (task_next s) (dead_queue s) ds NULL \<and> distinct ds \<and> NULL \<notin> set ds"

lemma dead_empty: "dead s [] \<longleftrightarrow> dead_queue s = NULL"
  by (simp add: dead_def)

lemma dead_Cons: "dead s (x # ds) \<Longrightarrow> dead_queue s = x \<and> x \<noteq> NULL"
  by (auto simp: dead_def)

lemma dead_member: "dead s ds \<Longrightarrow> x \<in> set ds \<Longrightarrow> \<exists>t. tasks s x = Some t"
  unfolding dead_def using path_dom [of "task_next s"] by (fastforce simp: task_next_def)

lemma set_task_next_eq:
  "tasks s p = Some t \<Longrightarrow> set_task_next p q s = Some (s\<lparr>tasks := (tasks s)(p \<mapsto> t\<lparr>nxt := q\<rparr>)\<rparr>)"
  by (simp add: set_task_next_def upd_task_def)

text \<open>The tasks without their next pointers.\<close>

definition cores :: "'a sched_state_scheme \<Rightarrow> addr \<Rightarrow> task option" where
  "cores s p = map_option (\<lambda>t. t\<lparr>nxt := NULL\<rparr>) (tasks s p)"

lemma cores_Some: "cores s p = Some t \<longleftrightarrow> (\<exists>u. tasks s p = Some u \<and> t = u\<lparr>nxt := NULL\<rparr>)"
  by (auto simp: cores_def)

lemma cores_None: "cores s p = None \<longleftrightarrow> tasks s p = None"
  by (simp add: cores_def)

lemma runnable_cores: "runnable (tasks s) p = runnable (cores s) p"
  by (auto simp: runnable_def cores_def can_run_def split: option.splits)

lemma cores_upd: "tasks s' = (tasks s)(p \<mapsto> t) \<Longrightarrow> cores s' = (cores s)(p \<mapsto> t\<lparr>nxt := NULL\<rparr>)"
  by (auto simp: cores_def fun_eq_iff)

lemma cores_upd_next: "tasks s p = Some t \<Longrightarrow> tasks s' = (tasks s)(p \<mapsto> t\<lparr>nxt := q\<rparr>) \<Longrightarrow> cores s' = cores s"
  by (auto simp: cores_def fun_eq_iff)

lemma push_dead_queue_appends:
  assumes d: "dead s ds" and t: "tasks s x = Some t" and x: "x \<noteq> NULL" "x \<notin> set ds"
  obtains s' where "push_dead_queue x s = Some s'" "dead s' (ds @ [x])" "cores s' = cores s"
    "\<forall>p. p \<notin> set ds \<and> p \<noteq> x \<longrightarrow> tasks s' p = tasks s p"
    "s' = s\<lparr>tasks := tasks s', dead_queue := dead_queue s'\<rparr>"
proof -
  let ?s1 = "s\<lparr>tasks := (tasks s)(x \<mapsto> t\<lparr>nxt := NULL\<rparr>)\<rparr>"
  have e1: "set_task_next x NULL s = Some ?s1" by (rule set_task_next_eq [OF t])
  have n1: "task_next ?s1 = (task_next s)(x \<mapsto> NULL)" by (rule tk.nxt_set_nxt [OF e1])
  have d1: "path (task_next ?s1) (dead_queue s) ds NULL" using d x(2) unfolding n1 dead_def by simp
  have dd: "distinct (ds @ [x])" "NULL \<notin> set (ds @ [x])" using d x by (auto simp: dead_def)
  show thesis
  proof (cases "ds = []")
    case True
    have q: "dead_queue s = NULL" using d True by (simp add: dead_empty)
    show thesis
    proof (rule that [of "?s1\<lparr>dead_queue := x\<rparr>"])
      show "push_dead_queue x s = Some (?s1\<lparr>dead_queue := x\<rparr>)" using q e1 by (simp add: push_dead_queue_def)
      show "dead (?s1\<lparr>dead_queue := x\<rparr>) (ds @ [x])" using True x by (simp add: dead_def)
    qed (auto simp: cores_def t fun_eq_iff)
  next
    case False
    have q: "dead_queue s \<noteq> NULL" using d False by (cases ds) (auto simp: dead_def)
    have tl: "NULL \<notin> set (tl ds)" using dd(2) False by (cases ds) auto
    have "task_next ?s1 x = Some NULL" "distinct ds" using dd(1) by simp_all
    then obtain t' s' where s': "walk_until (task_next ?s1) NULL (dead_queue s) = Some t'" "set_task_next t' x ?s1 = Some s'"
      "path (task_next s') (dead_queue s) (ds @ [x]) NULL" "task_next s' = (task_next ?s1)(last ds \<mapsto> x)"
      using tk.append_at_end [OF d1 _ False tl _ x(2)] by blast
    have w: "t' = last ds" using walk_until_last [OF d1 False tl] s'(1) by simp
    obtain u where u: "tasks ?s1 (last ds) = Some u" using s'(2) w by (auto simp: set_task_next_def upd_task_def bind_Some_iff split: if_splits)
    have e: "s' = ?s1\<lparr>tasks := (tasks ?s1)(last ds \<mapsto> u\<lparr>nxt := x\<rparr>)\<rparr>"
      using set_task_next_eq [OF u, of x] s'(2) w by simp
    have l: "last ds \<in> set ds" using False by simp
    show thesis
    proof (rule that [of s'])
      show "push_dead_queue x s = Some s'" using q e1 s'(1,2) by (simp add: push_dead_queue_def)
      show "dead s' (ds @ [x])" using s'(3) dd e by (simp add: dead_def)
      have "x \<noteq> last ds" using x(2) l by auto
      then show "cores s' = cores s" using u t by (simp add: cores_def fun_eq_iff e)
      show "\<forall>p. p \<notin> set ds \<and> p \<noteq> x \<longrightarrow> tasks s' p = tasks s p" using l by (auto simp: e)
      show "s' = s\<lparr>tasks := tasks s', dead_queue := dead_queue s'\<rparr>" using e by simp
    qed
  qed
qed

lemma pop_dead_queue_first:
  assumes "dead s (x # ds)" and "tasks s x = Some t"
  shows "pop_dead_queue s = Some (x, s\<lparr>dead_queue := nxt t\<rparr>)" and "dead (s\<lparr>dead_queue := nxt t\<rparr>) ds"
proof -
  have "dead_queue s = x" "x \<noteq> NULL" using dead_Cons [OF assms(1)] by auto
  then show "pop_dead_queue s = Some (x, s\<lparr>dead_queue := nxt t\<rparr>)" using assms(2) by (simp add: pop_dead_queue_def task_next_def)
  have "task_next (s\<lparr>dead_queue := nxt t\<rparr>) = task_next s" by (simp add: task_next_def fun_eq_iff)
  then show "dead (s\<lparr>dead_queue := nxt t\<rparr>) ds" using assms by (auto simp: dead_def)
qed

section \<open>First in, first out\<close>

text \<open>
  The contract of a queue whose elements are nodes of its own heap: a node that is not yet in the queue
  can be appended, the first one can be taken out, and neither loses a node.
\<close>

locale node_queue =
  fixes push :: "'x \<Rightarrow> 's \<Rightarrow> 's option"
    and pop :: "'s \<Rightarrow> ('x \<times> 's) option"
    and queue :: "'s \<Rightarrow> 'x list \<Rightarrow> bool"
    and node :: "'s \<Rightarrow> 'x \<Rightarrow> bool"
  assumes push_appends: "queue s xs \<Longrightarrow> node s x \<Longrightarrow> x \<notin> set xs \<Longrightarrow>
      \<exists>s'. push x s = Some s' \<and> queue s' (xs @ [x]) \<and> node s' = node s"
    and pop_first: "queue s (x # xs) \<Longrightarrow> \<exists>s'. pop s = Some (x, s') \<and> queue s' xs \<and> node s' = node s"
begin

fun push_all :: "'x list \<Rightarrow> 's \<Rightarrow> 's option" where
  "push_all [] s = Some s"
| "push_all (x # xs) s = do { s \<leftarrow> push x s; push_all xs s }"

fun pop_all :: "nat \<Rightarrow> 's \<Rightarrow> ('x list \<times> 's) option" where
  "pop_all 0 s = Some ([], s)"
| "pop_all (Suc n) s = do { (x, s) \<leftarrow> pop s; (xs, s) \<leftarrow> pop_all n s; Some (x # xs, s) }"

lemma push_all_appends:
  "queue s ys \<Longrightarrow> (\<forall>x \<in> set xs. node s x) \<Longrightarrow> distinct (ys @ xs) \<Longrightarrow> \<exists>s'. push_all xs s = Some s' \<and> queue s' (ys @ xs)"
proof (induction xs arbitrary: ys s)
  case (Cons x xs)
  then obtain s1 where s1: "push x s = Some s1" "queue s1 (ys @ [x])" "node s1 = node s" using push_appends [of s ys x] by auto
  then show ?case using Cons.IH [of s1 "ys @ [x]"] Cons.prems by auto
qed simp

lemma pop_all_takes: "queue s (xs @ ys) \<Longrightarrow> \<exists>s'. pop_all (length xs) s = Some (xs, s') \<and> queue s' ys"
proof (induction xs arbitrary: s)
  case (Cons x xs)
  then obtain s1 where s1: "pop s = Some (x, s1)" "queue s1 (xs @ ys)" using pop_first [of s x "xs @ ys"] by auto
  then show ?case using Cons.IH [OF s1(2)] by auto
qed simp

lemma fifo:
  assumes "queue s []" and "\<forall>x \<in> set xs. node s x" and "distinct xs"
  shows "\<exists>s1 s2. push_all xs s = Some s1 \<and> pop_all (length xs) s1 = Some (xs, s2) \<and> queue s2 []"
  using push_all_appends [OF assms(1,2)] assms(3) pop_all_takes [of _ xs "[]"] by fastforce

end

definition is_task :: "'a sched_state_scheme \<Rightarrow> addr \<Rightarrow> bool" where
  "is_task s p \<longleftrightarrow> p \<noteq> NULL \<and> tasks s p \<noteq> None"

lemma is_task_cores: "cores s' = cores s \<Longrightarrow> is_task s' = is_task s"
  by (rule ext) (metis is_task_def cores_None)

interpretation dq: node_queue push_dead_queue pop_dead_queue dead is_task
proof
  fix s :: "'a sched_state_scheme" and xs x
  assume q: "dead s xs" "is_task s x" "x \<notin> set xs"
  then obtain t where t: "tasks s x = Some t" "x \<noteq> NULL" by (auto simp: is_task_def)
  obtain s' where "push_dead_queue x s = Some s'" "dead s' (xs @ [x])" "cores s' = cores s"
    by (rule push_dead_queue_appends [OF q(1) t q(3)])
  with is_task_cores show "\<exists>s'. push_dead_queue x s = Some s' \<and> dead s' (xs @ [x]) \<and> is_task s' = is_task s" by blast
next
  fix s :: "'a sched_state_scheme" and xs x
  assume q: "dead s (x # xs)"
  then obtain t where t: "tasks s x = Some t" using dead_member by fastforce
  have "is_task (s\<lparr>dead_queue := nxt t\<rparr>) = is_task s" by (simp add: is_task_def fun_eq_iff)
  with pop_dead_queue_first [OF q t]
  show "\<exists>s'. pop_dead_queue s = Some (x, s') \<and> dead s' xs \<and> is_task s' = is_task s" by blast
qed

fun push_dead_queues :: "addr list \<Rightarrow> 'a sched_state_scheme \<Rightarrow> 'a sched_state_scheme option" where
  "push_dead_queues [] s = Some s"
| "push_dead_queues (x # xs) s = do { s \<leftarrow> push_dead_queue x s; push_dead_queues xs s }"

fun pop_dead_queues :: "nat \<Rightarrow> 'a sched_state_scheme \<Rightarrow> (addr list \<times> 'a sched_state_scheme) option" where
  "pop_dead_queues 0 s = Some ([], s)"
| "pop_dead_queues (Suc n) s = do { (x, s) \<leftarrow> pop_dead_queue s; (xs, s) \<leftarrow> pop_dead_queues n s; Some (x # xs, s) }"

lemma push_queues_eq: "push_dead_queues xs = dq.push_all xs"
proof (induction xs)
  case (Cons x xs)
  show ?case by (rule ext) (simp add: Cons.IH)
qed (simp add: fun_eq_iff)

lemma pop_queues_eq: "pop_dead_queues n = dq.pop_all n"
  by (induction n) (simp_all add: fun_eq_iff)

text \<open>
  The dead queue is first in, first out: tasks pushed one after the other come out in the same order, and the
  queue is empty again.
\<close>

theorem dead_queue_fifo:
  assumes "dead s []" and "\<forall>x \<in> set xs. is_task s x" and "distinct xs"
  shows "\<exists>s1 s2. push_dead_queues xs s = Some s1 \<and> pop_dead_queues (length xs) s1 = Some (xs, s2) \<and> dead_queue s2 = NULL"
  using dq.fifo [OF assms] by (simp add: push_queues_eq pop_queues_eq dead_empty)

theorem dead_queue_fifo_witness:
  "\<exists>s1 s2. push_dead_queues [3, 4, 2] four_tasks = Some s1 \<and> pop_dead_queues 3 s1 = Some ([3, 4, 2], s2) \<and> dead_queue s2 = NULL"
  using dead_queue_fifo [of four_tasks "[3, 4, 2]"] by (simp add: dead_empty is_task_def numeral_3_eq_3)

section \<open>Leaving the ring\<close>

lemma unlink_current:
  assumes r: "ring s (c # xs)" and xs: "xs \<noteq> []"
  obtains l s1 where "walk_until (task_next s) c c = Some (last xs)" "task_next s c = Some (hd xs)" "tasks s (last xs) = Some l"
    "set_task_next (last xs) (hd xs) s = Some s1" "s1 = s\<lparr>tasks := (tasks s)(last xs \<mapsto> l\<lparr>nxt := hd xs\<rparr>)\<rparr>"
    "path (task_next s1) (hd xs) xs (hd xs)" "c \<noteq> last xs"
proof -
  have p: "path (task_next s) c (c # xs) c" "distinct (c # xs)" using r unfolding ring_def list.sel by blast+
  obtain t n s1 where u: "walk_until (task_next s) c c = Some t" "task_next s c = Some n" "n = hd xs" "set_task_next t n s = Some s1"
    "path (task_next s1) (hd xs) xs (hd xs)"
    using tk.unlink_head [OF p xs] by blast
  have w: "t = last xs" using walk_until_last [OF p(1)] p(2) u(1) xs by simp
  obtain l where l: "tasks s (last xs) = Some l" using ring_member [OF r, of "last xs"] xs by auto
  have "s1 = s\<lparr>tasks := (tasks s)(last xs \<mapsto> l\<lparr>nxt := hd xs\<rparr>)\<rparr>"
    using set_task_next_eq [OF l, of "hd xs"] u(3,4) w by simp
  moreover have "c \<noteq> last xs" using p(2) xs by auto
  ultimately show thesis using that u w l by blast
qed

text \<open>Everything \<open>task_exit\<close> does up to the call of \<open>push_dead_queue\<close>.\<close>

lemma exit_switch:
  assumes r: "ring s (c # us @ y # vs)" and n: "\<And>x. x \<in> set us \<Longrightarrow> \<not> runnable (tasks s) x" and y: "runnable (tasks s) y"
    and ty: "cores s y = Some ty"
  obtains s1 t where "walk_until (task_next s) c c = Some (last (us @ y # vs))" "task_next s c = Some (hd (us @ y # vs))"
    "set_task_next (last (us @ y # vs)) (hd (us @ y # vs)) s = Some s1" "load_context None s1 = Some (dispatch y t s1)"
    "ring (dispatch y t s1) (y # vs @ us)" "s1 = s\<lparr>tasks := tasks s1\<rparr>" "t\<lparr>nxt := NULL\<rparr> = ty"
    "\<forall>p. p \<notin> set (us @ y # vs) \<longrightarrow> tasks s1 p = tasks s p"
    "cores (dispatch y t s1) = (cores s)(y \<mapsto> running ty)"
proof -
  let ?xs = "us @ y # vs"
  have xs: "?xs \<noteq> []" by simp
  obtain l s1 where u: "walk_until (task_next s) c c = Some (last ?xs)" "task_next s c = Some (hd ?xs)" "tasks s (last ?xs) = Some l"
    "set_task_next (last ?xs) (hd ?xs) s = Some s1" "s1 = s\<lparr>tasks := (tasks s)(last ?xs \<mapsto> l\<lparr>nxt := hd ?xs\<rparr>)\<rparr>"
    "path (task_next s1) (hd ?xs) ?xs (hd ?xs)" "c \<noteq> last ?xs"
    by (rule unlink_current [OF r xs])
  have t1: "tasks s1 = (tasks s)(last ?xs \<mapsto> l\<lparr>nxt := hd ?xs\<rparr>)" and cur: "current_task s1 = c"
    using u(5) ring_hd [OF r] by (simp_all del: last_append last_appendR)
  have c1: "cores s1 = cores s" by (rule cores_upd_next [OF u(3) t1])
  obtain tc where tc: "tasks s1 c = Some tc" "nxt tc = hd ?xs"
    using u(2,7) by (auto simp: t1 task_next_def)
  have "next_task s1 = find (runnable (tasks s1)) ?xs"
    using find_task_ring [of "tasks s1" "hd ?xs" ?xs] u(6) tc cur by (simp add: next_task_def task_next_of)
  moreover have "find (runnable (tasks s1)) ?xs = Some y"
    by (rule find_append_Cons) (use n y in \<open>simp_all add: runnable_cores c1\<close>)
  ultimately have nt: "next_task s1 = Some y" by simp
  obtain t where t: "tasks s1 y = Some t" "t\<lparr>nxt := NULL\<rparr> = ty" using ty unfolding c1 [symmetric] cores_Some by auto
  let ?s2 = "dispatch y t s1"
  have tn: "task_next ?s2 = task_next s1" by (rule task_next_cong) (simp add: t(1))
  have "path (task_next ?s2) y (y # vs @ us) y" using u(6) unfolding tn by (cases us) auto
  moreover have "distinct (y # vs @ us)" "NULL \<notin> set (y # vs @ us)" using r unfolding ring_def by auto
  ultimately have r2: "ring ?s2 (y # vs @ us)" unfolding ring_def by simp
  have "running t\<lparr>nxt := NULL\<rparr> = running ty" using t(2) by (auto simp: running_def)
  then have c2: "cores ?s2 = (cores s)(y \<mapsto> running ty)" using cores_upd [of ?s2 s1 y "running t"] c1 by simp
  have "p \<noteq> last ?xs" if "p \<notin> set ?xs" for p using that last_in_set [OF xs] by metis
  then have o: "\<forall>p. p \<notin> set ?xs \<longrightarrow> tasks s1 p = tasks s p" by (simp add: t1)
  have "s1 = s\<lparr>tasks := tasks s1\<rparr>" by (simp add: u(5))
  then show thesis by (rule that [OF u(1,2,4) load_context_None [OF nt t(1)] r2 _ t(2) o c2])
qed

lemma dead_cong:
  assumes "dead s ds" and "dead_queue s' = dead_queue s" and "\<And>p. p \<in> set ds \<Longrightarrow> task_next s' p = task_next s p"
  shows "dead s' ds"
  using assms path_cong [of ds "task_next s'" "task_next s"] by (simp add: dead_def)

lemma ring_cong:
  assumes "ring s xs" and "current_task s' = current_task s" and "\<And>p. p \<in> set xs \<Longrightarrow> task_next s' p = task_next s p"
  shows "ring s' xs"
  using assms path_cong [of xs "task_next s'" "task_next s" "hd xs" "hd xs"] unfolding ring_def by metis

lemma set_status_cores:
  assumes "cores s p = Some t"
  obtains u where "set_status p st s = Some (s\<lparr>tasks := (tasks s)(p \<mapsto> u\<lparr>status := st\<rparr>)\<rparr>)" "tasks s p = Some u"
    "cores (s\<lparr>tasks := (tasks s)(p \<mapsto> u\<lparr>status := st\<rparr>)\<rparr>) = (cores s)(p \<mapsto> t\<lparr>status := st\<rparr>)"
    "task_next (s\<lparr>tasks := (tasks s)(p \<mapsto> u\<lparr>status := st\<rparr>)\<rparr>) = task_next s"
proof -
  obtain u where u: "tasks s p = Some u" "t = u\<lparr>nxt := NULL\<rparr>" using assms by (auto simp: cores_Some)
  show thesis
    by (rule that [of u]) (use u in \<open>auto simp: set_status_def upd_task_def cores_def task_next_def fun_eq_iff\<close>)
qed

text \<open>The rest of \<open>task_exit\<close>: the dead queue, the reaper and the registers of the new task.\<close>

lemma exit_bury:
  assumes r: "ring s (y # zs)" and d: "dead s ds" "set ds \<inter> set (y # zs) = {}" and c: "is_task s c" "c \<notin> set ds" "c \<notin> set (y # zs)"
    and rp: "reaper_task s \<in> set (y # zs)" and ty: "cores s y = Some ty"
  obtains s' tr where "(do { s \<leftarrow> push_dead_queue c s; s \<leftarrow> wake_reaper_task s; restore_task_context s }) = Some s'"
    "ring s' (y # zs)" "dead s' (ds @ [c])" "cores s (reaper_task s) = Some tr"
    "cores s' = (cores s)(reaper_task s \<mapsto> tr\<lparr>status := TASK_READY\<rparr>)" "resumed s' = Some (iret_regs (ctx ty))"
    "\<exists>h q rs i. s' = s\<lparr>tasks := h, dead_queue := q, resumed := rs, interrupts := i\<rparr>"
proof -
  obtain tc where tc: "tasks s c = Some tc" "c \<noteq> NULL" using c(1) by (auto simp: is_task_def)
  obtain s3 where s3: "push_dead_queue c s = Some s3" "dead s3 (ds @ [c])" "cores s3 = cores s"
    "\<forall>p. p \<notin> set ds \<and> p \<noteq> c \<longrightarrow> tasks s3 p = tasks s p" "s3 = s\<lparr>tasks := tasks s3, dead_queue := dead_queue s3\<rparr>"
    by (rule push_dead_queue_appends [OF d(1) tc c(2)])
  have cur: "current_task s = y" by (rule ring_hd [OF r])
  have k3: "current_task s3 = y" "reaper_task s3 = reaper_task s" by (subst s3(5), simp add: cur)+
  have "tasks s3 p = tasks s p" if "p \<in> set (y # zs)" for p using s3(4) d(2) c(3) that by blast
  then have r3: "ring s3 (y # zs)" by (intro ring_cong [OF r]) (simp_all add: k3 cur task_next_def)
  obtain tr where tr: "cores s3 (reaper_task s) = Some tr" using ring_member [OF r rp] unfolding s3(3) by (auto simp: cores_def)
  obtain u where u: "set_status (reaper_task s) TASK_READY s3 = Some (s3\<lparr>tasks := (tasks s3)(reaper_task s \<mapsto> u\<lparr>status := TASK_READY\<rparr>)\<rparr>)"
    "tasks s3 (reaper_task s) = Some u"
    "cores (s3\<lparr>tasks := (tasks s3)(reaper_task s \<mapsto> u\<lparr>status := TASK_READY\<rparr>)\<rparr>) = (cores s3)(reaper_task s \<mapsto> tr\<lparr>status := TASK_READY\<rparr>)"
    "task_next (s3\<lparr>tasks := (tasks s3)(reaper_task s \<mapsto> u\<lparr>status := TASK_READY\<rparr>)\<rparr>) = task_next s3"
    by (rule set_status_cores [OF tr])
  define s4 where "s4 = s3\<lparr>tasks := (tasks s3)(reaper_task s \<mapsto> u\<lparr>status := TASK_READY\<rparr>)\<rparr>"
  have r4: "ring s4 (y # zs)" by (rule ring_cong [OF r3]) (simp add: s4_def, simp only: u(4) [folded s4_def])
  have d4: "dead s4 (ds @ [c])" by (rule dead_cong [OF s3(2)]) (simp add: s4_def, simp only: u(4) [folded s4_def])
  have c4: "cores s4 = (cores s)(reaper_task s \<mapsto> tr\<lparr>status := TASK_READY\<rparr>)" using u(3) unfolding s4_def s3(3) .
  obtain t4 where t4: "tasks s4 y = Some t4" using ring_member [OF r4, of y] by auto
  have "cores s4 y = Some (t4\<lparr>nxt := NULL\<rparr>)" using t4 by (simp add: cores_def)
  then have cx: "ctx t4 = ctx ty" using ty tr unfolding c4 s3(3) by (auto split: if_splits dest: arg_cong [where f = ctx])
  define s5 where "s5 = s4\<lparr>resumed := Some (iret_regs (ctx ty)), interrupts := bit (ctx_eflags (ctx ty)) 9\<rparr>"
  have "restore_task_context s4 = Some s5"
    using restore_task_context_eq [of s4 t4] t4 k3 cx by (simp add: s4_def s5_def)
  moreover have "wake_reaper_task s3 = Some s4" using u(1) by (simp add: wake_reaper_task_def k3 s4_def)
  ultimately have e: "(do { s \<leftarrow> push_dead_queue c s; s \<leftarrow> wake_reaper_task s; restore_task_context s }) = Some s5"
    using s3(1) by simp
  have "ring s5 (y # zs)" by (rule ring_cong [OF r4]) (simp_all add: s5_def task_next_def)
  moreover have "dead s5 (ds @ [c])" by (rule dead_cong [OF d4]) (simp_all add: s5_def task_next_def)
  moreover have "cores s5 = cores s4" by (simp add: s5_def cores_def fun_eq_iff)
  moreover have "s5 = s\<lparr>tasks := tasks s5, dead_queue := dead_queue s5, resumed := resumed s5, interrupts := interrupts s5\<rparr>"
    by (simp add: s5_def s4_def) (subst s3(5), simp)
  then have "\<exists>h q rs i. s5 = s\<lparr>tasks := h, dead_queue := q, resumed := rs, interrupts := i\<rparr>" by blast
  ultimately show thesis using that [OF e, of tr] tr c4 unfolding s3(3) by (simp add: s5_def)
qed

lemma task_exit_unfold:
  "task_exit s = (if task_total s - 1 = 0 then wake_idle_task (s\<lparr>interrupts := False, task_total := task_total s - 1\<rparr>)
      else Some (s\<lparr>interrupts := False, task_total := task_total s - 1\<rparr>)) \<bind>
      (\<lambda>s. walk_until (task_next s) (current_task s) (current_task s) \<bind> (\<lambda>l. task_next s (current_task s) \<bind> (\<lambda>n.
        set_task_next l n s \<bind> (\<lambda>s1. load_context None s1 \<bind> (\<lambda>s2. push_dead_queue (current_task s1) s2 \<bind>
          (\<lambda>s. wake_reaper_task s \<bind> restore_task_context))))))"
  by (simp add: task_exit_def disable_interrupts_def Let_def)

lemma task_exit_effect:
  assumes r: "ring s (c # us @ y # vs)" and i: "tasks s (idle_task s) \<noteq> None"
    and n: "\<And>x. x \<in> set us \<Longrightarrow> \<not> runnable (woken (task_total s = 1) s) x" and y: "runnable (woken (task_total s = 1) s) y"
    and d: "dead s ds" "set ds \<inter> set (c # us @ y # vs) = {}" and rp: "reaper_task s \<in> set (us @ y # vs)"
  obtains s' ty tr where "task_exit s = Some s'" "ring s' (y # vs @ us)" "dead s' (ds @ [c])"
    "cores (s\<lparr>tasks := woken (task_total s = 1) s\<rparr>) y = Some ty"
    "((cores (s\<lparr>tasks := woken (task_total s = 1) s\<rparr>))(y \<mapsto> running ty)) (reaper_task s) = Some tr"
    "cores s' = (cores (s\<lparr>tasks := woken (task_total s = 1) s\<rparr>))(y \<mapsto> running ty, reaper_task s \<mapsto> tr\<lparr>status := TASK_READY\<rparr>)"
    "resumed s' = Some (iret_regs (ctx ty))" "cr3 s' = t_cr3 ty" "quantum_tick s' = 0"
    "task_total s' = task_total s - 1" "idle_task s' = idle_task s" "reaper_task s' = reaper_task s"
    "awaiting_stdin s' = awaiting_stdin s"
proof -
  let ?h = "woken (task_total s = 1) s" and ?xs = "us @ y # vs"
  define s0 where "s0 = s\<lparr>interrupts := False, task_total := task_total s - 1, tasks := ?h\<rparr>"
  have c: "current_task s = c" "current_task s0 = c" and cx: "c \<notin> set ?xs" using ring_hd [OF r] ring_distinct [OF r] by (auto simp: s0_def)
  have tn0: "task_next s0 = task_next s" by (rule task_next_cong) (simp add: s0_def)
  have r0: "ring s0 (c # ?xs)" by (rule ring_cong [OF r]) (simp_all add: tn0 c)
  have d0: "dead s0 ds" by (rule dead_cong [OF d(1)]) (simp_all add: tn0, simp add: s0_def)
  have t0: "tasks s0 = ?h" by (simp add: s0_def)
  have c0: "cores s0 = cores (s\<lparr>tasks := ?h\<rparr>)" by (simp add: cores_def s0_def fun_eq_iff)
  have rn: "\<And>x. x \<in> set us \<Longrightarrow> \<not> runnable (tasks s0) x" "runnable (tasks s0) y" using n y by (simp_all add: t0)
  obtain ty where ty: "cores s0 y = Some ty" using ring_member [OF r0, of y] by (auto simp: cores_def)
  obtain s1 t where e: "walk_until (task_next s0) c c = Some (last ?xs)" "task_next s0 c = Some (hd ?xs)"
    "set_task_next (last ?xs) (hd ?xs) s0 = Some s1" "load_context None s1 = Some (dispatch y t s1)"
    "ring (dispatch y t s1) (y # vs @ us)" "s1 = s0\<lparr>tasks := tasks s1\<rparr>" "t\<lparr>nxt := NULL\<rparr> = ty"
    "\<forall>p. p \<notin> set ?xs \<longrightarrow> tasks s1 p = tasks s0 p" "cores (dispatch y t s1) = (cores s0)(y \<mapsto> running ty)"
    by (rule exit_switch [OF r0 rn ty])
  define s2 where "s2 = dispatch y t s1"
  have s2: "s2 = dispatch y t (s0\<lparr>tasks := tasks s1\<rparr>)" unfolding s2_def by (subst e(6)) simp
  have o2: "tasks s2 p = tasks s0 p" if "p \<notin> set ?xs" for p using e(8) that by (auto simp: s2_def)
  have "tasks s2 p = tasks s0 p" if "p \<in> set ds" for p by (rule o2) (use that d(2) in auto)
  then have d2: "dead s2 ds" by (intro dead_cong [OF d0]) (simp add: s2, simp add: task_next_def)
  have r2: "ring s2 (y # vs @ us)" using e(5) unfolding s2_def .
  have ic: "is_task s2 c" "c \<notin> set ds" "c \<notin> set (y # vs @ us)"
    using o2 [OF cx] ring_member [OF r0, of c] r d(2) cx by (auto simp: is_task_def ring_def)
  have k: "reaper_task s2 = reaper_task s" by (simp add: s2 s0_def)
  have rp2: "reaper_task s2 \<in> set (y # vs @ us)" using rp by (auto simp: k)
  have ty2: "cores s2 y = Some (running ty)" using e(9) by (simp add: s2_def)
  have dj: "set ds \<inter> set (y # vs @ us) = {}" using d(2) by auto
  obtain s' tr where f: "(do { s \<leftarrow> push_dead_queue c s2; s \<leftarrow> wake_reaper_task s; restore_task_context s }) = Some s'"
    "ring s' (y # vs @ us)" "dead s' (ds @ [c])" "cores s2 (reaper_task s2) = Some tr"
    "cores s' = (cores s2)(reaper_task s2 \<mapsto> tr\<lparr>status := TASK_READY\<rparr>)" "resumed s' = Some (iret_regs (ctx (running ty)))"
    "\<exists>h q rs i. s' = s2\<lparr>tasks := h, dead_queue := q, resumed := rs, interrupts := i\<rparr>"
    by (rule exit_bury [OF r2 d2 dj ic rp2 ty2])
  have w: "(if task_total s - 1 = 0 then wake_idle_task (s\<lparr>interrupts := False, task_total := task_total s - 1\<rparr>)
      else Some (s\<lparr>interrupts := False, task_total := task_total s - 1\<rparr>)) = Some s0"
    using i by (auto simp: wake_idle_task_def set_status_def upd_task_def woken_def s0_def)
  have "task_exit s = (if task_total s - 1 = 0 then wake_idle_task (s\<lparr>interrupts := False, task_total := task_total s - 1\<rparr>)
      else Some (s\<lparr>interrupts := False, task_total := task_total s - 1\<rparr>)) \<bind>
      (\<lambda>s. walk_until (task_next s) (current_task s) (current_task s) \<bind> (\<lambda>l. task_next s (current_task s) \<bind> (\<lambda>n.
        set_task_next l n s \<bind> (\<lambda>s1. load_context None s1 \<bind> (\<lambda>s2. push_dead_queue (current_task s1) s2 \<bind>
          (\<lambda>s. wake_reaper_task s \<bind> restore_task_context))))))"
    by (rule task_exit_unfold)
  also have "\<dots> = Some s'" unfolding w bind.bind_lunit c(2) e(1-4)
    using f(1) arg_cong [OF e(6), of current_task] c(2) by (simp add: s2_def)
  finally have ex: "task_exit s = Some s'" .
  have g: "cr3 s' = t_cr3 ty" "quantum_tick s' = 0" "task_total s' = task_total s - 1" "idle_task s' = idle_task s"
    "reaper_task s' = reaper_task s" "awaiting_stdin s' = awaiting_stdin s"
    using f(7) e(7) by (auto simp: s2 s0_def)
  have "cores (s\<lparr>tasks := ?h\<rparr>) y = Some ty" "((cores (s\<lparr>tasks := ?h\<rparr>))(y \<mapsto> running ty)) (reaper_task s) = Some tr"
    "cores s' = (cores (s\<lparr>tasks := ?h\<rparr>))(y \<mapsto> running ty, reaper_task s \<mapsto> tr\<lparr>status := TASK_READY\<rparr>)"
    "resumed s' = Some (iret_regs (ctx ty))"
    using ty f(4-6) e(9) by (simp_all add: c0 k s2_def [symmetric])
  from that [OF ex f(2,3) this g] show thesis .
qed

section \<open>The reaper\<close>

lemma tasks_of_slab:
  fixes s s' :: "'a sched_state_scheme"
  assumes "slab_state.more s' = slab_state.more s"
  shows "tasks s' = tasks s" "dead_queue s' = dead_queue s" "current_task s' = current_task s" "idle_task s' = idle_task s"
    "reaper_task s' = reaper_task s" "awaiting_stdin s' = awaiting_stdin s" "task_total s' = task_total s" "quantum_tick s' = quantum_tick s"
  using assms by (cases s; cases s'; simp)+

lemma kfree_fds_kept: "kfree_fds fs s = Some s' \<Longrightarrow> slab_state.more s' = slab_state.more s"
  by (induction fs arbitrary: s) (auto simp: bind_Some_iff dest!: slab_kept_kfree)

lemma reap_task_kept:
  assumes "reap_task x s = Some s'"
  shows "tasks s' = (tasks s)(x := None)" "dead_queue s' = dead_queue s" "current_task s' = current_task s"
    "idle_task s' = idle_task s" "reaper_task s' = reaper_task s" "awaiting_stdin s' = awaiting_stdin s"
    "task_total s' = task_total s" "quantum_tick s' = quantum_tick s"
proof -
  obtain t :: task and s1 s2 s3 s4 where e: "(if ttype t = RING3_TASK then unmmap_ring3 (t_cr3 t) s else Some s) = Some s1"
    "kfree_fds (take (unat (total_fds t)) (fds t)) s1 = Some s2" "kfree (ring0_stack_base t) s2 = Some s3" "kfree x s3 = Some s4"
    "Some (s4\<lparr>tasks := (tasks s4)(x := None)\<rparr>) = Some s'"
    using assms unfolding reap_task_def by (elim bind_SomeE) blast
  have "slab_state.more s1 = slab_state.more s" using e(1) by (auto split: if_splits dest: slab_kept_mem)
  then have k: "slab_state.more s4 = slab_state.more s"
    using kfree_fds_kept [OF e(2)] slab_kept_kfree [OF e(3)] slab_kept_kfree [OF e(4)] by simp
  show "tasks s' = (tasks s)(x := None)" "dead_queue s' = dead_queue s" "current_task s' = current_task s"
    "idle_task s' = idle_task s" "reaper_task s' = reaper_task s" "awaiting_stdin s' = awaiting_stdin s"
    "task_total s' = task_total s" "quantum_tick s' = quantum_tick s"
    using tasks_of_slab [OF k] by (simp_all add: e(5) [simplified, symmetric])
qed

text \<open>The loop of the reaper, written out for the tasks that the dead queue holds: a device of the proofs about it.\<close>

fun reap_all :: "addr list \<Rightarrow> 'a sched_state_scheme \<Rightarrow> 'a sched_state_scheme option" where
  "reap_all [] s = Some s"
| "reap_all (x # xs) s = do { s \<leftarrow> reap_task x (s\<lparr>dead_queue := (case xs of [] \<Rightarrow> NULL | y # _ \<Rightarrow> y)\<rparr>); reap_all xs s }"

lemma reap_queue_all: "dead s ds \<Longrightarrow> reap_queue s = reap_all ds s"
proof (induction ds arbitrary: s)
  case Nil
  then show ?case by (simp add: dead_empty reap_queue.simps)
next
  case (Cons x ds)
  obtain t where t: "tasks s x = Some t" using dead_member [OF Cons.prems, of x] by auto
  have q: "dead_queue s \<noteq> NULL" using dead_Cons [OF Cons.prems] by simp
  let ?s1 = "s\<lparr>dead_queue := nxt t\<rparr>"
  note p = pop_dead_queue_first [OF Cons.prems t]
  have h: "nxt t = (case ds of [] \<Rightarrow> NULL | y # _ \<Rightarrow> y)" using p(2) by (cases ds) (auto simp: dead_def)
  have x: "x \<notin> set ds" using Cons.prems by (simp add: dead_def)
  have st: "reap_queue s2 = reap_all ds s2" if r: "reap_task x ?s1 = Some s2" for s2
  proof (rule Cons.IH, rule dead_cong [OF p(2)])
    show "dead_queue s2 = dead_queue ?s1" using reap_task_kept(2) [OF r] .
    show "task_next s2 p = task_next ?s1 p" if "p \<in> set ds" for p
      using that x reap_task_kept(1) [OF r] by (auto simp: task_next_def)
  qed
  have "reap_queue s = reap_task x ?s1 \<bind> reap_queue"
    using q p(1) by (subst reap_queue.simps) simp
  also have "\<dots> = reap_task x ?s1 \<bind> reap_all ds" using st by (cases "reap_task x ?s1") simp_all
  finally show ?case by (simp add: h)
qed

section \<open>Properties\<close>

text \<open>
  C24: \<open>task_exit\<close> takes the current task out of the ring and appends it to the dead queue, hands the processor to
  the first task behind it that can run, after waking the idle task when it was the last one, and wakes the reaper.
\<close>

theorem task_exit_hands_over:
  assumes "ring s (c # us @ y # vs)" and "idle_task s \<in> set (c # us @ y # vs)" and "reaper_task s \<in> set (us @ y # vs)"
    and "\<forall>x \<in> set us. \<not> runnable (woken (task_total s = 1) s) x" and "runnable (woken (task_total s = 1) s) y"
    and "dead s ds" and "set ds \<inter> set (c # us @ y # vs) = {}"
  shows "\<exists>s' ty tr. task_exit s = Some s' \<and> ring s' (y # vs @ us) \<and> dead s' (ds @ [c]) \<and>
    cores (s\<lparr>tasks := woken (task_total s = 1) s\<rparr>) y = Some ty \<and> cores s' (reaper_task s) = Some tr \<and> status tr = TASK_READY \<and>
    (\<forall>p. p \<noteq> y \<and> p \<noteq> reaper_task s \<longrightarrow> cores s' p = cores (s\<lparr>tasks := woken (task_total s = 1) s\<rparr>) p) \<and>
    resumed s' = Some (iret_regs (ctx ty)) \<and> cr3 s' = t_cr3 ty \<and> task_total s' = task_total s - 1"
proof -
  have i: "tasks s (idle_task s) \<noteq> None" using ring_member [OF assms(1,2)] by auto
  obtain s' ty tr where "task_exit s = Some s'" "ring s' (y # vs @ us)" "dead s' (ds @ [c])"
    "cores (s\<lparr>tasks := woken (task_total s = 1) s\<rparr>) y = Some ty"
    "cores s' = (cores (s\<lparr>tasks := woken (task_total s = 1) s\<rparr>))(y \<mapsto> running ty, reaper_task s \<mapsto> tr\<lparr>status := TASK_READY\<rparr>)"
    "resumed s' = Some (iret_regs (ctx ty))" "cr3 s' = t_cr3 ty" "task_total s' = task_total s - 1"
    by (rule task_exit_effect [OF assms(1) i bspec [OF assms(4)] assms(5-7,3)])
  then show ?thesis by (intro exI [of _ s'] exI [of _ ty] exI [of _ "tr\<lparr>status := TASK_READY\<rparr>"]) simp
qed

theorem task_exit_hands_over_witness:
  "\<exists>s' ty tr. task_exit four_tasks = Some s' \<and> ring s' [4, 1, 2] \<and> dead s' [3] \<and> cores s' 2 = Some tr \<and> status tr = TASK_READY \<and>
     resumed s' = Some (iret_regs plain_ctx) \<and> task_total s' = 1"
proof -
  have "ring four_tasks (3 # [] @ 4 # [1, 2])" using ring_four_tasks by simp
  from task_exit_hands_over [OF this, of "[]"] show ?thesis
    by (auto simp: woken_def runnable_def can_run_def dead_empty cores_def)
qed

end
