(* ===== verification/Sched_Machine.thy ===== *)
theory Sched_Machine
  imports Task_Life
begin

text \<open>
  The scheduler as a state machine: the events that change its state once the kernel has started, the
  invariant they keep, and that none of them leaves the processor without a task to run.
\<close>

section \<open>The invariant\<close>

text \<open>
  The ring, the current task first, and the dead queue share no task; the idle task and the reaper stay in
  the ring; a task waiting for input sleeps in the ring. While \<open>awake\<close> holds, the idle task can run, unless it is the
  current one and another task can run.
\<close>

definition sched_ok :: "bool \<Rightarrow> 'a sched_state_scheme \<Rightarrow> addr list \<Rightarrow> addr list \<Rightarrow> bool" where
  "sched_ok awake s xs ds \<longleftrightarrow> ring s xs \<and> dead s ds \<and> set xs \<inter> set ds = {} \<and>
     idle_task s \<in> set xs \<and> reaper_task s \<in> set xs \<and> idle_task s \<noteq> reaper_task s \<and>
     (\<forall>t. cores s (idle_task s) = Some t \<longrightarrow> pid t = IDLE_PID) \<and>
     (awaiting_stdin s = NULL \<or> awaiting_stdin s \<in> set (tl xs) - {idle_task s, reaper_task s} \<and>
        map_option status (cores s (awaiting_stdin s)) = Some TASK_SLEEP) \<and>
     (awake \<longrightarrow> runnable (cores s) (idle_task s) \<or> current_task s = idle_task s \<and> (\<exists>x \<in> set xs. runnable (cores s) x)) \<and>
     quantum_tick s < SCHEDULER_QUANTUM"

lemma sched_okD:
  assumes "sched_ok b s xs ds"
  shows "ring s xs" "dead s ds" "set xs \<inter> set ds = {}" "idle_task s \<in> set xs" "reaper_task s \<in> set xs" "idle_task s \<noteq> reaper_task s"
    "\<forall>t. cores s (idle_task s) = Some t \<longrightarrow> pid t = IDLE_PID"
    "awaiting_stdin s = NULL \<or> awaiting_stdin s \<in> set (tl xs) - {idle_task s, reaper_task s} \<and>
       map_option status (cores s (awaiting_stdin s)) = Some TASK_SLEEP"
    "b \<Longrightarrow> runnable (cores s) (idle_task s) \<or> current_task s = idle_task s \<and> (\<exists>x \<in> set xs. runnable (cores s) x)"
    "quantum_tick s < SCHEDULER_QUANTUM"
  using assms unfolding sched_ok_def by blast+

definition sched_inv :: "bool \<Rightarrow> 'a sched_state_scheme \<Rightarrow> bool" where
  "sched_inv awake s \<longleftrightarrow> (\<exists>xs ds. sched_ok awake s xs ds)"

lemma cores_upd_other: "cores (s\<lparr>tasks := h\<rparr>) p = map_option (\<lambda>t. t\<lparr>nxt := NULL\<rparr>) (h p)"
  by (simp add: cores_def)

lemma runnable_running: "pid t = IDLE_PID \<Longrightarrow> can_run t \<Longrightarrow> can_run (running t)"
  by (simp add: running_def)

lemma running_nxt: "(running t)\<lparr>nxt := q\<rparr> = running (t\<lparr>nxt := q\<rparr>)"
  by (cases t) (simp add: running_def)

lemma status_nxt: "t\<lparr>status := st, nxt := q\<rparr> = t\<lparr>nxt := q, status := st\<rparr>"
  by (cases t) simp

lemma find_butlast: "find P (xs @ [y]) = Some z \<Longrightarrow> z \<noteq> y \<Longrightarrow> find P xs = Some z"
  by (induction xs) (auto split: if_splits)

lemma runnable_Some: "runnable h p \<longleftrightarrow> (\<exists>t. h p = Some t \<and> can_run t)"
  by (auto simp: runnable_def split: option.splits)

lemma runnable_not_sleep: "map_option status (h p) = Some TASK_SLEEP \<Longrightarrow> \<not> runnable h p"
  by (auto simp: runnable_Some can_run_def)

text \<open>What the end of every switch does, from a state whose current task cannot run.\<close>

lemma switch_away:
  assumes r: "ring s (c # zs)" and i: "i \<in> set zs" "runnable (cores s) i"
  obtains s' z us vs tz where "(do { s \<leftarrow> load_context None s; restore_task_context s }) = Some s'"
    "zs = us @ z # vs" "ring s' (z # vs @ c # us)" "runnable (cores s) z" "cores s z = Some tz"
    "cores s' = (cores s)(z \<mapsto> running tz)" "\<forall>p. p \<notin> set zs \<longrightarrow> tasks s' p = tasks s p" "resumed s' = Some (iret_regs (ctx tz))" "quantum_tick s' = 0"
    "dead_queue s' = dead_queue s" "task_total s' = task_total s" "idle_task s' = idle_task s"
    "reaper_task s' = reaper_task s" "awaiting_stdin s' = awaiting_stdin s" "current_task s' = z"
proof -
  obtain z where z: "find (runnable (tasks s)) zs = Some z"
    using i by (cases "find (runnable (tasks s)) zs") (auto simp: find_None_iff runnable_cores)
  then obtain us vs where zs: "zs = us @ z # vs" "\<forall>x \<in> set us. \<not> runnable (tasks s) x" "runnable (tasks s) z" by (rule split_at_first)
  have nt: "next_task s = Some z" by (rule find_runnable_ring [OF r [unfolded zs(1)] bspec [OF zs(2)] zs(3)])
  obtain t where t: "tasks s z = Some t" using zs(3) by (auto simp: runnable_Some)
  let ?s1 = "dispatch z t s"
  define s' where "s' = ?s1\<lparr>resumed := Some (iret_regs (ctx t)), interrupts := bit (ctx_eflags (ctx t)) 9\<rparr>"
  have e: "(do { s \<leftarrow> load_context None s; restore_task_context s }) = Some s'"
    using load_context_None [OF nt t] restore_task_context_eq [of ?s1 "running t"] by (simp add: s'_def)
  have "task_next s' = task_next s" by (rule task_next_cong) (simp add: s'_def t)
  then have r': "ring s' (z # vs @ c # us)" by (rule ring_rotate [OF r [unfolded zs(1)]]) (simp add: s'_def)
  have "tasks s' = (tasks s)(z \<mapsto> running t)" by (simp add: s'_def)
  then have c': "cores s' = (cores s)(z \<mapsto> running (t\<lparr>nxt := NULL\<rparr>))" by (simp add: cores_upd running_nxt)
  show thesis
    by (rule that [OF e zs(1) r' zs(3) [unfolded runnable_cores] _ c']) (use t zs(1) in \<open>auto simp: s'_def cores_def\<close>)
qed

lemma no_switch:
  assumes "ring s (c # zs)" and "\<not> runnable (cores s) c" and "\<not> (\<exists>x \<in> set zs. runnable (cores s) x)"
  shows "(do { s \<leftarrow> load_context None s; restore_task_context s }) = None"
proof -
  have "find (runnable (tasks s)) (zs @ [c]) = None" using assms(2,3) by (auto simp: find_None_iff runnable_cores)
  with next_task_ring [OF assms(1)] show ?thesis by (simp add: load_context_def)
qed

text \<open>
  A switch keeps the invariant: the new task \<open>z\<close> could run, so it is not the one that waits for input,
  and when it is the idle task it stays able to run.
\<close>

lemma sched_ok_switch:
  assumes "ring s' (z # ys)" and "dead s' ds" and "set (z # ys) \<inter> set ds = {}" and "idle_task s' \<in> set (z # ys)" and "reaper_task s' \<in> set (z # ys)"
    and "idle_task s' \<noteq> reaper_task s'" and "\<forall>t. h (idle_task s') = Some t \<longrightarrow> pid t = IDLE_PID"
    and "awaiting_stdin s' = NULL \<or> awaiting_stdin s' \<in> set (z # ys) - {idle_task s', reaper_task s'} \<and>
      map_option status (h (awaiting_stdin s')) = Some TASK_SLEEP"
    and "b \<longrightarrow> runnable h (idle_task s')" and "runnable h z" and "h z = Some tz" and "cores s' = h(z \<mapsto> running tz)" and "quantum_tick s' = 0"
  shows "sched_ok b s' (z # ys) ds"
proof -
  have "awaiting_stdin s' = NULL \<or> awaiting_stdin s' \<noteq> z" using assms(8,10) runnable_not_sleep [of h z] by auto
  then have "awaiting_stdin s' = NULL \<or> awaiting_stdin s' \<in> set ys - {idle_task s', reaper_task s'} \<and>
      map_option status (cores s' (awaiting_stdin s')) = Some TASK_SLEEP"
    using assms(8) unfolding assms(12) by auto
  moreover have "b \<longrightarrow> runnable (cores s') (idle_task s')"
    using assms(7,9,11) runnable_running unfolding assms(12) by (auto simp: runnable_Some)
  moreover have "\<forall>t. cores s' (idle_task s') = Some t \<longrightarrow> pid t = IDLE_PID" using assms(7,11) unfolding assms(12) by auto
  ultimately show ?thesis unfolding sched_ok_def using assms(1-6,13) by (simp add: SCHEDULER_QUANTUM_def)
qed

section \<open>A timer tick\<close>

lemma sched_ok_ring: "sched_ok b s xs ds \<Longrightarrow> \<exists>zs. xs = current_task s # zs \<and> ring s (current_task s # zs)"
  unfolding sched_ok_def ring_def by (cases xs) auto

lemma sched_ok_cong:
  assumes ok: "sched_ok b s xs ds" and e: "tasks s' = tasks s" "current_task s' = current_task s" "dead_queue s' = dead_queue s"
    "idle_task s' = idle_task s" "reaper_task s' = reaper_task s" "awaiting_stdin s' = awaiting_stdin s" and q: "quantum_tick s' < SCHEDULER_QUANTUM"
  shows "sched_ok b s' xs ds"
proof -
  have n: "task_next s' = task_next s" "cores s' = cores s" by (simp_all add: task_next_def cores_def fun_eq_iff e)
  have "ring s' xs" by (rule ring_cong [of s]) (use ok in \<open>simp_all add: sched_ok_def n e\<close>)
  moreover have "dead s' ds" by (rule dead_cong [of s]) (use ok in \<open>simp_all add: sched_ok_def n e\<close>)
  ultimately show ?thesis using ok q unfolding sched_ok_def n e by blast
qed

lemma idle_exists: "sched_ok b s xs ds \<Longrightarrow> tasks s (idle_task s) \<noteq> None"
  using ring_member unfolding sched_ok_def by fastforce

lemma cores_woken:
  "cores (s\<lparr>tasks := woken b s\<rparr>) = (if b then (cores s)(idle_task s := map_option (\<lambda>t. t\<lparr>status := TASK_SCHEDULER_IDLE\<rparr>) (cores s (idle_task s))) else cores s)"
  by (auto simp: cores_def woken_def fun_eq_iff option.map_comp comp_def status_nxt)

text \<open>Waking the idle task keeps the invariant.\<close>

lemma sched_ok_woken:
  assumes "sched_ok b s xs ds"
  shows "sched_ok b (s\<lparr>tasks := woken w s\<rparr>) xs ds"
proof (cases w)
  case True
  let ?s = "s\<lparr>tasks := woken w s\<rparr>"
  have n: "task_next ?s = task_next s" by (rule task_next_cong) simp
  have "ring ?s xs" by (rule ring_cong [of s]) (use assms n in \<open>simp_all add: sched_ok_def\<close>)
  moreover have "dead ?s ds" by (rule dead_cong [of s]) (use assms n in \<open>simp_all add: sched_ok_def\<close>)
  moreover have "runnable (cores ?s) (idle_task s)"
    using idle_exists [OF assms] True by (auto simp: cores_woken runnable_Some can_run_def cores_def)
  moreover have "cores ?s p = cores s p" if "p \<noteq> idle_task s" for p using that by (simp add: cores_woken)
  moreover have "\<forall>t. cores ?s (idle_task s) = Some t \<longrightarrow> pid t = IDLE_PID"
    using assms True by (auto simp: cores_woken sched_ok_def)
  ultimately show ?thesis using assms unfolding sched_ok_def by auto
qed (use assms in simp)

lemma sched_ok_tick_cont:
  assumes ok: "sched_ok b s xs ds" and g: "b \<or> tick_cont f rg s \<noteq> None"
  shows "\<exists>s' ys. tick_cont f rg s = Some s' \<and> sched_ok b s' ys ds"
proof -
  obtain zs where xs: "xs = current_task s # zs" and r: "ring s (current_task s # zs)" using sched_ok_ring [OF ok] by blast
  let ?c = "current_task s"
  have "b \<Longrightarrow> \<exists>x \<in> set (zs @ [?c]). runnable (tasks s) x" using sched_okD(4,9) [OF ok] unfolding xs by (auto simp: runnable_cores)
  moreover have "tick_cont f rg s = None" if "find (runnable (tasks s)) (zs @ [?c]) = None"
    using next_task_ring [OF r] that by (simp add: tick_cont_def)
  ultimately obtain z where z: "find (runnable (tasks s)) (zs @ [?c]) = Some z"
    using g by (cases "find (runnable (tasks s)) (zs @ [?c])") (auto simp: find_None_iff)
  show ?thesis
  proof (cases "z = ?c")
    case True
    then have "tick_cont f rg s = Some (pic_send_eoi 0 s)" using next_task_ring [OF r] z by (simp add: tick_cont_def)
    moreover have "sched_ok b (pic_send_eoi 0 s) xs ds" by (rule sched_ok_cong [OF ok]) (use ok in \<open>simp_all add: sched_ok_def\<close>)
    ultimately show ?thesis by blast
  next
    case False
    from find_butlast [OF z this] obtain us vs where u: "zs = us @ z # vs" "\<forall>x \<in> set us. \<not> runnable (tasks s) x" "runnable (tasks s) z"
      by (rule split_at_first)
    obtain tc tz where t: "tasks s ?c = Some tc" "tasks s z = Some tz" using ring_member [OF r] u(1) by fastforce
    obtain s' where s': "tick_cont f rg s = Some s'" "ring s' (z # vs @ ?c # us)"
      "tasks s' = (tasks s)(?c \<mapsto> preempted f rg tc, z \<mapsto> running tz)" "quantum_tick s' = 0" "idle_task s' = idle_task s"
      "reaper_task s' = reaper_task s" "dead_queue s' = dead_queue s" "awaiting_stdin s' = awaiting_stdin s"
      by (rule tick_cont_switch [OF r [unfolded u(1)] bspec [OF u(2)] u(3) t])
    let ?h = "(cores s)(?c \<mapsto> (preempted f rg tc)\<lparr>nxt := NULL\<rparr>)"
    have d: "z \<noteq> ?c" "?c \<notin> set zs" using ring_distinct [OF r] u(1) by auto
    have h: "cores s' = ?h(z \<mapsto> running (tz\<lparr>nxt := NULL\<rparr>))" by (auto simp: cores_def s'(3) running_nxt fun_eq_iff)
    have "sched_ok b s' (z # vs @ ?c # us) ds"
    proof (rule sched_ok_switch [OF s'(2) _ _ _ _ _ _ _ _ _ _ h s'(4)])
      show "dead s' ds"
        by (rule dead_cong [of s]) (use ok s'(7) t in \<open>auto simp: sched_ok_def task_next_def s'(3)\<close>)
      show "b \<longrightarrow> runnable ?h (idle_task s')"
        using sched_okD(9) [OF ok] by (auto simp: s'(5) runnable_Some can_run_def preempted_def save_context_def)
      show "runnable ?h z" "?h z = Some (tz\<lparr>nxt := NULL\<rparr>)" using u(3) d t by (auto simp: runnable_Some cores_def can_run_def)
      show "awaiting_stdin s' = NULL \<or> awaiting_stdin s' \<in> set (z # vs @ ?c # us) - {idle_task s', reaper_task s'} \<and>
          map_option status (?h (awaiting_stdin s')) = Some TASK_SLEEP"
        using sched_okD(8) [OF ok] d u(1) unfolding xs s'(5,6,8) by auto
      show "\<forall>t. ?h (idle_task s') = Some t \<longrightarrow> pid t = IDLE_PID"
      proof (cases "idle_task s = ?c")
        case True
        then have "pid (tc\<lparr>nxt := NULL\<rparr>) = IDLE_PID" using sched_okD(7) [OF ok] t(1) by (simp add: cores_def)
        with True show ?thesis by (simp add: s'(5))
      qed (use sched_okD(7) [OF ok] in \<open>simp add: s'(5)\<close>)
    qed (use sched_okD(3-6) [OF ok] xs u(1) in \<open>auto simp: s'(5,6)\<close>)
    with s'(1) show ?thesis by blast
  qed
qed

lemma sched_ok_tick:
  assumes "sched_ok b s xs ds" and "b \<or> scheduler_tick f rg s \<noteq> None"
  shows "\<exists>s' ys. scheduler_tick f rg s = Some s' \<and> sched_ok b s' ys ds"
  using assms(2) unfolding scheduler_tick_cont [OF idle_exists [OF assms(1)]]
  by (rule sched_ok_tick_cont [OF sched_ok_woken [OF assms(1)]])

lemma sched_ok_timer:
  assumes ok: "sched_ok b s xs ds" and g: "b \<or> timer_interrupt_handler f rg s \<noteq> None"
  shows "\<exists>s' ys. timer_interrupt_handler f rg s = Some s' \<and> sched_ok b s' ys ds"
proof -
  let ?s = "s\<lparr>ticks := ticks s + 1, quantum_tick := quantum_tick s + 1\<rparr>"
  show ?thesis
  proof (cases "quantum_tick ?s \<ge> SCHEDULER_QUANTUM")
    case True
    have "sched_ok b (reset_quantum ?s) xs ds" by (rule sched_ok_cong [OF ok]) (simp_all add: reset_quantum_def SCHEDULER_QUANTUM_def)
    moreover have "timer_interrupt_handler f rg s = scheduler_tick f rg (reset_quantum ?s)"
      using True by (simp add: timer_interrupt_handler_def Let_def)
    ultimately show ?thesis using sched_ok_tick g by metis
  next
    case False
    then have "timer_interrupt_handler f rg s = Some (pic_send_eoi 0 ?s)" by (simp add: timer_interrupt_handler_def Let_def)
    moreover have "sched_ok b (pic_send_eoi 0 ?s) xs ds" by (rule sched_ok_cong [OF ok]) (use False in \<open>simp_all add: not_le\<close>)
    ultimately show ?thesis by blast
  qed
qed

section \<open>Waiting and waking\<close>

lemma sched_ok_wake:
  assumes ok: "sched_ok b s xs ds"
  shows "\<exists>s' ys. wake_stdin_task s = Some s' \<and> sched_ok b s' ys ds"
proof (cases "awaiting_stdin s = NULL")
  case True
  then show ?thesis using ok by (auto simp: wake_stdin_task_def)
next
  case False
  let ?a = "awaiting_stdin s"
  have a: "?a \<in> set xs" "?a \<noteq> idle_task s" "?a \<noteq> reaper_task s" using sched_okD(8) [OF ok] False by (cases xs; auto)+
  obtain t where t: "cores s ?a = Some t" using ring_member [OF sched_okD(1) [OF ok] a(1)] by (auto simp: cores_def)
  obtain u where u: "set_status ?a TASK_READY s = Some (s\<lparr>tasks := (tasks s)(?a \<mapsto> u\<lparr>status := TASK_READY\<rparr>)\<rparr>)" "tasks s ?a = Some u"
    "cores (s\<lparr>tasks := (tasks s)(?a \<mapsto> u\<lparr>status := TASK_READY\<rparr>)\<rparr>) = (cores s)(?a \<mapsto> t\<lparr>status := TASK_READY\<rparr>)"
    "task_next (s\<lparr>tasks := (tasks s)(?a \<mapsto> u\<lparr>status := TASK_READY\<rparr>)\<rparr>) = task_next s"
    by (rule set_status_cores [OF t])
  define s' where "s' = s\<lparr>tasks := (tasks s)(?a \<mapsto> u\<lparr>status := TASK_READY\<rparr>), awaiting_stdin := NULL\<rparr>"
  have e: "wake_stdin_task s = Some s'" using False u(1) by (simp add: wake_stdin_task_def s'_def)
  have n: "task_next s' = task_next s" and c: "cores s' = (cores s)(?a \<mapsto> t\<lparr>status := TASK_READY\<rparr>)"
    using u(3,4) by (auto simp: s'_def task_next_def cores_def fun_eq_iff)
  have "ring s' xs" by (rule ring_cong [of s]) (use ok n in \<open>simp_all add: sched_ok_def s'_def\<close>)
  moreover have "dead s' ds" by (rule dead_cong [of s]) (use ok n in \<open>simp_all add: sched_ok_def s'_def\<close>)
  moreover have "b \<longrightarrow> runnable (cores s') (idle_task s') \<or> current_task s' = idle_task s' \<and> (\<exists>x \<in> set xs. runnable (cores s') x)"
    using sched_okD(9) [OF ok] a unfolding c by (auto simp: s'_def runnable_Some can_run_def)
  ultimately have "sched_ok b s' xs ds" using ok a unfolding sched_ok_def c by (simp add: s'_def)
  with e show ?thesis by blast
qed

text \<open>The task that waits puts itself to sleep; the idle task can run, so another task takes over.\<close>

lemma await_stdin_eq:
  assumes "tasks s (current_task s) = Some tc" and "tasks s (idle_task s) \<noteq> None" and "current_task s \<noteq> idle_task s"
    and s1: "s1 = s\<lparr>interrupts := False, awaiting_stdin := current_task s, tasks := (woken (task_total s = 1) s)(current_task s \<mapsto>
        save_context f (rg\<lparr>ctx_eip := ctx_eip rg - 2\<rparr>) (tc\<lparr>status := TASK_SLEEP\<rparr>))\<rparr>"
  shows "await_stdin f rg s = (do { s \<leftarrow> load_context None s1; restore_task_context s })"
proof -
  let ?s0 = "s\<lparr>interrupts := False, tasks := (tasks s)(current_task s \<mapsto> tc\<lparr>status := TASK_SLEEP\<rparr>)\<rparr>"
  have a: "set_status (current_task s) TASK_SLEEP (s\<lparr>interrupts := False\<rparr>) = Some ?s0"
    using assms(1) by (simp add: set_status_def upd_task_def)
  have "tasks ?s0 (idle_task ?s0) \<noteq> None" using assms(2,3) by simp
  from wake_idle_if [OF this, of "task_total s = 1"]
  have w: "(if task_total s = 1 then wake_idle_task ?s0 else Some ?s0) = Some (?s0\<lparr>tasks := woken (task_total s = 1) ?s0\<rparr>)" .
  have k: "(woken (task_total s = 1) ?s0)(current_task s \<mapsto> x) = (woken (task_total s = 1) s)(current_task s \<mapsto> x)" for x
    using assms(3) by (auto simp: woken_def fun_eq_iff)
  have l: "woken (task_total s = 1) ?s0 (current_task s) = Some (tc\<lparr>status := TASK_SLEEP\<rparr>)"
    using assms(3) by (simp add: woken_def)
  have "await_stdin f rg s = (if task_total s = 1 then wake_idle_task ?s0 else Some ?s0) \<bind>
     (\<lambda>s. load_context (Some (f, rg\<lparr>ctx_eip := ctx_eip rg - 2\<rparr>)) (s\<lparr>awaiting_stdin := current_task s\<rparr>) \<bind> restore_task_context)"
    unfolding await_stdin_def disable_interrupts_def Let_def using a by simp
  also have "\<dots> = load_context None s1 \<bind> restore_task_context"
    unfolding w bind.bind_lunit using l by (subst load_context_Some) (simp_all add: k s1)
  finally show ?thesis .
qed

lemma await_prepare:
  assumes r: "ring s (current_task s # zs)" and i: "tasks s (idle_task s) \<noteq> None" "current_task s \<noteq> idle_task s"
  obtains s1 t1 where "await_stdin f rg s = (do { s \<leftarrow> load_context None s1; restore_task_context s })" "ring s1 (current_task s # zs)"
    "cores s1 = (cores (s\<lparr>tasks := woken (task_total s = 1) s\<rparr>))(current_task s \<mapsto> t1)" "status t1 = TASK_SLEEP"
    "task_next s1 = task_next s" "\<exists>h. s1 = s\<lparr>interrupts := False, awaiting_stdin := current_task s, tasks := h\<rparr>"
proof -
  let ?c = "current_task s"
  obtain tc where tc: "tasks s ?c = Some tc" using ring_member [OF r] by auto
  define t1 where "t1 = save_context f (rg\<lparr>ctx_eip := ctx_eip rg - 2\<rparr>) (tc\<lparr>status := TASK_SLEEP\<rparr>)"
  define s1 where "s1 = s\<lparr>interrupts := False, awaiting_stdin := ?c, tasks := (woken (task_total s = 1) s)(?c \<mapsto> t1)\<rparr>"
  have t1: "nxt t1 = nxt tc" "status (t1\<lparr>nxt := NULL\<rparr>) = TASK_SLEEP" by (simp_all add: t1_def save_context_def)
  have e: "await_stdin f rg s = (do { s \<leftarrow> load_context None s1; restore_task_context s })"
    by (rule await_stdin_eq [OF tc i]) (simp add: s1_def t1_def)
  have c1: "cores s1 = (cores (s\<lparr>tasks := woken (task_total s = 1) s\<rparr>))(?c \<mapsto> t1\<lparr>nxt := NULL\<rparr>)"
    by (auto simp: s1_def cores_def fun_eq_iff)
  have n1: "task_next s1 = task_next s" by (rule task_next_cong) (use tc in \<open>simp add: s1_def t1\<close>)
  have r1: "ring s1 (?c # zs)" by (rule ring_cong [OF r]) (simp add: s1_def, simp only: n1)
  show thesis by (rule that [OF e r1 c1 t1(2) n1]) (auto simp: s1_def)
qed

lemma await_stuck:
  assumes r: "ring s (current_task s # zs)" and i: "tasks s (idle_task s) \<noteq> None" "current_task s \<noteq> idle_task s"
    and n: "\<not> (\<exists>x \<in> set zs. runnable (cores (s\<lparr>tasks := woken (task_total s = 1) s\<rparr>)) x)"
  shows "await_stdin f rg s = None"
proof -
  let ?c = "current_task s" and ?w = "s\<lparr>tasks := woken (task_total s = 1) s\<rparr>"
  obtain s1 t1 where a: "await_stdin f rg s = (do { s \<leftarrow> load_context None s1; restore_task_context s })" "ring s1 (?c # zs)"
    "cores s1 = (cores ?w)(?c \<mapsto> t1)" "status t1 = TASK_SLEEP"
    by (rule await_prepare [OF r i])
  have "?c \<notin> set zs" using ring_distinct [OF r] by simp
  then have "\<not> (\<exists>x \<in> set zs. runnable (cores s1) x)" using n by (auto simp: a(3) runnable_def split: if_splits)
  moreover have "\<not> runnable (cores s1) ?c" by (simp add: a(3,4) runnable_def can_run_def)
  ultimately show ?thesis unfolding a(1) using no_switch [OF a(2)] by blast
qed

lemma await_effect:
  assumes r: "ring s (current_task s # zs)" and i: "tasks s (idle_task s) \<noteq> None" "current_task s \<noteq> idle_task s"
    and x: "x \<in> set zs" "runnable (cores (s\<lparr>tasks := woken (task_total s = 1) s\<rparr>)) x"
  obtains s' z us vs tz t1 where "await_stdin f rg s = Some s'" "zs = us @ z # vs" "ring s' (z # vs @ current_task s # us)" "status t1 = TASK_SLEEP"
    "runnable (cores (s\<lparr>tasks := woken (task_total s = 1) s\<rparr>)) z" "cores (s\<lparr>tasks := woken (task_total s = 1) s\<rparr>) z = Some tz"
    "cores s' = (cores (s\<lparr>tasks := woken (task_total s = 1) s\<rparr>))(current_task s \<mapsto> t1, z \<mapsto> running tz)"
    "\<forall>p. p \<notin> set (current_task s # zs) \<longrightarrow> task_next s' p = task_next s p" "quantum_tick s' = 0" "dead_queue s' = dead_queue s"
    "idle_task s' = idle_task s" "reaper_task s' = reaper_task s" "awaiting_stdin s' = current_task s" "task_total s' = task_total s"
proof -
  let ?c = "current_task s" and ?w = "s\<lparr>tasks := woken (task_total s = 1) s\<rparr>"
  obtain s1 t1 where a: "await_stdin f rg s = (do { s \<leftarrow> load_context None s1; restore_task_context s })" "ring s1 (?c # zs)"
    "cores s1 = (cores ?w)(?c \<mapsto> t1)" "status t1 = TASK_SLEEP" "task_next s1 = task_next s"
    "\<exists>h. s1 = s\<lparr>interrupts := False, awaiting_stdin := ?c, tasks := h\<rparr>"
    by (rule await_prepare [OF r i])
  have c: "?c \<notin> set zs" using ring_distinct [OF r] by simp
  then have "runnable (cores s1) x" using x by (auto simp: a(3) runnable_def)
  with x(1) obtain s' z us vs tz where s': "(do { s \<leftarrow> load_context None s1; restore_task_context s }) = Some s'"
    "zs = us @ z # vs" "ring s' (z # vs @ ?c # us)" "runnable (cores s1) z" "cores s1 z = Some tz"
    "cores s' = (cores s1)(z \<mapsto> running tz)" "\<forall>p. p \<notin> set zs \<longrightarrow> tasks s' p = tasks s1 p" "quantum_tick s' = 0"
    "dead_queue s' = dead_queue s1" "task_total s' = task_total s1" "idle_task s' = idle_task s1" "reaper_task s' = reaper_task s1"
    "awaiting_stdin s' = awaiting_stdin s1"
    by (rule switch_away [OF a(2)])
  have k: "idle_task s' = idle_task s" "reaper_task s' = reaper_task s" "awaiting_stdin s' = ?c" "dead_queue s' = dead_queue s" "task_total s' = task_total s"
    using a(6) by (auto simp: s'(9-13))
  have zc: "z \<noteq> ?c" using c s'(2) by auto
  have "\<forall>p. p \<notin> set (?c # zs) \<longrightarrow> task_next s' p = task_next s p" using s'(7) a(5) by (simp add: task_next_def fun_eq_iff)
  moreover have "runnable (cores ?w) z" "cores ?w z = Some tz" using s'(4,5) zc by (simp_all add: a(3) runnable_def)
  moreover have "await_stdin f rg s = Some s'" using a(1) s'(1) by simp
  ultimately show thesis using that s'(2,3,6,8) a(3,4) k by metis
qed

lemma sched_ok_await:
  assumes ok: "sched_ok b s xs ds" and c: "current_task s \<noteq> idle_task s" "current_task s \<noteq> reaper_task s"
    and g: "b \<or> await_stdin f rg s \<noteq> None"
  shows "\<exists>s' ys. await_stdin f rg s = Some s' \<and> sched_ok b s' ys ds"
proof -
  obtain zs where xs: "xs = current_task s # zs" and r: "ring s (current_task s # zs)" using sched_ok_ring [OF ok] by blast
  let ?c = "current_task s" and ?w = "s\<lparr>tasks := woken (task_total s = 1) s\<rparr>"
  note w = sched_okD [OF sched_ok_woken [OF ok, of "task_total s = 1"], simplified]
  have i: "idle_task s \<in> set zs" "b \<longrightarrow> runnable (cores ?w) (idle_task s)" using sched_okD(4) [OF ok] xs c(1) w(9) by auto
  then obtain x where x: "x \<in> set zs" "runnable (cores ?w) x" using g await_stuck [OF r idle_exists [OF ok] c(1), where f = f and rg = rg] by metis
  obtain s' z us vs tz t1 where s': "await_stdin f rg s = Some s'" "zs = us @ z # vs" "ring s' (z # vs @ ?c # us)" "status t1 = TASK_SLEEP"
    "runnable (cores ?w) z" "cores ?w z = Some tz" "cores s' = (cores ?w)(?c \<mapsto> t1, z \<mapsto> running tz)"
    "\<forall>p. p \<notin> set (?c # zs) \<longrightarrow> task_next s' p = task_next s p" "quantum_tick s' = 0" "dead_queue s' = dead_queue s"
    "idle_task s' = idle_task s" "reaper_task s' = reaper_task s" "awaiting_stdin s' = ?c"
    by (rule await_effect [OF r idle_exists [OF ok] c(1) x, where f = f and rg = rg])
  let ?h = "(cores ?w)(?c \<mapsto> t1)"
  have zc: "z \<noteq> ?c" using ring_distinct [OF r] s'(2) by auto
  have "sched_ok b s' (z # vs @ ?c # us) ds"
  proof (rule sched_ok_switch [OF s'(3) _ _ _ _ _ _ _ _ _ _ s'(7,9)])
    show "dead s' ds" by (rule dead_cong [OF sched_okD(2) [OF ok] s'(10)]) (use s'(8) sched_okD(3) [OF ok] xs in blast)
    show "\<forall>t. ?h (idle_task s') = Some t \<longrightarrow> pid t = IDLE_PID" using w(7) c(1) by (simp add: s'(11))
    show "awaiting_stdin s' = NULL \<or> awaiting_stdin s' \<in> set (z # vs @ ?c # us) - {idle_task s', reaper_task s'} \<and>
        map_option status (?h (awaiting_stdin s')) = Some TASK_SLEEP" using c s'(4) by (simp add: s'(11-13))
    show "b \<longrightarrow> runnable ?h (idle_task s')" "runnable ?h z" "?h z = Some tz" using i(2) c(1) s'(5,6,11) zc by (simp_all add: runnable_def)
  qed (use sched_okD(3-6) [OF ok] xs s'(2) in \<open>auto simp: s'(11-13)\<close>)
  with s'(1) show ?thesis by blast
qed

section \<open>Ending and reaping\<close>

text \<open>With no task left that can run, \<open>task_exit\<close> searches forever.\<close>

lemma task_exit_stuck:
  assumes r: "ring s (c # zs)" and i: "tasks s (idle_task s) \<noteq> None" and z: "z \<in> set zs"
    and n: "find (runnable (woken (task_total s = 1) s)) zs = None"
  shows "task_exit s = None"
proof -
  let ?h = "woken (task_total s = 1) s"
  define s0 where "s0 = s\<lparr>interrupts := False, task_total := task_total s - 1, tasks := ?h\<rparr>"
  have c: "current_task s0 = c" using ring_hd [OF r] by (simp add: s0_def)
  have tn0: "task_next s0 = task_next s" by (rule task_next_cong) (simp add: s0_def)
  have r0: "ring s0 (c # zs)" by (rule ring_cong [OF r]) (simp_all add: tn0 c ring_hd [OF r])
  have zs: "zs \<noteq> []" using z by auto
  obtain l s1 where u: "walk_until (task_next s0) c c = Some (last zs)" "task_next s0 c = Some (hd zs)" "tasks s0 (last zs) = Some l"
    "set_task_next (last zs) (hd zs) s0 = Some s1" "s1 = s0\<lparr>tasks := (tasks s0)(last zs \<mapsto> l\<lparr>nxt := hd zs\<rparr>)\<rparr>"
    "path (task_next s1) (hd zs) zs (hd zs)" "c \<noteq> last zs"
    by (rule unlink_current [OF r0 zs])
  obtain tc where tc: "tasks s1 c = Some tc" "nxt tc = hd zs" using u(2,5,7) by (auto simp: task_next_def)
  have c1: "cores s1 = cores s0" by (rule cores_upd_next [OF u(3)]) (simp add: u(5))
  have "runnable (tasks s1) x = runnable ?h x" for x
    using runnable_cores [of s1 x] runnable_cores [of s0 x] unfolding c1 by (simp add: s0_def)
  then have "runnable (tasks s1) = runnable ?h" by (rule ext)
  then have "next_task s1 = None"
    using find_task_ring [of "tasks s1" "hd zs" zs] u(5,6) tc zs n c by (simp add: next_task_def task_next_of)
  then have l1: "load_context None s1 = None" by (simp add: load_context_def)
  have w: "(if task_total s - 1 = 0 then wake_idle_task (s\<lparr>interrupts := False, task_total := task_total s - 1\<rparr>)
      else Some (s\<lparr>interrupts := False, task_total := task_total s - 1\<rparr>)) = Some s0"
    using i by (auto simp: wake_idle_task_def set_status_def upd_task_def woken_def s0_def)
  have "task_exit s = (if task_total s - 1 = 0 then wake_idle_task (s\<lparr>interrupts := False, task_total := task_total s - 1\<rparr>)
      else Some (s\<lparr>interrupts := False, task_total := task_total s - 1\<rparr>)) \<bind>
      (\<lambda>s. walk_until (task_next s) (current_task s) (current_task s) \<bind> (\<lambda>l. task_next s (current_task s) \<bind> (\<lambda>n.
        set_task_next l n s \<bind> (\<lambda>s1. load_context None s1 \<bind> (\<lambda>s2. push_dead_queue (current_task s1) s2 \<bind>
          (\<lambda>s. wake_reaper_task s \<bind> restore_task_context))))))"
    by (rule task_exit_unfold)
  also have "\<dots> = None" unfolding w bind.bind_lunit c u(1,2,4) l1 by simp
  finally show ?thesis .
qed

lemma sched_ok_exit:
  assumes ok: "sched_ok b s xs ds" and c: "current_task s \<noteq> idle_task s" "current_task s \<noteq> reaper_task s"
    and g: "b \<or> task_exit s \<noteq> None"
  shows "\<exists>s' ys. task_exit s = Some s' \<and> sched_ok b s' ys (ds @ [current_task s]) \<and> set ys = set xs - {current_task s}"
proof -
  obtain zs where xs: "xs = current_task s # zs" and r: "ring s (current_task s # zs)" using sched_ok_ring [OF ok] by blast
  let ?c = "current_task s" and ?h = "woken (task_total s = 1) s" and ?w = "s\<lparr>tasks := woken (task_total s = 1) s\<rparr>"
  note w = sched_okD [OF sched_ok_woken [OF ok, of "task_total s = 1"], simplified]
  have rw: "runnable ?h p = runnable (cores ?w) p" for p using runnable_cores [of ?w p] by simp
  have i: "idle_task s \<in> set zs" "reaper_task s \<in> set zs" "b \<longrightarrow> runnable ?h (idle_task s)"
    using w(4,5,9) xs c by (auto simp: rw)
  then obtain y where "find (runnable ?h) zs = Some y"
    using g task_exit_stuck [OF r idle_exists [OF ok] i(1)] by (cases "find (runnable ?h) zs") (auto simp: find_None_iff)
  then obtain us vs where u: "zs = us @ y # vs" "\<forall>x \<in> set us. \<not> runnable ?h x" "runnable ?h y" by (rule split_at_first)
  have dj: "set ds \<inter> set (?c # us @ y # vs) = {}" using sched_okD(3) [OF ok] xs u(1) by auto
  obtain s' ty tr where s': "task_exit s = Some s'" "ring s' (y # vs @ us)" "dead s' (ds @ [?c])" "cores ?w y = Some ty"
    "((cores ?w)(y \<mapsto> running ty)) (reaper_task s) = Some tr"
    "cores s' = (cores ?w)(y \<mapsto> running ty, reaper_task s \<mapsto> tr\<lparr>status := TASK_READY\<rparr>)" "quantum_tick s' = 0"
    "idle_task s' = idle_task s" "reaper_task s' = reaper_task s" "awaiting_stdin s' = awaiting_stdin s"
    by (rule task_exit_effect [OF r [unfolded u(1)] idle_exists [OF ok] bspec [OF u(2)] u(3) sched_okD(2) [OF ok] dj i(2) [unfolded u(1)]])
  let ?h' = "(cores ?w)(reaper_task s \<mapsto> tr\<lparr>status := TASK_READY\<rparr>)"
  have iy: "cores s' (idle_task s) = (if idle_task s = y then Some (running ty) else cores ?w (idle_task s))"
    using w(6) by (simp add: s'(6))
  have y: "awaiting_stdin s = NULL \<or> awaiting_stdin s \<noteq> y" using w(8) u(3) runnable_not_sleep [of "cores ?w" y] by (auto simp: rw)
  have "can_run ty" using u(3) s'(4) unfolding rw by (simp add: runnable_Some)
  then have "b \<longrightarrow> runnable (cores s') (idle_task s)"
    using w(7) s'(4) runnable_running i(3) unfolding rw by (cases "idle_task s = y") (auto simp: iy runnable_def)
  moreover have "\<forall>t. cores s' (idle_task s) = Some t \<longrightarrow> pid t = IDLE_PID" using w(7) s'(4) by (auto simp: iy split: if_splits)
  moreover have "awaiting_stdin s = NULL \<or> awaiting_stdin s \<in> set (vs @ us) - {idle_task s, reaper_task s} \<and>
      map_option status (cores s' (awaiting_stdin s)) = Some TASK_SLEEP"
    using w(8) y u(1) xs by (auto simp: s'(6))
  moreover have "idle_task s \<in> set (y # vs @ us)" "reaper_task s \<in> set (y # vs @ us)" using i(1,2) u(1) by auto
  moreover have "set (y # vs @ us) \<inter> set (ds @ [?c]) = {}" using dj ring_distinct [OF r] u(1) by auto
  ultimately have "sched_ok b s' (y # vs @ us) (ds @ [?c])"
    unfolding sched_ok_def s'(8-10) using s'(2,3,7) w(6) by (simp add: SCHEDULER_QUANTUM_def)
  moreover have "set (y # vs @ us) = set xs - {?c}" using ring_distinct [OF r] xs u(1) by auto
  ultimately show ?thesis using s'(1) by blast
qed

lemma reap_all_kept:
  assumes "reap_all ds s = Some s'" and "dead_queue s = (case ds of [] \<Rightarrow> NULL | y # _ \<Rightarrow> y)"
  shows "tasks s' = (\<lambda>p. if p \<in> set ds then None else tasks s p) \<and> dead_queue s' = NULL \<and> current_task s' = current_task s \<and>
    idle_task s' = idle_task s \<and> reaper_task s' = reaper_task s \<and> awaiting_stdin s' = awaiting_stdin s \<and> quantum_tick s' = quantum_tick s"
  using assms
proof (induction ds arbitrary: s)
  case (Cons x ds)
  then obtain s1 where s1: "reap_task x (s\<lparr>dead_queue := (case ds of [] \<Rightarrow> NULL | y # _ \<Rightarrow> y)\<rparr>) = Some s1" "reap_all ds s1 = Some s'"
    by (auto elim: bind_SomeE)
  note k = reap_task_kept [OF s1(1), simplified]
  from Cons.IH [OF s1(2) k(2)] k show ?case by auto
qed auto

lemma sched_ok_reap:
  assumes ok: "sched_ok b s xs ds" and c: "current_task s = reaper_task s" and e: "reaper_round s = Some s'"
  shows "\<exists>ys. sched_ok b s' ys []"
proof -
  obtain zs where xs: "xs = current_task s # zs" and r: "ring s (current_task s # zs)" using sched_ok_ring [OF ok] by blast
  let ?c = "current_task s" and ?s0 = "s\<lparr>interrupts := False\<rparr>"
  have n0: "task_next ?s0 = task_next s" by (rule task_next_cong) simp
  have d0: "dead ?s0 ds" by (rule dead_cong [OF sched_okD(2) [OF ok]]) (simp_all add: n0)
  have q0: "dead_queue ?s0 = (case ds of [] \<Rightarrow> NULL | y # _ \<Rightarrow> y)" using d0 by (cases ds) (auto simp: dead_def)
  obtain s1 s2 where s1: "reap_all ds ?s0 = Some s1" and s2: "set_status (reaper_task s1) TASK_SLEEP s1 = Some s2"
      and s': "(do { s \<leftarrow> load_context None s2; restore_task_context s }) = Some s'"
    using e reap_queue_all [OF d0] unfolding reaper_round_def disable_interrupts_def sleep_reaper_task_def Let_def
    by (auto elim!: bind_SomeE)
  note k1 = reap_all_kept [OF s1 q0, simplified]
  have o1: "tasks s1 p = tasks s p" if "p \<in> set xs" for p using k1 that sched_okD(3) [OF ok] by auto
  obtain tr where tr: "tasks s ?c = Some tr" using ring_member [OF r] by auto
  have s2_eq: "s2 = s1\<lparr>tasks := (tasks s1)(?c \<mapsto> tr\<lparr>status := TASK_SLEEP\<rparr>)\<rparr>"
    using s2 k1 c tr o1 [of ?c] xs by (simp add: set_status_def upd_task_def)
  have n2: "task_next s2 p = task_next s p" if "p \<in> set xs" for p using o1 [OF that] tr by (simp add: s2_eq task_next_def)
  have r2: "ring s2 (?c # zs)" by (rule ring_cong [OF r]) (use k1 n2 xs in \<open>simp_all add: s2_eq\<close>)
  have c2: "cores s2 p = cores s p" if "p \<in> set xs" "p \<noteq> ?c" for p using o1 [OF that(1)] that(2) by (simp add: s2_eq cores_def)
  have ni: "idle_task s \<noteq> ?c" using sched_okD(6) [OF ok] c by simp
  have i: "idle_task s \<in> set zs" "b \<longrightarrow> runnable (cores s2) (idle_task s)"
    using sched_okD(4,9) [OF ok] xs ni c2 [of "idle_task s"] by (auto simp: runnable_def)
  have "\<exists>x \<in> set zs. runnable (cores s2) x"
  proof (rule ccontr)
    assume n: "\<not> (\<exists>x \<in> set zs. runnable (cores s2) x)"
    have "\<not> runnable (cores s2) ?c" by (simp add: s2_eq cores_def runnable_def can_run_def)
    from no_switch [OF r2 this n] s' show False by simp
  qed
  then obtain x where x: "x \<in> set zs" "runnable (cores s2) x" by blast
  obtain z us vs tz where z: "zs = us @ z # vs" "ring s' (z # vs @ ?c # us)" "runnable (cores s2) z" "cores s2 z = Some tz"
    "cores s' = (cores s2)(z \<mapsto> running tz)" "quantum_tick s' = 0"
    "dead_queue s' = dead_queue s2" "idle_task s' = idle_task s2" "reaper_task s' = reaper_task s2" "awaiting_stdin s' = awaiting_stdin s2"
    by (rule switch_away [OF r2 x]) (use s' in auto)
  have k: "idle_task s' = idle_task s" "reaper_task s' = reaper_task s" "awaiting_stdin s' = awaiting_stdin s" "dead_queue s' = NULL"
    using k1 by (simp_all add: z(7-10) s2_eq)
  have "sched_ok b s' (z # vs @ ?c # us) []"
  proof (rule sched_ok_switch [OF z(2) _ _ _ _ _ _ _ _ z(3-6)])
    show "\<forall>t. cores s2 (idle_task s') = Some t \<longrightarrow> pid t = IDLE_PID"
      using sched_okD(4,7) [OF ok] c2 [OF _ ni] by (simp add: k)
    show "awaiting_stdin s' = NULL \<or> awaiting_stdin s' \<in> set (z # vs @ ?c # us) - {idle_task s', reaper_task s'} \<and>
        map_option status (cores s2 (awaiting_stdin s')) = Some TASK_SLEEP"
      using sched_okD(8) [OF ok] c2 [of "awaiting_stdin s"] c z(1) xs by (auto simp: k)
  qed (use sched_okD(3-6) [OF ok] xs z(1) i in \<open>auto simp: k dead_empty\<close>)
  then show ?thesis by blast
qed

section \<open>New tasks\<close>

lemma vfs_more_of_slab:
  fixes s s' :: "'a vfs_state_scheme"
  shows "slab_state.more s' = slab_state.more s \<Longrightarrow> vfs_state.more s' = vfs_state.more s"
  by (cases s, cases s') simp

lemma kmalloc_vfs:
  fixes s :: "'a vfs_state_scheme"
  shows "kmalloc n s = Some (a, s') \<Longrightarrow> vfs_state.more s' = vfs_state.more s"
  by (rule vfs_more_of_slab [OF slab_kept_kmalloc])

lemma open_file_vfs: "open_file v f s = Some (p, s') \<Longrightarrow> vfs_state.more s' = vfs_state.more s"
  by (auto simp: open_file_def dest!: kmalloc_vfs elim!: bind_SomeE)

lemma mmap_ring3_vfs:
  fixes s :: "'a vfs_state_scheme"
  shows "mmap_ring3 m s = Some (a, s') \<Longrightarrow> vfs_state.more s' = vfs_state.more s"
  by (rule vfs_more_of_slab [OF slab_more_of_mem [OF more_kept_mmap_ring3]])

lemma sched_fields_of_vfs:
  fixes s s' :: "'a sched_state_scheme"
  shows "vfs_state.more s' = vfs_state.more s \<Longrightarrow> tasks s' = tasks s \<and> dead_queue s' = dead_queue s \<and>
    current_task s' = current_task s \<and> idle_task s' = idle_task s \<and> reaper_task s' = reaper_task s \<and>
    awaiting_stdin s' = awaiting_stdin s \<and> task_total s' = task_total s \<and> quantum_tick s' = quantum_tick s"
  by (cases s; cases s'; simp)

lemma place_task_kept:
  "place_task e ty k t s = Some (t', s') \<Longrightarrow> status t' = status t \<and> vfs_state.more s' = vfs_state.more s"
  by (auto simp: place_task_def split: task_type.splits dest!: mmap_ring3_vfs elim!: bind_pair_SomeE)

text \<open>Creating a task adds it to the heap of tasks, ready and unlinked, and changes no other task.\<close>

lemma create_task_adds:
  assumes "create_task e ty s = Some (n, s')"
  shows "(\<exists>t. tasks s' = (tasks s)(n \<mapsto> t) \<and> nxt t = NULL \<and> status t = TASK_READY) \<and> dead_queue s' = dead_queue s \<and>
    current_task s' = current_task s \<and> idle_task s' = idle_task s \<and> reaper_task s' = reaper_task s \<and>
    awaiting_stdin s' = awaiting_stdin s \<and> task_total s' = task_total s \<and> quantum_tick s' = quantum_tick s"
  using assms unfolding create_task_def Let_def
  apply (elim bind_pair_SomeE)
  apply (drule place_task_kept)
  apply (drule kmalloc_vfs open_file_vfs)+
  apply (elim conjE)
  apply (drule sched_fields_of_vfs)+
  apply auto
  done

lemma enqueue_task_effect:
  assumes ok: "sched_ok b s xs ds" and cr: "create_task e ty s = Some (n, s1)" and n: "n \<noteq> NULL" "tasks s n = None"
  obtains s' t ti where "enqueue_task e ty s = Some s'" "ring s' (xs @ [n])" "dead s' ds" "cores s (idle_task s) = Some ti" "status t = TASK_READY"
    "cores s' = (cores s)(n \<mapsto> t, idle_task s \<mapsto> ti\<lparr>status := TASK_SLEEP\<rparr>)" "current_task s' = current_task s" "idle_task s' = idle_task s"
    "reaper_task s' = reaper_task s" "awaiting_stdin s' = awaiting_stdin s" "task_total s' = task_total s + 1" "quantum_tick s' = quantum_tick s"
proof -
  obtain t where t: "tasks s1 = (tasks s)(n \<mapsto> t)" "nxt t = NULL" "status t = TASK_READY" and k1: "current_task s1 = current_task s"
      "dead_queue s1 = dead_queue s" "idle_task s1 = idle_task s" "reaper_task s1 = reaper_task s"
      "awaiting_stdin s1 = awaiting_stdin s" "task_total s1 = task_total s" "quantum_tick s1 = quantum_tick s"
    using create_task_adds [OF cr] by blast
  obtain zs where xs: "xs = current_task s # zs" using sched_ok_ring [OF ok] by blast
  let ?c = "current_task s"
  have r: "path (task_next s) ?c xs ?c" "distinct xs" "NULL \<notin> set xs" "xs \<noteq> []"
    using sched_okD(1) [OF ok] unfolding ring_def xs list.sel by blast+
  have nx: "n \<notin> set xs" "n \<notin> set ds" using n(2) ring_member [OF sched_okD(1) [OF ok]] dead_member [OF sched_okD(2) [OF ok]] by (metis option.distinct(1))+
  have n1: "task_next s1 = (task_next s)(n \<mapsto> NULL)" using t by (simp add: task_next_def fun_eq_iff)
  have p1: "path (task_next s1) ?c xs ?c" using r(1) nx(1) unfolding n1 by simp
  have w: "walk_until (task_next s1) ?c ?c = Some (last xs)" using walk_until_last [OF p1 r(4)] r(2) xs by simp
  have lx: "last xs \<in> set xs" "last xs \<noteq> n" using r(4) nx(1) by auto
  obtain tl where tl: "tasks s1 (last xs) = Some tl" using path_dom [OF p1 lx(1)] by (auto simp: task_next_def)
  let ?s2 = "s1\<lparr>tasks := (tasks s1)(last xs \<mapsto> tl\<lparr>nxt := n\<rparr>)\<rparr>"
  let ?s3 = "?s2\<lparr>tasks := (tasks ?s2)(n \<mapsto> t\<lparr>nxt := ?c\<rparr>)\<rparr>"
  have e2: "set_task_next (last xs) n s1 = Some ?s2" by (rule set_task_next_eq [OF tl])
  have e3: "set_task_next n ?c ?s2 = Some ?s3" by (rule set_task_next_eq) (use lx t in simp)
  have n3: "task_next ?s3 = (task_next s1)(last xs \<mapsto> n, n \<mapsto> ?c)"
    using tk.nxt_set_nxt [OF e2] tk.nxt_set_nxt [OF e3] by simp
  have "path ((task_next s1)(last xs \<mapsto> n)) ?c xs n" by (rule path_last_upd [OF p1 r(2,4)])
  then have p3: "path (task_next ?s3) ?c (xs @ [n]) ?c" unfolding n3 using nx(1) by simp
  have c3: "cores ?s3 = (cores s)(n \<mapsto> t\<lparr>nxt := NULL\<rparr>)" using tl t lx by (auto simp: cores_def fun_eq_iff)
  obtain ti where ti: "cores s (idle_task s) = Some ti" using idle_exists [OF ok] by (auto simp: cores_def)
  have ni: "idle_task s \<noteq> n" using sched_okD(4) [OF ok] nx(1) by auto
  define s4 where "s4 = ?s3\<lparr>task_total := task_total s + 1\<rparr>"
  have c4: "cores s4 = (cores s)(n \<mapsto> t\<lparr>nxt := NULL\<rparr>)" using c3 by (simp add: s4_def cores_def fun_eq_iff)
  have n4: "task_next s4 = task_next ?s3" by (simp add: s4_def task_next_def fun_eq_iff)
  have "cores s4 (idle_task s) = Some ti" using ti ni by (simp add: c4)
  then obtain u where u: "set_status (idle_task s) TASK_SLEEP s4 = Some (s4\<lparr>tasks := (tasks s4)(idle_task s \<mapsto> u\<lparr>status := TASK_SLEEP\<rparr>)\<rparr>)"
    "cores (s4\<lparr>tasks := (tasks s4)(idle_task s \<mapsto> u\<lparr>status := TASK_SLEEP\<rparr>)\<rparr>) = (cores s4)(idle_task s \<mapsto> ti\<lparr>status := TASK_SLEEP\<rparr>)"
    "task_next (s4\<lparr>tasks := (tasks s4)(idle_task s \<mapsto> u\<lparr>status := TASK_SLEEP\<rparr>)\<rparr>) = task_next s4"
    by (rule set_status_cores [where st = TASK_SLEEP])
  define s5 where "s5 = s4\<lparr>tasks := (tasks s4)(idle_task s \<mapsto> u\<lparr>status := TASK_SLEEP\<rparr>)\<rparr>"
  have en: "enqueue_task e ty s = Some s5"
    using cr w e2 e3 u(1) by (simp add: enqueue_task_def k1 sleep_idle_task_def s4_def s5_def)
  have k: "current_task s5 = ?c" "dead_queue s5 = dead_queue s" "idle_task s5 = idle_task s" "reaper_task s5 = reaper_task s"
      "awaiting_stdin s5 = awaiting_stdin s" "task_total s5 = task_total s + 1" "quantum_tick s5 = quantum_tick s"
    by (simp_all add: s5_def s4_def k1)
  have n5: "task_next s5 = task_next ?s3" using u(3) n4 by (simp add: s5_def)
  have h: "hd (xs @ [n]) = ?c" "xs @ [n] \<noteq> []" "distinct (xs @ [n])" "NULL \<notin> set (xs @ [n])" using xs r(2,3) nx(1) n(1) by auto
  have "ring s5 (xs @ [n])" unfolding ring_def k(1) n5 h(1) using p3 h(2-4) by blast
  moreover have "task_next s5 p = task_next s p" if "p \<in> set ds" for p
  proof -
    have "p \<noteq> last xs" "p \<noteq> n" using that sched_okD(3) [OF ok] lx(1) nx(2) by auto
    then show ?thesis unfolding n5 n3 n1 by simp
  qed
  then have "dead s5 ds" by (rule dead_cong [OF sched_okD(2) [OF ok] k(2)])
  moreover have "cores s5 = (cores s)(n \<mapsto> t\<lparr>nxt := NULL\<rparr>, idle_task s \<mapsto> ti\<lparr>status := TASK_SLEEP\<rparr>)" using u(2) c4 by (simp add: s5_def)
  ultimately show thesis using that [OF en, of ti "t\<lparr>nxt := NULL\<rparr>"] ti t(3) k by simp
qed

lemma sched_ok_enqueue:
  assumes ok: "sched_ok b s xs ds" and "create_task e ty s = Some (n, s1)" and "n \<noteq> NULL" "tasks s n = None"
  shows "\<exists>s'. enqueue_task e ty s = Some s' \<and> sched_ok False s' (xs @ [n]) ds"
proof -
  obtain s' t ti where s': "enqueue_task e ty s = Some s'" "ring s' (xs @ [n])" "dead s' ds" "cores s (idle_task s) = Some ti" "status t = TASK_READY"
    "cores s' = (cores s)(n \<mapsto> t, idle_task s \<mapsto> ti\<lparr>status := TASK_SLEEP\<rparr>)" "current_task s' = current_task s" "idle_task s' = idle_task s"
    "reaper_task s' = reaper_task s" "awaiting_stdin s' = awaiting_stdin s" "quantum_tick s' = quantum_tick s"
    by (rule enqueue_task_effect [OF assms])
  have nx: "n \<notin> set xs" "n \<notin> set ds"
    using assms(4) ring_member [OF sched_okD(1) [OF ok]] dead_member [OF sched_okD(2) [OF ok]] by (metis option.distinct(1))+
  have "set (xs @ [n]) \<inter> set ds = {}" using sched_okD(3) [OF ok] nx(2) by auto
  moreover have "\<forall>u. cores s' (idle_task s) = Some u \<longrightarrow> pid u = IDLE_PID" using sched_okD(7) [OF ok] s'(4,6) by simp
  moreover have "awaiting_stdin s = NULL \<or> awaiting_stdin s \<in> set (tl (xs @ [n])) - {idle_task s, reaper_task s} \<and>
      map_option status (cores s' (awaiting_stdin s)) = Some TASK_SLEEP"
    using sched_okD(8) [OF ok] nx(1) by (cases xs) (auto simp: s'(6))
  ultimately have "sched_ok False s' (xs @ [n]) ds"
    unfolding sched_ok_def s'(8-11) using s'(2,3) sched_okD(4-6,10) [OF ok] by simp
  with s'(1) show ?thesis by blast
qed

section \<open>The machine\<close>

text \<open>
  The events once \<open>kernel_main\<close> has enabled interrupts. The idle task and the reaper are loops of
  the kernel: they neither wait for input nor end, and only the reaper reaps. The key \<open>t\<close> starts a
  task, whose structure \<open>kmalloc\<close> puts where no task is.
\<close>

inductive sched_event :: "'a sched_state_scheme \<Rightarrow> 'a sched_state_scheme \<Rightarrow> bool" where
  Timer: "timer_interrupt_handler f rg s = Some s' \<Longrightarrow> sched_event s s'"
| Keyboard: "wake_stdin_task s = Some s' \<Longrightarrow> sched_event s s'"
| Await: "current_task s \<noteq> idle_task s \<Longrightarrow> current_task s \<noteq> reaper_task s \<Longrightarrow> await_stdin f rg s = Some s' \<Longrightarrow> sched_event s s'"
| Exit: "current_task s \<noteq> idle_task s \<Longrightarrow> current_task s \<noteq> reaper_task s \<Longrightarrow> task_exit s = Some s' \<Longrightarrow> sched_event s s'"
| Reap: "current_task s = reaper_task s \<Longrightarrow> reaper_round s = Some s' \<Longrightarrow> sched_event s s'"

inductive sched_step :: "'a sched_state_scheme \<Rightarrow> 'a sched_state_scheme \<Rightarrow> bool" where
  Event: "sched_event s s' \<Longrightarrow> sched_step s s'"
| Enqueue: "create_task e ty s = Some (n, s1) \<Longrightarrow> n \<noteq> NULL \<Longrightarrow> tasks s n = None \<Longrightarrow> enqueue_task e ty s = Some s' \<Longrightarrow> sched_step s s'"

inductive_cases sched_eventE: "sched_event s s'"
inductive_cases sched_stepE: "sched_step s s'"

lemma sched_inv_event: "sched_event s s' \<Longrightarrow> sched_inv b s \<Longrightarrow> sched_inv b s'"
proof (induction rule: sched_event.induct)
  case (Timer f rg s s')
  then show ?case unfolding sched_inv_def using sched_ok_timer [of b s _ _ f rg] by fastforce
next
  case (Keyboard s s')
  then show ?case unfolding sched_inv_def using sched_ok_wake [of b s] by fastforce
next
  case (Await s f rg s')
  then show ?case unfolding sched_inv_def using sched_ok_await [of b s _ _ f rg] by fastforce
next
  case (Exit s s')
  then show ?case unfolding sched_inv_def using sched_ok_exit [of b s] by fastforce
next
  case (Reap s s')
  then show ?case unfolding sched_inv_def using sched_ok_reap [of b s] by blast
qed

lemma sched_ok_weaken: "sched_ok b s xs ds \<Longrightarrow> sched_ok False s xs ds"
  by (simp add: sched_ok_def)

lemma sched_inv_step: "sched_step s s' \<Longrightarrow> sched_inv False s \<Longrightarrow> sched_inv False s'"
proof (induction rule: sched_step.induct)
  case (Enqueue e ty s n s1 s')
  then show ?case unfolding sched_inv_def using sched_ok_enqueue [of False s] by fastforce
qed (rule sched_inv_event)

inductive sched_reach :: "'a sched_state_scheme \<Rightarrow> 'a sched_state_scheme \<Rightarrow> bool" for s0 where
  Start: "sched_reach s0 s0"
| Step: "sched_reach s0 s \<Longrightarrow> sched_step s s' \<Longrightarrow> sched_reach s0 s'"

text \<open>The states reached without a new task.\<close>

inductive event_reach :: "'a sched_state_scheme \<Rightarrow> 'a sched_state_scheme \<Rightarrow> bool" for s0 where
  EStart: "event_reach s0 s0"
| EStep: "event_reach s0 s \<Longrightarrow> sched_event s s' \<Longrightarrow> event_reach s0 s'"

lemma sched_inv_reach: "sched_reach s0 s \<Longrightarrow> sched_inv False s0 \<Longrightarrow> sched_inv False s"
  by (induction rule: sched_reach.induct) (auto intro: sched_inv_step)

lemma event_reach_inv: "event_reach s0 s \<Longrightarrow> sched_inv b s0 \<Longrightarrow> sched_inv b s"
  by (induction rule: event_reach.induct) (auto intro: sched_inv_event)

section \<open>Properties\<close>

text \<open>
  C7: In every state the scheduler reaches from a well-formed one, by timer interrupts, key presses, tasks that wait, end or are
  started and rounds of the reaper, the tasks form a ring without
  the tasks of the dead queue, it still holds the idle task and the reaper, the task that waits for input
  sleeps in it, and the quantum counter stays below the quantum.
\<close>

theorem scheduler_invariant:
  assumes "sched_inv False s0" and "sched_reach s0 s"
  shows "\<exists>xs ds. ring s xs \<and> dead s ds \<and> set xs \<inter> set ds = {} \<and> idle_task s \<in> set xs \<and> reaper_task s \<in> set xs \<and>
    (awaiting_stdin s = NULL \<or> awaiting_stdin s \<in> set (tl xs) \<and> map_option status (tasks s (awaiting_stdin s)) = Some TASK_SLEEP) \<and>
    quantum_tick s < SCHEDULER_QUANTUM"
proof -
  obtain xs ds where ok: "sched_ok False s xs ds" using sched_inv_reach [OF assms(2,1)] by (auto simp: sched_inv_def)
  have "map_option status (tasks s p) = map_option status (cores s p)" for p by (simp add: cores_def option.map_comp comp_def)
  with sched_okD(1-5,8,10) [OF ok] show ?thesis by (intro exI [of _ xs] exI [of _ ds]) auto
qed

text \<open>
  C8: From a state in which the scheduler is in order and the idle task able to run, and as long as no new task is started (which
  puts the idle task to sleep), the search for the next task never runs forever: in every state reached by timer interrupts, key presses,
  waits for input, exits and rounds of the reaper, the timer interrupt and the waking of the reader are handled, and a task other than the
  idle task and the reaper can wait for input and can end. That a round of the reaper returns is not part of the claim, and the stack of the
  task that is resumed is taken to be mapped.
\<close>

theorem scheduler_never_hangs:
  assumes "sched_inv True s0" and "event_reach s0 s"
  shows "timer_interrupt_handler f rg s \<noteq> None \<and> wake_stdin_task s \<noteq> None \<and>
    (current_task s \<noteq> idle_task s \<and> current_task s \<noteq> reaper_task s \<longrightarrow> await_stdin f rg s \<noteq> None \<and> task_exit s \<noteq> None)"
proof -
  obtain xs ds where ok: "sched_ok True s xs ds" using event_reach_inv [OF assms(2,1)] by (auto simp: sched_inv_def)
  show ?thesis
    using sched_ok_timer [OF ok, of f rg] sched_ok_wake [OF ok] sched_ok_await [OF ok, of f rg] sched_ok_exit [OF ok] by auto
qed

text \<open>
  C22: The idle task is only woken when one task is left. So when it sleeps, as \<open>enqueue_task\<close> leaves it, and the last two tasks
  that can run wait for input one after the other, the kernel searches the ring forever with interrupts disabled.
\<close>

theorem two_readers_hang:
  assumes "sched_ok b s (current_task s # zs) ds" and "current_task s \<noteq> idle_task s" and "n \<in> set zs" and "n \<noteq> idle_task s"
    and "runnable (cores s) n" and "\<forall>x \<in> set zs. x \<noteq> n \<longrightarrow> \<not> runnable (cores s) x" and "task_total s \<noteq> 1"
  shows "\<exists>s'. await_stdin f rg s = Some s' \<and> current_task s' = n \<and> await_stdin f' rg' s' = None"
proof -
  let ?c = "current_task s"
  have r: "ring s (?c # zs)" by (rule sched_okD(1) [OF assms(1)])
  have d: "?c \<notin> set zs" "distinct zs" using ring_distinct [OF r] by auto
  have ix: "idle_task s \<in> set zs" using sched_okD(4) [OF assms(1)] assms(2) by auto
  obtain s3 z us vs tz t1 where s3: "await_stdin f rg s = Some s3" "zs = us @ z # vs" "ring s3 (z # vs @ ?c # us)" "status t1 = TASK_SLEEP"
    "runnable (cores s) z" "cores s3 = (cores s)(?c \<mapsto> t1, z \<mapsto> running tz)" "idle_task s3 = idle_task s" "task_total s3 = task_total s"
    by (rule await_effect [OF r idle_exists [OF assms(1)] assms(2,3), where f = f and rg = rg]) (use assms(5,7) in auto)
  have z: "z = n" using assms(6) s3(2,5) by auto
  have c3: "current_task s3 = n" using ring_hd [OF s3(3)] z by simp
  have r3: "ring s3 (current_task s3 # vs @ ?c # us)" using s3(3) by (simp add: z c3)
  have nm: "n \<noteq> ?c" "n \<notin> set us" "n \<notin> set vs" using d s3(2) z assms(3) by auto
  have "\<not> runnable (cores s3) x" if x: "x \<in> set (vs @ ?c # us)" for x
  proof (cases "x = ?c")
    case True
    then show ?thesis using nm(1) s3(4) by (simp add: s3(6) z runnable_def can_run_def)
  next
    case False
    then have "x \<in> set zs" "x \<noteq> n" using x s3(2) nm by auto
    with assms(6) False show ?thesis by (simp add: s3(6) z runnable_def)
  qed
  moreover have i3: "tasks s3 (idle_task s3) \<noteq> None" "current_task s3 \<noteq> idle_task s3"
    using assms(4) ring_member [OF r3, of "idle_task s"] ix s3(2) z by (auto simp: c3 s3(7))
  ultimately have "await_stdin f' rg' s3 = None"
    by (intro await_stuck [OF r3 i3]) (use assms(7) in \<open>simp add: s3(8)\<close>)
  with s3(1) c3 show ?thesis by blast
qed

section \<open>Witnesses\<close>

lemma sched_ok_four_tasks: "sched_ok True four_tasks [3, 4, 1, 2] []"
  unfolding sched_ok_def
  by (simp add: ring_four_tasks dead_empty runnable_def can_run_def cores_def IDLE_PID_def SCHEDULER_QUANTUM_def)

lemma sched_inv_four_tasks: "sched_inv True four_tasks" "sched_inv False four_tasks"
  using sched_ok_four_tasks sched_ok_weaken unfolding sched_inv_def by blast+

theorem scheduler_invariant_witness:
  "\<exists>s xs. sched_reach four_tasks s \<and> task_exit four_tasks = Some s \<and> ring s xs \<and> idle_task s \<in> set xs"
proof -
  obtain s where s: "task_exit four_tasks = Some s" using sched_ok_exit [OF sched_ok_four_tasks] by auto
  have "sched_reach four_tasks s" by (rule sched_reach.Step [OF sched_reach.Start Event [OF Exit [OF _ _ s]]]) simp_all
  from scheduler_invariant [OF sched_inv_four_tasks(2) this] this s show ?thesis by blast
qed

theorem scheduler_never_hangs_witness:
  "timer_interrupt_handler 0 plain_ctx four_tasks \<noteq> None \<and> await_stdin 0 plain_ctx four_tasks \<noteq> None \<and> task_exit four_tasks \<noteq> None"
  using scheduler_never_hangs [OF sched_inv_four_tasks(1) event_reach.EStart, of 0 plain_ctx] by simp

theorem two_readers_hang_witness:
  "\<exists>s'. await_stdin 0 plain_ctx (four_tasks\<lparr>tasks := (tasks four_tasks)(1 \<mapsto> plain_task 0 TASK_SLEEP 2)\<rparr>) = Some s' \<and>
     current_task s' = 4 \<and> await_stdin 0 plain_ctx s' = None"
proof -
  let ?s = "four_tasks\<lparr>tasks := (tasks four_tasks)(1 \<mapsto> plain_task 0 TASK_SLEEP 2)\<rparr>"
  have "sched_ok False ?s (current_task ?s # [4, 1, 2]) []"
    unfolding sched_ok_def by (simp add: ring_def dead_empty cores_def IDLE_PID_def SCHEDULER_QUANTUM_def)
  from two_readers_hang [OF this, of 4 0 plain_ctx 0 plain_ctx] show ?thesis
    by (simp add: cores_def runnable_def can_run_def)
qed

end
