(* ===== verification/Stdin.thy ===== *)
theory Stdin
  imports Sched_Machine
begin

text \<open>
  The input half of \<open>kernel/tty.c\<close>: the buffer between the keyboard and the tasks that read, and the file
  operations of the terminal. User buffers are read and written through the page walk of the current
  address space.
\<close>

section \<open>State\<close>

definition STDIN_BUFFER_SIZE :: u32 where "STDIN_BUFFER_SIZE = 4096"
definition SET_FLAG_REQUEST :: u32 where "SET_FLAG_REQUEST = 1"
definition CLEAR_FLAG_REQUEST :: u32 where "CLEAR_FLAG_REQUEST = 2"

record tty_state = sched_state +
  stdin_buffer :: "u8 list"
  buffer_head :: u32
  buffer_tail :: u32
  tty_flags :: u32

section \<open>Operations\<close>

definition store_char :: "u32 \<Rightarrow> u8 \<Rightarrow> 'a tty_state_scheme \<Rightarrow> 'a tty_state_scheme" where
  "store_char i c s = s\<lparr>stdin_buffer := (stdin_buffer s)[unat i := c], buffer_tail := i + 1\<rparr>"

definition write_tty_buffer :: "u8 \<Rightarrow> 'a tty_state_scheme \<Rightarrow> 'a tty_state_scheme option" where
  "write_tty_buffer c s = do {
     s \<leftarrow> (if tty_flags s AND ECHO_FLAG \<noteq> 0 then terminal_write [c] s else Some s);
     if awaiting_stdin s = NULL then Some s
     else do {
       let s = (if buffer_tail s < STDIN_BUFFER_SIZE then store_char (buffer_tail s) c s else s);
       let s = (if buffer_tail s \<ge> STDIN_BUFFER_SIZE \<and> buffer_head s = buffer_tail s then store_char 0 c s else s);
       if c = 10 then wake_stdin_task s else Some s } }"

text \<open>The loop looks at the entries from \<open>buffer_head\<close> up to \<open>buffer_tail\<close>.\<close>

fun has_line_from :: "nat list \<Rightarrow> u8 list \<Rightarrow> int option" where
  "has_line_from [] buf = Some (-1)"
| "has_line_from (i # is) buf = do { c \<leftarrow> array_get buf i; if c = 10 then Some 1 else has_line_from is buf }"

definition stdin_buffer_has_line :: "'a tty_state_scheme \<Rightarrow> int option" where
  "stdin_buffer_has_line s = has_line_from [unat (buffer_head s)..<unat (buffer_tail s)] (stdin_buffer s)"

text \<open>The loop of \<open>tty_read\<close>: \<open>n\<close> more bytes may be read, \<open>i\<close> have been.\<close>

fun tty_read_loop :: "nat \<Rightarrow> u32 \<Rightarrow> addr \<Rightarrow> 'a tty_state_scheme \<Rightarrow> (u32 \<times> 'a tty_state_scheme) option" where
  "tty_read_loop 0 i out s = Some (i, s)"
| "tty_read_loop (Suc n) i out s =
     (if buffer_head s = buffer_tail s then Some (i, s)
      else do {
        let s = (if buffer_head s \<ge> STDIN_BUFFER_SIZE then s\<lparr>buffer_head := 0\<rparr> else s);
        c \<leftarrow> array_get (stdin_buffer s) (unat (buffer_head s));
        let s = s\<lparr>buffer_head := buffer_head s + 1\<rparr>;
        s \<leftarrow> vstore8 (out + i) c s;
        tty_read_loop n (i + 1) out s })"

definition tty_read :: "addr \<Rightarrow> u32 \<Rightarrow> 'a tty_state_scheme \<Rightarrow> (u32 \<times> 'a tty_state_scheme) option" where
  "tty_read buffer len s = tty_read_loop (unat len) 0 buffer s"

fun vload_bytes :: "nat \<Rightarrow> addr \<Rightarrow> 'a mem_state_scheme \<Rightarrow> u8 list option" where
  "vload_bytes 0 a s = Some []"
| "vload_bytes (Suc n) a s = do { b \<leftarrow> vload8 a s; bs \<leftarrow> vload_bytes n (a + 1) s; Some (b # bs) }"

definition tty_write :: "addr \<Rightarrow> u32 \<Rightarrow> 'a tty_state_scheme \<Rightarrow> 'a tty_state_scheme option" where
  "tty_write buf len s = do { data \<leftarrow> vload_bytes (unat len) buf s; terminal_write data s }"

definition tty_ioctl :: "u32 \<Rightarrow> u32 \<Rightarrow> 'a tty_state_scheme \<Rightarrow> u32 \<times> 'a tty_state_scheme" where
  "tty_ioctl request arg s =
     (1, if request = SET_FLAG_REQUEST then s\<lparr>tty_flags := tty_flags s OR arg\<rparr>
         else if request = CLEAR_FLAG_REQUEST then s\<lparr>tty_flags := tty_flags s AND NOT arg\<rparr>
         else s)"

text \<open>\<open>strlen\<close> of a string in memory; it runs until it finds a zero byte or faults.\<close>

partial_function (option) strlen_from :: "u32 \<Rightarrow> addr \<Rightarrow> 'a mem_state_scheme \<Rightarrow> u32 option" where
  "strlen_from len str s = (case vload8 (str + len) s of
      None \<Rightarrow> None
    | Some b \<Rightarrow> if b \<noteq> 0 then strlen_from (len + 1) str s else Some len)"

definition strlen :: "addr \<Rightarrow> 'a mem_state_scheme \<Rightarrow> u32 option" where
  "strlen str s = strlen_from 0 str s"

section \<open>The buffer as a queue\<close>

text \<open>The buffer has its size and its indices stay in it; the characters not read yet, oldest first.\<close>

definition tty_ok :: "'a tty_state_scheme \<Rightarrow> bool" where
  "tty_ok s \<longleftrightarrow> length (stdin_buffer s) = 4096 \<and> buffer_head s \<le> buffer_tail s \<and> buffer_tail s \<le> STDIN_BUFFER_SIZE"

definition pending :: "'a tty_state_scheme \<Rightarrow> u8 list" where
  "pending s = drop (unat (buffer_head s)) (take (unat (buffer_tail s)) (stdin_buffer s))"

lemma tty_okD:
  assumes "tty_ok s"
  shows "length (stdin_buffer s) = 4096" "unat (buffer_head s) \<le> unat (buffer_tail s)" "unat (buffer_tail s) \<le> 4096"
    "length (pending s) = unat (buffer_tail s) - unat (buffer_head s)"
  using assms by (auto simp: tty_ok_def STDIN_BUFFER_SIZE_def word_le_nat_alt pending_def)

lemma pending_empty: "tty_ok s \<Longrightarrow> pending s = [] \<longleftrightarrow> buffer_head s = buffer_tail s"
  using tty_okD [of s] by (auto simp: length_0_conv [symmetric] word_unat_eq_iff simp del: length_0_conv)

lemma tail_less: "(x :: u32) < STDIN_BUFFER_SIZE \<longleftrightarrow> unat x < 4096"
  by (simp add: STDIN_BUFFER_SIZE_def word_less_nat_alt)

lemma store_char_pending:
  assumes "tty_ok s" and "unat (buffer_tail s) < 4096"
  shows "tty_ok (store_char (buffer_tail s) c s)" "pending (store_char (buffer_tail s) c s) = pending s @ [c]"
    "unat (buffer_tail (store_char (buffer_tail s) c s)) = unat (buffer_tail s) + 1"
proof -
  note k = tty_okD [OF assms(1)]
  have u: "unat (buffer_tail s + 1) = unat (buffer_tail s) + 1" using assms(2) by (intro unat_Suc_u32 [of _ STDIN_BUFFER_SIZE]) (simp add: tail_less)
  show "unat (buffer_tail (store_char (buffer_tail s) c s)) = unat (buffer_tail s) + 1" by (simp add: store_char_def u)
  show "tty_ok (store_char (buffer_tail s) c s)"
    using k assms(2) by (simp add: tty_ok_def store_char_def word_le_nat_alt u STDIN_BUFFER_SIZE_def)
  show "pending (store_char (buffer_tail s) c s) = pending s @ [c]"
    using k assms(2) by (simp add: pending_def store_char_def u take_Suc_conv_app_nth)
qed

text \<open>Waking and storing touch different parts of the state.\<close>

lemma wake_stdin_tty:
  fixes s :: "'a tty_state_scheme"
  assumes "wake_stdin_task s = Some s'"
  shows "stdin_buffer s' = stdin_buffer s" "buffer_head s' = buffer_head s" "buffer_tail s' = buffer_tail s" "awaiting_stdin s' = NULL"
  using assms by (auto simp: wake_stdin_task_def set_status_def upd_task_def bind_Some_iff split: if_splits)

lemma store_char_sched [simp]: "awaiting_stdin (store_char i c s) = awaiting_stdin s" "tasks (store_char i c s) = tasks s"
  "buffer_head (store_char i c s) = buffer_head s" "tty_flags (store_char i c s) = tty_flags s"
  by (simp_all add: store_char_def)

lemma write_plain:
  assumes "tty_ok s" and "awaiting_stdin s \<noteq> NULL" and "tty_flags s AND ECHO_FLAG = 0" and "unat (buffer_tail s) < 4096"
  shows "write_tty_buffer c s = (if c = 10 then wake_stdin_task (store_char (buffer_tail s) c s) else Some (store_char (buffer_tail s) c s))"
proof -
  let ?s = "store_char (buffer_tail s) c s"
  have "unat (buffer_head s) < unat (buffer_tail ?s)"
    using store_char_pending(3) [OF assms(1,4), of c] tty_okD(2) [OF assms(1)] by linarith
  then have "buffer_head s \<noteq> buffer_tail s + 1" by (auto simp: store_char_def)
  then show ?thesis using assms(2-4) by (simp add: write_tty_buffer_def Let_def tail_less store_char_def)
qed

fun type_keys :: "u8 list \<Rightarrow> 'a tty_state_scheme \<Rightarrow> 'a tty_state_scheme option" where
  "type_keys [] s = Some s"
| "type_keys (c # cs) s = do { s \<leftarrow> write_tty_buffer c s; type_keys cs s }"

lemma type_line:
  assumes "tty_ok s" and "awaiting_stdin s = a" and "a \<noteq> NULL" and "tasks s a = Some t" and "tty_flags s AND ECHO_FLAG = 0"
    and "10 \<notin> set cs" and "unat (buffer_tail s) + length cs < 4096"
  shows "\<exists>s'. type_keys (cs @ [10]) s = Some s' \<and> tty_ok s' \<and> pending s' = pending s @ cs @ [10] \<and> awaiting_stdin s' = NULL \<and>
    tasks s' = (tasks s)(a \<mapsto> t\<lparr>status := TASK_READY\<rparr>)"
  using assms
proof (induction cs arbitrary: s)
  case Nil
  let ?s = "store_char (buffer_tail s) 10 s"
  have b: "unat (buffer_tail s) < 4096" using Nil.prems(7) by simp
  note st = store_char_pending [OF Nil.prems(1) b, of 10]
  have w: "wake_stdin_task ?s = Some (?s\<lparr>tasks := (tasks s)(a \<mapsto> t\<lparr>status := TASK_READY\<rparr>), awaiting_stdin := NULL\<rparr>)"
    using Nil.prems(2-4) by (simp add: wake_stdin_task_def set_status_def upd_task_def)
  moreover have "type_keys ([] @ [10]) s = wake_stdin_task ?s"
    using write_plain [OF Nil.prems(1) _ Nil.prems(5) b, of 10] Nil.prems(2,3) w by simp
  ultimately show ?case using st by (auto simp: tty_ok_def pending_def)
next
  case (Cons c cs)
  let ?s = "store_char (buffer_tail s) c s"
  have b: "unat (buffer_tail s) < 4096" using Cons.prems(7) by simp
  note st = store_char_pending [OF Cons.prems(1) b, of c]
  have "write_tty_buffer c s = Some ?s" using write_plain [OF Cons.prems(1) _ Cons.prems(5) b, of c] Cons.prems(2,3,6) by simp
  moreover have "\<exists>s'. type_keys (cs @ [10]) ?s = Some s' \<and> tty_ok s' \<and> pending s' = pending ?s @ cs @ [10] \<and> awaiting_stdin s' = NULL \<and>
      tasks s' = (tasks ?s)(a \<mapsto> t\<lparr>status := TASK_READY\<rparr>)"
    by (rule Cons.IH) (use Cons.prems st in auto)
  ultimately show ?case using st(2) by auto
qed

text \<open>Storing bytes one after the other, as a reader sees it.\<close>

fun vstore_bytes :: "u8 list \<Rightarrow> addr \<Rightarrow> 'a mem_state_scheme \<Rightarrow> 'a mem_state_scheme option" where
  "vstore_bytes [] a s = Some s"
| "vstore_bytes (b # bs) a s = do { s \<leftarrow> vstore8 a b s; vstore_bytes bs (a + 1) s }"

lemma vstore8_head:
  "vstore8 a b (s\<lparr>buffer_head := h\<rparr>) = map_option (\<lambda>s. s\<lparr>buffer_head := h\<rparr>) (vstore8 a b s)"
  by (simp add: vstore8_def map_option_bind comp_def) (cases "translate (phys s) (cr3 s) True a"; simp)

lemma vstore_bytes_head:
  "vstore_bytes bs a (s\<lparr>buffer_head := h\<rparr>) = map_option (\<lambda>s. s\<lparr>buffer_head := h\<rparr>) (vstore_bytes bs a s)"
proof (induction bs arbitrary: a s)
  case (Cons b bs)
  then show ?case by (cases "vstore8 a b s") (simp_all add: vstore8_head)
qed simp

lemma pending_Cons:
  assumes "tty_ok s" and "buffer_head s \<noteq> buffer_tail s"
  shows "unat (buffer_head s) < 4096" "unat (buffer_head s + 1) = unat (buffer_head s) + 1"
    "pending s = stdin_buffer s ! unat (buffer_head s) # pending (s\<lparr>buffer_head := buffer_head s + 1\<rparr>)"
    "tty_ok (s\<lparr>buffer_head := buffer_head s + 1\<rparr>)"
proof -
  note k = tty_okD [OF assms(1)]
  have l: "unat (buffer_head s) < unat (buffer_tail s)" using k(2) assms(2) by (simp add: word_unat_eq_iff)
  then show h: "unat (buffer_head s) < 4096" using k(3) by simp
  show u: "unat (buffer_head s + 1) = unat (buffer_head s) + 1" using h by (intro unat_Suc_u32 [of _ STDIN_BUFFER_SIZE]) (simp add: tail_less)
  show "pending s = stdin_buffer s ! unat (buffer_head s) # pending (s\<lparr>buffer_head := buffer_head s + 1\<rparr>)"
    using k l by (simp add: pending_def u Cons_nth_drop_Suc [symmetric])
  show "tty_ok (s\<lparr>buffer_head := buffer_head s + 1\<rparr>)" using k l by (simp add: tty_ok_def word_le_nat_alt u STDIN_BUFFER_SIZE_def)
qed

text \<open>\<open>tty_read\<close> stores the oldest characters, as many as fit, and takes them out of the buffer.\<close>

lemma tty_read_loop_stores:
  assumes "tty_ok s"
  shows "tty_read_loop n i out s = map_option (\<lambda>s'. (i + of_nat (min n (length (pending s))),
      s'\<lparr>buffer_head := buffer_head s + of_nat (min n (length (pending s)))\<rparr>)) (vstore_bytes (take n (pending s)) (out + i) s)"
  using assms
proof (induction n arbitrary: i s)
  case 0
  then show ?case by simp
next
  case (Suc n)
  show ?case
  proof (cases "buffer_head s = buffer_tail s")
    case True
    then show ?thesis using pending_empty [OF Suc.prems] by simp
  next
    case False
    note p = pending_Cons [OF Suc.prems False]
    let ?c = "stdin_buffer s ! unat (buffer_head s)" and ?s1 = "s\<lparr>buffer_head := buffer_head s + 1\<rparr>"
    have hd: "\<not> buffer_head s \<ge> STDIN_BUFFER_SIZE" using p(1) by (simp add: tail_less [symmetric])
    have a: "array_get (stdin_buffer s) (unat (buffer_head s)) = Some ?c" using p(1) tty_okD(1) [OF Suc.prems] by simp
    show ?thesis
    proof (cases "vstore8 (out + i) ?c s")
      case None
      then show ?thesis using False hd a p(3) by (simp add: Let_def vstore8_head)
    next
      case (Some s2)
      let ?s3 = "s2\<lparr>buffer_head := buffer_head s + 1\<rparr>"
      have k: "stdin_buffer s2 = stdin_buffer s" "buffer_tail s2 = buffer_tail s" using Some by (auto simp: vstore8_def bind_Some_iff)
      have "pending ?s3 = pending ?s1" "tty_ok ?s3" using p(4) by (simp_all add: pending_def tty_ok_def k)
      moreover have "tty_read_loop (Suc n) i out s = tty_read_loop n (i + 1) out ?s3"
        using False hd a Some by (simp add: Let_def vstore8_head)
      ultimately show ?thesis using Suc.IH [of ?s3 "i + 1"] Some p(3)
        by (simp add: vstore_bytes_head option.map_comp comp_def add.assoc add.left_commute)
    qed
  qed
qed

lemma has_line_iff:
  "\<forall>i \<in> set is. i < length buf \<Longrightarrow> has_line_from is buf = Some (if \<exists>i \<in> set is. buf ! i = 10 then 1 else -1)"
  by (induction "is") auto

lemma has_line_pending:
  assumes "tty_ok s"
  shows "stdin_buffer_has_line s = Some (if 10 \<in> set (pending s) then 1 else -1)"
proof -
  note k = tty_okD [OF assms]
  have "pending s = map ((!) (stdin_buffer s)) [unat (buffer_head s)..<unat (buffer_tail s)]"
    using k by (intro nth_equalityI) (simp_all add: pending_def)
  then have "10 \<in> set (pending s) \<longleftrightarrow> (\<exists>i \<in> set [unat (buffer_head s)..<unat (buffer_tail s)]. stdin_buffer s ! i = 10)" by force
  moreover have "\<forall>i \<in> set [unat (buffer_head s)..<unat (buffer_tail s)]. i < length (stdin_buffer s)" using k by auto
  ultimately show ?thesis unfolding stdin_buffer_has_line_def by (simp only: has_line_iff)
qed

section \<open>Properties\<close>

text \<open>
  C25: A line typed while a task waits reaches the reader: after the newline the task is ready again, the buffer has a
  line, and a read of enough bytes stores exactly the characters typed, in order, and leaves the buffer empty.
\<close>

theorem typed_line_is_read:
  assumes "tty_ok s" and "awaiting_stdin s = a" and "a \<noteq> NULL" and "tasks s a = Some t" and "tty_flags s AND ECHO_FLAG = 0"
    and "pending s = []" and "10 \<notin> set cs" and "unat (buffer_tail s) + length cs < 4096" and "length cs < unat len"
  shows "\<exists>s'. type_keys (cs @ [10]) s = Some s' \<and> tasks s' = (tasks s)(a \<mapsto> t\<lparr>status := TASK_READY\<rparr>) \<and> awaiting_stdin s' = NULL \<and>
    stdin_buffer_has_line s' = Some 1 \<and>
    tty_read buffer len s' = map_option (\<lambda>m. (of_nat (Suc (length cs)), m\<lparr>buffer_head := buffer_tail s'\<rparr>)) (vstore_bytes (cs @ [10]) buffer s')"
proof -
  obtain s' where s': "type_keys (cs @ [10]) s = Some s'" "tty_ok s'" "pending s' = cs @ [10]" "awaiting_stdin s' = NULL"
    "tasks s' = (tasks s)(a \<mapsto> t\<lparr>status := TASK_READY\<rparr>)"
    using type_line [OF assms(1-5,7,8)] assms(6) by auto
  have m: "min (unat len) (length (pending s')) = Suc (length cs)" using assms(9) s'(3) by simp
  have "unat (buffer_tail s') - unat (buffer_head s') = Suc (length cs)" using tty_okD(4) [OF s'(2)] s'(3) by simp
  then have "unat (buffer_tail s') = unat (buffer_head s') + Suc (length cs)" by simp
  from arg_cong [OF this, of "of_nat :: nat \<Rightarrow> u32"] have h: "buffer_head s' + of_nat (Suc (length cs)) = buffer_tail s'" by simp
  have "tty_read buffer len s' = map_option (\<lambda>m. (of_nat (Suc (length cs)), m\<lparr>buffer_head := buffer_tail s'\<rparr>)) (vstore_bytes (cs @ [10]) buffer s')"
    using tty_read_loop_stores [OF s'(2), of "unat len" 0 buffer] assms(9) unfolding m h tty_read_def by (simp add: s'(3))
  moreover have "stdin_buffer_has_line s' = Some 1" using has_line_pending [OF s'(2)] s'(3) by simp
  ultimately show ?thesis using s' by blast
qed

section \<open>A buffer that has been used up\<close>

text \<open>
  Reading never moves \<open>buffer_head\<close> from the end of the buffer back to its start before the next character
  has been stored there, and then the search for a line, which runs upwards from \<open>buffer_head\<close>, finds nothing.
\<close>

definition used_up :: "'a tty_state_scheme \<Rightarrow> bool" where
  "used_up s \<longleftrightarrow> buffer_head s = STDIN_BUFFER_SIZE \<and> buffer_tail s \<le> STDIN_BUFFER_SIZE"

lemma used_up_no_line: "used_up s \<Longrightarrow> stdin_buffer_has_line s = Some (-1)"
  by (simp add: used_up_def stdin_buffer_has_line_def word_le_nat_alt)

lemma terminal_write_tty:
  fixes s s' :: "'a tty_state_scheme"
  assumes "terminal_write cs s = Some s'"
  shows "buffer_head s' = buffer_head s" "buffer_tail s' = buffer_tail s" "stdin_buffer s' = stdin_buffer s"
    "awaiting_stdin s' = awaiting_stdin s" "tasks s' = tasks s" "tty_flags s' = tty_flags s"
  using term_more_write [OF assms] by (cases s; cases s'; simp)+

lemma tail_Suc_le: "(x :: u32) < STDIN_BUFFER_SIZE \<Longrightarrow> x + 1 \<le> STDIN_BUFFER_SIZE"
  by (simp add: STDIN_BUFFER_SIZE_def word_le_nat_alt word_less_nat_alt unat_Suc_u32 [of x 4096])

lemma used_up_store: "used_up s \<Longrightarrow> buffer_tail s < STDIN_BUFFER_SIZE \<Longrightarrow> used_up (store_char (buffer_tail s) c s)"
  "used_up s \<Longrightarrow> used_up (store_char 0 c s)"
  by (simp_all add: used_up_def store_char_def tail_Suc_le) (simp add: STDIN_BUFFER_SIZE_def)

lemma used_up_write:
  assumes "used_up s" and "write_tty_buffer c s = Some s'"
  shows "used_up s'"
proof -
  obtain s1 where s1: "(if tty_flags s AND ECHO_FLAG \<noteq> 0 then terminal_write [c] s else Some s) = Some s1"
    and e: "(if awaiting_stdin s1 = NULL then Some s1 else do {
       let s = (if buffer_tail s1 < STDIN_BUFFER_SIZE then store_char (buffer_tail s1) c s1 else s1);
       let s = (if buffer_tail s \<ge> STDIN_BUFFER_SIZE \<and> buffer_head s = buffer_tail s then store_char 0 c s else s);
       if c = 10 then wake_stdin_task s else Some s }) = Some s'"
    using assms(2) unfolding write_tty_buffer_def by (elim bind_SomeE) blast
  have u1: "used_up s1"
    using assms(1) s1 terminal_write_tty(1,2) [of "[c]" s s1] by (auto simp: used_up_def simp del: terminal_write.simps split: if_splits)
  define s2 where "s2 = (if buffer_tail s1 < STDIN_BUFFER_SIZE then store_char (buffer_tail s1) c s1 else s1)"
  define s3 where "s3 = (if buffer_tail s2 \<ge> STDIN_BUFFER_SIZE \<and> buffer_head s2 = buffer_tail s2 then store_char 0 c s2 else s2)"
  have u2: "used_up s2" using u1 used_up_store(1) [OF u1, of c] by (simp add: s2_def)
  then have "used_up s3" using used_up_store(2) [OF u2, of c] by (simp add: s3_def)
  moreover have "s' = s1 \<or> wake_stdin_task s3 = Some s' \<or> s' = s3" using e by (auto simp: s2_def s3_def Let_def split: if_splits)
  ultimately show ?thesis using u1 wake_stdin_tty [of s3 s'] by (auto simp: used_up_def)
qed

lemma used_up_keys: "type_keys cs s = Some s' \<Longrightarrow> used_up s \<Longrightarrow> used_up s'"
  by (induction cs arbitrary: s) (auto elim!: bind_SomeE dest: used_up_write)

section \<open>An example\<close>

text \<open>The four tasks, the second user task waiting for input.\<close>

definition reading :: tty_state where
  "reading = sched_state.extend (four_tasks\<lparr>awaiting_stdin := 4\<rparr>) (tty_state.fields (replicate 4096 0) 0 0 0)"

lemma reading_simps [simp]:
  "tasks reading = tasks four_tasks" "awaiting_stdin reading = 4" "stdin_buffer reading = replicate 4096 0"
  "buffer_head reading = 0" "buffer_tail reading = 0" "tty_flags reading = 0" "current_task reading = 3" "idle_task reading = 1"
  "reaper_task reading = 2" "dead_queue reading = NULL" "quantum_tick reading = 0" "task_total reading = 2"
  by (simp_all add: reading_def four_tasks_def vfs_state.defs sched_state.defs tty_state.defs)

lemma reading_ok: "tty_ok reading" "pending reading = []"
  by (simp_all add: tty_ok_def pending_def STDIN_BUFFER_SIZE_def)

theorem typed_line_is_read_witness:
  "\<exists>s'. type_keys [104, 105, 10] reading = Some s' \<and> stdin_buffer_has_line s' = Some 1 \<and>
     tty_read 0xC0410000 16 s' = map_option (\<lambda>m. (3, m\<lparr>buffer_head := buffer_tail s'\<rparr>)) (vstore_bytes [104, 105, 10] 0xC0410000 s')"
  using typed_line_is_read [OF reading_ok(1), of 4 "plain_task 3 TASK_READY 1" "[104, 105]" 16 "0xC0410000"] reading_ok(2)
  by (auto simp: ECHO_FLAG_def numeral_3_eq_3)

end
