(* ===== verification/Syscalls.thy ===== *)
theory Syscalls
  imports Stdin
begin

text \<open>
  The entry points of the kernel: system calls (\<open>kernel/idt/idt.c\<close>, \<open>kernel/syscall/\<close>), exceptions and the keyboard
  interrupt (\<open>drivers/keyboard.c\<close>). \<open>task_exit\<close> and \<open>await_stdin\<close> do not come back to the handler: they end in the
  registers of another task. The outcome of a handler says which way it ended.
\<close>

section \<open>System calls on files\<close>

text \<open>\<open>current_task->fds[fd]\<close> behind the end of the array is not an object.\<close>

definition fd_file :: "u32 \<Rightarrow> 'a sched_state_scheme \<Rightarrow> file_t option" where
  "fd_file fd s = do {
     t \<leftarrow> tasks s (current_task s);
     p \<leftarrow> array_get (fds t) (unat fd);
     files s p }"

definition call_read :: "read_fn \<Rightarrow> addr \<Rightarrow> u32 \<Rightarrow> 'a tty_state_scheme \<Rightarrow> (u32 \<times> 'a tty_state_scheme) option" where
  "call_read f buffer len s = (case f of tty_read_fn \<Rightarrow> tty_read buffer len s)"

definition call_write :: "write_fn \<Rightarrow> addr \<Rightarrow> u32 \<Rightarrow> 'a tty_state_scheme \<Rightarrow> 'a tty_state_scheme option" where
  "call_write f buffer len s = (case f of tty_write_fn \<Rightarrow> tty_write buffer len s)"

definition call_ioctl :: "ioctl_fn \<Rightarrow> u32 \<Rightarrow> u32 \<Rightarrow> 'a tty_state_scheme \<Rightarrow> u32 \<times> 'a tty_state_scheme" where
  "call_ioctl f request arg s = (case f of tty_ioctl_fn \<Rightarrow> tty_ioctl request arg s)"

definition sys_read :: "u32 \<Rightarrow> addr \<Rightarrow> u32 \<Rightarrow> 'a tty_state_scheme \<Rightarrow> (u32 \<times> 'a tty_state_scheme) option" where
  "sys_read fd buffer len s = do {
     f \<leftarrow> fd_file fd s;
     if f_flags f AND NOT RONLY_FLAG \<noteq> 0 then Some (-1, s)
     else do {
       ops \<leftarrow> ops_heap s (f_ops f);
       (case op_read ops of None \<Rightarrow> Some (-1, s) | Some rd \<Rightarrow> call_read rd buffer len s) } }"

definition sys_write :: "u32 \<Rightarrow> addr \<Rightarrow> u32 \<Rightarrow> 'a tty_state_scheme \<Rightarrow> (u32 \<times> 'a tty_state_scheme) option" where
  "sys_write fd buffer len s = do {
     f \<leftarrow> fd_file fd s;
     if f_flags f AND NOT WONLY_FLAG \<noteq> 0 then Some (-1, s)
     else do {
       ops \<leftarrow> ops_heap s (f_ops f);
       (case op_write ops of None \<Rightarrow> Some (-1, s)
        | Some wr \<Rightarrow> do { s \<leftarrow> call_write wr buffer len s; n \<leftarrow> strlen buffer s; Some (n, s) }) } }"

definition sys_ioctl :: "u32 \<Rightarrow> u32 \<Rightarrow> u32 \<Rightarrow> 'a tty_state_scheme \<Rightarrow> (u32 \<times> 'a tty_state_scheme) option" where
  "sys_ioctl fd request arg s = do {
     f \<leftarrow> fd_file fd s;
     ops \<leftarrow> ops_heap s (f_ops f);
     (case op_ioctl ops of None \<Rightarrow> Some (-1, s) | Some io \<Rightarrow> Some (call_ioctl io request arg s)) }"

section \<open>Dispatch\<close>

definition SYS_EXIT :: u32 where "SYS_EXIT = 1"
definition SYS_READ :: u32 where "SYS_READ = 3"
definition SYS_WRITE :: u32 where "SYS_WRITE = 4"
definition SYS_MMAP :: u32 where "SYS_MMAP = 9"
definition SYS_IOCTL :: u32 where "SYS_IOCTL = 54"
definition SYS_MUNMAP :: u32 where "SYS_MUNMAP = 91"

text \<open>
  How a handler ends: it returns to the interrupted task with these registers, another task has the processor, or
  the processor has stopped.
\<close>

datatype 's outcome = Returns cpu_task_state 's | Switched 's | Stopped 's

definition returns :: "cpu_task_state \<Rightarrow> (u32 \<times> 's) option \<Rightarrow> 's outcome option" where
  "returns state r = do { (v, s) \<leftarrow> r; Some (Returns (state\<lparr>ctx_eax := v\<rparr>) s) }"

definition current_cr3 :: "'a sched_state_scheme \<Rightarrow> addr option" where
  "current_cr3 s = map_option t_cr3 (tasks s (current_task s))"

definition syscall_handler :: "addr \<Rightarrow> cpu_task_state \<Rightarrow> 'a tty_state_scheme \<Rightarrow> 'a tty_state_scheme outcome option" where
  "syscall_handler frame state s = (
     let eax = ctx_eax state; ebx = ctx_ebx state; ecx = ctx_ecx state; edx = ctx_edx state in
     if eax = SYS_EXIT then do { s \<leftarrow> task_exit s; Some (Switched s) }
     else if eax = SYS_READ then do {
       has_line \<leftarrow> stdin_buffer_has_line s;
       if has_line < 1 then do { s \<leftarrow> await_stdin frame state s; Some (Switched s) }
       else returns state (sys_read ebx ecx edx s) }
     else if eax = SYS_WRITE then returns state (sys_write ebx ecx edx s)
     else if eax = SYS_MMAP then do { pd \<leftarrow> current_cr3 s; returns state (sys_mmap pd ecx s) }
     else if eax = SYS_IOCTL then returns state (sys_ioctl ebx ecx edx s)
     else if eax = SYS_MUNMAP then do { pd \<leftarrow> current_cr3 s; returns state (sys_munmap pd ebx ecx s) }
     else if eax = 2 then do { s \<leftarrow> terminal_writestring ''test syscall executed\<newline>'' s; Some (Returns state s) }
     else Some (Returns state s))"

text \<open>The exception and error code the stub has pushed; the registers stay as they are.\<close>

definition exception_handler :: "u32 \<Rightarrow> u32 \<Rightarrow> cpu_task_state \<Rightarrow> 'a sched_state_scheme \<Rightarrow> 'a sched_state_scheme outcome option" where
  "exception_handler exception_code error_code state s =
     (if exception_code = 0 then do { s \<leftarrow> terminal_writestring ''Divided by 0!\<newline>'' s; Some (Returns state s) }
      else if exception_code = 14 then do {
        s \<leftarrow> terminal_writestring ''Page Fault!\<newline>'' s;
        let s = debug_write (cstr ''Page Fault!\<newline>'') s;
        if drop_bit 2 error_code = 1 then do {
          s \<leftarrow> terminal_writestring ''Terminating userspace process...\<newline>'' s;
          s \<leftarrow> task_exit s;
          Some (Switched s) }
        else do {
          s \<leftarrow> terminal_writestring ''Kernel crash\<newline>'' s;
          Some (Stopped (disable_interrupts s)) } }
      else do {
        s \<leftarrow> terminal_writestring ''Exception handler called without error num\<newline>'' s;
        Some (Returns state s) })"

section \<open>The keyboard\<close>

text \<open>The strings of \<open>scancodes\<close>, by their first character; a null pointer is \<open>None\<close>.\<close>

definition scancodes :: "u8 option list" where
  "scancodes = replicate 16 None @ map (Some \<circ> of_char) ''qwertyuiop'' @ [None, None, Some 10, None] @
     map (Some \<circ> of_char) ''asdfghjkl'' @ replicate 5 None @ map (Some \<circ> of_char) ''zxcvbnm,'' @
     replicate 5 None @ [Some 32]"

definition keyboard_interrupt_handler :: "u8 \<Rightarrow> 'a tty_state_scheme \<Rightarrow> 'a tty_state_scheme option" where
  "keyboard_interrupt_handler scancode s =
     (if scancode AND 0x80 = 0 then do {
        entry \<leftarrow> array_get scancodes (unat scancode);
        c \<leftarrow> entry;
        if c = of_char CHR ''t'' then do {
          s \<leftarrow> enqueue_task NULL RING3_TASK s;
          Some (pic_send_eoi 1 s) }
        else do {
          s \<leftarrow> write_tty_buffer c s;
          Some (pic_send_eoi 1 s) } }
      else Some (pic_send_eoi 1 s))"

section \<open>Properties\<close>

text \<open>
  Once 4096 characters have been read, no read ever returns again: whatever is typed, the next read system call finds no line
  and puts its task to sleep.
\<close>

theorem used_up_buffer_blocks_readers:
  assumes "used_up s" and "type_keys cs s = Some s'" and "ctx_eax state = SYS_READ"
  shows "used_up s' \<and> syscall_handler frame state s' = map_option Switched (await_stdin frame state s')"
proof -
  have u: "used_up s'" by (rule used_up_keys [OF assms(2,1)])
  have "syscall_handler frame state s' = map_option Switched (await_stdin frame state s')"
    using used_up_no_line [OF u] assms(3) by (cases "await_stdin frame state s'") (simp_all add: syscall_handler_def SYS_READ_def SYS_EXIT_def)
  with u show ?thesis ..
qed

text \<open>A file opened for writing only passes the check of \<open>sys_read\<close>.\<close>

lemma write_only_files_are_readable:
  assumes "fd_file fd s = Some f" and "f_flags f = ucast (ucast WONLY_FLAG :: u8)" and "ops_heap s (f_ops f) = Some ops"
    and "op_read ops = Some tty_read_fn"
  shows "sys_read fd buffer len s = tty_read buffer len s"
  using assms by (simp add: sys_read_def call_read_def WONLY_FLAG_def)

text \<open>Messages on the screen do not reach the scheduler.\<close>

lemma writestring_sched:
  fixes s :: "'a sched_state_scheme"
  assumes ok: "sched_ok b s xs ds" and tm: "term_ok (Suc n) s" and ms: "message str"
  obtains s' where "terminal_writestring str s = Some s'" "sched_ok b s' xs ds" "term_ok n s'" "current_task s' = current_task s"
    "idle_task s' = idle_task s" "reaper_task s' = reaper_task s"
proof -
  obtain s' where s': "terminal_writestring str s = Some s'" "off_screen s' = off_screen s" "term_ok n s'" using terminal_message_ok [OF tm ms] by blast
  have "term_state.more s' = term_state.more s" by (rule off_screenD(6) [OF s'(2)])
  then have k: "tasks s' = tasks s" "current_task s' = current_task s" "dead_queue s' = dead_queue s" "idle_task s' = idle_task s"
    "reaper_task s' = reaper_task s" "awaiting_stdin s' = awaiting_stdin s" "quantum_tick s' = quantum_tick s"
    by (cases s; cases s'; simp)+
  have "sched_ok b s' xs ds" by (rule sched_ok_cong [OF ok k(1-6)]) (use sched_okD(10) [OF ok] k(7) in simp)
  then show thesis using that s'(1,3) k by blast
qed

lemma debug_write_sched:
  fixes s :: "'a sched_state_scheme"
  assumes ok: "sched_ok b s xs ds"
  shows "sched_ok b (debug_write cs s) xs ds" "term_ok n (debug_write cs s) = term_ok n s" "current_task (debug_write cs s) = current_task s"
    "idle_task (debug_write cs s) = idle_task s" "reaper_task (debug_write cs s) = reaper_task s"
proof -
  have m: "io_state.more (debug_write cs s) = io_state.more s"
    by (induction cs arbitrary: s) (auto simp: debug_putc_def outb_def)
  then have k: "tasks (debug_write cs s) = tasks s" "current_task (debug_write cs s) = current_task s" "dead_queue (debug_write cs s) = dead_queue s"
    "idle_task (debug_write cs s) = idle_task s" "reaper_task (debug_write cs s) = reaper_task s"
    "awaiting_stdin (debug_write cs s) = awaiting_stdin s" "quantum_tick (debug_write cs s) = quantum_tick s"
    by (cases s; cases "debug_write cs s"; simp)+
  show "sched_ok b (debug_write cs s) xs ds" by (rule sched_ok_cong [OF ok k(1-6)]) (use sched_okD(10) [OF ok] k(7) in simp)
  have "same_screen s (debug_write cs s)" unfolding same_screen_def using m by (cases s; cases "debug_write cs s") simp
  then show "term_ok n (debug_write cs s) = term_ok n s" by (rule same_screen_room(2))
  show "current_task (debug_write cs s) = current_task s"
    "idle_task (debug_write cs s) = idle_task s" "reaper_task (debug_write cs s) = reaper_task s" by (simp_all add: k)
qed

lemma fault_messages: "message ''Page Fault!\<newline>''" "message ''Terminating userspace process...\<newline>''"
  by (simp_all add: message_def cstr_def)

text \<open>
  C26: A page fault of a user program (exception 14 with an error code that is 1 from bit 2 on) ends that program only: its
  task moves to the end of the dead queue, exactly the other tasks stay in the ring, one of them gets the processor, and the
  scheduler stays well formed and able to go on. The idle task must be able to run, the task must be neither the idle task nor the
  reaper, and the screen must have room for the two lines the handler prints. The other exceptions return to the program.
\<close>

theorem user_fault_ends_task:
  assumes "sched_ok True s xs ds" and "term_ok 2 s" and "drop_bit 2 error_code = 1"
    and "current_task s \<noteq> idle_task s" and "current_task s \<noteq> reaper_task s"
  shows "\<exists>s' ys. exception_handler 14 error_code state s = Some (Switched s') \<and> sched_ok True s' ys (ds @ [current_task s]) \<and>
    set ys = set xs - {current_task s}"
proof -
  have "term_ok (Suc 1) s" using assms(2) by (simp add: numeral_2_eq_2)
  note w = writestring_sched [OF assms(1) this fault_messages(1)]
  obtain s1 where s1: "terminal_writestring ''Page Fault!\<newline>'' s = Some s1" "sched_ok True s1 xs ds" "term_ok 1 s1" "current_task s1 = current_task s"
    "idle_task s1 = idle_task s" "reaper_task s1 = reaper_task s" by (rule w)
  note d = debug_write_sched [OF s1(2), where cs = "cstr ''Page Fault!\<newline>''"]
  have t: "term_ok (Suc 0) (debug_write (cstr ''Page Fault!\<newline>'') s1)" using d(2) s1(3) by simp
  obtain s2 where s2: "terminal_writestring ''Terminating userspace process...\<newline>'' (debug_write (cstr ''Page Fault!\<newline>'') s1) = Some s2"
    "sched_ok True s2 xs ds" "current_task s2 = current_task s" "idle_task s2 = idle_task s" "reaper_task s2 = reaper_task s"
    by (rule writestring_sched [OF d(1) t fault_messages(2)]) (use s1 d in simp)
  from sched_ok_exit [OF s2(2)] obtain s3 ys where "task_exit s2 = Some s3" "sched_ok True s3 ys (ds @ [current_task s])"
    "set ys = set xs - {current_task s}"
    using assms(4,5) s2(3-5) by auto
  with s1(1) s2(1) assms(3) show ?thesis by (auto simp: exception_handler_def)
qed

section \<open>Witnesses\<close>

theorem used_up_buffer_blocks_readers_witness:
  "\<exists>s'. type_keys [104, 10] (reading\<lparr>buffer_head := 4096, buffer_tail := 4096\<rparr>) = Some s' \<and>
     syscall_handler 0 (plain_ctx\<lparr>ctx_eax := 3\<rparr>) s' = map_option Switched (await_stdin 0 (plain_ctx\<lparr>ctx_eax := 3\<rparr>) s')"
proof -
  let ?s = "reading\<lparr>buffer_head := 4096, buffer_tail := 4096\<rparr>"
  have u: "used_up ?s" by (simp add: used_up_def STDIN_BUFFER_SIZE_def)
  obtain s' where s': "type_keys [104, 10] ?s = Some s'"
    by (simp add: write_tty_buffer_def ECHO_FLAG_def STDIN_BUFFER_SIZE_def store_char_def wake_stdin_task_def set_status_def upd_task_def)
  have "ctx_eax (plain_ctx\<lparr>ctx_eax := 3\<rparr>) = SYS_READ" by (simp add: SYS_READ_def)
  from used_up_buffer_blocks_readers [OF u s' this] s' show ?thesis by blast
qed

theorem user_fault_ends_task_witness:
  "\<exists>s' ys. exception_handler 14 7 plain_ctx four_tasks = Some (Switched s') \<and> sched_ok True s' ys [3] \<and> set ys = {4, 1, 2}"
proof -
  have "same_screen booted four_tasks"
    by (simp add: same_screen_def four_tasks_def vfs_state.defs sched_state.defs boot_vfs_def slab_state.defs boot_slab_def cpu_state.defs boot_cpu_def mem_state.defs)
  then have "term_ok 2 four_tasks" using booted_ok [of 2] by (simp add: same_screen_room(2))
  from user_fault_ends_task [OF sched_ok_four_tasks this, of 7 plain_ctx] show ?thesis by simp
qed

end
