(* ===== verification/Disk.thy ===== *)
theory Disk
  imports Terminal
begin

text \<open>
  The disk driver of \<open>kernel/filesystem/disk.c\<close>. The controller is not part of the kernel: its four port
  operations are arguments of the driver's functions. What the driver relies on is the contract \<open>ata_device\<close>: seen
  through a view, the controller does what the programmed I/O protocol of the ATA standard says, with delays of
  any finite length. It says nothing of a command given to a busy drive, which the standard leaves open. \<open>disk_write\<close> gives one, the
  cache flush right after the last word, so that it returns in order is proved for drives that are not busy then, the
  contract \<open>ata_prompt_device\<close>. The proofs about the driver are done once in these locales.

  The driver polls a status register; a controller that stays busy for ever gives \<open>None\<close>. A buffer is the list of
  its words, or bytes; the callers put it in memory.
\<close>

section \<open>The driver\<close>

record 'd ata_ports =
  port_in8 :: "u16 \<Rightarrow> 'd \<Rightarrow> u8 \<times> 'd"
  port_in16 :: "u16 \<Rightarrow> 'd \<Rightarrow> u16 \<times> 'd"
  port_out8 :: "u16 \<Rightarrow> u8 \<Rightarrow> 'd \<Rightarrow> 'd"
  port_out16 :: "u16 \<Rightarrow> u16 \<Rightarrow> 'd \<Rightarrow> 'd"

definition MASTER :: u8 where "MASTER = 0xA0"
definition BASE :: u16 where "BASE = 0x1F0"
definition SECTOR_COUNT_REGISTER :: u16 where "SECTOR_COUNT_REGISTER = BASE + 2"
definition LBA_LO :: u16 where "LBA_LO = BASE + 3"
definition LBA_MID :: u16 where "LBA_MID = BASE + 4"
definition LBA_HI :: u16 where "LBA_HI = BASE + 5"
definition DRIVE_REGISTER :: u16 where "DRIVE_REGISTER = BASE + 6"
definition STATUS_COMMAND_REGISTER :: u16 where "STATUS_COMMAND_REGISTER = BASE + 7"
definition CMD_IDENTIFY :: u8 where "CMD_IDENTIFY = 0xEC"
definition CMD_READ :: u8 where "CMD_READ = 0x20"
definition CMD_WRITE :: u8 where "CMD_WRITE = 0x30"
definition CMD_CACHE_FLUSH :: u8 where "CMD_CACHE_FLUSH = 0xE7"
definition ERR_STATUS :: u8 where "ERR_STATUS = 0x01"
definition BSY_STATUS :: u8 where "BSY_STATUS = 0x80"
definition DRQ_STATUS :: u8 where "DRQ_STATUS = 0x08"

partial_function (option) wait_bsy :: "('d, 'z) ata_ports_scheme \<Rightarrow> 'd \<Rightarrow> 'd option" where
  "wait_bsy dev d = (case port_in8 dev STATUS_COMMAND_REGISTER d of (st, d) \<Rightarrow>
     if st AND BSY_STATUS \<noteq> 0 then wait_bsy dev d else Some d)"

partial_function (option) wait_drq :: "('d, 'z) ata_ports_scheme \<Rightarrow> 'd \<Rightarrow> 'd option" where
  "wait_drq dev d = (case port_in8 dev STATUS_COMMAND_REGISTER d of (st, d) \<Rightarrow>
     if st AND DRQ_STATUS = 0 then wait_drq dev d else Some d)"

fun in_words :: "('d, 'z) ata_ports_scheme \<Rightarrow> nat \<Rightarrow> 'd \<Rightarrow> u16 list \<times> 'd" where
  "in_words dev 0 d = ([], d)"
| "in_words dev (Suc n) d = (case port_in16 dev BASE d of (w, d) \<Rightarrow>
     case in_words dev n d of (ws, d) \<Rightarrow> (w # ws, d))"

fun out_words :: "('d, 'z) ata_ports_scheme \<Rightarrow> u16 list \<Rightarrow> 'd \<Rightarrow> 'd" where
  "out_words dev [] d = d"
| "out_words dev (w # ws) d = out_words dev ws (port_out16 dev BASE w d)"

text \<open>
  The loop of \<open>init_disk\<close> that waits for the identification. The result is the value the function returns when it
  ends here, or nothing.
\<close>

partial_function (option) identify_wait :: "('d, 'z) ata_ports_scheme \<Rightarrow> 'd \<Rightarrow> (bool \<times> 'd) option" where
  "identify_wait dev d = (case port_in8 dev STATUS_COMMAND_REGISTER d of (st, d) \<Rightarrow>
     if st AND ERR_STATUS \<noteq> 0 then Some (False, d)
     else if st AND DRQ_STATUS \<noteq> 0 then Some (True, d)
     else identify_wait dev d)"

definition init_disk :: "('d, 'z) ata_ports_scheme \<Rightarrow> 'd \<Rightarrow> 'a term_state_scheme \<Rightarrow> (int \<times> 'd \<times> 'a term_state_scheme) option" where
  "init_disk dev d s = do {
     let d = port_out8 dev DRIVE_REGISTER MASTER d;
     let d = port_out8 dev SECTOR_COUNT_REGISTER 0 d;
     let d = port_out8 dev LBA_LO 0 d;
     let d = port_out8 dev LBA_MID 0 d;
     let d = port_out8 dev LBA_HI 0 d;
     let d = port_out8 dev STATUS_COMMAND_REGISTER CMD_IDENTIFY d;
     let (st, d) = port_in8 dev STATUS_COMMAND_REGISTER d;
     if st = 0 then do {
       s \<leftarrow> terminal_writestring ''No device found :(\<newline>'' s;
       Some (-1, d, s) }
     else do {
       d \<leftarrow> wait_bsy dev d;
       (found, d) \<leftarrow> identify_wait dev d;
       if \<not> found then do {
         s \<leftarrow> terminal_writestring ''IDENTIFY error \<newline>'' s;
         Some (-1, d, s) }
       else do {
         s \<leftarrow> terminal_writestring ''Master device found!\<newline>'' s;
         let (identify, d) = in_words dev 256 d;
         Some (1, d, s) } } }"

text \<open>Selecting sectors and giving a command, as \<open>disk_read\<close> and \<open>disk_write\<close> begin.\<close>

definition ata_command :: "('d, 'z) ata_ports_scheme \<Rightarrow> u32 \<Rightarrow> u32 \<Rightarrow> u8 \<Rightarrow> 'd \<Rightarrow> 'd option" where
  "ata_command dev lba sectors cmd d = do {
     d \<leftarrow> wait_bsy dev d;
     let d = port_out8 dev DRIVE_REGISTER (0xE0 OR ucast (drop_bit 24 lba AND 0x0F)) d;
     let d = port_out8 dev SECTOR_COUNT_REGISTER (ucast sectors) d;
     let d = port_out8 dev LBA_LO (ucast lba) d;
     let d = port_out8 dev LBA_MID (ucast (drop_bit 8 lba)) d;
     let d = port_out8 dev LBA_HI (ucast (drop_bit 16 lba)) d;
     let d = port_out8 dev STATUS_COMMAND_REGISTER cmd d;
     d \<leftarrow> wait_bsy dev d;
     wait_drq dev d }"

fun read_sectors :: "('d, 'z) ata_ports_scheme \<Rightarrow> nat \<Rightarrow> 'd \<Rightarrow> (u16 list \<times> 'd) option" where
  "read_sectors dev 0 d = Some ([], d)"
| "read_sectors dev (Suc n) d = do {
     d \<leftarrow> wait_bsy dev d;
     d \<leftarrow> wait_drq dev d;
     let (ws, d) = in_words dev 256 d;
     (rest, d) \<leftarrow> read_sectors dev n d;
     Some (ws @ rest, d) }"

definition disk_read :: "('d, 'z) ata_ports_scheme \<Rightarrow> u32 \<Rightarrow> u32 \<Rightarrow> 'd \<Rightarrow> (u16 list \<times> 'd) option" where
  "disk_read dev lba sectors d = do {
     d \<leftarrow> ata_command dev lba sectors CMD_READ d;
     read_sectors dev (unat sectors) d }"

fun write_sectors :: "('d, 'z) ata_ports_scheme \<Rightarrow> nat \<Rightarrow> u16 list \<Rightarrow> 'd \<Rightarrow> 'd option" where
  "write_sectors dev 0 ws d = Some d"
| "write_sectors dev (Suc n) ws d = do {
     d \<leftarrow> wait_bsy dev d;
     d \<leftarrow> wait_drq dev d;
     let d = out_words dev (take 256 ws) d;
     write_sectors dev n (drop 256 ws) d }"

text \<open>The buffer is read as 16-bit words, low byte first.\<close>

fun words_of :: "u8 list \<Rightarrow> u16 list" where
  "words_of (a # b # bs) = (ucast a OR push_bit 8 (ucast b)) # words_of bs"
| "words_of _ = []"

definition bytes_of :: "u16 list \<Rightarrow> u8 list" where
  "bytes_of ws = concat (map (\<lambda>w. [ucast w, ucast (drop_bit 8 w)]) ws)"

definition disk_write :: "('d, 'z) ata_ports_scheme \<Rightarrow> u32 \<Rightarrow> u32 \<Rightarrow> u8 list \<Rightarrow> 'd \<Rightarrow> 'd option" where
  "disk_write dev lba sectors buffer d = (
     if length buffer < 512 * unat sectors then None
     else do {
       d \<leftarrow> ata_command dev lba sectors CMD_WRITE d;
       d \<leftarrow> write_sectors dev (unat sectors) (words_of buffer) d;
       let d = port_out8 dev STATUS_COMMAND_REGISTER CMD_CACHE_FLUSH d;
       wait_bsy dev d })"


section \<open>The controller's protocol\<close>

text \<open>
  What the ATA standard says of the registers the driver uses, for the master drive in LBA mode: a read or write
  command of \<open>n\<close> sectors makes the data register hand out, or take, the words of one sector after the other. A sector
  count of 0 stands for 256, and a command that reaches past the end of the drive is refused: the drive asks for
  no data.
\<close>

datatype ata_phase =
    Idle
  | Reading nat nat nat
  | Writing nat nat nat

record ata =
  a_drive :: u8
  a_count :: u8
  a_lo :: u8
  a_mid :: u8
  a_hi :: u8
  a_phase :: ata_phase
  a_size :: nat
  a_disk :: "nat \<Rightarrow> nat \<Rightarrow> u16"

definition ata_select :: "u16 \<Rightarrow> u8 \<Rightarrow> ata \<Rightarrow> ata" where
  "ata_select p v a = (
     if p = DRIVE_REGISTER then a\<lparr>a_drive := v\<rparr>
     else if p = SECTOR_COUNT_REGISTER then a\<lparr>a_count := v\<rparr>
     else if p = LBA_LO then a\<lparr>a_lo := v\<rparr>
     else if p = LBA_MID then a\<lparr>a_mid := v\<rparr>
     else if p = LBA_HI then a\<lparr>a_hi := v\<rparr>
     else a)"

definition ata_lba :: "ata \<Rightarrow> nat" where
  "ata_lba a = unat (a_lo a) + 2 ^ 8 * unat (a_mid a) + 2 ^ 16 * unat (a_hi a) + 2 ^ 24 * unat (a_drive a AND 0x0F)"

definition ata_length :: "ata \<Rightarrow> nat" where
  "ata_length a = (if a_count a = 0 then 256 else unat (a_count a))"

definition ata_start :: "u8 \<Rightarrow> ata \<Rightarrow> ata" where
  "ata_start cmd a = (
     if ata_lba a + ata_length a \<le> a_size a \<and> cmd = CMD_READ then a\<lparr>a_phase := Reading (ata_lba a) (ata_length a) 0\<rparr>
     else if ata_lba a + ata_length a \<le> a_size a \<and> cmd = CMD_WRITE then a\<lparr>a_phase := Writing (ata_lba a) (ata_length a) 0\<rparr>
     else a\<lparr>a_phase := Idle\<rparr>)"

fun ata_next :: "ata_phase \<Rightarrow> ata_phase" where
  "ata_next Idle = Idle"
| "ata_next (Reading l n i) = (
     if i < 255 then Reading l n (i + 1) else if n \<le> 1 then Idle else Reading (l + 1) (n - 1) 0)"
| "ata_next (Writing l n i) = (
     if i < 255 then Writing l n (i + 1) else if n \<le> 1 then Idle else Writing (l + 1) (n - 1) 0)"

definition ata_take :: "ata \<Rightarrow> ata" where
  "ata_take a = a\<lparr>a_phase := ata_next (a_phase a)\<rparr>"

definition ata_put :: "u16 \<Rightarrow> ata \<Rightarrow> ata" where
  "ata_put w a = (case a_phase a of
     Writing l n i \<Rightarrow> a\<lparr>a_phase := ata_next (a_phase a), a_disk := (a_disk a)(l := (a_disk a l)(i := w))\<rparr>
   | _ \<Rightarrow> a)"

definition lba_mode :: "ata \<Rightarrow> bool" where
  "lba_mode a \<longleftrightarrow> a_drive a AND 0xF0 = 0xE0"

text \<open>Words put into a sector from a position on.\<close>

fun fill_from :: "nat \<Rightarrow> u16 list \<Rightarrow> (nat \<Rightarrow> u16) \<Rightarrow> nat \<Rightarrow> u16" where
  "fill_from i [] f = f"
| "fill_from i (w # ws) f = fill_from (i + 1) ws (f(i := w))"

lemma fill_from_apply: "fill_from i ws f j = (if i \<le> j \<and> j < i + length ws then ws ! (j - i) else f j)"
  by (induction ws arbitrary: i f) (auto simp: nth_Cons')

lemma map_fill_sector: "length ws = 256 \<Longrightarrow> map (fill_from 0 ws f) [0..<256] = ws"
  by (rule nth_equalityI) (simp_all add: fill_from_apply)

text \<open>The words and the bytes of a sector; a drive at rest.\<close>

definition sector_words :: "ata \<Rightarrow> nat \<Rightarrow> u16 list" where
  "sector_words a l = map (a_disk a l) [0..<256]"

definition sector :: "ata \<Rightarrow> nat \<Rightarrow> u8 list" where
  "sector a l = bytes_of (sector_words a l)"

definition at_rest :: "ata \<Rightarrow> bool" where
  "at_rest a \<longleftrightarrow> a_phase a = Idle \<and> a_size a \<le> 2 ^ 28"

lemma lba_split: "unat (ucast x :: u8) + 2 ^ 8 * unat (ucast (drop_bit 8 x) :: u8) + 2 ^ 16 * unat (ucast (drop_bit 16 x) :: u8) +
    2 ^ 24 * unat ((0xE0 OR ucast (drop_bit 24 x AND 0x0F)) AND 0x0F :: u8) = unat (x :: u32) mod 2 ^ 28"
proof -
  have lo: "((0xE0 OR ucast (drop_bit 24 x AND 0x0F)) AND 0x0F :: u8) = ucast (take_bit 4 (drop_bit 24 x))"
    by (rule bit_word_eqI) (auto simp: bit_simps numeral_eq_Suc less_Suc_eq)
  have u: "unat (ucast y :: u8) = unat y mod 256" for y :: u32
    by (simp add: unsigned_ucast_eq take_bit_eq_mod)
  have b: "unat (ucast (take_bit 4 y) :: u8) = unat y mod 16" for y :: u32
    unfolding u unsigned_take_bit_eq by (simp add: take_bit_eq_mod mod_mod_cancel)
  have "n mod 2 ^ 28 = n mod 256 + 256 * (n div 256 mod 256 + 256 * (n div 65536 mod 256 + 256 * (n div 16777216 mod 16)))" for n :: nat
    using mod_mult2_eq [of n 256 "2 ^ 20"] mod_mult2_eq [of "n div 256" 256 "2 ^ 12"] mod_mult2_eq [of "n div 65536" 256 16]
    by (simp flip: div_mult2_eq)
  then show ?thesis unfolding lo b unfolding u unat_drop_bit_u32 by simp
qed

lemma lba_mode_drive: "a_drive a = 0xE0 OR ucast (x AND 0x0F :: u32) \<Longrightarrow> lba_mode a"
  unfolding lba_mode_def by (auto intro!: bit_word_eqI simp: bit_simps numeral_eq_Suc less_Suc_eq)

lemma sector_count:
  assumes "a_count a = ucast n" and "1 \<le> unat n" and "unat (n :: u32) \<le> 256"
  shows "ata_length a = unat n"
proof -
  have "unat (ucast n :: u8) = unat n mod 256" by (simp add: unsigned_ucast_eq take_bit_eq_mod)
  with assms(2,3) show ?thesis unfolding ata_length_def assms(1) by (cases "unat n = 256") (auto simp: unat_eq_0)
qed

lemmas register_defs = BASE_def SECTOR_COUNT_REGISTER_def LBA_LO_def LBA_MID_def LBA_HI_def DRIVE_REGISTER_def STATUS_COMMAND_REGISTER_def

lemma bytes_of_simps [simp]:
  "bytes_of [] = []"
  "bytes_of (w # ws) = ucast w # ucast (drop_bit 8 w) # bytes_of ws"
  "bytes_of (us @ ws) = bytes_of us @ bytes_of ws"
  by (simp_all add: bytes_of_def)

lemma length_bytes_of [simp]: "length (bytes_of ws) = 2 * length ws"
  by (induction ws) auto

lemma length_words_of [simp]: "length (words_of bs) = length bs div 2"
  by (induction bs rule: words_of.induct) auto

lemma bytes_of_words_of: "even (length bs) \<Longrightarrow> bytes_of (words_of bs) = bs"
proof (induction bs rule: words_of.induct)
  case (1 a b bs)
  have "ucast (ucast a OR push_bit 8 (ucast b) :: u16) = a" "ucast (drop_bit 8 (ucast a OR push_bit 8 (ucast b) :: u16)) = b"
    by (rule bit_word_eqI; auto simp: bit_simps dest: bit_imp_le_length)+
  with 1 show ?case by simp
qed auto

lemma words_of_take: "words_of (take (2 * n) bs) = take n (words_of bs)"
proof (induction bs arbitrary: n rule: words_of.induct)
  case (1 a b bs)
  then show ?case by (cases n) simp_all
qed (case_tac n; simp)+

lemma words_of_drop: "words_of (drop (2 * n) bs) = drop n (words_of bs)"
proof (induction bs arbitrary: n rule: words_of.induct)
  case (1 a b bs)
  then show ?case by (cases n) simp_all
qed (case_tac n; simp)+

lemma bytes_of_chunk:
  assumes "512 * n \<le> length bs" and "k < n"
  shows "bytes_of (take 256 (drop (256 * k) (words_of bs))) = take 512 (drop (512 * k) bs)"
proof -
  have "take 256 (drop (256 * k) (words_of bs)) = words_of (take 512 (drop (512 * k) bs))"
    using words_of_take [of 256] words_of_drop [of "256 * k" bs] by simp
  moreover have "length (take 512 (drop (512 * k) bs)) = 512" using assms mult_le_mono2 [of "Suc k" n 512] by simp
  ultimately show ?thesis by (simp add: bytes_of_words_of)
qed

lemma bytes_of_concat: "bytes_of (concat wss) = concat (map bytes_of wss)"
  by (induction wss) auto

lemma length_sector [simp]: "length (sector a l) = 512"
  by (simp add: sector_def sector_words_def)

text \<open>The sectors a run of words goes to.\<close>

fun put_sectors :: "nat \<Rightarrow> nat \<Rightarrow> u16 list \<Rightarrow> (nat \<Rightarrow> nat \<Rightarrow> u16) \<Rightarrow> nat \<Rightarrow> nat \<Rightarrow> u16" where
  "put_sectors l 0 ws f = f"
| "put_sectors l (Suc n) ws f = put_sectors (Suc l) n (drop 256 ws) (f(l := fill_from 0 (take 256 ws) (f l)))"

lemma put_sectors_words:
  "256 * n \<le> length ws \<Longrightarrow> map (put_sectors l n ws f k) [0..<256] =
    (if l \<le> k \<and> k < l + n then take 256 (drop (256 * (k - l)) ws) else map (f k) [0..<256])"
proof (induction n arbitrary: l ws f)
  case (Suc n)
  have "256 * (k - l) = 256 + 256 * (k - Suc l)" if "Suc l \<le> k" using that by simp
  then show ?case using Suc by (auto simp: map_fill_sector drop_drop ac_simps not_le less_Suc_eq)
qed auto

text \<open>
  The contract. The controller's state is seen through \<open>view\<close>; \<open>delay\<close> is how often the status register will still
  say busy. It may grow by any amount at a command and at the end of a sector, and only there. Registers, data and commands are
  only spoken of while the drive is not busy; the commands are those the driver gives for sectors.
\<close>

locale ata_device =
  fixes dev :: "('d, 'z) ata_ports_scheme"
    and view :: "'d \<Rightarrow> ata"
    and delay :: "'d \<Rightarrow> nat"
  assumes status_busy: "0 < delay d \<Longrightarrow> port_in8 dev STATUS_COMMAND_REGISTER d = (st, d') \<Longrightarrow>
      st AND BSY_STATUS \<noteq> 0 \<and> delay d' < delay d \<and> view d' = view d"
    and status_ready: "delay d = 0 \<Longrightarrow> port_in8 dev STATUS_COMMAND_REGISTER d = (st, d') \<Longrightarrow>
      st AND BSY_STATUS = 0 \<and> (st AND DRQ_STATUS \<noteq> 0 \<longleftrightarrow> a_phase (view d) \<noteq> Idle) \<and> delay d' = 0 \<and> view d' = view d"
    and select: "delay d = 0 \<Longrightarrow> p \<in> {DRIVE_REGISTER, SECTOR_COUNT_REGISTER, LBA_LO, LBA_MID, LBA_HI} \<Longrightarrow>
      delay (port_out8 dev p v d) = 0 \<and> view (port_out8 dev p v d) = ata_select p v (view d)"
    and start: "delay d = 0 \<Longrightarrow> lba_mode (view d) \<Longrightarrow> a_phase (view d) = Idle \<Longrightarrow> cmd \<in> {CMD_READ, CMD_WRITE} \<Longrightarrow>
      view (port_out8 dev STATUS_COMMAND_REGISTER cmd d) = ata_start cmd (view d)"
    and flush: "delay d = 0 \<Longrightarrow> a_phase (view d) = Idle \<Longrightarrow> view (port_out8 dev STATUS_COMMAND_REGISTER CMD_CACHE_FLUSH d) = view d"
    and data_in: "delay d = 0 \<Longrightarrow> a_phase (view d) = Reading l n i \<Longrightarrow> port_in16 dev BASE d = (w, d') \<Longrightarrow>
      w = a_disk (view d) l i \<and> view d' = ata_take (view d) \<and> (i < 255 \<longrightarrow> delay d' = 0)"
    and data_out: "delay d = 0 \<Longrightarrow> a_phase (view d) = Writing l n i \<Longrightarrow>
      view (port_out16 dev BASE w d) = ata_put w (view d) \<and> (i < 255 \<longrightarrow> delay (port_out16 dev BASE w d) = 0)"
begin

lemma wait_bsy_ready: "\<exists>d'. wait_bsy dev d = Some d' \<and> delay d' = 0 \<and> view d' = view d"
proof (induction "delay d" arbitrary: d rule: less_induct)
  case less
  obtain st d1 where p: "port_in8 dev STATUS_COMMAND_REGISTER d = (st, d1)" by fastforce
  show ?case
  proof (cases "delay d")
    case 0
    then show ?thesis using status_ready [OF 0 p] p by (simp add: wait_bsy.simps [of dev d])
  next
    case (Suc n)
    then show ?thesis using status_busy [OF _ p] less [of d1] p by (auto simp: wait_bsy.simps [of dev d])
  qed
qed

lemma wait_drq_ready:
  assumes "delay d = 0" and "a_phase (view d) \<noteq> Idle"
  shows "\<exists>d'. wait_drq dev d = Some d' \<and> delay d' = 0 \<and> view d' = view d"
proof -
  obtain st d1 where p: "port_in8 dev STATUS_COMMAND_REGISTER d = (st, d1)" by fastforce
  show ?thesis using status_ready [OF assms(1) p] assms(2) p by (simp add: wait_drq.simps [of dev d])
qed

lemma wait_drq_idle:
  assumes "delay d = 0" and "a_phase (view d) = Idle"
  shows "wait_drq dev d = None"
proof -
  have "dv = dev \<longrightarrow> delay d = 0 \<longrightarrow> a_phase (view d) \<noteq> Idle" if "wait_drq dv d = Some y" for dv :: "('d, 'z) ata_ports_scheme" and y d
    using that
  proof (rule wait_drq.raw_induct [where P = "\<lambda>dv d y. dv = dev \<longrightarrow> delay d = 0 \<longrightarrow> a_phase (view d) \<noteq> Idle", rotated])
    fix f dv d y
    assume IH: "\<And>dv d y. f dv d = Some y \<Longrightarrow> dv = dev \<longrightarrow> delay d = 0 \<longrightarrow> a_phase (view d) \<noteq> Idle"
      and step: "(case port_in8 dv STATUS_COMMAND_REGISTER d of (st, d) \<Rightarrow> if st AND DRQ_STATUS = 0 then f dv d else Some d) = Some y"
    show "dv = dev \<longrightarrow> delay d = 0 \<longrightarrow> a_phase (view d) \<noteq> Idle"
    proof (intro impI)
      assume "dv = dev" "delay d = 0"
      moreover obtain st d1 where p: "port_in8 dev STATUS_COMMAND_REGISTER d = (st, d1)" by fastforce
      ultimately show "a_phase (view d) \<noteq> Idle"
        using status_ready [OF \<open>delay d = 0\<close> p] step IH [of dev d1 y] by (auto split: if_splits)
    qed
  qed
  then show ?thesis using assms by (cases "wait_drq dev d") auto
qed

text \<open>One sector through the data register.\<close>

lemma in_words_sector:
  assumes "delay d = 0" and "a_phase (view d) = Reading l n i" and "i + Suc m = 256"
  shows "\<exists>d'. in_words dev (Suc m) d = (map (a_disk (view d) l) [i..<256], d') \<and>
    view d' = (view d)\<lparr>a_phase := ata_next (Reading l n 255)\<rparr>"
  using assms
proof (induction m arbitrary: d i)
  case 0
  obtain w d1 where "port_in16 dev BASE d = (w, d1)" by fastforce
  with data_in [OF 0(1,2) this] 0 show ?case by (simp add: ata_take_def numeral_eq_Suc)
next
  case (Suc m)
  obtain w d1 where p: "port_in16 dev BASE d = (w, d1)" by fastforce
  from data_in [OF Suc.prems(1,2) p] Suc.prems
  have d1: "w = a_disk (view d) l i" "view d1 = (view d)\<lparr>a_phase := Reading l n (i + 1)\<rparr>" "delay d1 = 0"
    by (auto simp: ata_take_def)
  then obtain d' where "in_words dev (Suc m) d1 = (map (a_disk (view d1) l) [i + 1..<256], d')"
      "view d' = (view d1)\<lparr>a_phase := ata_next (Reading l n 255)\<rparr>"
    using Suc.IH [of d1 "i + 1"] Suc.prems by auto
  moreover have "[i..<256] = i # [i + 1..<256]" using Suc.prems by (simp add: upt_rec)
  ultimately show ?case using p d1 by (simp del: in_words.simps(2) add: in_words.simps(2) [of dev "Suc m" d])
qed

lemma out_words_sector:
  assumes "delay d = 0" and "a_phase (view d) = Writing l n i" and "ws \<noteq> []" and "i + length ws = 256"
  shows "view (out_words dev ws d) = (view d)\<lparr>a_phase := ata_next (Writing l n 255),
    a_disk := (a_disk (view d))(l := fill_from i ws (a_disk (view d) l))\<rparr> \<and>
    (\<exists>d' w. delay d' = 0 \<and> a_phase (view d') = Writing l n 255 \<and> out_words dev ws d = port_out16 dev BASE w d')"
  using assms
proof (induction ws arbitrary: d i)
  case Nil
  then show ?case by simp
next
  case (Cons w ws)
  note out = data_out [OF Cons.prems(1,2), of w]
  show ?case
  proof (cases "ws = []")
    case True
    with Cons.prems have "i = 255" by simp
    then show ?thesis using out Cons.prems True by (auto simp: ata_put_def fun_upd_def)
  next
    case False
    with Cons.prems have i: "i < 255" by (cases ws) auto
    then show ?thesis
      using Cons.IH [of "port_out16 dev BASE w d" "i + 1"] out Cons.prems False by (simp add: ata_put_def fun_upd_def cong: if_cong)
  qed
qed

lemma ata_command_starts:
  assumes "at_rest (view d)" and "unat lba < 2 ^ 28" and "1 \<le> unat sectors" and "unat sectors \<le> 256" and "cmd \<in> {CMD_READ, CMD_WRITE}"
  shows "\<exists>a d'. ata_command dev lba sectors cmd d = wait_drq dev d' \<and> delay d' = 0 \<and> view d' = ata_start cmd a \<and>
    ata_lba a = unat lba \<and> ata_length a = unat sectors \<and> a_size a = a_size (view d) \<and> a_disk a = a_disk (view d)"
proof -
  obtain d1 where d1: "wait_bsy dev d = Some d1" "delay d1 = 0" "view d1 = view d" using wait_bsy_ready by blast
  define d2 where "d2 = port_out8 dev LBA_HI (ucast (drop_bit 16 lba)) (port_out8 dev LBA_MID (ucast (drop_bit 8 lba))
    (port_out8 dev LBA_LO (ucast lba) (port_out8 dev SECTOR_COUNT_REGISTER (ucast sectors)
    (port_out8 dev DRIVE_REGISTER (0xE0 OR ucast (drop_bit 24 lba AND 0x0F)) d1))))"
  define a where "a = (view d)\<lparr>a_drive := 0xE0 OR ucast (drop_bit 24 lba AND 0x0F), a_count := ucast sectors,
    a_lo := ucast lba, a_mid := ucast (drop_bit 8 lba), a_hi := ucast (drop_bit 16 lba)\<rparr>"
  have d2: "delay d2 = 0 \<and> view d2 = a"
    unfolding d2_def a_def by (simp add: select d1 ata_select_def register_defs)
  have a: "lba_mode a" "a_phase a = Idle" "ata_lba a = unat lba" "ata_length a = unat sectors"
    using assms lba_split [of lba] by (simp_all add: a_def at_rest_def lba_mode_drive ata_lba_def sector_count [of _ sectors])
  obtain d3 where "wait_bsy dev (port_out8 dev STATUS_COMMAND_REGISTER cmd d2) = Some d3" "delay d3 = 0" "view d3 = ata_start cmd a"
    using wait_bsy_ready start [of d2 cmd] d2 a assms(5) by metis
  with d1(1) a show ?thesis
    by (intro exI [of _ a] exI [of _ d3]) (simp add: ata_command_def d2_def a_def)
qed

lemma wait_for_data:
  assumes "a_phase (view d) \<noteq> Idle"
  obtains d1 d2 where "wait_bsy dev d = Some d1" "wait_drq dev d1 = Some d2" "delay d2 = 0" "view d2 = view d"
proof -
  obtain d1 where 1: "wait_bsy dev d = Some d1" "delay d1 = 0" "view d1 = view d" using wait_bsy_ready by blast
  then obtain d2 where "wait_drq dev d1 = Some d2" "delay d2 = 0" "view d2 = view d1" using wait_drq_ready [of d1] assms by auto
  with 1 show thesis using that by simp
qed

lemma read_sectors_reads:
  assumes "a_phase (view d) = (if n = 0 then Idle else Reading l n 0)"
  shows "\<exists>d'. read_sectors dev n d = Some (concat (map (sector_words (view d)) [l..<l + n]), d') \<and> view d' = (view d)\<lparr>a_phase := Idle\<rparr>"
  using assms
proof (induction n arbitrary: d l)
  case (Suc n)
  then obtain d1 d2 where w: "wait_bsy dev d = Some d1" "wait_drq dev d1 = Some d2" "delay d2 = 0" "view d2 = view d"
    using wait_for_data [of d] by (metis Zero_not_Suc ata_phase.distinct(1))
  obtain d3 where r: "in_words dev 256 d2 = (sector_words (view d) l, d3)" "view d3 = (view d)\<lparr>a_phase := ata_next (Reading l (Suc n) 255)\<rparr>"
    using in_words_sector [of d2 l "Suc n" 0 255] w Suc.prems by (auto simp: sector_words_def)
  have "sector_words (view d3) = sector_words (view d)" by (rule ext) (simp add: r sector_words_def)
  moreover have "a_phase (view d3) = (if n = 0 then Idle else Reading (Suc l) n 0)" using r by simp
  ultimately obtain d4 where "read_sectors dev n d3 = Some (concat (map (sector_words (view d)) [Suc l..<Suc l + n]), d4)" "view d4 = (view d)\<lparr>a_phase := Idle\<rparr>"
    using Suc.IH [of d3 "Suc l"] r by auto
  then show ?case using w r by (simp add: upt_conv_Cons del: upt_Suc)
qed auto

text \<open>The drive has just taken the last word of a write.\<close>

definition after_last_word :: "'d \<Rightarrow> bool" where
  "after_last_word d \<longleftrightarrow> (\<exists>l d' w. delay d' = 0 \<and> a_phase (view d') = Writing l 1 255 \<and> d = port_out16 dev BASE w d')"

lemma write_sectors_writes:
  assumes "a_phase (view d) = (if n = 0 then Idle else Writing l n 0)" and "256 * n \<le> length ws"
  shows "\<exists>d'. write_sectors dev n ws d = Some d' \<and> view d' = (view d)\<lparr>a_phase := Idle, a_disk := put_sectors l n ws (a_disk (view d))\<rparr> \<and>
    (n \<noteq> 0 \<longrightarrow> after_last_word d')"
  using assms
proof (induction n arbitrary: d l ws)
  case (Suc n)
  then obtain d1 d2 where w: "wait_bsy dev d = Some d1" "wait_drq dev d1 = Some d2" "delay d2 = 0" "view d2 = view d"
    using wait_for_data [of d] by (metis Zero_not_Suc ata_phase.distinct(3))
  define d3 where "d3 = out_words dev (take 256 ws) d2"
  have v: "view d3 = (view d)\<lparr>a_phase := (if n = 0 then Idle else Writing (Suc l) n 0),
      a_disk := (a_disk (view d))(l := fill_from 0 (take 256 ws) (a_disk (view d) l))\<rparr>"
    using out_words_sector [of d2 l "Suc n" 0 "take 256 ws"] w Suc.prems by (cases ws) (auto simp: d3_def)
  have last: "after_last_word d3" if "n = 0"
    using out_words_sector [of d2 l "Suc n" 0 "take 256 ws"] w Suc.prems that by (cases ws) (auto simp: d3_def after_last_word_def)
  from v have "a_phase (view d3) = (if n = 0 then Idle else Writing (Suc l) n 0)" by simp
  moreover have "256 * n \<le> length (drop 256 ws)" using Suc.prems by auto
  ultimately obtain d4 where "write_sectors dev n (drop 256 ws) d3 = Some d4"
      "view d4 = (view d3)\<lparr>a_phase := Idle, a_disk := put_sectors (Suc l) n (drop 256 ws) (a_disk (view d3))\<rparr>" "n \<noteq> 0 \<longrightarrow> after_last_word d4"
    using Suc.IH [of d3 "Suc l" "drop 256 ws"] by blast
  moreover from this(1,3) last have "after_last_word d4" by (cases "n = 0") auto
  ultimately show ?case using v w by (simp add: d3_def)
qed auto

lemma disk_read_sectors:
  assumes "at_rest (view d)" and "1 \<le> unat sectors" and "unat sectors \<le> 256" and "unat lba + unat sectors \<le> a_size (view d)"
  shows "\<exists>ws d'. disk_read dev lba sectors d = Some (ws, d') \<and> bytes_of ws = concat (map (sector (view d)) [unat lba..<unat lba + unat sectors]) \<and>
    at_rest (view d') \<and> a_size (view d') = a_size (view d) \<and> sector (view d') = sector (view d)"
proof -
  obtain a d1 where c: "ata_command dev lba sectors CMD_READ d = wait_drq dev d1" "delay d1 = 0" "view d1 = ata_start CMD_READ a"
    and a: "ata_lba a = unat lba" "ata_length a = unat sectors" "a_size a = a_size (view d)" "a_disk a = a_disk (view d)"
    using ata_command_starts [of d lba sectors CMD_READ] assms by (auto simp: at_rest_def)
  have v1: "view d1 = a\<lparr>a_phase := Reading (unat lba) (unat sectors) 0\<rparr>" using c a assms by (simp add: ata_start_def)
  then obtain d2 where d2: "wait_drq dev d1 = Some d2" "view d2 = view d1" using wait_drq_ready [of d1] c by auto
  have words: "sector_words (view d2) = sector_words (view d)" by (rule ext) (simp add: sector_words_def v1 d2 a)
  obtain d3 where d3: "read_sectors dev (unat sectors) d2 = Some (concat (map (sector_words (view d)) [unat lba..<unat lba + unat sectors]), d3)"
      "view d3 = (view d2)\<lparr>a_phase := Idle\<rparr>"
    using read_sectors_reads [of d2 "unat sectors" "unat lba"] d2 v1 assms words by auto
  have "sector (view d3) = sector (view d)" by (rule ext) (simp add: sector_def sector_words_def v1 d2 d3 a)
  moreover have "bytes_of (concat (map (sector_words (view d)) ls)) = concat (map (sector (view d)) ls)" for ls
    by (simp add: bytes_of_concat sector_def [abs_def] comp_def)
  moreover have "at_rest (view d3) \<and> a_size (view d3) = a_size (view d)" using assms by (simp add: d3 d2 v1 a at_rest_def)
  ultimately show ?thesis using c(1) d2(1) d3(1) by (simp add: disk_read_def)
qed

lemma disk_write_words:
  assumes "at_rest (view d)" and "1 \<le> unat sectors" and "unat sectors \<le> 256" and "unat lba + unat sectors \<le> a_size (view d)"
    and "512 * unat sectors \<le> length buffer"
  shows "\<exists>d3. disk_write dev lba sectors buffer d = wait_bsy dev (port_out8 dev STATUS_COMMAND_REGISTER CMD_CACHE_FLUSH d3) \<and>
    after_last_word d3 \<and> at_rest (view d3) \<and> a_size (view d3) = a_size (view d) \<and>
    sector (view d3) = (\<lambda>l. if unat lba \<le> l \<and> l < unat lba + unat sectors then take 512 (drop (512 * (l - unat lba)) buffer) else sector (view d) l) \<and>
    (delay d3 = 0 \<longrightarrow> (\<exists>d'. disk_write dev lba sectors buffer d = Some d' \<and> view d' = view d3))"
proof -
  obtain a d1 where c: "ata_command dev lba sectors CMD_WRITE d = wait_drq dev d1" "delay d1 = 0" "view d1 = ata_start CMD_WRITE a"
    and a: "ata_lba a = unat lba" "ata_length a = unat sectors" "a_size a = a_size (view d)" "a_disk a = a_disk (view d)"
    using ata_command_starts [of d lba sectors CMD_WRITE] assms by (auto simp: at_rest_def)
  have v1: "view d1 = a\<lparr>a_phase := Writing (unat lba) (unat sectors) 0\<rparr>" using c a assms by (simp add: ata_start_def CMD_READ_def CMD_WRITE_def)
  then obtain d2 where d2: "wait_drq dev d1 = Some d2" "view d2 = view d1" using wait_drq_ready [of d1] c by auto
  have even: "256 * unat sectors \<le> length (words_of buffer)" using assms(5) by simp
  obtain d3 where d3: "write_sectors dev (unat sectors) (words_of buffer) d2 = Some d3"
      "view d3 = a\<lparr>a_phase := Idle, a_disk := put_sectors (unat lba) (unat sectors) (words_of buffer) (a_disk a)\<rparr>" "after_last_word d3"
    using write_sectors_writes [of d2 "unat sectors" "unat lba" "words_of buffer"] d2 v1 assms even by auto
  have idle: "a_phase (view d3) = Idle" using d3(2) by simp
  have fl: "\<exists>d'. wait_bsy dev (port_out8 dev STATUS_COMMAND_REGISTER CMD_CACHE_FLUSH d3) = Some d' \<and> view d' = view d3" if "delay d3 = 0"
    using wait_bsy_ready [of "port_out8 dev STATUS_COMMAND_REGISTER CMD_CACHE_FLUSH d3"] flush [OF that idle] by auto
  have run: "disk_write dev lba sectors buffer d = wait_bsy dev (port_out8 dev STATUS_COMMAND_REGISTER CMD_CACHE_FLUSH d3)"
    using c(1) d2(1) d3(1) assms(5) by (simp add: disk_write_def)
  have "sector (view d3) l = (if unat lba \<le> l \<and> l < unat lba + unat sectors then take 512 (drop (512 * (l - unat lba)) buffer) else sector (view d) l)" for l
    using assms(5) bytes_of_chunk [of "unat sectors" buffer "l - unat lba"] even
    by (auto simp: sector_def sector_words_def d3 put_sectors_words a)
  moreover have "at_rest (view d3) \<and> a_size (view d3) = a_size (view d)" using assms by (simp add: d3 a at_rest_def)
  ultimately show ?thesis using run fl d3(3) by (intro exI [of _ d3]) (simp add: fun_eq_iff)
qed

lemma ata_command_refused:
  assumes "at_rest (view d)" and "unat lba < 2 ^ 28" and "1 \<le> unat sectors" and "unat sectors \<le> 256" and "a_size (view d) < unat lba + unat sectors"
    and "cmd \<in> {CMD_READ, CMD_WRITE}"
  shows "ata_command dev lba sectors cmd d = None"
proof -
  obtain a d1 where "ata_command dev lba sectors cmd d = wait_drq dev d1" "delay d1 = 0" "view d1 = ata_start cmd a"
      "ata_lba a = unat lba" "ata_length a = unat sectors" "a_size a = a_size (view d)"
    using ata_command_starts [of d lba sectors cmd] assms(1-4,6) by blast
  moreover from this assms(5) have "a_phase (view d1) = Idle" by (simp add: ata_start_def)
  ultimately show ?thesis using wait_drq_idle by simp
qed

end

text \<open>A drive that is ready again as soon as it has taken the last word of a write.\<close>

locale ata_prompt_device = ata_device dev view delay
  for dev :: "('d, 'z) ata_ports_scheme" and view :: "'d \<Rightarrow> ata" and delay :: "'d \<Rightarrow> nat" +
  assumes prompt: "delay d = 0 \<Longrightarrow> a_phase (view d) = Writing l 1 255 \<Longrightarrow> delay (port_out16 dev BASE w d) = 0"
begin

lemma disk_write_sectors:
  assumes "at_rest (view d)" and "1 \<le> unat sectors" and "unat sectors \<le> 256" and "unat lba + unat sectors \<le> a_size (view d)"
    and "512 * unat sectors \<le> length buffer"
  shows "\<exists>d'. disk_write dev lba sectors buffer d = Some d' \<and> at_rest (view d') \<and> a_size (view d') = a_size (view d) \<and>
    sector (view d') = (\<lambda>l. if unat lba \<le> l \<and> l < unat lba + unat sectors then take 512 (drop (512 * (l - unat lba)) buffer) else sector (view d) l)"
proof -
  from disk_write_words [OF assms] obtain d3 where d3: "after_last_word d3" "at_rest (view d3)" "a_size (view d3) = a_size (view d)"
    "sector (view d3) = (\<lambda>l. if unat lba \<le> l \<and> l < unat lba + unat sectors then take 512 (drop (512 * (l - unat lba)) buffer) else sector (view d) l)"
    "delay d3 = 0 \<longrightarrow> (\<exists>d'. disk_write dev lba sectors buffer d = Some d' \<and> view d' = view d3)" by (elim exE conjE)
  have "delay d3 = 0" using d3(1) prompt by (auto simp: after_last_word_def)
  then show ?thesis using d3 by metis
qed

end

section \<open>A drive that keeps the contract\<close>

text \<open>
  The protocol with \<open>k\<close> busy answers after every command and every sector, but \<open>j\<close> after the last sector of a write, as the four
  port operations of a drive. A command given while it is busy is lost.
\<close>

record drive =
  drive_ata :: ata
  drive_busy :: nat

definition drive_done :: "nat \<Rightarrow> nat \<Rightarrow> drive \<Rightarrow> drive" where
  "drive_done k j d = (case a_phase (drive_ata d) of
     Reading l n i \<Rightarrow> if i < 255 then d else d\<lparr>drive_busy := k\<rparr>
   | Writing l n i \<Rightarrow> if i < 255 then d else d\<lparr>drive_busy := (if n \<le> 1 then j else k)\<rparr>
   | Idle \<Rightarrow> d)"

definition drive_ports :: "nat \<Rightarrow> nat \<Rightarrow> drive ata_ports" where
  "drive_ports k j = \<lparr>
     port_in8 = \<lambda>p d. if 0 < drive_busy d then (BSY_STATUS, d\<lparr>drive_busy := drive_busy d - 1\<rparr>)
       else if a_phase (drive_ata d) = Idle then (0x40, d) else (0x40 OR DRQ_STATUS, d),
     port_in16 = \<lambda>p d. (case a_phase (drive_ata d) of
         Reading l n i \<Rightarrow> (a_disk (drive_ata d) l i, (drive_done k j d)\<lparr>drive_ata := ata_take (drive_ata d)\<rparr>)
       | _ \<Rightarrow> (0, d)),
     port_out8 = \<lambda>p v d. if p = STATUS_COMMAND_REGISTER then if 0 < drive_busy d then d else d\<lparr>drive_ata := ata_start v (drive_ata d), drive_busy := k\<rparr>
       else d\<lparr>drive_ata := ata_select p v (drive_ata d)\<rparr>,
     port_out16 = \<lambda>p w d. (drive_done k j d)\<lparr>drive_ata := ata_put w (drive_ata d)\<rparr> \<rparr>"

interpretation dp: ata_device "drive_ports k j" drive_ata drive_busy for k j
proof unfold_locales
  fix d st d'
  assume "port_in8 (drive_ports k j) STATUS_COMMAND_REGISTER d = (st, d')"
  then show "0 < drive_busy d \<Longrightarrow> st AND BSY_STATUS \<noteq> 0 \<and> drive_busy d' < drive_busy d \<and> drive_ata d' = drive_ata d"
    and "drive_busy d = 0 \<Longrightarrow> st AND BSY_STATUS = 0 \<and> (st AND DRQ_STATUS \<noteq> 0 \<longleftrightarrow> a_phase (drive_ata d) \<noteq> Idle) \<and> drive_busy d' = 0 \<and> drive_ata d' = drive_ata d"
    by (auto simp: drive_ports_def BSY_STATUS_def DRQ_STATUS_def split: if_splits)
qed (auto simp: drive_ports_def drive_done_def register_defs ata_start_def CMD_CACHE_FLUSH_def CMD_READ_def CMD_WRITE_def split: ata_phase.splits if_splits)

interpretation pp: ata_prompt_device "drive_ports k 0" drive_ata drive_busy for k
  by unfold_locales (simp add: drive_ports_def drive_done_def)

section \<open>What the driver does\<close>

text \<open>
  C27: \<open>disk_read\<close> of 1 to 256 sectors that lie on the drive returns, however long the controller stays busy, and its
  buffer holds the bytes of exactly these sectors, in order. The drive is left at rest, its contents as they were.
\<close>

theorem disk_read_returns_sectors:
  assumes "ata_device dev view delay" and "at_rest (view d)"
    and "1 \<le> unat sectors" and "unat sectors \<le> 256" and "unat lba + unat sectors \<le> a_size (view d)"
  shows "\<exists>ws d'. disk_read dev lba sectors d = Some (ws, d') \<and>
    bytes_of ws = concat (map (sector (view d)) [unat lba..<unat lba + unat sectors]) \<and>
    at_rest (view d') \<and> a_size (view d') = a_size (view d) \<and> sector (view d') = sector (view d)"
  by (rule ata_device.disk_read_sectors [OF assms])

definition empty_drive :: drive where
  "empty_drive = \<lparr>drive_ata = \<lparr>a_drive = 0xA0, a_count = 0, a_lo = 0, a_mid = 0, a_hi = 0, a_phase = Idle, a_size = 4096, a_disk = \<lambda>l i. 0\<rparr>,
     drive_busy = 7\<rparr>"

lemma empty_drive_at_rest [simp]: "at_rest (drive_ata empty_drive)" "a_size (drive_ata empty_drive) = 4096"
  by (simp_all add: empty_drive_def at_rest_def)

theorem disk_read_returns_sectors_witness:
  "\<exists>ws d'. disk_read (drive_ports 5 2) 17 8 empty_drive = Some (ws, d') \<and>
    bytes_of ws = concat (map (sector (drive_ata empty_drive)) [17..<25])"
  using disk_read_returns_sectors [OF dp.ata_device_axioms, of empty_drive 8 17 5 2] by auto

text \<open>
  C28: \<open>disk_write\<close> of 1 to 256 sectors that lie on the drive hands all of its words over, however long the controller stays busy before
  each sector: when the drive has taken the last word, each of these sectors holds its 512 bytes of the buffer, and every other sector
  is as it was. All that is left to do then is the cache flush and the wait for it. When the drive is not busy at that moment, which
  \<open>disk_write\<close> does not check, it returns with the sectors in that state.
\<close>

theorem disk_write_stores_sectors:
  assumes "ata_device dev view delay" and "at_rest (view d)"
    and "1 \<le> unat sectors" and "unat sectors \<le> 256" and "unat lba + unat sectors \<le> a_size (view d)"
    and "512 * unat sectors \<le> length buffer"
  shows "\<exists>d1 w l d2. delay d1 = 0 \<and> a_phase (view d1) = Writing l 1 255 \<and> d2 = port_out16 dev BASE w d1 \<and>
    disk_write dev lba sectors buffer d = wait_bsy dev (port_out8 dev STATUS_COMMAND_REGISTER CMD_CACHE_FLUSH d2) \<and>
    at_rest (view d2) \<and> a_size (view d2) = a_size (view d) \<and>
    sector (view d2) = (\<lambda>l. if unat lba \<le> l \<and> l < unat lba + unat sectors
      then take 512 (drop (512 * (l - unat lba)) buffer) else sector (view d) l) \<and>
    (delay d2 = 0 \<longrightarrow> (\<exists>d'. disk_write dev lba sectors buffer d = Some d' \<and> view d' = view d2))"
proof -
  from ata_device.disk_write_words [OF assms] obtain d2 where d2: "ata_device.after_last_word dev view delay d2"
    "disk_write dev lba sectors buffer d = wait_bsy dev (port_out8 dev STATUS_COMMAND_REGISTER CMD_CACHE_FLUSH d2)"
    "at_rest (view d2)" "a_size (view d2) = a_size (view d)"
    "sector (view d2) = (\<lambda>l. if unat lba \<le> l \<and> l < unat lba + unat sectors
      then take 512 (drop (512 * (l - unat lba)) buffer) else sector (view d) l)"
    "delay d2 = 0 \<longrightarrow> (\<exists>d'. disk_write dev lba sectors buffer d = Some d' \<and> view d' = view d2)" by (elim exE conjE)
  from d2(1) obtain l d1 w where "delay d1 = 0" "a_phase (view d1) = Writing l 1 255" "d2 = port_out16 dev BASE w d1"
    unfolding ata_device.after_last_word_def [OF assms(1)] by (elim exE conjE)
  then show ?thesis using d2(2-6) by (intro exI [of _ d1] exI [of _ w] exI [of _ l] exI [of _ d2] conjI)
qed

theorem disk_write_stores_sectors_witness:
  "\<exists>d'. disk_write (drive_ports 5 0) 9 8 (replicate 4096 0xAA) empty_drive = Some d' \<and> sector (drive_ata d') 10 = replicate 512 0xAA"
proof -
  have "1 \<le> unat (8 :: u32)" "unat (8 :: u32) \<le> 256" "unat (9 :: u32) + unat (8 :: u32) \<le> a_size (drive_ata empty_drive)"
    "512 * unat (8 :: u32) \<le> length (replicate 4096 (0xAA :: u8))" by simp_all
  from disk_write_stores_sectors [OF dp.ata_device_axioms [of 5 0] empty_drive_at_rest(1) this]
  obtain d1 w l d2 where d: "drive_busy d1 = 0" "a_phase (drive_ata d1) = Writing l 1 255" "d2 = port_out16 (drive_ports 5 0) BASE w d1"
      "sector (drive_ata d2) = (\<lambda>l. if unat (9 :: u32) \<le> l \<and> l < unat (9 :: u32) + unat (8 :: u32)
        then take 512 (drop (512 * (l - unat (9 :: u32))) (replicate 4096 0xAA)) else sector (drive_ata empty_drive) l)"
      "drive_busy d2 = 0 \<longrightarrow> (\<exists>d'. disk_write (drive_ports 5 0) 9 8 (replicate 4096 0xAA) empty_drive = Some d' \<and> drive_ata d' = drive_ata d2)"
    by (elim exE conjE)
  have "drive_busy d2 = 0" using d(1-3) by (simp add: drive_ports_def drive_done_def)
  moreover have "sector (drive_ata d2) 10 = replicate 512 0xAA" by (simp add: d(4))
  ultimately show ?thesis using d(5) by metis
qed

text \<open>
  a drive refuses a command that reaches past its last sector, and never asks for data. \<open>disk_read\<close> and
  \<open>disk_write\<close> then wait for ever: they do not look at the error bit.
\<close>

theorem disk_past_end_hangs:
  assumes "ata_device dev view delay" and "at_rest (view d)" and "unat lba < 2 ^ 28"
    and "1 \<le> unat sectors" and "unat sectors \<le> 256" and "a_size (view d) < unat lba + unat sectors"
  shows "disk_read dev lba sectors d = None \<and> disk_write dev lba sectors buffer d = None"
  using ata_device.ata_command_refused [OF assms, of CMD_READ] ata_device.ata_command_refused [OF assms, of CMD_WRITE]
  by (simp add: disk_read_def disk_write_def)

theorem disk_past_end_hangs_witness: "disk_read (drive_ports 5 2) 4095 2 empty_drive = None"
  using disk_past_end_hangs [OF dp.ata_device_axioms, of empty_drive 4095 2 5 2 "[]"] by simp

end
