(* ===== verification/Fs.thy ===== *)
theory Fs
  imports Disk Stdin
begin

text \<open>
  The file system on disk, from \<open>kernel/filesystem/fs.c\<close>: sectors 9 to 16 are the bitmap of the inodes, 17 to 24 the
  bitmap of the data sectors, 25 to 64 hold the inodes, eight to a sector, and the data follow. Arrays on the stack
  are lists; memory from \<open>kmalloc\<close> is read and written through the page walk.
\<close>

section \<open>Inodes\<close>

definition IBLOCK_OFFSET :: u32 where "IBLOCK_OFFSET = 25"
definition DATA_OFFSET :: u32 where "DATA_OFFSET = 65"

text \<open>The compiler's padding is copied with the rest of the structure, so it is a field here.\<close>

record inode_t =
  i_type :: u8
  i_pad1 :: u8
  i_size :: u16
  i_sectors :: u16
  i_pad2 :: u16
  i_sector :: "u32 list"

definition sizeof_inode :: nat where "sizeof_inode = 64"

definition bytes16 :: "u16 \<Rightarrow> u8 list" where
  "bytes16 w = [ucast w, ucast (drop_bit 8 w)]"

definition bytes32 :: "u32 \<Rightarrow> u8 list" where
  "bytes32 w = [ucast w, ucast (drop_bit 8 w), ucast (drop_bit 16 w), ucast (drop_bit 24 w)]"

definition inode_bytes :: "inode_t \<Rightarrow> u8 list" where
  "inode_bytes n = [i_type n, i_pad1 n] @ bytes16 (i_size n) @ bytes16 (i_sectors n) @ bytes16 (i_pad2 n) @ concat (map bytes32 (i_sector n))"

definition word16 :: "u8 \<Rightarrow> u8 \<Rightarrow> u16" where
  "word16 a b = ucast a OR push_bit 8 (ucast b)"

fun words32 :: "u8 list \<Rightarrow> u32 list" where
  "words32 (a # b # c # d # bs) = (ucast a OR push_bit 8 (ucast b) OR push_bit 16 (ucast c) OR push_bit 24 (ucast d)) # words32 bs"
| "words32 _ = []"

definition inode_of :: "u8 list \<Rightarrow> inode_t" where
  "inode_of bs = \<lparr>i_type = bs ! 0, i_pad1 = bs ! 1, i_size = word16 (bs ! 2) (bs ! 3), i_sectors = word16 (bs ! 4) (bs ! 5),
     i_pad2 = word16 (bs ! 6) (bs ! 7), i_sector = words32 (take 56 (drop 8 bs))\<rparr>"

section \<open>Operations\<close>

definition init_ibmap :: "('d, 'z) ata_ports_scheme \<Rightarrow> 'd \<Rightarrow> 'd option" where
  "init_ibmap dev d = disk_write dev 9 8 (replicate 4096 0) d"

definition init_dbmap :: "('d, 'z) ata_ports_scheme \<Rightarrow> 'd \<Rightarrow> 'd option" where
  "init_dbmap dev d = disk_write dev 17 8 (replicate 4096 0) d"

definition init_iblock :: "('d, 'z) ata_ports_scheme \<Rightarrow> 'd \<Rightarrow> 'a slab_state_scheme \<Rightarrow> ('d \<times> 'a slab_state_scheme) option" where
  "init_iblock dev d s = do {
     (iblock_area, s) \<leftarrow> kmalloc 20480 s;
     s \<leftarrow> kmemset iblock_area 0 20480 s;
     buffer \<leftarrow> vload_bytes 20480 iblock_area s;
     d \<leftarrow> disk_write dev IBLOCK_OFFSET 40 buffer d;
     s \<leftarrow> kfree iblock_area s;
     Some (d, s) }"

text \<open>The bits of a bitmap of 4096 bytes in the order of the two loops.\<close>

definition bitmap_bits :: "(nat \<times> nat) list" where
  "bitmap_bits = List.product [0..<4096] [0..<8]"

definition alloc_inode_num :: "('d, 'z) ata_ports_scheme \<Rightarrow> 'd \<Rightarrow> (int \<times> 'd) option" where
  "alloc_inode_num dev d = do {
     (ws, d) \<leftarrow> disk_read dev 9 8 d;
     let inode_bmap = bytes_of ws;
     case find (\<lambda>(i, j). drop_bit j (inode_bmap ! i) AND 1 = 0) bitmap_bits of
       Some (i, j) \<Rightarrow> do {
         d \<leftarrow> disk_write dev 9 8 (inode_bmap[i := inode_bmap ! i OR push_bit j 1]) d;
         Some (int (i * 8 + j), d) }
     | None \<Rightarrow> Some (-1, d) }"

text \<open>
  The two loops of \<open>write_inode_data\<close>. The \<open>break\<close> leaves the inner loop; no later round of the outer one does
  anything, since the count does not change any more.
\<close>

fun data_loop :: "('d, 'z) ata_ports_scheme \<Rightarrow> (nat \<times> nat) list \<Rightarrow> addr \<Rightarrow> u8 list \<Rightarrow> inode_t \<Rightarrow> u32 \<Rightarrow> 'd \<Rightarrow> 'a slab_state_scheme \<Rightarrow>
    (u8 list \<times> inode_t \<times> 'd) option" where
  "data_loop dev [] data_buffer bmap inode count d s = Some (bmap, inode, d)"
| "data_loop dev ((i, j) # bits) data_buffer bmap inode count d s = (
     if ucast (i_sectors inode) \<le> count then data_loop dev bits data_buffer bmap inode count d s
     else if drop_bit j (bmap ! i) AND 1 = 0 then
       if 14 \<le> unat count then None
       else do {
         let sector_idx = of_nat (i * 8 + j);
         buffer \<leftarrow> vload_bytes 512 (data_buffer + count * 512) s;
         d \<leftarrow> disk_write dev (DATA_OFFSET + sector_idx) 1 buffer d;
         data_loop dev bits data_buffer (bmap[i := bmap ! i OR push_bit j 1])
           (inode\<lparr>i_sector := (i_sector inode)[unat count := sector_idx]\<rparr>) (count + 1) d s }
     else data_loop dev bits data_buffer bmap inode count d s)"

definition write_inode_data :: "('d, 'z) ata_ports_scheme \<Rightarrow> inode_t \<Rightarrow> addr \<Rightarrow> u32 \<Rightarrow> 'd \<Rightarrow> 'a slab_state_scheme \<Rightarrow>
    (inode_t \<times> 'd \<times> 'a slab_state_scheme) option" where
  "write_inode_data dev inode data sz d s = do {
     (ws, d) \<leftarrow> disk_read dev 17 8 d;
     (data_buffer, s) \<leftarrow> kmalloc (512 * ucast (i_sectors inode)) s;
     s \<leftarrow> kmemset data_buffer 0 (512 * ucast (i_sectors inode)) s;
     s \<leftarrow> kmemcpy data_buffer data sz s;
     (data_bmap, inode, d) \<leftarrow> data_loop dev bitmap_bits data_buffer (bytes_of ws) inode 0 d s;
     d \<leftarrow> disk_write dev 17 8 data_bmap d;
     s \<leftarrow> kfree data_buffer s;
     Some (inode, d, s) }"

fun read_data_loop :: "('d, 'z) ata_ports_scheme \<Rightarrow> nat list \<Rightarrow> addr \<Rightarrow> inode_t \<Rightarrow> 'd \<Rightarrow> 'a slab_state_scheme \<Rightarrow> ('d \<times> 'a slab_state_scheme) option" where
  "read_data_loop dev [] data_buffer inode d s = Some (d, s)"
| "read_data_loop dev (i # is) data_buffer inode d s = do {
     sec \<leftarrow> array_get (i_sector inode) i;
     (ws, d) \<leftarrow> disk_read dev (DATA_OFFSET + sec) 1 d;
     s \<leftarrow> vstore_bytes (bytes_of ws) (data_buffer + of_nat i * 512) s;
     read_data_loop dev is data_buffer inode d s }"

definition read_inode_data :: "('d, 'z) ata_ports_scheme \<Rightarrow> inode_t \<Rightarrow> 'd \<Rightarrow> 'a slab_state_scheme \<Rightarrow> (addr \<times> 'd \<times> 'a slab_state_scheme) option" where
  "read_inode_data dev inode d s = do {
     (data_buffer, s) \<leftarrow> kmalloc (512 * ucast (i_sectors inode)) s;
     (d, s) \<leftarrow> read_data_loop dev [0..<unat (i_sectors inode)] data_buffer inode d s;
     Some (data_buffer, d, s) }"

definition write_inode :: "('d, 'z) ata_ports_scheme \<Rightarrow> inode_t \<Rightarrow> u32 \<Rightarrow> 'd \<Rightarrow> 'd option" where
  "write_inode dev inode inode_num d = do {
     let inode_sector = inode_num div 8;
     let inode_offset = unat (inode_num mod 8) * sizeof_inode;
     (ws, d) \<leftarrow> disk_read dev (IBLOCK_OFFSET + inode_sector) 1 d;
     let sector_buffer = bytes_of ws;
     disk_write dev (IBLOCK_OFFSET + inode_sector) 1
       (take inode_offset sector_buffer @ inode_bytes inode @ drop (inode_offset + sizeof_inode) sector_buffer) d }"

definition read_inode :: "('d, 'z) ata_ports_scheme \<Rightarrow> u32 \<Rightarrow> 'd \<Rightarrow> (inode_t \<times> 'd) option" where
  "read_inode dev inode_num d = do {
     let inode_sector = inode_num div 8;
     let inode_offset = unat (inode_num mod 8) * sizeof_inode;
     (ws, d) \<leftarrow> disk_read dev (IBLOCK_OFFSET + inode_sector) 1 d;
     Some (inode_of (take sizeof_inode (drop inode_offset (bytes_of ws))), d) }"

text \<open>
  \<open>init_fs\<close> looks at the first boot module after it has laid out the disk, and does nothing with what it finds. The
  module list is at offset 24 of the boot information, the size field at offset 124 of the archive's header.
\<close>

definition init_fs :: "('d, 'z) ata_ports_scheme \<Rightarrow> addr \<Rightarrow> 'd \<Rightarrow> 'a slab_state_scheme \<Rightarrow> ('d \<times> 'a slab_state_scheme) option" where
  "init_fs dev mbi d s = do {
     (r, d, s) \<leftarrow> init_disk dev d s;
     d \<leftarrow> init_ibmap dev d;
     d \<leftarrow> init_dbmap dev d;
     (d, s) \<leftarrow> init_iblock dev d s;
     mbm \<leftarrow> vload32 (mbi + 24) s;
     th \<leftarrow> vload32 mbm s;
     field \<leftarrow> vload_bytes 12 (th + 124) s;
     let file_size = tar_parse_octal field;
     let th = th + 512 + ucast ((file_size + 511) AND NOT 511);
     Some (d, s) }"

section \<open>Bytes of an inode\<close>

lemma word16_bytes16: "word16 (ucast w) (ucast (drop_bit 8 w)) = w"
  unfolding word16_def by (rule bit_word_eqI) (auto simp: bit_simps)

lemma words32_bytes32: "words32 (concat (map bytes32 ws)) = ws"
proof (induction ws)
  case (Cons w ws)
  have "ucast (ucast w :: u8) OR push_bit 8 (ucast (ucast (drop_bit 8 w) :: u8)) OR push_bit 16 (ucast (ucast (drop_bit 16 w) :: u8)) OR
      push_bit 24 (ucast (ucast (drop_bit 24 w) :: u8)) = w" for w :: u32
  proof (rule bit_word_eqI)
    fix n assume "n < LENGTH(32)"
    then consider "n < 8" | "8 \<le> n" "n < 16" | "16 \<le> n" "n < 24" | "24 \<le> n" "n < 32" by fastforce
    then show "bit (ucast (ucast w :: u8) OR push_bit 8 (ucast (ucast (drop_bit 8 w) :: u8)) OR push_bit 16 (ucast (ucast (drop_bit 16 w) :: u8)) OR
      push_bit 24 (ucast (ucast (drop_bit 24 w) :: u8)) :: u32) n = bit w n" by cases (auto simp: bit_simps)
  qed
  with Cons show ?case by (simp add: bytes32_def)
qed simp

lemma length_bytes32: "length (concat (map bytes32 ws)) = 4 * length ws"
  by (induction ws) (simp_all add: bytes32_def)

lemma length_inode_bytes: "length (i_sector n) = 14 \<Longrightarrow> length (inode_bytes n) = 64"
  by (simp add: inode_bytes_def bytes16_def length_bytes32)

lemma inode_of_bytes: "length (i_sector n) = 14 \<Longrightarrow> inode_of (inode_bytes n) = n"
  using length_bytes32 [of "i_sector n"]
  by (simp add: inode_of_def inode_bytes_def bytes16_def word16_bytes16 words32_bytes32)

text \<open>The inode with a number, as the drive holds it.\<close>

definition inode_at :: "ata \<Rightarrow> u32 \<Rightarrow> inode_t" where
  "inode_at a num = inode_of (take 64 (drop (64 * (unat num mod 8)) (sector a (25 + unat num div 8))))"

definition inode_on_drive :: "ata \<Rightarrow> u32 \<Rightarrow> bool" where
  "inode_on_drive a num \<longleftrightarrow> 25 + unat num div 8 < a_size a"

lemma splice_slots:
  assumes "length bs = 64 * k" and "length ns = 64" and "i < k" and "j < k"
  shows "take 64 (drop (64 * j) (take (64 * i) bs @ ns @ drop (64 * i + 64) bs)) = (if j = i then ns else take 64 (drop (64 * j) bs))"
proof (cases "j = i")
  case True
  then show ?thesis using assms by simp
next
  case False
  have "64 * i + 64 \<le> 64 * k" "64 * j + 64 \<le> 64 * k" using assms by simp_all
  moreover from False have "64 * j + 64 \<le> 64 * i \<or> 64 * i + 64 \<le> 64 * j" by presburger
  ultimately show ?thesis using assms False
    by (intro nth_equalityI) (auto simp: nth_append)
qed

lemma inode_lba:
  assumes "at_rest a" and "inode_on_drive a num"
  shows "unat (IBLOCK_OFFSET + num div 8) = 25 + unat num div 8" and "unat (num mod 8) = unat num mod 8"
proof -
  have "unat (num div 8) = unat num div 8" by (simp add: unat_div)
  moreover have "unat num div 8 < 2 ^ 29" by (simp add: less_mult_imp_div_less)
  ultimately show "unat (IBLOCK_OFFSET + num div 8) = 25 + unat num div 8"
    by (simp add: IBLOCK_OFFSET_def unat_word_ariths)
qed (simp add: unat_mod)

section \<open>Bitmaps on disk\<close>

text \<open>The bytes of a run of sectors; the bitmap of the inodes.\<close>

definition area :: "ata \<Rightarrow> nat \<Rightarrow> nat \<Rightarrow> u8 list" where
  "area a l n = concat (map (sector a) [l..<l + n])"

definition inode_used :: "ata \<Rightarrow> nat \<Rightarrow> bool" where
  "inode_used a k \<longleftrightarrow> bit (area a 9 8 ! (k div 8)) (k mod 8)"

lemma length_area [simp]: "length (area a l n) = 512 * n"
  by (induction n) (simp_all add: area_def)

lemma concat_chunks: "concat (map (\<lambda>k. take 512 (drop (512 * (k - l)) bs)) [l..<l + n]) = take (512 * n) bs"
proof (induction n)
  case (Suc n)
  then show ?case using take_add [of "512 * n" 512 bs] by (simp add: add.commute)
qed simp

lemma area_written:
  assumes "sector a' = (\<lambda>k. if l \<le> k \<and> k < l + n then take 512 (drop (512 * (k - l)) buffer) else sector a k)"
    and "length buffer = 512 * n"
  shows "area a' l n = buffer"
proof -
  have "map (sector a') [l..<l + n] = map (\<lambda>k. take 512 (drop (512 * (k - l)) buffer)) [l..<l + n]"
    by (rule map_cong) (auto simp: assms(1))
  then show ?thesis unfolding area_def using concat_chunks [of l buffer n] assms(2) by (simp only: order_refl take_all)
qed

lemma bitmap_bits_numbers: "bitmap_bits = map (\<lambda>k. (k div 8, k mod 8)) [0..<32768]"
proof -
  have "List.product [0..<m] [0..<8] = map (\<lambda>k. (k div 8, k mod 8)) [0..<8 * m]" for m
  proof (induction m)
    case (Suc m)
    have snoc: "[0..<8 * Suc m] = [0..<8 * m] @ map (\<lambda>j. 8 * m + j) [0..<8]"
      using upt_add_eq_append [of 0 "8 * m" 8] map_add_upt [of "8 * m" 8] by (simp add: add.commute)
    have "List.product (xs @ [m]) ys = List.product xs ys @ map (Pair m) ys" for xs :: "nat list" and ys :: "nat list"
      by (induction xs) simp_all
    then show ?case unfolding snoc using Suc by (simp add: comp_def cong: map_cong)
  qed simp
  from this [of 4096] show ?thesis by (simp add: bitmap_bits_def)
qed

lemma find_map: "find P (map f xs) = map_option f (find (\<lambda>x. P (f x)) xs)"
  by (induction xs) auto

lemma find_upt:
  "find P [0..<n] = None \<longleftrightarrow> (\<forall>k<n. \<not> P k)"
  "find P [0..<n] = Some k \<longleftrightarrow> k < n \<and> P k \<and> (\<forall>j<k. \<not> P j)"
  by (auto simp: find_None_iff find_Some_iff)

lemma clear_bit_test: "drop_bit j x AND 1 = 0 \<longleftrightarrow> \<not> bit (x :: u8) j"
  by (simp add: and_one_eq bit_iff_odd_drop_bit mod2_eq_if)

lemma bit_set_bit: "j < 8 \<Longrightarrow> k < 8 \<Longrightarrow> bit (x OR 2 ^ j :: u8) k \<longleftrightarrow> bit x k \<or> k = j"
  by (auto simp: bit_simps)

context ata_prompt_device
begin

lemma disk_read_one:
  assumes "at_rest (view d)" and "unat lba < a_size (view d)"
  shows "\<exists>ws d'. disk_read dev lba 1 d = Some (ws, d') \<and> bytes_of ws = sector (view d) (unat lba) \<and>
    at_rest (view d') \<and> a_size (view d') = a_size (view d) \<and> sector (view d') = sector (view d)"
  using disk_read_sectors [of d 1 lba] assms by (simp add: Suc_le_eq)

lemma disk_write_one:
  assumes "at_rest (view d)" and "unat lba < a_size (view d)" and "length buffer = 512"
  shows "\<exists>d'. disk_write dev lba 1 buffer d = Some d' \<and> at_rest (view d') \<and> a_size (view d') = a_size (view d) \<and>
    sector (view d') = (sector (view d))(unat lba := buffer)"
proof -
  have "(\<lambda>l. if unat lba \<le> l \<and> l < Suc (unat lba) then take 512 (drop (512 * (l - unat lba)) buffer) else sector (view d) l) = (sector (view d))(unat lba := buffer)"
    using assms(3) by (rule_tac ext) (auto simp: less_Suc_eq)
  then show ?thesis using disk_write_sectors [of d 1 lba buffer] assms by (simp add: Suc_le_eq)
qed

lemma read_inode_reads:
  assumes "at_rest (view d)" and "inode_on_drive (view d) num"
  shows "\<exists>d'. read_inode dev num d = Some (inode_at (view d) num, d') \<and> at_rest (view d') \<and> a_size (view d') = a_size (view d) \<and> sector (view d') = sector (view d)"
proof -
  note lba = inode_lba [OF assms]
  have on: "unat (IBLOCK_OFFSET + num div 8) < a_size (view d)" using assms lba by (simp add: inode_on_drive_def)
  obtain ws d' where "disk_read dev (IBLOCK_OFFSET + num div 8) 1 d = Some (ws, d')" "bytes_of ws = sector (view d) (25 + unat num div 8)"
      "at_rest (view d')" "a_size (view d') = a_size (view d)" "sector (view d') = sector (view d)"
    using disk_read_one [OF assms(1) on] lba by auto
  then show ?thesis using lba by (simp add: read_inode_def inode_at_def sizeof_inode_def mult.commute)
qed

lemma write_inode_writes:
  assumes "at_rest (view d)" and "inode_on_drive (view d) num" and "length (i_sector n) = 14"
  shows "\<exists>d'. write_inode dev n num d = Some d' \<and> at_rest (view d') \<and> a_size (view d') = a_size (view d) \<and>
    inode_at (view d') = (inode_at (view d))(num := n) \<and> (\<forall>l. l \<noteq> 25 + unat num div 8 \<longrightarrow> sector (view d') l = sector (view d) l)"
proof -
  note lba = inode_lba [OF assms(1,2)]
  let ?l = "25 + unat num div 8"
  have on: "unat (IBLOCK_OFFSET + num div 8) < a_size (view d)" using assms lba by (simp add: inode_on_drive_def)
  obtain ws d1 where r: "disk_read dev (IBLOCK_OFFSET + num div 8) 1 d = Some (ws, d1)" "bytes_of ws = sector (view d) ?l"
      "at_rest (view d1)" "a_size (view d1) = a_size (view d)" "sector (view d1) = sector (view d)"
    using disk_read_one [OF assms(1) on] lba by auto
  define buffer where "buffer = take (64 * (unat num mod 8)) (sector (view d) ?l) @ inode_bytes n @ drop (64 * (unat num mod 8) + 64) (sector (view d) ?l)"
  have len: "length buffer = 512" using assms(3) mod_less_divisor [of 8 "unat num"] by (simp add: buffer_def length_inode_bytes)
  obtain d2 where w: "disk_write dev (IBLOCK_OFFSET + num div 8) 1 buffer d1 = Some d2" "at_rest (view d2)" "a_size (view d2) = a_size (view d1)"
      "sector (view d2) = (sector (view d))(?l := buffer)"
    using disk_write_one [OF r(3) on [folded r(4)] len] lba by (auto simp: r(5))
  have "inode_at (view d2) m = ((inode_at (view d))(num := n)) m" for m
  proof (cases "unat m div 8 = unat num div 8")
    case True
    have "inode_at (view d2) m = inode_of (take 64 (drop (64 * (unat m mod 8)) buffer))" by (simp add: inode_at_def w True)
    also have "\<dots> = (if unat m mod 8 = unat num mod 8 then n else inode_at (view d) m)"
      using splice_slots [of "sector (view d) ?l" 8 "inode_bytes n" "unat num mod 8" "unat m mod 8"] assms(3) True
      by (simp add: buffer_def length_inode_bytes inode_of_bytes inode_at_def)
    also have "unat m mod 8 = unat num mod 8 \<longleftrightarrow> m = num" using True by (metis div_mult_mod_eq word_unat_eq_iff)
    finally show ?thesis by simp
  qed (auto simp: inode_at_def w)
  with r w lba show ?thesis
    by (auto simp: write_inode_def sizeof_inode_def buffer_def mult.commute)
qed

lemma alloc_inode_num_allocates:
  assumes "at_rest (view d)" and "17 \<le> a_size (view d)"
  shows "(\<forall>k<32768. inode_used (view d) k) \<Longrightarrow> \<exists>d'. alloc_inode_num dev d = Some (-1, d') \<and> at_rest (view d') \<and> a_size (view d') = a_size (view d) \<and> sector (view d') = sector (view d)"
    and "n < 32768 \<Longrightarrow> \<not> inode_used (view d) n \<Longrightarrow> (\<forall>k<n. inode_used (view d) k) \<Longrightarrow>
      \<exists>d'. alloc_inode_num dev d = Some (int n, d') \<and> at_rest (view d') \<and> a_size (view d') = a_size (view d) \<and>
        (\<forall>k<32768. inode_used (view d') k \<longleftrightarrow> inode_used (view d) k \<or> k = n) \<and> (\<forall>l. l < 9 \<or> 17 \<le> l \<longrightarrow> sector (view d') l = sector (view d) l)"
proof -
  obtain ws d1 where r: "disk_read dev 9 8 d = Some (ws, d1)" "bytes_of ws = area (view d) 9 8"
      "at_rest (view d1)" "a_size (view d1) = a_size (view d)" "sector (view d1) = sector (view d)"
    using disk_read_sectors [of d 8 9] assms by (auto simp: area_def)
  let ?b = "area (view d) 9 8"
  have search: "find (\<lambda>(i, j). drop_bit j (?b ! i) AND 1 = 0) bitmap_bits =
      map_option (\<lambda>k. (k div 8, k mod 8)) (find (\<lambda>k. \<not> inode_used (view d) k) [0..<32768])"
    by (simp add: bitmap_bits_numbers find_map clear_bit_test inode_used_def)
  show "\<exists>d'. alloc_inode_num dev d = Some (-1, d') \<and> at_rest (view d') \<and> a_size (view d') = a_size (view d) \<and> sector (view d') = sector (view d)"
    if "\<forall>k<32768. inode_used (view d) k"
  proof -
    from that have "find (\<lambda>k. \<not> inode_used (view d) k) [0..<32768] = None" by (simp add: find_upt)
    with r search show ?thesis by (simp add: alloc_inode_num_def)
  qed
  show "\<exists>d'. alloc_inode_num dev d = Some (int n, d') \<and> at_rest (view d') \<and> a_size (view d') = a_size (view d) \<and>
        (\<forall>k<32768. inode_used (view d') k \<longleftrightarrow> inode_used (view d) k \<or> k = n) \<and> (\<forall>l. l < 9 \<or> 17 \<le> l \<longrightarrow> sector (view d') l = sector (view d) l)"
    if n: "n < 32768" "\<not> inode_used (view d) n" "\<forall>k<n. inode_used (view d) k"
  proof -
    from n have f: "find (\<lambda>k. \<not> inode_used (view d) k) [0..<32768] = Some n" by (simp add: find_upt)
    define b where "b = ?b[n div 8 := ?b ! (n div 8) OR push_bit (n mod 8) 1]"
    have len: "length b = 512 * 8" by (simp add: b_def)
    obtain d2 where w: "disk_write dev 9 8 b d1 = Some d2" "at_rest (view d2)" "a_size (view d2) = a_size (view d1)"
        "sector (view d2) = (\<lambda>k. if 9 \<le> k \<and> k < 9 + 8 then take 512 (drop (512 * (k - 9)) b) else sector (view d) k)"
      using disk_write_sectors [of d1 8 9 b] r assms len by (auto cong: if_cong)
    have "inode_used (view d2) k \<longleftrightarrow> inode_used (view d) k \<or> k = n" if "k < 32768" for k
    proof -
      have "k = n \<longleftrightarrow> k div 8 = n div 8 \<and> k mod 8 = n mod 8" by (metis div_mult_mod_eq)
      moreover have "n div 8 < 4096" using n(1) by (simp add: less_mult_imp_div_less)
      ultimately show ?thesis by (simp add: inode_used_def area_written [OF w(4) len] b_def nth_list_update bit_set_bit)
    qed
    moreover have "alloc_inode_num dev d = Some (int n, d2)"
      using r(1) w(1) search f div_mult_mod_eq [of n 8] by (simp add: alloc_inode_num_def r(2) b_def flip: of_nat_mult of_nat_add)
    ultimately show ?thesis using w r by auto
  qed
qed

end

section \<open>What the file system keeps\<close>




text \<open>
  \<open>alloc_inode_num\<close> returns the lowest number whose bit is clear and sets exactly that bit on the drive; when all
  32768 bits are set it returns -1 and changes nothing.
\<close>

theorem alloc_inode_num_lowest:
  assumes "ata_prompt_device dev view delay" and "at_rest (view d)" and "17 \<le> a_size (view d)"
  shows "\<exists>r d'. alloc_inode_num dev d = Some (r, d') \<and> at_rest (view d') \<and>
    (if \<forall>k<32768. inode_used (view d) k then r = -1 \<and> sector (view d') = sector (view d)
     else \<exists>n<32768. r = int n \<and> \<not> inode_used (view d) n \<and> (\<forall>k<n. inode_used (view d) k) \<and>
       (\<forall>k<32768. inode_used (view d') k \<longleftrightarrow> inode_used (view d) k \<or> k = n) \<and>
       (\<forall>l. l < 9 \<or> 17 \<le> l \<longrightarrow> sector (view d') l = sector (view d) l))"
proof (cases "\<forall>k<32768. inode_used (view d) k")
  case True
  then show ?thesis using ata_prompt_device.alloc_inode_num_allocates(1) [OF assms] by auto
next
  case False
  define n where "n = (LEAST k. k < 32768 \<and> \<not> inode_used (view d) k)"
  have n: "n < 32768" "\<not> inode_used (view d) n" using LeastI_ex [of "\<lambda>k. k < 32768 \<and> \<not> inode_used (view d) k"] False by (auto simp: n_def)
  have "inode_used (view d) k" if "k < n" for k using not_less_Least [of k "\<lambda>k. k < 32768 \<and> \<not> inode_used (view d) k"] that n(1) by (auto simp: n_def)
  with n False show ?thesis using ata_prompt_device.alloc_inode_num_allocates(2) [OF assms n] by auto
qed

theorem alloc_inode_num_lowest_witness:
  "\<exists>d'. alloc_inode_num (drive_ports 3 0) empty_drive = Some (0, d') \<and> inode_used (drive_ata d') 0"
proof -
  have "area (drive_ata empty_drive) 9 8 ! 0 = 0"
    by (simp add: area_def sector_def sector_words_def empty_drive_def upt_rec)
  then have "\<not> inode_used (drive_ata empty_drive) 0" by (simp add: inode_used_def)
  then have zero: "\<not> (\<forall>k<32768. inode_used (drive_ata empty_drive) k)" "\<And>n. \<forall>k<n. inode_used (drive_ata empty_drive) k \<Longrightarrow> n = 0"
    by (metis zero_less_numeral, metis gr0I)
  obtain r d' n where "alloc_inode_num (drive_ports 3 0) empty_drive = Some (r, d')" "r = int n"
      "\<forall>k<n. inode_used (drive_ata empty_drive) k" "\<forall>k<32768. inode_used (drive_ata d') k \<longleftrightarrow> inode_used (drive_ata empty_drive) k \<or> k = n"
    using alloc_inode_num_lowest [OF pp.ata_prompt_device_axioms, of empty_drive 3] zero(1) unfolding if_not_P [OF zero(1)] by auto
  with zero(2) [of n] show ?thesis by auto
qed

end
