(* ===== verification/Boot.thy ===== *)
theory Boot
  imports Fs Address_Space Syscalls
begin

text \<open>
  The start of the kernel: \<open>init_memory\<close> of \<open>kernel/memory.c\<close>, which builds the page bitmap from the memory map the
  boot loader passes, and \<open>kernel_main\<close> of \<open>kernel/kernel.c\<close>. The boot information is read from memory at the offsets
  its structures have in \<open>include/multiboot.h\<close>. The bitmap is a list of bytes of its own in this development, taken
  from memory when its address is chosen.
\<close>

section \<open>The memory map\<close>

definition vload64 :: "addr \<Rightarrow> 'a mem_state_scheme \<Rightarrow> u64 option" where
  "vload64 a s = do { lo \<leftarrow> vload32 a s; hi \<leftarrow> vload32 (a + 4) s; Some (ucast lo OR push_bit 32 (ucast hi)) }"

definition entry_size :: "addr \<Rightarrow> 'a mem_state_scheme \<Rightarrow> u32 option" where
  "entry_size p s = vload32 p s"

definition entry_addr :: "addr \<Rightarrow> 'a mem_state_scheme \<Rightarrow> u64 option" where
  "entry_addr p s = vload64 (p + 4) s"

definition entry_len :: "addr \<Rightarrow> 'a mem_state_scheme \<Rightarrow> u64 option" where
  "entry_len p s = vload64 (p + 12) s"

definition entry_type :: "addr \<Rightarrow> 'a mem_state_scheme \<Rightarrow> u32 option" where
  "entry_type p s = vload32 (p + 20) s"

definition MULTIBOOT_MEMORY_AVAILABLE :: u32 where "MULTIBOOT_MEMORY_AVAILABLE = 1"

text \<open>The end of the map, \<open>mbi->mmap_addr + mbi->mmap_length\<close>.\<close>

definition map_end :: "addr \<Rightarrow> 'a mem_state_scheme \<Rightarrow> addr option" where
  "map_end mbi s = do { a \<leftarrow> vload32 (mbi + 48) s; len \<leftarrow> vload32 (mbi + 44) s; Some (a + len) }"

partial_function (option) fetch_highest_block :: "addr \<Rightarrow> addr \<Rightarrow> 'a mem_state_scheme \<Rightarrow> addr option" where
  "fetch_highest_block mbi mm s = do {
     sz \<leftarrow> entry_size mm s;
     e \<leftarrow> map_end mbi s;
     if mm + sz + 4 \<ge> e then Some mm
     else fetch_highest_block mbi (mm + sz + 4) s }"

text \<open>The pages a range of bytes is given in the bitmap: whole pages from the page of its first byte.\<close>

definition range_pages :: "u64 \<Rightarrow> u64" where
  "range_pages range_size = range_size div ucast PAGE_SIZE + (if range_size mod ucast PAGE_SIZE > 0 then 1 else 0)"

partial_function (option) populate_loop :: "addr \<Rightarrow> addr \<Rightarrow> 'a mem_state_scheme \<Rightarrow> 'a mem_state_scheme option" where
  "populate_loop mbi mm s = do {
     type \<leftarrow> entry_type mm s;
     a \<leftarrow> entry_addr mm s;
     len \<leftarrow> entry_len mm s;
     s \<leftarrow> (if type \<noteq> MULTIBOOT_MEMORY_AVAILABLE
           then set_used_bitmaps (a div ucast PAGE_SIZE) (range_pages ((a + len) - a)) s else Some s);
     sz \<leftarrow> entry_size mm s;
     let next_mm = mm + sz + 4;
     e \<leftarrow> map_end mbi s;
     if next_mm \<ge> e then Some s
     else do {
       b \<leftarrow> entry_addr next_mm s;
       s \<leftarrow> (if a + len < b
             then set_used_bitmaps ((a + len) div ucast PAGE_SIZE) (range_pages (b - (a + len))) s else Some s);
       populate_loop mbi next_mm s } }"

text \<open>
  \<open>_kernel_start\<close> is the linker's symbol for address 0, declared as a character: the code uses the byte stored there
  where its address is meant.
\<close>

definition kernel_start :: addr where "kernel_start = 0"

definition populate_bitmap :: "addr \<Rightarrow> addr \<Rightarrow> addr \<Rightarrow> addr \<Rightarrow> 'a mem_state_scheme \<Rightarrow> 'a mem_state_scheme option" where
  "populate_bitmap mbi mm kernel_end_addr initrd_module s = do {
     mend \<leftarrow> vload32 (initrd_module + 4) s;
     raw \<leftarrow> vload_bytes (unat ((bitmap_size s + 7) div 8)) (mend + KERNEL_BASE) s;
     arr \<leftarrow> pmm_clear (unat (bitmap_size s)) raw 0;
     s \<leftarrow> populate_loop mbi mm (s\<lparr>bitmap := arr\<rparr>);
     byte \<leftarrow> vload8 kernel_start s;
     let start = scast byte;
     s \<leftarrow> set_used_bitmaps (start div ucast PAGE_SIZE) (range_pages (ucast kernel_end_addr - start)) s;
     start \<leftarrow> vload32 initrd_module s;
     let module_start_index = ucast (align_down_4k start div PAGE_SIZE);
     let module_final_index = ucast (align_up_4k mend div PAGE_SIZE);
     set_used_bitmaps module_start_index (module_final_index - module_start_index) s }"

text \<open>The loop that maps the pages behind the kernel, for the boot module and the bitmap.\<close>

fun map_boot_pages :: "nat \<Rightarrow> addr \<Rightarrow> addr \<Rightarrow> 'a mem_state_scheme \<Rightarrow> (addr \<times> 'a mem_state_scheme) option" where
  "map_boot_pages 0 kernel_page_table_idx kernel_end_addr s = Some (kernel_end_addr, s)"
| "map_boot_pages (Suc n) kernel_page_table_idx kernel_end_addr s = do {
     s \<leftarrow> vstore32 kernel_page_table_idx (kernel_end_addr OR PAGE_PRESENT OR PAGE_WRITABLE) s;
     map_boot_pages n (kernel_page_table_idx + 4) (kernel_end_addr + PAGE_SIZE) s }"

definition boot_framebuffer :: "addr \<Rightarrow> 'a mem_state_scheme \<Rightarrow> mb_framebuffer option" where
  "boot_framebuffer mbi s = do {
     a \<leftarrow> vload64 (mbi + 88) s; pitch \<leftarrow> vload32 (mbi + 96) s; w \<leftarrow> vload32 (mbi + 100) s; h \<leftarrow> vload32 (mbi + 104) s;
     Some \<lparr>mb_fb_addr = a, mb_fb_pitch = pitch, mb_fb_width = w, mb_fb_height = h\<rparr> }"

definition init_memory :: "addr \<Rightarrow> addr \<Rightarrow> addr \<Rightarrow> 'a mem_state_scheme \<Rightarrow> 'a mem_state_scheme option" where
  "init_memory mbi last_paged_addr kernel_page_table_idx s = do {
     mm \<leftarrow> vload32 (mbi + 48) s;
     mbm \<leftarrow> vload32 (mbi + 24) s;
     highest_block \<leftarrow> fetch_highest_block mbi mm s;
     a \<leftarrow> entry_addr highest_block s;
     len \<leftarrow> entry_len highest_block s;
     let s = s\<lparr>bitmap_size := (a + len) div ucast PAGE_SIZE\<rparr>;
     let kernel_end_addr = align_up_4k last_paged_addr;
     let bitmap_len = (bitmap_size s + 7) div 8;
     let total_bitmap_pages = (bitmap_len + ucast PAGE_SIZE - 1) div ucast PAGE_SIZE;
     mend \<leftarrow> vload32 (mbm + 4) s;
     start \<leftarrow> vload32 mbm s;
     let total_module_pages = align_up_4k mend div PAGE_SIZE - align_down_4k start div PAGE_SIZE;
     (kernel_end_addr, s) \<leftarrow> map_boot_pages (unat (total_bitmap_pages + ucast total_module_pages)) kernel_page_table_idx kernel_end_addr s;
     let s = s\<lparr>tmp_map_addr := kernel_end_addr + KERNEL_BASE\<rparr>;
     initrd_module \<leftarrow> vload32 (mbi + 24) s;
     s \<leftarrow> populate_bitmap mbi mm kernel_end_addr initrd_module s;
     fb \<leftarrow> boot_framebuffer mbi s;
     s \<leftarrow> init_video_memory fb s;
     terminal_writestring ''Memory initialized\<newline>'' s }"

section \<open>The kernel's entry\<close>

definition enable_interrupts :: "'a sched_state_scheme \<Rightarrow> 'a sched_state_scheme" where
  "enable_interrupts s = s\<lparr>interrupts := True\<rparr>"

definition unmap_identity :: "'a mem_state_scheme \<Rightarrow> 'a mem_state_scheme option" where
  "unmap_identity s = vstore32 (kernel_page_directory s) 0 s"

text \<open>
  The result is the state in which \<open>kernel_main\<close> halts and waits for the first interrupt. The divisor of the timer
  chip is the value the compiler gives \<open>PIT_BASE_FREQ / PIT_HZ\<close>.
\<close>

definition kernel_main :: "('d, 'z) ata_ports_scheme \<Rightarrow> u16 \<Rightarrow> addr \<Rightarrow> addr \<Rightarrow> addr \<Rightarrow> 'd \<Rightarrow> 'a tty_state_scheme \<Rightarrow> ('d \<times> 'a tty_state_scheme) option" where
  "kernel_main dev divisor kernel_page_table_idx last_paged_addr mbi d s = do {
     let s = load_psf2_font s;
     s \<leftarrow> init_memory mbi last_paged_addr kernel_page_table_idx s;
     s \<leftarrow> gdt_init s;
     s \<leftarrow> idt_init s;
     s \<leftarrow> pic_init 0x20 0x28 s;
     let s = pit_init divisor s;
     (d, s) \<leftarrow> init_fs dev mbi d s;
     s \<leftarrow> init_scheduler s;
     let s = enable_interrupts s;
     s \<leftarrow> unmap_identity s;
     Some (d, load_cr3 (cr3 s) s) }"

section \<open>Which pages the bitmap takes\<close>

text \<open>A region of the memory map: its address, length and type. \<open>map_holds\<close> says that the map lists the regions.\<close>

type_synonym region = "u64 \<times> u64 \<times> u32"

fun map_holds :: "addr \<Rightarrow> addr \<Rightarrow> region list \<Rightarrow> 'a mem_state_scheme \<Rightarrow> bool" where
  "map_holds mbi p [] s = False"
| "map_holds mbi p ((a, len, type) # rs) s \<longleftrightarrow>
     entry_type p s = Some type \<and> entry_addr p s = Some a \<and> entry_len p s = Some len \<and>
     (case (entry_size p s, map_end mbi s) of
        (Some sz, Some e) \<Rightarrow> if rs = [] then e \<le> p + sz + 4 else p + sz + 4 < e \<and> map_holds mbi (p + sz + 4) rs s
      | _ \<Rightarrow> False)"

definition pages :: "u64 \<Rightarrow> u64 \<Rightarrow> nat set" where
  "pages a len = {unat a div 4096..<unat a div 4096 + (unat len + 4095) div 4096}"

text \<open>The pages of the regions that are not free memory, and of the gaps between regions.\<close>

definition own_pages :: "region \<Rightarrow> nat set" where
  "own_pages r = (case r of (a, len, type) \<Rightarrow> if type \<noteq> MULTIBOOT_MEMORY_AVAILABLE then pages a len else {})"

definition gap_pages :: "region \<Rightarrow> region \<Rightarrow> nat set" where
  "gap_pages q r = (case (q, r) of ((a, len, _), (b, _)) \<Rightarrow> if a + len < b then pages (a + len) (b - (a + len)) else {})"

fun taken :: "region list \<Rightarrow> nat set" where
  "taken [] = {}"
| "taken [r] = own_pages r"
| "taken (q # r # rs) = own_pages q \<union> gap_pages q r \<union> taken (r # rs)"

lemma bitmap_loads [simp]:
  "vload32 a (s\<lparr>bitmap := b\<rparr>) = vload32 a s" "vload8 a (s\<lparr>bitmap := b\<rparr>) = vload8 a s" "vload64 a (s\<lparr>bitmap := b\<rparr>) = vload64 a s"
  "entry_type a (s\<lparr>bitmap := b\<rparr>) = entry_type a s" "entry_addr a (s\<lparr>bitmap := b\<rparr>) = entry_addr a s"
  "entry_len a (s\<lparr>bitmap := b\<rparr>) = entry_len a s" "entry_size a (s\<lparr>bitmap := b\<rparr>) = entry_size a s" "map_end a (s\<lparr>bitmap := b\<rparr>) = map_end a s"
  by (simp_all add: vload32_def vload8_def vload64_def entry_type_def entry_addr_def entry_len_def entry_size_def map_end_def)

lemma map_holds_bitmap [simp]: "map_holds mbi p rs (s\<lparr>bitmap := b\<rparr>) = map_holds mbi p rs s"
  by (induction mbi p rs s rule: map_holds.induct) (auto split: option.splits)

lemma round_up_pages: "(x + 4095) div 4096 = x div 4096 + (if 0 < x mod 4096 then 1 else (0 :: nat))"
proof -
  obtain q m where x: "x = m + 4096 * q" "m < 4096" using mod_mult_div_eq [of x 4096] mod_less_divisor [of 4096 x] by (metis add.commute zero_less_numeral)
  have "(m + 4095) div 4096 = (if 0 < m then 1 else 0)" using x(2) div_nat_eqI [of 1 4096 "m + 4095"] by auto
  moreover have "(x + 4095) div 4096 = (m + 4095) div 4096 + q" using div_mult_self2 [of 4096 "m + 4095" q] x(1) by (simp add: ac_simps)
  ultimately show ?thesis using x by simp
qed

lemma unat_range_pages: "unat (range_pages r) = (unat r + 4095) div 4096"
proof -
  have r: "unat r < 2 ^ 64" using unsigned_less [of r] by simp
  have "unat (r div 4096) = unat r div 4096" "unat (r mod 4096) = unat r mod 4096" by (simp_all add: unat_div unat_mod_distrib)
  then have q: "unat (r div 4096) = unat r div 4096" "0 < r mod 4096 \<longleftrightarrow> 0 < unat r mod 4096" by (simp_all add: word_less_nat_alt)
  have "unat r div 4096 < 2 ^ 52" using r by (simp add: less_mult_imp_div_less)
  then have "unat (range_pages r) = unat r div 4096 + (if 0 < unat r mod 4096 then 1 else 0)"
    by (auto simp: range_pages_def PAGE_SIZE_def q unat_add_u64)
  then show ?thesis by (simp add: round_up_pages)
qed

lemma set_used_range:
  assumes "{unat b..<unat b + unat k} \<subseteq> {..<8 * length (bitmap s)}" and "unat b + unat k < 18446744073709551616"
  shows "\<exists>arr. set_used_bitmaps b k s = Some (s\<lparr>bitmap := arr\<rparr>) \<and> length arr = length (bitmap s) \<and>
    (\<forall>n. bit_used arr n \<longleftrightarrow> bit_used (bitmap s) n \<or> n \<in> {unat b..<unat b + unat k})"
proof (cases "unat k")
  case 0
  then show ?thesis by (intro exI [of _ "bitmap s"]) (simp add: set_used_bitmaps_def)
next
  case (Suc j)
  then have "unat b + j \<in> {unat b..<unat b + unat k}" by simp
  with assms(1) have "unat b + j < 8 * length (bitmap s)" by blast
  then have "unat b + unat k \<le> 8 * length (bitmap s)" using Suc by simp
  from set_used_loop_correct [OF this assms(2)] obtain arr where "set_used_loop (unat k) (bitmap s) b = Some arr" "length arr = length (bitmap s)"
      "\<forall>n. bit_used arr n \<longleftrightarrow> bit_used (bitmap s) n \<or> (unat b \<le> n \<and> n < unat b + unat k)" by blast
  then show ?thesis by (intro exI [of _ arr]) (simp add: set_used_bitmaps_def)
qed

lemma set_used_pages:
  assumes "\<forall>n \<in> pages a r. n < 8 * length (bitmap s)"
  shows "\<exists>arr. set_used_bitmaps (a div ucast PAGE_SIZE) (range_pages r) s = Some (s\<lparr>bitmap := arr\<rparr>) \<and> length arr = length (bitmap s) \<and>
    (\<forall>n. bit_used arr n \<longleftrightarrow> bit_used (bitmap s) n \<or> n \<in> pages a r)"
proof -
  have "unat a div 4096 + (unat r + 4095) div 4096 < 18446744073709551616"
    using unat_u64_less [of a] unat_u64_less [of r] by linarith
  moreover have "unat (a div ucast PAGE_SIZE) = unat a div 4096" by (simp add: PAGE_SIZE_def unat_div)
  ultimately have p: "{unat (a div ucast PAGE_SIZE)..<unat (a div ucast PAGE_SIZE) + unat (range_pages r)} = pages a r"
    and "unat (a div ucast PAGE_SIZE) + unat (range_pages r) < 18446744073709551616"
    by (simp_all add: unat_range_pages pages_def)
  then show ?thesis using set_used_range [of "a div ucast PAGE_SIZE" "range_pages r" s] assms unfolding p by blast
qed

text \<open>One conditional mark of the loop, by name.\<close>

definition mark_if :: "bool \<Rightarrow> u64 \<Rightarrow> u64 \<Rightarrow> 'a mem_state_scheme \<Rightarrow> 'a mem_state_scheme option" where
  "mark_if c a r s = (if c then set_used_bitmaps (a div ucast PAGE_SIZE) (range_pages r) s else Some s)"

lemma populate_loop_step:
  assumes "entry_type p s = Some type" "entry_addr p s = Some a" "entry_len p s = Some len" "entry_size p s = Some sz" "map_end mbi s = Some e"
    and "mark_if (type \<noteq> MULTIBOOT_MEMORY_AVAILABLE) a len s = Some (s\<lparr>bitmap := arr\<rparr>)"
  shows "populate_loop mbi p s = (if e \<le> p + sz + 4 then Some (s\<lparr>bitmap := arr\<rparr>)
    else do { b \<leftarrow> entry_addr (p + sz + 4) s; s \<leftarrow> mark_if (a + len < b) (a + len) (b - (a + len)) (s\<lparr>bitmap := arr\<rparr>); populate_loop mbi (p + sz + 4) s })"
  using assms(1-5) unfolding populate_loop.simps [of mbi p s] mark_if_def [symmetric] by (simp add: assms(6) Let_def)

lemma mark_if_takes:
  assumes "\<forall>n \<in> S. n < 8 * length (bitmap s)" and "S = (if c then pages a r else {})"
  shows "\<exists>arr. mark_if c a r s = Some (s\<lparr>bitmap := arr\<rparr>) \<and> length arr = length (bitmap s) \<and> (\<forall>n. bit_used arr n \<longleftrightarrow> bit_used (bitmap s) n \<or> n \<in> S)"
  using assms set_used_pages [of a r s] by (cases c) (auto simp: mark_if_def intro!: exI [of _ "bitmap s"])

lemma populate_loop_takes:
  assumes "map_holds mbi p rs s" and "\<forall>n \<in> taken rs. n < 8 * length (bitmap s)"
  shows "\<exists>arr. populate_loop mbi p s = Some (s\<lparr>bitmap := arr\<rparr>) \<and> length arr = length (bitmap s) \<and>
    (\<forall>n. bit_used arr n \<longleftrightarrow> bit_used (bitmap s) n \<or> n \<in> taken rs)"
  using assms
proof (induction rs arbitrary: p s)
  case (Cons q rs)
  obtain a len type where q: "q = (a, len, type)" by (cases q)
  from Cons.prems obtain sz e where m: "entry_type p s = Some type" "entry_addr p s = Some a" "entry_len p s = Some len"
      "entry_size p s = Some sz" "map_end mbi s = Some e"
      "if rs = [] then e \<le> p + sz + 4 else p + sz + 4 < e \<and> map_holds mbi (p + sz + 4) rs s"
    by (auto simp: q split: option.splits)
  have "taken (q # rs) = own_pages q \<union> (case rs of [] \<Rightarrow> {} | r # _ \<Rightarrow> gap_pages q r) \<union> taken rs" by (cases rs) auto
  note taken = this and fits = Cons.prems(2) [unfolded this]
  obtain arr1 where s1: "mark_if (type \<noteq> MULTIBOOT_MEMORY_AVAILABLE) a len s = Some (s\<lparr>bitmap := arr1\<rparr>)" "length arr1 = length (bitmap s)"
      "\<forall>n. bit_used arr1 n \<longleftrightarrow> bit_used (bitmap s) n \<or> n \<in> own_pages q"
    using mark_if_takes [of "own_pages q" s "type \<noteq> MULTIBOOT_MEMORY_AVAILABLE" a len] fits by (auto simp: q own_pages_def)
  note step = populate_loop_step [OF m(1-5) s1(1)]
  show ?case
  proof (cases rs)
    case Nil
    with s1 m step show ?thesis by (intro exI [of _ arr1]) (simp add: taken)
  next
    case (Cons r rs')
    obtain b lb tb where r: "r = (b, lb, tb)" by (cases r)
    let ?s1 = "s\<lparr>bitmap := arr1\<rparr>" and ?p = "p + sz + 4"
    have h: "map_holds mbi ?p rs ?s1" "?p < e" "entry_addr ?p s = Some b" using m(6) Cons r by simp_all
    have "\<forall>n \<in> gap_pages q r. n < 8 * length (bitmap ?s1)" using fits s1(2) Cons by simp
    then obtain arr2 where s2: "mark_if (a + len < b) (a + len) (b - (a + len)) ?s1 = Some (s\<lparr>bitmap := arr2\<rparr>)" "length arr2 = length (bitmap s)"
        "\<forall>n. bit_used arr2 n \<longleftrightarrow> bit_used arr1 n \<or> n \<in> gap_pages q r"
      using mark_if_takes [of "gap_pages q r" ?s1 "a + len < b" "a + len" "b - (a + len)"] s1(2) by (auto simp: q r gap_pages_def)
    have "\<forall>n \<in> taken rs. n < 8 * length (bitmap (s\<lparr>bitmap := arr2\<rparr>))" "map_holds mbi ?p rs (s\<lparr>bitmap := arr2\<rparr>)" using fits s2(2) h(1) by simp_all
    then obtain arr3 where "populate_loop mbi ?p (s\<lparr>bitmap := arr2\<rparr>) = Some (s\<lparr>bitmap := arr3\<rparr>)" "length arr3 = length (bitmap s)"
        "\<forall>n. bit_used arr3 n \<longleftrightarrow> bit_used arr2 n \<or> n \<in> taken rs"
      using Cons.IH [of ?p "s\<lparr>bitmap := arr2\<rparr>"] s2(2) by auto
    with s1(3) s2(1,3) h(2,3) Cons show ?thesis unfolding step taken by (intro exI [of _ arr3]) auto
  qed
qed simp

text \<open>The pages of the boot module.\<close>

definition module_pages :: "u32 \<Rightarrow> u32 \<Rightarrow> nat set" where
  "module_pages start mend = {unat start div 4096..<(unat mend + 4095) div 4096}"

lemma unat_align_div:
  "unat (align_down_4k a div PAGE_SIZE) = unat a div 4096"
  "a \<le> 0xFFFFF000 \<Longrightarrow> unat (align_up_4k a div PAGE_SIZE) = (unat a + 4095) div 4096"
proof -
  have d: "unat ((x :: u32) AND PAGE_MASK) div 4096 = unat x div 4096" for x
    by (simp add: unat_and_PAGE_MASK minus_mod_eq_mult_div)
  then show "unat (align_down_4k a div PAGE_SIZE) = unat a div 4096" by (simp add: align_down_4k_eq unat_div PAGE_SIZE_def)
  assume "a \<le> 0xFFFFF000"
  then have "unat (a + 0xFFF) = unat a + 4095" by (simp add: word_le_nat_alt unat_add_u32)
  then show "unat (align_up_4k a div PAGE_SIZE) = (unat a + 4095) div 4096" using d by (simp add: align_up_4k_eq unat_div PAGE_SIZE_def)
qed

lemma vload_bytes_length: "vload_bytes n a s = Some bs \<Longrightarrow> length bs = n"
  by (induction n arbitrary: a bs) (auto simp: bind_Some_iff)

text \<open>
  C30: After \<open>populate_bitmap\<close> a page is marked as used exactly when it belongs to a region the boot loader does not call
  available, to a gap between two regions, to the range the code takes for the kernel, or to the boot module; all
  other pages are free. The range taken for the kernel starts at the byte stored at address 0.
\<close>

theorem populate_bitmap_takes_reserved:
  assumes "map_holds mbi mm rs s" and "vload32 initrd s = Some start" and "vload32 (initrd + 4) s = Some mend"
    and "vload_bytes (unat ((bitmap_size s + 7) div 8)) (mend + KERNEL_BASE) s = Some raw" and "vload8 kernel_start s = Some byte"
    and "start \<le> mend" and "mend \<le> 0xFFFFF000" and "unat (bitmap_size s) \<le> 1048576"
    and "taken rs \<union> pages (scast byte) (ucast kernel_end - scast byte) \<union> module_pages start mend \<subseteq> {..<unat (bitmap_size s)}"
  shows "\<exists>arr. populate_bitmap mbi mm kernel_end initrd s = Some (s\<lparr>bitmap := arr\<rparr>) \<and> pmm_inv (s\<lparr>bitmap := arr\<rparr>) \<and>
    (\<forall>n < unat (bitmap_size s). page_used (s\<lparr>bitmap := arr\<rparr>) n \<longleftrightarrow>
      n \<in> taken rs \<union> pages (scast byte) (ucast kernel_end - scast byte) \<union> module_pages start mend)"
proof -
  let ?N = "unat (bitmap_size s)" and ?K = "pages (scast byte) (ucast kernel_end - scast byte)"
  have len: "?N \<le> 8 * length raw"
    using vload_bytes_length [OF assms(4)] assms(8) by (simp add: unat_div unat_add_u64)
  obtain a0 where a0: "pmm_clear ?N raw 0 = Some a0" "length a0 = length raw" "\<forall>n<?N. \<not> bit_used a0 n"
    using pmm_clear_correct [of 0 ?N raw] len by auto
  let ?s0 = "s\<lparr>bitmap := a0\<rparr>"
  obtain a1 where a1: "populate_loop mbi mm ?s0 = Some (s\<lparr>bitmap := a1\<rparr>)" "length a1 = length raw" "\<forall>n. bit_used a1 n \<longleftrightarrow> bit_used a0 n \<or> n \<in> taken rs"
    using populate_loop_takes [of mbi mm rs ?s0] assms(1,9) a0(2) len by fastforce
  obtain a2 where a2: "set_used_bitmaps (scast byte div ucast PAGE_SIZE) (range_pages (ucast kernel_end - scast byte)) (s\<lparr>bitmap := a1\<rparr>) = Some (s\<lparr>bitmap := a2\<rparr>)"
      "length a2 = length raw" "\<forall>n. bit_used a2 n \<longleftrightarrow> bit_used a1 n \<or> n \<in> ?K"
    using set_used_pages [of "scast byte" "ucast kernel_end - scast byte" "s\<lparr>bitmap := a1\<rparr>"] assms(9) a1(2) len by fastforce
  let ?b = "ucast (align_down_4k start div PAGE_SIZE) :: u64" and ?e = "ucast (align_up_4k mend div PAGE_SIZE) :: u64"
  have le: "unat start div 4096 \<le> (unat mend + 4095) div 4096" using assms(6) by (intro div_le_mono) (simp add: word_le_nat_alt)
  then have be: "unat ?b = unat start div 4096" "unat (?e - ?b) = (unat mend + 4095) div 4096 - unat start div 4096"
    using unat_align_div [of start] unat_align_div(2) [OF assms(7)] by (simp_all add: unat_ucast_u32_u64 unat_sub word_le_nat_alt)
  have mod: "{unat ?b..<unat ?b + unat (?e - ?b)} = module_pages start mend" "unat ?b + unat (?e - ?b) < 18446744073709551616"
    using be le unat_u32_less [of mend] by (simp_all only: module_pages_def le_add_diff_inverse)
  obtain a3 where a3: "set_used_bitmaps ?b (?e - ?b) (s\<lparr>bitmap := a2\<rparr>) = Some (s\<lparr>bitmap := a3\<rparr>)" "length a3 = length raw"
      "\<forall>n. bit_used a3 n \<longleftrightarrow> bit_used a2 n \<or> n \<in> module_pages start mend"
    using set_used_range [of ?b "?e - ?b" "s\<lparr>bitmap := a2\<rparr>"] assms(9) a2(2) len mod(2) unfolding mod(1) by fastforce
  have "populate_bitmap mbi mm kernel_end initrd s = Some (s\<lparr>bitmap := a3\<rparr>)"
    using assms(2-5) a0(1) a1(1) a2(1) a3(1) by (simp add: populate_bitmap_def)
  moreover have "pmm_inv (s\<lparr>bitmap := a3\<rparr>)" using len a3(2) assms(8) by (simp add: pmm_inv_def)
  ultimately show ?thesis using a0(3) a1(3) a2(3) a3(3) by (intro exI [of _ a3]) (auto simp: page_used_def)
qed

text \<open>
  A machine with eight pages: page 0 holds the boot information at 0x100, a map of two regions at 0x200 (pages 0 to 3
  free, 6 and 7 reserved) and the description of a module at 0x300; it is mapped at 0 and at 0xC0000000.
\<close>

definition loaded_phys :: memory where
  "loaded_phys = fold (\<lambda>(a, v) m. store32 m a v)
     [(0x1000, 0x2003), (0x1C00, 0x2003), (0x2000, 3), (0x12C, 48), (0x130, 0x200),
      (0x200, 20), (0x20C, 0x4000), (0x214, 1), (0x218, 20), (0x21C, 0x6000), (0x224, 0x2000), (0x22C, 2),
      (0x300, 0x400), (0x304, 0x800)] (\<lambda>_. 0)"

definition loaded :: mem_state where
  "loaded = booted\<lparr>phys := loaded_phys, cr3 := 0x1000, bitmap_size := 8\<rparr>"

lemma loaded_tables: "load32 loaded_phys 0x1000 = 0x2003" "load32 loaded_phys 0x1C00 = 0x2003" "load32 loaded_phys 0x2000 = 3"
  by (simp_all add: loaded_phys_def load32_def store32_def)

lemma loaded_words:
  "vload32 0x12C loaded = Some 48" "vload32 0x130 loaded = Some 0x200" "vload32 0x200 loaded = Some 20" "vload32 0x204 loaded = Some 0"
  "vload32 0x208 loaded = Some 0" "vload32 0x20C loaded = Some 0x4000" "vload32 0x210 loaded = Some 0" "vload32 0x214 loaded = Some 1"
  "vload32 0x218 loaded = Some 20" "vload32 0x21C loaded = Some 0x6000" "vload32 0x220 loaded = Some 0" "vload32 0x224 loaded = Some 0x2000"
  "vload32 0x228 loaded = Some 0" "vload32 0x22C loaded = Some 2" "vload32 0x300 loaded = Some 0x400" "vload32 0x304 loaded = Some 0x800"
  "vload8 0 loaded = Some 0" "vload8 0xC0000800 loaded = Some 0"
  by (simp_all add: loaded_def vload32_def vload8_def translate_def PDE_INDEX_def PTE_INDEX_def entry_def loaded_tables PAGE_MASK_def denies_def Let_def)
    (simp_all add: loaded_phys_def load32_def store32_def)

lemma loaded_map: "map_holds 0x100 0x200 [(0, 0x4000, 1), (0x6000, 0x2000, 2)] loaded"
  by (simp add: entry_type_def entry_addr_def entry_len_def entry_size_def map_end_def vload64_def loaded_words)

theorem populate_bitmap_takes_reserved_witness:
  "\<exists>arr. populate_bitmap 0x100 0x200 0x2000 0x300 loaded = Some (loaded\<lparr>bitmap := arr\<rparr>) \<and>
    (\<forall>n<8. page_used (loaded\<lparr>bitmap := arr\<rparr>) n \<longleftrightarrow> n \<notin> {2, 3})"
proof -
  have sz: "bitmap_size loaded = 8" by (simp add: loaded_def)
  have raw: "vload_bytes (unat ((bitmap_size loaded + 7) div 8)) (0x800 + KERNEL_BASE) loaded = Some [0]"
    by (simp add: sz KERNEL_BASE_def loaded_words)
  have t: "taken [(0, 0x4000, 1), (0x6000, 0x2000, 2)] = {4..<8}"
    by (auto simp: own_pages_def gap_pages_def pages_def MULTIBOOT_MEMORY_AVAILABLE_def)
  have k: "pages (scast (0 :: u8)) (ucast (0x2000 :: u32) - scast (0 :: u8)) = {0..<2}" by (auto simp: pages_def)
  have m: "module_pages 0x400 0x800 = {0}" by (auto simp: module_pages_def)
  have fits: "taken [(0, 0x4000, 1), (0x6000, 0x2000, 2)] \<union> pages (scast (0 :: u8)) (ucast (0x2000 :: u32) - scast (0 :: u8)) \<union> module_pages 0x400 0x800
      \<subseteq> {..<unat (bitmap_size loaded)}" unfolding t k m sz by auto
  have words: "vload32 0x300 loaded = Some 0x400" "vload32 (0x300 + 4) loaded = Some 0x800" "vload8 kernel_start loaded = Some 0"
    by (simp_all add: loaded_words kernel_start_def)
  obtain arr where arr: "populate_bitmap 0x100 0x200 0x2000 0x300 loaded = Some (loaded\<lparr>bitmap := arr\<rparr>)"
      "\<forall>n < 8. page_used (loaded\<lparr>bitmap := arr\<rparr>) n \<longleftrightarrow> n \<in> {4..<8} \<union> {0..<2} \<union> {0}"
    using populate_bitmap_takes_reserved [OF loaded_map words(1,2) raw words(3) _ _ _ fits] unfolding t k m sz by auto
  moreover have "(n \<in> {4..<8} \<union> {0..<2} \<union> {0}) = (n \<notin> {2, 3})" if "n < 8" for n :: nat using that by auto
  ultimately show ?thesis by (intro exI [of _ arr]) simp
qed

text \<open>
  \<open>kernel_main\<close> sets up no virtual file system: a task created while \<open>global_tty\<close> names no vnode opens its files on a
  null pointer.
\<close>

lemma kmalloc_keeps_vfs:
  assumes "kmalloc n s = Some (a, s')"
  shows "vnodes s' = vnodes (s :: 'a vfs_state_scheme)" "global_tty s' = global_tty s"
  using slab_kept_kmalloc [OF assms] by (cases s; cases s'; simp)+

lemma open_file_needs_vnode: "vnodes s v = None \<Longrightarrow> open_file v flags s = None"
  by (cases "kmalloc 12 s") (auto simp: open_file_def kmalloc_keeps_vfs)

lemma create_task_needs_vfs:
  assumes "vnodes s (global_tty s) = None"
  shows "create_task entry_point type s = None"
proof (cases "kmalloc sizeof_task s")
  case (Some r)
  then obtain a s1 where r: "kmalloc sizeof_task s = Some (a, s1)" by (cases r) auto
  with assms have "open_file (global_tty s1) (ucast RONLY_FLAG) s1 = None" by (simp add: open_file_needs_vnode kmalloc_keeps_vfs)
  with r show ?thesis by (simp add: create_task_def)
qed (simp add: create_task_def)

end
