(* ===== verification/User_Lib.thy ===== *)
theory User_Lib
  imports Syscalls
begin

text \<open>
  The C library of user programs (\<open>userspace/libc\<close>). A system call wrapper puts the number and the arguments into
  registers and executes \<open>int 0x80\<close>; its result is the outcome of the kernel's handler on the same state. \<open>printf\<close> is
  the sequence of the writes it makes to the standard output, each the list of its bytes.
\<close>

section \<open>System call wrappers\<close>

text \<open>\<open>frame\<close> and \<open>regs\<close> are the address and the contents of the registers the interrupt pushes.\<close>

definition int80 :: "addr \<Rightarrow> cpu_task_state \<Rightarrow> u32 \<Rightarrow> u32 \<Rightarrow> u32 \<Rightarrow> u32 \<Rightarrow> 'a tty_state_scheme \<Rightarrow> 'a tty_state_scheme outcome option" where
  "int80 frame regs eax ebx ecx edx s =
     syscall_handler frame (regs\<lparr>ctx_eax := eax, ctx_ebx := ebx, ctx_ecx := ecx, ctx_edx := edx\<rparr>) s"

text \<open>The value of a call that returns to its caller.\<close>

definition result :: "'s outcome option \<Rightarrow> (u32 \<times> 's) option" where
  "result r = (case r of Some (Returns regs s) \<Rightarrow> Some (ctx_eax regs, s) | _ \<Rightarrow> None)"

definition user_exit :: "addr \<Rightarrow> cpu_task_state \<Rightarrow> 'a tty_state_scheme \<Rightarrow> 'a tty_state_scheme outcome option" where
  "user_exit frame regs s = syscall_handler frame (regs\<lparr>ctx_eax := 1\<rparr>) s"

definition user_read :: "addr \<Rightarrow> cpu_task_state \<Rightarrow> u32 \<Rightarrow> addr \<Rightarrow> u32 \<Rightarrow> 'a tty_state_scheme \<Rightarrow> 'a tty_state_scheme outcome option" where
  "user_read frame regs fd buf len s = int80 frame regs 3 fd buf len s"

definition user_write :: "addr \<Rightarrow> cpu_task_state \<Rightarrow> u32 \<Rightarrow> addr \<Rightarrow> u32 \<Rightarrow> 'a tty_state_scheme \<Rightarrow> (u32 \<times> 'a tty_state_scheme) option" where
  "user_write frame regs fd buf len s = result (int80 frame regs 4 fd buf len s)"

definition user_ioctl :: "addr \<Rightarrow> cpu_task_state \<Rightarrow> u32 \<Rightarrow> u32 \<Rightarrow> u32 \<Rightarrow> 'a tty_state_scheme \<Rightarrow> (u32 \<times> 'a tty_state_scheme) option" where
  "user_ioctl frame regs fd request arg s = result (int80 frame regs 54 fd request arg s)"

definition user_mmap :: "addr \<Rightarrow> cpu_task_state \<Rightarrow> addr \<Rightarrow> u32 \<Rightarrow> 'a tty_state_scheme \<Rightarrow> (u32 \<times> 'a tty_state_scheme) option" where
  "user_mmap frame regs a len s = result (int80 frame regs 9 a len (ctx_edx regs) s)"

definition user_munmap :: "addr \<Rightarrow> cpu_task_state \<Rightarrow> addr \<Rightarrow> u32 \<Rightarrow> 'a tty_state_scheme \<Rightarrow> (u32 \<times> 'a tty_state_scheme) option" where
  "user_munmap frame regs a len s = result (int80 frame regs 91 a len (ctx_edx regs) s)"

definition user_strlen :: "addr \<Rightarrow> 'a mem_state_scheme \<Rightarrow> u32 option" where
  "user_strlen a s = strlen_from 0 a s"

text \<open>
  \<open>fgets\<close>; its flags start as whatever the stack holds, \<open>flags\<close> here. When \<open>read\<close> waits for input, what follows it
  runs after the task has been woken and has made the call again.
\<close>

definition fgets :: "addr \<Rightarrow> cpu_task_state \<Rightarrow> u32 \<Rightarrow> addr \<Rightarrow> u32 \<Rightarrow> u32 \<Rightarrow> 'a tty_state_scheme \<Rightarrow> 'a tty_state_scheme outcome option" where
  "fgets frame regs flags buffer len fd s = do {
     let flags = flags OR ECHO_FLAG;
     (r, s) \<leftarrow> user_ioctl frame regs fd SET_FLAG_REQUEST flags s;
     out \<leftarrow> user_read frame regs fd buffer len s;
     case out of
       Returns regs' s \<Rightarrow> do {
         (r, s) \<leftarrow> user_ioctl frame regs fd CLEAR_FLAG_REQUEST flags s;
         Some (Returns regs' s) }
     | _ \<Rightarrow> Some out }"

section \<open>printf\<close>

datatype printf_arg = IntArg int | StrArg "u8 list"

text \<open>The digits of a positive number in a buffer of 11 characters, lowest first.\<close>

function int_digits :: "int \<Rightarrow> u8 list \<Rightarrow> u8 list option" where
  "int_digits int_param buffer = (
     if int_param > 0 then
       if length buffer < 11 then int_digits (int_param div 10) (buffer @ [48 + of_int (int_param mod 10)]) else None
     else Some buffer)"
  by pat_completeness auto
termination
  by (relation "measure (\<lambda>(v, buffer). nat v)") auto

declare int_digits.simps [simp del]

definition print_int :: "int \<Rightarrow> u8 list list option" where
  "print_int v = (if v = 0 then Some [[48]]
     else do { buffer \<leftarrow> int_digits v []; Some (map (\<lambda>c. [c]) (rev buffer)) })"

definition print_hex :: "string \<Rightarrow> int \<Rightarrow> u8 list list" where
  "print_hex digits v = [48, 120] # map (\<lambda>j. [of_char (digits ! unat (drop_bit j (of_int v :: u32) AND 0xF))]) [28, 24, 20, 16, 12, 8, 4, 0]"

fun printf :: "u8 list \<Rightarrow> printf_arg list \<Rightarrow> u8 list list option" where
  "printf [] args = Some []"
| "printf [c] args = (if c = 37 then Some [] else Some [[c]])"
| "printf (c # d # s) args = (
     if c = 37 then
       if d = of_char (CHR ''i'') then
         case args of IntArg v # args \<Rightarrow> do { w \<leftarrow> print_int v; r \<leftarrow> printf s args; Some (w @ r) } | _ \<Rightarrow> None
       else if d = of_char (CHR ''x'') then
         case args of IntArg v # args \<Rightarrow> do { r \<leftarrow> printf s args; Some (print_hex ''0123456789abcdef'' v @ r) } | _ \<Rightarrow> None
       else if d = of_char (CHR ''X'') then
         case args of IntArg v # args \<Rightarrow> do { r \<leftarrow> printf s args; Some (print_hex ''0123456789ABCDEF'' v @ r) } | _ \<Rightarrow> None
       else if d = of_char (CHR ''s'') then
         case args of StrArg p # args \<Rightarrow> do { r \<leftarrow> printf s args; Some (p # r) } | _ \<Rightarrow> None
       else printf (d # s) args
     else do { r \<leftarrow> printf (d # s) args; Some ([c] # r) })"

section \<open>What printf writes\<close>

lemma int_digits_decimal:
  "0 < v \<Longrightarrow> length buffer + length (decimal (nat v)) \<le> 11 \<Longrightarrow> int_digits v buffer = Some (buffer @ rev (decimal (nat v)))"
proof (induction v buffer rule: int_digits.induct)
  case (1 v buffer)
  have digit: "(of_int (v mod 10) :: u8) = of_nat (nat v mod 10)" using 1(2) by (simp add: nat_mod_distrib flip: of_nat_nat)
  have rest: "nat (v div 10) = nat v div 10" using 1(2) by (simp add: nat_div_distrib)
  have pos: "0 < length (decimal n)" for n by (subst decimal.simps) simp
  show ?case
  proof (cases "v < 10")
    case True
    then have "v div 10 = 0" "nat v < 10" using 1(2) by auto
    then show ?thesis using 1(2,3) digit by (simp add: int_digits.simps [of v] int_digits.simps [of 0] decimal.simps [of "nat v"])
  next
    case False
    then have "\<not> nat v < 10" by auto
    then have d: "decimal (nat v) = decimal (nat v div 10) @ [48 + of_nat (nat v mod 10)]" by (subst decimal.simps) simp
    have "0 < v div 10" using False by (simp add: pos_imp_zdiv_pos_iff)
    then show ?thesis using 1 pos [of "nat v div 10"] by (simp add: int_digits.simps [of v] d digit rest)
  qed
qed

lemma print_int_decimal:
  assumes "0 \<le> v" and "v < 2 ^ 31"
  shows "print_int v = Some (map (\<lambda>c. [c]) (decimal (nat v)))"
proof (cases "v = 0")
  case True
  then show ?thesis by (simp add: print_int_def decimal.simps)
next
  case False
  have "length (decimal (nat v)) \<le> 10" using length_decimal [of "nat v" 9] assms by simp
  then show ?thesis using False assms int_digits_decimal [of v "[]"] by (simp add: print_int_def)
qed

lemma printf_plain: "37 \<notin> set pre \<Longrightarrow> printf (pre @ post) args = map_option (\<lambda>r. map (\<lambda>c. [c]) pre @ r) (printf post args)"
proof (induction pre)
  case Nil
  then show ?case by (simp add: option.map_ident)
next
  case (Cons c pre)
  then show ?case by (cases "pre @ post") (auto simp: map_option_case split: option.splits)
qed

lemma printf_number:
  assumes "37 \<notin> set pre" and "printf post args = Some r" and "- (2 ^ 31) \<le> v" and "v < 2 ^ 31"
  shows "printf (pre @ [37, of_char (CHR ''i'')] @ post) (IntArg v # args) =
    Some (map (\<lambda>c. [c]) (pre @ (if 0 \<le> v then decimal (nat v) else [])) @ r)"
proof -
  have "print_int v = Some (map (\<lambda>c. [c]) (if 0 \<le> v then decimal (nat v) else []))"
    using print_int_decimal [of v] assms(4) by (auto simp: print_int_def int_digits.simps [of v])
  then show ?thesis using printf_plain [OF assms(1)] assms(2) by simp
qed

text \<open>
  C38: \<open>printf\<close> writes the characters before a \<open>%i\<close> one by one, then the decimal digits of the argument, for every
  value that is not negative, then goes on behind the directive. For a negative argument it writes no digit at all.
\<close>

theorem printf_decimal:
  assumes "37 \<notin> set pre" and "printf post args = Some r" and "- (2 ^ 31) \<le> v" and "v < 2 ^ 31"
  shows "printf (pre @ [37, of_char (CHR ''i'')] @ post) (IntArg v # args) =
    Some (map (\<lambda>c. [c]) (pre @ (if 0 \<le> v then decimal (nat v) else [])) @ r)"
  using assms by (rule printf_number)

theorem printf_decimal_witness:
  "printf (map of_char ''n = %i!'') [IntArg 42] = Some (map (\<lambda>c. [of_char c]) ''n = 42!'')"
proof -
  have "decimal 42 = [52, 50]" by (simp add: decimal.simps)
  then show ?thesis using printf_decimal [of "map of_char ''n = ''" "map of_char ''!''" "[]" "[[33]]" 42] by simp
qed

end
