(* ===== verification/User_Malloc.thy ===== *)
theory User_Malloc
  imports User_Lib
begin

text \<open>
  The memory allocator of user programs (\<open>userspace/stdlib\<close>). Its structures live in the memory of the current address
  space and are read and written through the page walk; new pages come from the \<open>mmap\<close> system call, executed by the
  kernel's handler on the same state. A page fault is undefined here.
\<close>

section \<open>State\<close>

text \<open>\<open>written\<close> is the data of the program's writes to its standard output.\<close>

record user_state = tty_state +
  mem_pool :: addr
  written :: "u8 list list"

definition PB_OG_SIZE :: u32 where "PB_OG_SIZE = 0"
definition PB_FREE_SIZE :: u32 where "PB_FREE_SIZE = 4"
definition PB_NEXT_FREE_ADDR :: u32 where "PB_NEXT_FREE_ADDR = 8"
definition PB_FREE_BLOCKS :: u32 where "PB_FREE_BLOCKS = 12"
definition PB_NEXT :: u32 where "PB_NEXT = 16"
definition PB_PREV :: u32 where "PB_PREV = 20"
definition sizeof_page_block :: u32 where "sizeof_page_block = 24"

definition MB_SIZE :: u32 where "MB_SIZE = 0"
definition MB_PARENT :: u32 where "MB_PARENT = 4"
definition MB_NEXT :: u32 where "MB_NEXT = 8"
definition MB_ALLOCATED :: u32 where "MB_ALLOCATED = 12"
definition sizeof_mem_block :: u32 where "sizeof_mem_block = 16"

definition user_pages_required :: "u32 \<Rightarrow> u32" where
  "user_pages_required len = (len + PAGE_SIZE - 1) div PAGE_SIZE"

definition align_up :: "u32 \<Rightarrow> u32" where
  "align_up n = (n + 7) AND NOT 7"

section \<open>malloc\<close>

definition alloc_page_block :: "addr \<Rightarrow> cpu_task_state \<Rightarrow> u32 \<Rightarrow> 'a user_state_scheme \<Rightarrow> (addr \<times> 'a user_state_scheme) option" where
  "alloc_page_block frame regs n s = do {
     let total_pages = user_pages_required n;
     (p, s) \<leftarrow> user_mmap frame regs NULL n s;
     s \<leftarrow> vstore32 (p + PB_OG_SIZE) (PAGE_SIZE * total_pages) s;
     s \<leftarrow> vstore32 (p + PB_FREE_SIZE) (PAGE_SIZE * total_pages - sizeof_page_block) s;
     s \<leftarrow> vstore32 (p + PB_FREE_BLOCKS) NULL s;
     s \<leftarrow> vstore32 (p + PB_NEXT) NULL s;
     s \<leftarrow> vstore32 (p + PB_PREV) NULL s;
     s \<leftarrow> vstore32 (p + PB_NEXT_FREE_ADDR) (p + sizeof_page_block) s;
     Some (p, s) }"

definition alloc_mem_block :: "u32 \<Rightarrow> addr \<Rightarrow> 'a user_state_scheme \<Rightarrow> (addr \<times> 'a user_state_scheme) option" where
  "alloc_mem_block n page_parent s = do {
     b \<leftarrow> vload32 (page_parent + PB_NEXT_FREE_ADDR) s;
     free_size \<leftarrow> vload32 (page_parent + PB_FREE_SIZE) s;
     s \<leftarrow> vstore32 (page_parent + PB_FREE_SIZE) (free_size - n) s;
     next_free_addr \<leftarrow> vload32 (page_parent + PB_NEXT_FREE_ADDR) s;
     s \<leftarrow> vstore32 (page_parent + PB_NEXT_FREE_ADDR) (next_free_addr + n) s;
     s \<leftarrow> vstore32 (b + MB_SIZE) (n - sizeof_mem_block) s;
     s \<leftarrow> vstore32 (b + MB_PARENT) page_parent s;
     s \<leftarrow> vstore32 (b + MB_NEXT) NULL s;
     s \<leftarrow> vstore8 (b + MB_ALLOCATED) 1 s;
     Some (b, s) }"

text \<open>The loop marked as a test, which prints the free list of the page block.\<close>

definition user_printf :: "string \<Rightarrow> printf_arg list \<Rightarrow> 'a user_state_scheme \<Rightarrow> 'a user_state_scheme option" where
  "user_printf fmt args s = do {
     chunks \<leftarrow> printf (map of_char fmt) args;
     Some (s\<lparr>written := written s @ chunks\<rparr>) }"

partial_function (option) print_free_blocks :: "addr \<Rightarrow> 'a user_state_scheme \<Rightarrow> 'a user_state_scheme option" where
  "print_free_blocks b s = (if b = NULL then Some s else do {
     n \<leftarrow> vload32 (b + MB_SIZE) s;
     s \<leftarrow> user_printf ''size: %i\<newline>'' [IntArg (sint n)] s;
     a \<leftarrow> vload8 (b + MB_ALLOCATED) s;
     s \<leftarrow> user_printf ''is_allocated: %i\<newline>'' [IntArg (uint a)] s;
     b \<leftarrow> vload32 (b + MB_NEXT) s;
     print_free_blocks b s })"

text \<open>\<open>link_block\<close>: what precedes a block of the free list now points to \<open>q\<close>.\<close>

definition link_block :: "addr \<Rightarrow> addr \<Rightarrow> addr \<Rightarrow> 'a user_state_scheme \<Rightarrow> 'a user_state_scheme option" where
  "link_block prev b q s =
     (if prev = NULL then do { p \<leftarrow> vload32 (b + MB_PARENT) s; vstore32 (p + PB_FREE_BLOCKS) q s }
      else vstore32 (prev + MB_NEXT) q s)"

definition split_block :: "u32 \<Rightarrow> u32 \<Rightarrow> addr \<Rightarrow> addr \<Rightarrow> 'a user_state_scheme \<Rightarrow> 'a user_state_scheme option" where
  "split_block aligned_size target_sz prev b s = do {
     let q = b + target_sz;
     n \<leftarrow> vload32 (b + MB_SIZE) s;
     s \<leftarrow> vstore32 (q + MB_SIZE) (n - target_sz) s;
     s \<leftarrow> vstore8 (q + MB_ALLOCATED) 0 s;
     p \<leftarrow> vload32 (b + MB_PARENT) s;
     s \<leftarrow> vstore32 (q + MB_PARENT) p s;
     s \<leftarrow> vstore32 (b + MB_SIZE) aligned_size s;
     s \<leftarrow> vstore8 (b + MB_ALLOCATED) 1 s;
     nx \<leftarrow> vload32 (b + MB_NEXT) s;
     s \<leftarrow> vstore32 (q + MB_NEXT) nx s;
     s \<leftarrow> link_block prev b q s;
     s \<leftarrow> vstore32 (b + MB_NEXT) NULL s;
     p \<leftarrow> vload32 (b + MB_PARENT) s;
     f \<leftarrow> vload32 (p + PB_FREE_BLOCKS) s;
     print_free_blocks f s }"

text \<open>The inner loop. The result is the address to return, or nothing when the list ends.\<close>

partial_function (option) search_blocks :: "u32 \<Rightarrow> u32 \<Rightarrow> addr \<Rightarrow> addr \<Rightarrow> 'a user_state_scheme \<Rightarrow> (addr option \<times> 'a user_state_scheme) option" where
  "search_blocks aligned_size target_sz prev b s = (if b = NULL then Some (None, s) else do {
     n \<leftarrow> vload32 (b + MB_SIZE) s;
     if n > aligned_size then do {
       s \<leftarrow> split_block aligned_size target_sz prev b s;
       Some (Some (b + sizeof_mem_block), s) }
     else if n = aligned_size then do {
       s \<leftarrow> vstore8 (b + MB_ALLOCATED) 1 s;
       nx \<leftarrow> vload32 (b + MB_NEXT) s;
       s \<leftarrow> link_block prev b nx s;
       Some (Some (b + sizeof_mem_block), s) }
     else do {
       nx \<leftarrow> vload32 (b + MB_NEXT) s;
       search_blocks aligned_size target_sz b nx s } })"

text \<open>The outer loop. The result is the address to return, or the last page block when none has room.\<close>

partial_function (option) search_pages :: "u32 \<Rightarrow> u32 \<Rightarrow> addr \<Rightarrow> addr \<Rightarrow> 'a user_state_scheme \<Rightarrow> ((addr + addr) \<times> 'a user_state_scheme) option" where
  "search_pages aligned_size target_sz prev p s = (if p = NULL then Some (Inr prev, s) else do {
     f \<leftarrow> vload32 (p + PB_FREE_BLOCKS) s;
     (r, s) \<leftarrow> (if f \<noteq> NULL then search_blocks aligned_size target_sz NULL f s else Some (None, s));
     case r of
       Some a \<Rightarrow> Some (Inl a, s)
     | None \<Rightarrow> do {
         free_size \<leftarrow> vload32 (p + PB_FREE_SIZE) s;
         if free_size \<ge> target_sz then do {
           (b, s) \<leftarrow> alloc_mem_block target_sz p s;
           Some (Inl (b + sizeof_mem_block), s) }
         else do {
           nx \<leftarrow> vload32 (p + PB_NEXT) s;
           search_pages aligned_size target_sz p nx s } } })"

definition malloc :: "addr \<Rightarrow> cpu_task_state \<Rightarrow> u32 \<Rightarrow> 'a user_state_scheme \<Rightarrow> (addr \<times> 'a user_state_scheme) option" where
  "malloc frame regs n s = (
     let aligned_size = align_up n;
         target_sz = aligned_size + sizeof_mem_block;
         alloc_size = target_sz + sizeof_page_block in
     if mem_pool s = NULL then do {
       (p, s) \<leftarrow> alloc_page_block frame regs alloc_size s;
       (b, s) \<leftarrow> alloc_mem_block target_sz p s;
       Some (b + sizeof_mem_block, s\<lparr>mem_pool := p\<rparr>) }
     else do {
       (r, s) \<leftarrow> search_pages aligned_size target_sz NULL (mem_pool s) s;
       case r of
         Inl a \<Rightarrow> Some (a, s)
       | Inr prev \<Rightarrow> do {
           (p, s) \<leftarrow> alloc_page_block frame regs alloc_size s;
           s \<leftarrow> vstore32 (p + PB_PREV) prev s;
           s \<leftarrow> vstore32 (prev + PB_NEXT) p s;
           (b, s) \<leftarrow> alloc_mem_block target_sz p s;
           Some (b + sizeof_mem_block, s) } })"

section \<open>free\<close>

partial_function (option) sum_free :: "u32 \<Rightarrow> addr \<Rightarrow> 'a user_state_scheme \<Rightarrow> u32 option" where
  "sum_free tot b s = (if b = NULL then Some tot else do {
     n \<leftarrow> vload32 (b + MB_SIZE) s;
     nx \<leftarrow> vload32 (b + MB_NEXT) s;
     sum_free (tot + (n + sizeof_mem_block)) nx s })"

definition is_page_free :: "addr \<Rightarrow> 'a user_state_scheme \<Rightarrow> bool option" where
  "is_page_free b s = do {
     p \<leftarrow> vload32 (b + MB_PARENT) s;
     free_size \<leftarrow> vload32 (p + PB_FREE_SIZE) s;
     n \<leftarrow> vload32 (b + MB_SIZE) s;
     f \<leftarrow> vload32 (p + PB_FREE_BLOCKS) s;
     tot \<leftarrow> sum_free (free_size + n + sizeof_mem_block + sizeof_page_block) f s;
     og_size \<leftarrow> vload32 (p + PB_OG_SIZE) s;
     Some (tot = og_size) }"

definition unmap_free_page :: "addr \<Rightarrow> cpu_task_state \<Rightarrow> addr \<Rightarrow> 'a user_state_scheme \<Rightarrow> 'a user_state_scheme option" where
  "unmap_free_page frame regs p s = do {
     nx \<leftarrow> vload32 (p + PB_NEXT) s;
     prev \<leftarrow> vload32 (p + PB_PREV) s;
     s \<leftarrow> (if nx \<noteq> NULL then vstore32 (nx + PB_PREV) prev s else Some s);
     prev \<leftarrow> vload32 (p + PB_PREV) s;
     nx \<leftarrow> vload32 (p + PB_NEXT) s;
     s \<leftarrow> (if prev \<noteq> NULL then vstore32 (prev + PB_NEXT) nx s else Some s);
     nx \<leftarrow> vload32 (p + PB_NEXT) s;
     let s = (if p = mem_pool s then s\<lparr>mem_pool := nx\<rparr> else s);
     og_size \<leftarrow> vload32 (p + PB_OG_SIZE) s;
     (r, s) \<leftarrow> user_munmap frame regs p og_size s;
     Some s }"

partial_function (option) last_block :: "addr \<Rightarrow> 'a user_state_scheme \<Rightarrow> addr option" where
  "last_block b s = do {
     nx \<leftarrow> vload32 (b + MB_NEXT) s;
     if nx \<noteq> NULL then last_block nx s else Some b }"

definition free :: "addr \<Rightarrow> cpu_task_state \<Rightarrow> addr \<Rightarrow> 'a user_state_scheme \<Rightarrow> 'a user_state_scheme option" where
  "free frame regs a s = do {
     let b = a - sizeof_mem_block;
     s \<leftarrow> vstore8 (b + MB_ALLOCATED) 0 s;
     whole \<leftarrow> is_page_free b s;
     p \<leftarrow> vload32 (b + MB_PARENT) s;
     if whole then unmap_free_page frame regs p s
     else do {
       f \<leftarrow> vload32 (p + PB_FREE_BLOCKS) s;
       if f = NULL then vstore32 (p + PB_FREE_BLOCKS) b s
       else do {
         l \<leftarrow> last_block f s;
         al \<leftarrow> vload8 (l + MB_ALLOCATED) s;
         n \<leftarrow> vload32 (l + MB_SIZE) s;
         if al = 0 \<and> l + n + sizeof_mem_block = b then do {
           k \<leftarrow> vload32 (b + MB_SIZE) s;
           vstore32 (l + MB_SIZE) (n + (k + sizeof_mem_block)) s }
         else vstore32 (l + MB_NEXT) b s } } }"

end
