(* ===== verification/User_Area.thy ===== *)
theory User_Area
  imports Paging
begin

text \<open>
  A range of user addresses as a memory of its own. A program reads and writes through the page walk; \<open>holds\<close> says
  that the walk gives, on the range, a plain byte memory, and its lemmas execute loads and stores on that memory.
\<close>

section \<open>A user area\<close>

text \<open>
  The addresses from \<open>lo\<close> up to \<open>hi\<close> are mapped, writable, to bytes \<open>pa\<close> that are all different, and no byte of the
  area is part of a page table: the mapping is the same whatever the area holds. Then the area is a memory of its own,
  \<open>m\<close>, and the state changes in nothing else.
\<close>

definition addrs :: "nat \<Rightarrow> nat \<Rightarrow> addr set" where
  "addrs lo hi = {a. lo \<le> unat a \<and> unat a < hi}"

definition user_area :: "'a mem_state_scheme \<Rightarrow> (addr \<Rightarrow> addr) \<Rightarrow> nat \<Rightarrow> nat \<Rightarrow> bool" where
  "user_area s pa lo hi \<longleftrightarrow> 4 dvd lo \<and> 4 dvd hi \<and> hi \<le> 4294967296 \<and> inj_on pa (addrs lo hi) \<and>
     (\<forall>a \<in> addrs lo hi. 4 dvd unat a \<longrightarrow> (\<forall>k \<in> {1, 2, 3}. pa (a + k) = pa a + k)) \<and>
     (\<forall>m w. (\<forall>x. x \<notin> pa ` addrs lo hi \<longrightarrow> m x = phys s x) \<longrightarrow> (\<forall>a \<in> addrs lo hi. translate m (cr3 s) w a = Some (pa a)))"

definition holds :: "'a mem_state_scheme \<Rightarrow> (addr \<Rightarrow> addr) \<Rightarrow> nat \<Rightarrow> nat \<Rightarrow> memory \<Rightarrow> 'a mem_state_scheme \<Rightarrow> bool" where
  "holds s0 pa lo hi m s \<longleftrightarrow> user_area s pa lo hi \<and> (\<exists>x. s = s0\<lparr>phys := x\<rparr>) \<and> (\<forall>a \<in> addrs lo hi. phys s (pa a) = m a)"

definition in_area :: "nat \<Rightarrow> nat \<Rightarrow> addr \<Rightarrow> bool" where
  "in_area lo hi a \<longleftrightarrow> 4 dvd unat a \<and> lo \<le> unat a \<and> unat a < hi"

lemma area_word:
  assumes "user_area s pa lo hi" and "in_area lo hi a"
  shows "a \<in> addrs lo hi" "a + 1 \<in> addrs lo hi" "a + 2 \<in> addrs lo hi" "a + 3 \<in> addrs lo hi"
    "pa (a + 1) = pa a + 1" "pa (a + 2) = pa a + 2" "pa (a + 3) = pa a + 3" "unat a + 3 < hi"
proof -
  from assms have h: "4 dvd unat a" "4 dvd hi" "lo \<le> unat a" "unat a < hi" "hi \<le> 4294967296" by (auto simp: user_area_def in_area_def)
  then show l: "unat a + 3 < hi" by presburger
  with h have "unat (a + 1) = unat a + 1" "unat (a + 2) = unat a + 2" "unat (a + 3) = unat a + 3" by (simp_all add: unat_add_u32)
  with h l show a: "a \<in> addrs lo hi" "a + 1 \<in> addrs lo hi" "a + 2 \<in> addrs lo hi" "a + 3 \<in> addrs lo hi" by (auto simp: addrs_def)
  from assms(1) a(1) h(1) show "pa (a + 1) = pa a + 1" "pa (a + 2) = pa a + 2" "pa (a + 3) = pa a + 3" by (simp_all add: user_area_def)
qed

lemma area_translate:
  assumes "user_area s pa lo hi" and "a \<in> addrs lo hi"
  shows "translate (phys s) (cr3 s) w a = Some (pa a)"
  using assms by (simp add: user_area_def)

lemma area_inj: "user_area s pa lo hi \<Longrightarrow> a \<in> addrs lo hi \<Longrightarrow> b \<in> addrs lo hi \<Longrightarrow> pa a = pa b \<longleftrightarrow> a = b"
  by (auto simp: user_area_def dest: inj_onD)

lemma area_kept:
  assumes "user_area s pa lo hi" and "\<And>x. x \<notin> pa ` addrs lo hi \<Longrightarrow> m x = phys s x"
  shows "user_area (s\<lparr>phys := m\<rparr>) pa lo hi"
proof -
  have "(\<forall>x. x \<notin> pa ` addrs lo hi \<longrightarrow> m' x = phys (s\<lparr>phys := m\<rparr>) x) = (\<forall>x. x \<notin> pa ` addrs lo hi \<longrightarrow> m' x = phys s x)" for m'
    using assms(2) by auto
  with assms(1) show ?thesis by (simp add: user_area_def)
qed

lemma holds_load32:
  assumes "holds s0 pa lo hi m s" and "in_area lo hi a"
  shows "vload32 a s = Some (load32 m a)"
proof -
  from assms(1) have u: "user_area s pa lo hi" and v: "\<And>b. b \<in> addrs lo hi \<Longrightarrow> phys s (pa b) = m b" by (simp_all add: holds_def)
  note w = area_word [OF u assms(2)]
  have "load32 (phys s) (pa a) = load32 m a"
    unfolding load32_def using v [OF w(1)] v [OF w(2)] v [OF w(3)] v [OF w(4)] w(5-7) by simp
  then show ?thesis using area_translate [OF u w(1)] by (simp add: vload32_def)
qed

lemma holds_load8:
  assumes "holds s0 pa lo hi m s" and "a \<in> addrs lo hi"
  shows "vload8 a s = Some (m a)"
  using assms area_translate [of s pa lo hi a False] by (auto simp: holds_def vload8_def)

lemma holds_store32:
  assumes "holds s0 pa lo hi m s" and "in_area lo hi a"
  obtains s' where "vstore32 a v s = Some s'" "holds s0 pa lo hi (store32 m a v) s'"
proof -
  from assms(1) have u: "user_area s pa lo hi" and v: "\<And>b. b \<in> addrs lo hi \<Longrightarrow> phys s (pa b) = m b" and e: "\<exists>x. s = s0\<lparr>phys := x\<rparr>" by (simp_all add: holds_def)
  note w = area_word [OF u assms(2)]
  let ?m = "store32 (phys s) (pa a) v"
  have "x \<notin> {pa a, pa a + 1, pa a + 2, pa a + 3}" if "x \<notin> pa ` addrs lo hi" for x
    using that w(1-7) by (auto simp flip: w(5-7))
  then have "user_area (s\<lparr>phys := ?m\<rparr>) pa lo hi" by (intro area_kept [OF u]) (simp add: store32_other)
  moreover have "?m (pa b) = store32 m a v b" if "b \<in> addrs lo hi" for b
    using v [OF that] area_inj [OF u that] w(1-4) by (simp add: store32_def flip: w(5-7))
  ultimately have "holds s0 pa lo hi (store32 m a v) (s\<lparr>phys := ?m\<rparr>)" using e by (auto simp: holds_def)
  then show thesis using that area_translate [OF u w(1)] by (simp add: vstore32_def)
qed

lemma holds_store8:
  assumes "holds s0 pa lo hi m s" and "a \<in> addrs lo hi"
  obtains s' where "vstore8 a v s = Some s'" "holds s0 pa lo hi (m(a := v)) s'"
proof -
  from assms(1) have u: "user_area s pa lo hi" and v: "\<And>b. b \<in> addrs lo hi \<Longrightarrow> phys s (pa b) = m b" and e: "\<exists>x. s = s0\<lparr>phys := x\<rparr>" by (simp_all add: holds_def)
  have "user_area (s\<lparr>phys := (phys s)(pa a := v)\<rparr>) pa lo hi" using assms(2) by (intro area_kept [OF u]) auto
  then have "holds s0 pa lo hi (m(a := v)) (s\<lparr>phys := (phys s)(pa a := v)\<rparr>)"
    using v area_inj [OF u _ assms(2)] e by (auto simp: holds_def)
  then show thesis using that area_translate [OF u assms(2)] by (simp add: vstore8_def)
qed

lemma holds_bounds: "holds s0 pa lo hi m s \<Longrightarrow> hi \<le> 4294967296"
  by (simp add: holds_def user_area_def)

text \<open>A structure of \<open>n\<close> bytes in the area.\<close>

definition struct_in :: "nat \<Rightarrow> nat \<Rightarrow> addr \<Rightarrow> nat \<Rightarrow> bool" where
  "struct_in lo hi p n \<longleftrightarrow> 4 dvd unat p \<and> lo \<le> unat p \<and> unat p + n \<le> hi"

lemma struct_field:
  assumes "struct_in lo hi p n" and "hi \<le> 4294967296" and "unat k < n"
  shows "unat (p + k) = unat p + unat k" "4 dvd unat k \<Longrightarrow> in_area lo hi (p + k)" "p + k \<in> addrs lo hi"
proof -
  show u: "unat (p + k) = unat p + unat k" using assms by (simp add: struct_in_def unat_add_u32)
  show "4 dvd unat k \<Longrightarrow> in_area lo hi (p + k)" "p + k \<in> addrs lo hi"
    using assms by (auto simp: in_area_def addrs_def struct_in_def u)
qed

section \<open>An area of one page\<close>

text \<open>A machine whose page directory at 0x1000 and page table at 0x2000 map the page at 0x1000, and no other, to 0x5000.\<close>

definition one_page :: "memory \<Rightarrow> memory" where
  "one_page m x = (if 0x5000 \<le> unat x \<and> unat x < 0x6000 then m (x - 0x4000) else store32 (store32 (\<lambda>_. 0) 0x1000 0x2007) 0x2004 0x5007 x)"

lemma one_page_byte:
  assumes "a \<in> addrs 0x1000 0x2000"
  shows "unat (a + 0x4000) = unat a + 0x4000" "one_page m (a + 0x4000) = m a"
proof -
  show u: "unat (a + 0x4000) = unat a + 0x4000" using assms unat_add_u32 [of a "0x4000"] by (simp add: addrs_def)
  show "one_page m (a + 0x4000) = m a" using assms by (simp add: one_page_def u addrs_def)
qed

lemma one_page_tables:
  assumes "\<And>x. x \<notin> (\<lambda>a. a + 0x4000) ` addrs 0x1000 0x2000 \<Longrightarrow> m' x = one_page m x"
  shows "load32 m' 0x1000 = 0x2007" "load32 m' 0x2004 = 0x5007"
proof -
  have "m' x = one_page m x" if "unat x < 0x5000" for x
    using that one_page_byte(1) by (intro assms) (auto simp: addrs_def)
  then show "load32 m' 0x1000 = 0x2007" "load32 m' 0x2004 = 0x5007"
    by (simp_all add: load32_def one_page_def store32_def)
qed

lemma one_page_index:
  assumes "a \<in> addrs 0x1000 0x2000"
  shows "PDE_INDEX a = 0" "PTE_INDEX a = 1" "0x5000 + (a AND 0xFFF) = a + 0x4000"
proof -
  have a: "0x1000 \<le> unat a" "unat a < 0x2000" using assms by (simp_all add: addrs_def)
  have d: "unat a div 4096 = 1" "unat a mod 4096 = unat a - 4096" using a by (simp_all add: div_nat_eqI mod_if)
  show "PDE_INDEX a = 0" "PTE_INDEX a = 1" using a d(1) by (simp_all add: word_eq_iff_unat_u32 unat_PDE_INDEX unat_PTE_INDEX)
  have "unat (0x5000 + (a AND 0xFFF)) = 0x5000 + (unat a - 4096)" using a d(2) unat_add_u32 [of "0x5000" "a AND 0xFFF"] by (simp add: unat_and_0xFFF)
  then show "0x5000 + (a AND 0xFFF) = a + 0x4000" using a one_page_byte(1) [OF assms] by (simp add: word_eq_iff_unat_u32)
qed

lemma holds_one_page:
  assumes "phys s = one_page m" and "cr3 s = 0x1000"
  shows "holds s (\<lambda>a. a + 0x4000) 0x1000 0x2000 m s"
proof -
  have "translate m' 0x1000 w a = Some (a + 0x4000)"
    if m': "\<forall>x. x \<notin> (\<lambda>a. a + 0x4000) ` addrs 0x1000 0x2000 \<longrightarrow> m' x = one_page m x" and a: "a \<in> addrs 0x1000 0x2000" for m' w a
    using one_page_tables [of m' m] m' one_page_index [OF a] by (simp add: translate_def entry_def PAGE_MASK_def denies_def)
  moreover have "a + 0x4000 + k = a + k + (0x4000 :: addr)" for a k by simp
  ultimately have "user_area s (\<lambda>a. a + 0x4000) 0x1000 0x2000"
    using assms by (auto simp: user_area_def inj_on_def)
  then show ?thesis using assms one_page_byte(2) by (auto simp: holds_def intro!: exI [of _ "one_page m"])
qed

end
