(* ===== verification/Malloc_Arena.thy ===== *)
theory Malloc_Arena
  imports User_Malloc User_Area Linked_List
begin

text \<open>
  What \<open>malloc\<close> and \<open>free\<close> do to a page block: its blocks lie side by side from the header up to the unused end, each
  with a header of its own, and some of them form the free list. \<open>arena\<close> says so of a memory; the theorems say which
  calls keep it, and which do not.
\<close>

section \<open>Taking a block from the unused end of a page block\<close>

text \<open>The memory after \<open>alloc_mem_block\<close> of \<open>t\<close> bytes at \<open>q\<close> in the page block \<open>p\<close>.\<close>

definition carve :: "addr \<Rightarrow> u32 \<Rightarrow> addr \<Rightarrow> memory \<Rightarrow> memory" where
  "carve p t q m = (store32 (store32 (store32 (store32 (store32 m (p + 4) (load32 m (p + 4) - t)) (p + 8) (q + t)) q (t - 16)) (q + 4) p) (q + 8) 0)(q + 12 := 1)"

lemma alloc_mem_block_carves:
  assumes "holds s0 pa lo hi m s" and p: "struct_in lo hi p 24" and q: "struct_in lo hi q 16" and "load32 m (p + 8) = q"
  shows "\<exists>s'. alloc_mem_block t p s = Some (q, s') \<and> holds s0 pa lo hi (carve p t q m) s'"
proof -
  note hi = holds_bounds [OF assms(1)]
  have pf: "in_area lo hi (p + 4)" "in_area lo hi (p + 8)" using struct_field(2) [OF p hi, of 4] struct_field(2) [OF p hi, of 8] by simp_all
  have qf: "in_area lo hi q" "in_area lo hi (q + 4)" "in_area lo hi (q + 8)" "q + 12 \<in> addrs lo hi"
    using struct_field(2) [OF q hi, of 0] struct_field(2) [OF q hi, of 4] struct_field(2) [OF q hi, of 8] struct_field(3) [OF q hi, of 12] by simp_all
  have apart: "load32 (store32 m (p + 4) v) (p + 8) = load32 m (p + 8)" for v
    using p hi struct_field(1) [OF p hi, of 4] struct_field(1) [OF p hi, of 8] by (intro load32_store32_range) (simp_all add: struct_in_def)
  obtain s1 where s1: "vstore32 (p + 4) (load32 m (p + 4) - t) s = Some s1" "holds s0 pa lo hi (store32 m (p + 4) (load32 m (p + 4) - t)) s1"
    using holds_store32 [OF assms(1) pf(1)] by blast
  obtain s2 where s2: "vstore32 (p + 8) (q + t) s1 = Some s2" "holds s0 pa lo hi (store32 (store32 m (p + 4) (load32 m (p + 4) - t)) (p + 8) (q + t)) s2"
    using holds_store32 [OF s1(2) pf(2)] by blast
  obtain s3 where s3: "vstore32 q (t - 16) s2 = Some s3" "holds s0 pa lo hi (store32 (store32 (store32 m (p + 4) (load32 m (p + 4) - t)) (p + 8) (q + t)) q (t - 16)) s3"
    using holds_store32 [OF s2(2) qf(1)] by blast
  obtain s4 where s4: "vstore32 (q + 4) p s3 = Some s4" "holds s0 pa lo hi (store32 (store32 (store32 (store32 m (p + 4) (load32 m (p + 4) - t)) (p + 8) (q + t)) q (t - 16)) (q + 4) p) s4"
    using holds_store32 [OF s3(2) qf(2)] by blast
  obtain s5 where s5: "vstore32 (q + 8) 0 s4 = Some s5" "holds s0 pa lo hi (store32 (store32 (store32 (store32 (store32 m (p + 4) (load32 m (p + 4) - t)) (p + 8) (q + t)) q (t - 16)) (q + 4) p) (q + 8) 0) s5"
    using holds_store32 [OF s4(2) qf(3)] by blast
  obtain s6 where s6: "vstore8 (q + 12) 1 s5 = Some s6" "holds s0 pa lo hi (carve p t q m) s6"
    using holds_store8 [OF s5(2) qf(4)] unfolding carve_def by blast
  show ?thesis using s1(1) s2(1) s3(1) s4(1) s5(1) s6 holds_load32 [OF assms(1) pf(1)] holds_load32 [OF assms(1) pf(2)] holds_load32 [OF s1(2) pf(2)] apart assms(4)
    by (simp add: alloc_mem_block_def PB_NEXT_FREE_ADDR_def PB_FREE_SIZE_def MB_SIZE_def MB_PARENT_def MB_NEXT_def MB_ALLOCATED_def sizeof_mem_block_def)
qed

lemma carve_frame:
  assumes "struct_in lo hi p 24" and "struct_in lo hi q 16" and "hi \<le> 4294967296"
    and "\<not> (unat p + 4 \<le> unat a \<and> unat a < unat p + 12)" and "\<not> (unat q \<le> unat a \<and> unat a < unat q + 13)"
  shows "carve p t q m a = m a"
proof -
  have u: "unat (p + 4) = unat p + 4" "unat (p + 8) = unat p + 8" "unat (q + 4) = unat q + 4" "unat (q + 8) = unat q + 8" "unat (q + 12) = unat q + 12"
    using struct_field(1) [OF assms(1,3), of 4] struct_field(1) [OF assms(1,3), of 8] struct_field(1) [OF assms(2,3), of 4]
      struct_field(1) [OF assms(2,3), of 8] struct_field(1) [OF assms(2,3), of 12] by simp_all
  then have "a \<noteq> q + 12" using assms(5) by auto
  with u assms show ?thesis unfolding carve_def by (auto simp: store32_range struct_in_def)
qed

lemma carve_header:
  assumes "struct_in lo hi p 24" and "struct_in lo hi q 16" and "hi \<le> 4294967296" and "unat p + 24 \<le> unat q"
  shows "load32 (carve p t q m) (p + 4) = load32 m (p + 4) - t" "load32 (carve p t q m) (p + 8) = q + t"
    "load32 (carve p t q m) q = t - 16" "load32 (carve p t q m) (q + 4) = p" "load32 (carve p t q m) (q + 8) = 0" "carve p t q m (q + 12) = 1"
proof -
  have u: "unat (p + 4) = unat p + 4" "unat (p + 8) = unat p + 8" "unat (q + 4) = unat q + 4" "unat (q + 8) = unat q + 8" "unat (q + 12) = unat q + 12"
    using struct_field(1) [OF assms(1,3), of 4] struct_field(1) [OF assms(1,3), of 8] struct_field(1) [OF assms(2,3), of 4]
      struct_field(1) [OF assms(2,3), of 8] struct_field(1) [OF assms(2,3), of 12] by simp_all
  have b: "load32 (m'(q + 12 := 1)) b = load32 m' b" if "unat b + 4 \<le> unat q + 12" for m' b
    using that u(5) assms by (intro load32_agree) (auto simp: struct_in_def)
  note r = load32_store32_range and lim = assms [unfolded struct_in_def]
  show "load32 (carve p t q m) (p + 4) = load32 m (p + 4) - t" "load32 (carve p t q m) (p + 8) = q + t"
    "load32 (carve p t q m) q = t - 16" "load32 (carve p t q m) (q + 4) = p" "load32 (carve p t q m) (q + 8) = 0" "carve p t q m (q + 12) = 1"
    unfolding carve_def using lim by (simp_all add: b u r)
qed

section \<open>The arena of a page block\<close>

text \<open>The blocks, address and size, from \<open>a\<close> up to \<open>e\<close>.\<close>

fun tiled :: "memory \<Rightarrow> addr \<Rightarrow> nat \<Rightarrow> (addr \<times> u32) list \<Rightarrow> nat \<Rightarrow> bool" where
  "tiled m p a [] e \<longleftrightarrow> a = e"
| "tiled m p a ((q, n) # bs) e \<longleftrightarrow>
     unat q = a \<and> 8 dvd unat n \<and> load32 m q = n \<and> load32 m (q + 4) = p \<and> tiled m p (a + 16 + unat n) bs e"

definition links :: "memory \<Rightarrow> addr \<Rightarrow> addr option" where
  "links m q = Some (load32 m (q + 8))"

definition arena :: "nat \<Rightarrow> nat \<Rightarrow> memory \<Rightarrow> addr \<Rightarrow> (addr \<times> u32) list \<Rightarrow> addr list \<Rightarrow> bool" where
  "arena lo hi m p bs fs \<longleftrightarrow>
     8 dvd unat p \<and> p \<noteq> NULL \<and> lo \<le> unat p \<and> unat p + unat (load32 m p) \<le> hi \<and> hi < 4294967296 \<and>
     tiled m p (unat p + 24) bs (unat (load32 m (p + 8))) \<and>
     unat (load32 m (p + 8)) + unat (load32 m (p + 4)) = unat p + unat (load32 m p) \<and>
     path (links m) (load32 m (p + 12)) fs NULL \<and> distinct fs \<and> set fs \<subseteq> fst ` set bs \<and>
     (\<forall>(q, n) \<in> set bs. m (q + 12) = (if q \<in> set fs then 0 else 1))"

text \<open>The bytes of a block, and those its owner uses.\<close>

definition block_bytes :: "addr \<times> u32 \<Rightarrow> addr set" where
  "block_bytes b = (case b of (q, n) \<Rightarrow> addrs (unat q) (unat q + 16 + unat n))"

definition data_bytes :: "addr \<times> u32 \<Rightarrow> addr set" where
  "data_bytes b = (case b of (q, n) \<Rightarrow> addrs (unat q + 16) (unat q + 16 + unat n))"

lemma tiled_end: "tiled m p a bs e \<Longrightarrow> a \<le> e"
  by (induction m p a bs e rule: tiled.induct) auto

lemma tiled_in:
  "tiled m p a bs e \<Longrightarrow> (q, n) \<in> set bs \<Longrightarrow>
   a \<le> unat q \<and> unat q + 16 + unat n \<le> e \<and> 8 dvd unat n \<and> load32 m q = n \<and> load32 m (q + 4) = p"
proof (induction m p a bs e rule: tiled.induct)
  case (2 m p a q' n' bs e)
  then show ?case using tiled_end [of m p "a + 16 + unat n'" bs e] by auto
qed simp

lemma tiled_aligned: "tiled m p a bs e \<Longrightarrow> 8 dvd a \<Longrightarrow> (q, n) \<in> set bs \<Longrightarrow> 8 dvd unat q" "tiled m p a bs e \<Longrightarrow> 8 dvd a \<Longrightarrow> 8 dvd e"
  by (induction m p a bs e rule: tiled.induct) auto

lemma tiled_apart:
  "tiled m p a bs e \<Longrightarrow> (q, n) \<in> set bs \<Longrightarrow> (q', n') \<in> set bs \<Longrightarrow>
   (q, n) = (q', n') \<or> unat q + 16 + unat n \<le> unat q' \<or> unat q' + 16 + unat n' \<le> unat q"
proof (induction m p a bs e rule: tiled.induct)
  case (2 m p a x k bs e)
  from 2(2) have "tiled m p (a + 16 + unat k) bs e" "unat x = a" by simp_all
  then show ?case using 2 tiled_in [of m p "a + 16 + unat k" bs e] by fastforce
qed simp

lemma tiled_distinct: "tiled m p a bs e \<Longrightarrow> distinct (map fst bs)"
proof (induction m p a bs e rule: tiled.induct)
  case (2 m p a q n bs e)
  then have "distinct (map fst bs)" "tiled m p (a + 16 + unat n) bs e" "unat q = a" by simp_all
  moreover from tiled_in [OF this(2)] have "unat q < unat x" if "(x, k) \<in> set bs" for x k
    using that \<open>unat q = a\<close> by fastforce
  ultimately show ?case by fastforce
qed simp

lemma tiled_append: "tiled m p a (bs @ cs) e \<longleftrightarrow> (\<exists>d. tiled m p a bs d \<and> tiled m p d cs e)"
  by (induction bs arbitrary: a) auto

lemma tiled_cong:
  assumes "\<And>q n. (q, n) \<in> set bs \<Longrightarrow> load32 m' q = load32 m q \<and> load32 m' (q + 4) = load32 m (q + 4)"
  shows "tiled m' p a bs e = tiled m p a bs e"
  using assms
proof (induction bs arbitrary: a)
  case (Cons b bs)
  obtain q n where b: "b = (q, n)" by (cases b)
  have "tiled m' p (a + 16 + unat n) bs e = tiled m p (a + 16 + unat n) bs e"
    by (rule Cons.IH) (metis Cons.prems list.set_intros(2))
  moreover have "load32 m' q = load32 m q \<and> load32 m' (q + 4) = load32 m (q + 4)" using Cons.prems [of q n] b by simp
  ultimately show ?case by (simp add: b)
qed simp

lemma arenaD:
  assumes "arena lo hi m p bs fs"
  shows "8 dvd unat p" "p \<noteq> NULL" "lo \<le> unat p" "unat p + unat (load32 m p) \<le> hi" "hi < 4294967296"
    "tiled m p (unat p + 24) bs (unat (load32 m (p + 8)))" "unat (load32 m (p + 8)) + unat (load32 m (p + 4)) = unat p + unat (load32 m p)"
    "path (links m) (load32 m (p + 12)) fs NULL" "distinct fs" "set fs \<subseteq> fst ` set bs"
    "(q, n) \<in> set bs \<Longrightarrow> m (q + 12) = (if q \<in> set fs then 0 else 1)"
  using assms unfolding arena_def by blast+

lemma arenaI:
  assumes "8 dvd unat p" "p \<noteq> NULL" "lo \<le> unat p" "unat p + unat (load32 m p) \<le> hi" "hi < 4294967296"
    "tiled m p (unat p + 24) bs (unat (load32 m (p + 8)))" "unat (load32 m (p + 8)) + unat (load32 m (p + 4)) = unat p + unat (load32 m p)"
    "path (links m) (load32 m (p + 12)) fs NULL" "distinct fs" "set fs \<subseteq> fst ` set bs"
    "\<And>q n. (q, n) \<in> set bs \<Longrightarrow> m (q + 12) = (if q \<in> set fs then 0 else 1)"
  shows "arena lo hi m p bs fs"
  using assms unfolding arena_def by blast

lemma arena_page: "arena lo hi m p bs fs \<Longrightarrow> struct_in lo hi p 24"
  using arenaD [of lo hi m p bs fs] tiled_end [of m p "unat p + 24" bs "unat (load32 m (p + 8))"]
  by (auto simp: struct_in_def elim: dvd_trans [rotated])

lemma arena_block:
  assumes "arena lo hi m p bs fs" and "(q, n) \<in> set bs"
  shows "struct_in lo hi q 16" "unat p + 24 \<le> unat q" "unat q + 16 + unat n \<le> unat (load32 m (p + 8))" "8 dvd unat n" "8 dvd unat q"
    "load32 m q = n" "load32 m (q + 4) = p" "q \<noteq> NULL" "unat (load32 m (p + 8)) \<le> hi"
proof -
  note D = arenaD [OF assms(1)]
  from tiled_in [OF D(6) assms(2)] show t: "unat p + 24 \<le> unat q" "unat q + 16 + unat n \<le> unat (load32 m (p + 8))" "8 dvd unat n" "load32 m q = n" "load32 m (q + 4) = p"
    by auto
  show a: "8 dvd unat q" using tiled_aligned(1) [OF D(6) _ assms(2)] D(1) by simp
  show h: "unat (load32 m (p + 8)) \<le> hi" using D(4,7) by simp
  show "struct_in lo hi q 16" using t(1,2) a h D(3) by (auto simp: struct_in_def elim: dvd_trans [rotated])
  show "q \<noteq> NULL" using t(1) by auto
qed

lemma arena_free_block: "arena lo hi m p bs fs \<Longrightarrow> q \<in> set fs \<Longrightarrow> \<exists>n. (q, n) \<in> set bs"
  using arenaD(10) by fastforce

text \<open>The header of a block is determined by its bytes.\<close>

lemma header_kept:
  assumes "unat q + 16 \<le> 4294967296" and "\<And>a. unat q \<le> unat a \<Longrightarrow> unat a < unat q + 13 \<Longrightarrow> m' a = m a"
  shows "load32 m' q = load32 m q" "load32 m' (q + 4) = load32 m (q + 4)" "load32 m' (q + 8) = load32 m (q + 8)" "m' (q + 12) = m (q + 12)"
proof -
  have u: "unat (q + 4) = unat q + 4" "unat (q + 8) = unat q + 8" "unat (q + 12) = unat q + 12" using assms(1) by (simp_all add: unat_add_u32)
  show "load32 m' q = load32 m q" "load32 m' (q + 4) = load32 m (q + 4)" "load32 m' (q + 8) = load32 m (q + 8)"
    using assms u by (auto intro!: load32_agree)
  show "m' (q + 12) = m (q + 12)" using assms(2) [of "q + 12"] u by simp
qed

text \<open>
  A memory that differs from an arena's only outside the headers of its blocks keeps their part of the arena.
\<close>

definition keeps_block :: "memory \<Rightarrow> memory \<Rightarrow> addr \<times> u32 \<Rightarrow> bool" where
  "keeps_block m m' b \<longleftrightarrow> (\<forall>a \<in> block_bytes b. m' a = m a)"

lemma keeps_block_header:
  assumes "keeps_block m m' (q, n)" and "unat q + 16 \<le> 4294967296"
  shows "load32 m' q = load32 m q" "load32 m' (q + 4) = load32 m (q + 4)" "load32 m' (q + 8) = load32 m (q + 8)" "m' (q + 12) = m (q + 12)"
  using header_kept [of q m' m] assms by (auto simp: keeps_block_def block_bytes_def addrs_def)

lemma path_links_cong:
  assumes "\<And>q. q \<in> set fs \<Longrightarrow> load32 m' (q + 8) = load32 m (q + 8)"
  shows "path (links m') f fs g = path (links m) f fs g"
  by (rule path_cong) (simp add: links_def assms)

section \<open>Taking a block from the end keeps the arena\<close>

lemma arena_carve:
  assumes "arena lo hi m p bs fs" and q: "load32 m (p + 8) = q" and n: "8 dvd unat n" "unat n + 16 \<le> unat (load32 m (p + 4))"
  shows "arena lo hi (carve p (n + 16) q m) p (bs @ [(q, n)]) fs" "\<forall>b \<in> set bs. keeps_block m (carve p (n + 16) q m) b"
    "struct_in lo hi q 16"
proof -
  note D = arenaD [OF assms(1)]
  have pq: "unat p + 24 \<le> unat q" using tiled_end [OF D(6)] q by simp
  have qa: "8 dvd unat q" using tiled_aligned(2) [OF D(6)] D(1) q by simp
  have lim: "unat q + 16 + unat n \<le> hi" "unat q + 16 + unat n \<le> unat p + unat (load32 m p)" using D(4,7) n(2) q by auto
  show qs: "struct_in lo hi q 16" using lim pq D(3) qa by (auto simp: struct_in_def elim: dvd_trans [rotated])
  note ps = arena_page [OF assms(1)] and hi = less_imp_le [OF D(5)]
  let ?m = "carve p (n + 16) q m"
  have n16: "unat (n + 16) = unat n + 16" using lim(1) D(5) unat_add_u32 [of n 16] by simp
  note H = carve_header [OF ps qs hi pq, of "n + 16" m] and F = carve_frame [OF ps qs hi, of _ "n + 16" m]
  show kept: "\<forall>b \<in> set bs. keeps_block m ?m b"
  proof
    fix b assume "b \<in> set bs"
    moreover obtain x k where "b = (x, k)" by (cases b)
    ultimately have b: "b = (x, k)" "(x, k) \<in> set bs" by simp_all
    from arena_block(2,3) [OF assms(1) b(2)] have "unat p + 24 \<le> unat x" "unat x + 16 + unat k \<le> unat q" unfolding q .
    then show "keeps_block m ?m b" unfolding b(1)
      by (auto simp: keeps_block_def block_bytes_def addrs_def intro!: F)
  qed
  have hdr: "load32 ?m x = load32 m x" "load32 ?m (x + 4) = load32 m (x + 4)" "load32 ?m (x + 8) = load32 m (x + 8)" "?m (x + 12) = m (x + 12)"
    if "(x, k) \<in> set bs" for x k
    using keeps_block_header [OF kept [rule_format, OF that]] arena_block(1) [OF assms(1) that] D(5) by (auto simp: struct_in_def)
  have nx: "load32 ?m (x + 8) = load32 m (x + 8)" if "x \<in> set fs" for x
    using arena_free_block [OF assms(1) that] hdr(3) by blast
  have pf: "load32 ?m p = load32 m p" "load32 ?m (p + 12) = load32 m (p + 12)"
    using ps D(5) pq struct_field(1) [OF ps hi, of 12] by (auto intro!: load32_agree F simp: struct_in_def)
  have e: "unat (q + (n + 16)) = unat q + 16 + unat n" "unat (load32 m (p + 4) - (n + 16)) = unat (load32 m (p + 4)) - (unat n + 16)"
    using lim D(5) n(2) n16 by (simp_all add: unat_add_u32 unat_sub word_le_nat_alt)
  have "tiled ?m p (unat p + 24) bs (unat q)" using D(6) hdr tiled_cong [of bs ?m m] q by blast
  then have "tiled ?m p (unat p + 24) (bs @ [(q, n)]) (unat (load32 ?m (p + 8)))"
    using H(2,3,4) n(1) e(1) by (auto simp: tiled_append)
  moreover have "path (links ?m) (load32 ?m (p + 12)) fs NULL"
    using D(8) pf(2) path_links_cong [OF nx, of fs] by simp
  moreover have "q \<notin> set fs" using D(10) arena_block(3) [OF assms(1)] q by fastforce
  ultimately show "arena lo hi ?m p (bs @ [(q, n)]) fs"
    unfolding arena_def using D(1-5,7,9,10) hdr(4) D(11) H(1,2,6) pf(1) e n(2) q by (auto split: if_splits)
qed

section \<open>Fields of headers\<close>

text \<open>Two block headers that are the same or apart; a page header before a block header.\<close>

definition hdrs :: "addr \<Rightarrow> addr \<Rightarrow> bool" where
  "hdrs x y \<longleftrightarrow> unat x + 16 \<le> 4294967296 \<and> unat y + 16 \<le> 4294967296 \<and> (x = y \<or> unat x + 16 \<le> unat y \<or> unat y + 16 \<le> unat x)"

definition page_hdr :: "addr \<Rightarrow> addr \<Rightarrow> bool" where
  "page_hdr p x \<longleftrightarrow> unat x + 16 \<le> 4294967296 \<and> unat p + 24 \<le> unat x"

lemma hdr_unat: "unat (x :: addr) + 16 \<le> 4294967296 \<Longrightarrow> unat (x + 4) = unat x + 4 \<and> unat (x + 8) = unat x + 8 \<and> unat (x + 12) = unat x + 12"
  using unat_add_u32 [of x 4] unat_add_u32 [of x 8] unat_add_u32 [of x 12] by simp

lemma load32_byte_upd: "unat b + 3 < 4294967296 \<Longrightarrow> unat a < unat b \<or> unat b + 4 \<le> unat a \<Longrightarrow> load32 (m(a := w)) b = load32 m b"
  by (rule load32_agree) auto

lemma hdr_words:
  assumes "hdrs x y"
  shows "load32 (store32 m x v) y = (if x = y then v else load32 m y)" "load32 (store32 m x v) (y + 4) = load32 m (y + 4)" "load32 (store32 m x v) (y + 8) = load32 m (y + 8)"
    "load32 (store32 m (x + 4) v) y = load32 m y" "load32 (store32 m (x + 4) v) (y + 4) = (if x = y then v else load32 m (y + 4))" "load32 (store32 m (x + 4) v) (y + 8) = load32 m (y + 8)"
    "load32 (store32 m (x + 8) v) y = load32 m y" "load32 (store32 m (x + 8) v) (y + 4) = load32 m (y + 4)" "load32 (store32 m (x + 8) v) (y + 8) = (if x = y then v else load32 m (y + 8))"
    "load32 (m(x + 12 := w)) y = load32 m y" "load32 (m(x + 12 := w)) (y + 4) = load32 m (y + 4)" "load32 (m(x + 12 := w)) (y + 8) = load32 m (y + 8)"
    "store32 m x v (y + 12) = m (y + 12)" "store32 m (x + 4) v (y + 12) = m (y + 12)" "store32 m (x + 8) v (y + 12) = m (y + 12)"
    "(m(x + 12 := w)) (y + 12) = (if x = y then w else m (y + 12))"
proof -
  from assms have lim: "unat x + 16 \<le> 4294967296" "unat y + 16 \<le> 4294967296" and ap: "x = y \<or> unat x + 16 \<le> unat y \<or> unat y + 16 \<le> unat x" by (auto simp: hdrs_def)
  note u = hdr_unat [OF lim(1)] hdr_unat [OF lim(2)]
  show "load32 (store32 m x v) y = (if x = y then v else load32 m y)" "load32 (store32 m (x + 4) v) (y + 4) = (if x = y then v else load32 m (y + 4))"
    "load32 (store32 m (x + 8) v) (y + 8) = (if x = y then v else load32 m (y + 8))"
    using lim u ap by (auto intro!: load32_store32_range)
  show "load32 (store32 m x v) (y + 4) = load32 m (y + 4)" "load32 (store32 m x v) (y + 8) = load32 m (y + 8)"
    "load32 (store32 m (x + 4) v) y = load32 m y" "load32 (store32 m (x + 4) v) (y + 8) = load32 m (y + 8)"
    "load32 (store32 m (x + 8) v) y = load32 m y" "load32 (store32 m (x + 8) v) (y + 4) = load32 m (y + 4)"
    using lim u ap by (auto intro!: load32_store32_range)
  show "load32 (m(x + 12 := w)) y = load32 m y" "load32 (m(x + 12 := w)) (y + 4) = load32 m (y + 4)" "load32 (m(x + 12 := w)) (y + 8) = load32 m (y + 8)"
    using lim u ap by (auto intro!: load32_byte_upd)
  show "store32 m x v (y + 12) = m (y + 12)" "store32 m (x + 4) v (y + 12) = m (y + 12)" "store32 m (x + 8) v (y + 12) = m (y + 12)"
    using lim u ap by (auto intro!: store32_range)
  have "x = y" if "y + 12 = x + 12" using that by simp
  then show "(m(x + 12 := w)) (y + 12) = (if x = y then w else m (y + 12))" by auto
qed

lemma page_words:
  assumes "page_hdr p x"
  shows "load32 (store32 m x v) p = load32 m p" "load32 (store32 m x v) (p + 4) = load32 m (p + 4)" "load32 (store32 m x v) (p + 8) = load32 m (p + 8)" "load32 (store32 m x v) (p + 12) = load32 m (p + 12)"
    "load32 (store32 m (x + 4) v) p = load32 m p" "load32 (store32 m (x + 4) v) (p + 4) = load32 m (p + 4)" "load32 (store32 m (x + 4) v) (p + 8) = load32 m (p + 8)" "load32 (store32 m (x + 4) v) (p + 12) = load32 m (p + 12)"
    "load32 (store32 m (x + 8) v) p = load32 m p" "load32 (store32 m (x + 8) v) (p + 4) = load32 m (p + 4)" "load32 (store32 m (x + 8) v) (p + 8) = load32 m (p + 8)" "load32 (store32 m (x + 8) v) (p + 12) = load32 m (p + 12)"
    "load32 (m(x + 12 := w)) p = load32 m p" "load32 (m(x + 12 := w)) (p + 4) = load32 m (p + 4)" "load32 (m(x + 12 := w)) (p + 8) = load32 m (p + 8)" "load32 (m(x + 12 := w)) (p + 12) = load32 m (p + 12)"
    "load32 (store32 m (p + 12) v) x = load32 m x" "load32 (store32 m (p + 12) v) (x + 4) = load32 m (x + 4)" "load32 (store32 m (p + 12) v) (x + 8) = load32 m (x + 8)" "store32 m (p + 12) v (x + 12) = m (x + 12)"
    "load32 (store32 m (p + 12) v) p = load32 m p" "load32 (store32 m (p + 12) v) (p + 4) = load32 m (p + 4)" "load32 (store32 m (p + 12) v) (p + 8) = load32 m (p + 8)"
proof -
  from assms have lim: "unat x + 16 \<le> 4294967296" "unat p + 24 \<le> unat x" by (auto simp: page_hdr_def)
  then have "unat p + 16 \<le> 4294967296" by simp
  note u = hdr_unat [OF lim(1)] hdr_unat [OF this]
  show "load32 (store32 m x v) p = load32 m p" "load32 (store32 m x v) (p + 4) = load32 m (p + 4)" "load32 (store32 m x v) (p + 8) = load32 m (p + 8)" "load32 (store32 m x v) (p + 12) = load32 m (p + 12)"
    "load32 (store32 m (x + 4) v) p = load32 m p" "load32 (store32 m (x + 4) v) (p + 4) = load32 m (p + 4)" "load32 (store32 m (x + 4) v) (p + 8) = load32 m (p + 8)" "load32 (store32 m (x + 4) v) (p + 12) = load32 m (p + 12)"
    "load32 (store32 m (x + 8) v) p = load32 m p" "load32 (store32 m (x + 8) v) (p + 4) = load32 m (p + 4)" "load32 (store32 m (x + 8) v) (p + 8) = load32 m (p + 8)" "load32 (store32 m (x + 8) v) (p + 12) = load32 m (p + 12)"
    using lim u by (simp_all add: load32_store32_range)
  show "load32 (m(x + 12 := w)) p = load32 m p" "load32 (m(x + 12 := w)) (p + 4) = load32 m (p + 4)" "load32 (m(x + 12 := w)) (p + 8) = load32 m (p + 8)" "load32 (m(x + 12 := w)) (p + 12) = load32 m (p + 12)"
    using lim u by (simp_all add: load32_byte_upd)
  show "load32 (store32 m (p + 12) v) x = load32 m x" "load32 (store32 m (p + 12) v) (x + 4) = load32 m (x + 4)" "load32 (store32 m (p + 12) v) (x + 8) = load32 m (x + 8)" "store32 m (p + 12) v (x + 12) = m (x + 12)"
    "load32 (store32 m (p + 12) v) p = load32 m p" "load32 (store32 m (p + 12) v) (p + 4) = load32 m (p + 4)" "load32 (store32 m (p + 12) v) (p + 8) = load32 m (p + 8)"
    using lim u by (simp_all add: load32_store32_range store32_range)
qed

section \<open>Taking a block from the free list\<close>

definition relink :: "addr \<Rightarrow> addr \<Rightarrow> addr \<Rightarrow> memory \<Rightarrow> memory" where
  "relink p prev q m = (if prev = NULL then store32 m (p + 12) q else store32 m (prev + 8) q)"

lemma relink_fields:
  assumes "page_hdr p x" and "prev = NULL \<or> hdrs prev x \<and> page_hdr p prev"
  shows "load32 (relink p prev q m) x = load32 m x" "load32 (relink p prev q m) (x + 4) = load32 m (x + 4)"
    "load32 (relink p prev q m) (x + 8) = (if prev \<noteq> NULL \<and> x = prev then q else load32 m (x + 8))" "relink p prev q m (x + 12) = m (x + 12)"
    "load32 (relink p prev q m) p = load32 m p" "load32 (relink p prev q m) (p + 4) = load32 m (p + 4)" "load32 (relink p prev q m) (p + 8) = load32 m (p + 8)"
    "load32 (relink p prev q m) (p + 12) = (if prev = NULL then q else load32 m (p + 12))"
  using assms by (auto simp: relink_def hdr_words page_words)

lemma link_block_relinks:
  assumes "holds s0 pa lo hi m s" and "struct_in lo hi b 16" and "load32 m (b + 4) = p" and "struct_in lo hi p 24" and "prev = NULL \<or> struct_in lo hi prev 16"
  obtains s' where "link_block prev b q s = Some s'" "holds s0 pa lo hi (relink p prev q m) s'"
proof -
  note hi = holds_bounds [OF assms(1)]
  have b: "vload32 (b + 4) s = Some p" using holds_load32 [OF assms(1) struct_field(2) [OF assms(2) hi, of 4]] assms(3) by simp
  show thesis
  proof (cases "prev = NULL")
    case True
    obtain s' where "vstore32 (p + 12) q s = Some s'" "holds s0 pa lo hi (store32 m (p + 12) q) s'"
      using holds_store32 [OF assms(1) struct_field(2) [OF assms(4) hi, of 12]] by auto
    then show thesis using that b True by (simp add: link_block_def relink_def MB_PARENT_def PB_FREE_BLOCKS_def)
  next
    case False
    with assms(5) have prev: "struct_in lo hi prev 16" by simp
    obtain s' where "vstore32 (prev + 8) q s = Some s'" "holds s0 pa lo hi (store32 m (prev + 8) q) s'"
      using holds_store32 [OF assms(1) struct_field(2) [OF prev hi, of 8]] by auto
    then show thesis using that False by (simp add: link_block_def relink_def MB_NEXT_def)
  qed
qed

lemma path_splice:
  assumes "path L f xs b" and "distinct xs" and "NULL \<notin> set xs" and "prev = last (NULL # xs)"
    and "\<And>x. x \<in> set xs \<Longrightarrow> L' x = (if x = prev then Some q else L x)" and "f' = (if prev = NULL then q else f)" and "path L' q zs e'"
  shows "path L' f' (xs @ zs) e'"
proof (cases "xs = []")
  case False
  have "last xs \<in> set xs" using False by simp
  then have "last xs \<noteq> NULL" using assms(3) by metis
  then have prev: "prev = last xs" "prev \<noteq> NULL" using assms(4) False by simp_all
  have "path (L(last xs \<mapsto> q)) f xs q" by (rule path_last_upd [OF assms(1,2) False])
  then have "path L' f xs q" using path_cong [of xs L' "L(last xs \<mapsto> q)"] assms(5) prev(1) by auto
  then show ?thesis using assms(6,7) prev(2) by auto
qed (use assms in auto)

lemma arena_hdrs:
  assumes "arena lo hi m p bs fs" and "(x, k) \<in> set bs" and "(y, l) \<in> set bs"
  shows "hdrs x y" "page_hdr p x"
proof -
  note D = arenaD [OF assms(1)]
  have "unat x + 16 \<le> 4294967296" "unat y + 16 \<le> 4294967296"
    using arena_block(1) [OF assms(1,2)] arena_block(1) [OF assms(1,3)] D(5) by (auto simp: struct_in_def)
  then show "hdrs x y" using tiled_apart [OF D(6) assms(2,3)] by (auto simp: hdrs_def)
  show "page_hdr p x" using arena_block(2) [OF assms(1,2)] \<open>unat x + 16 \<le> 4294967296\<close> by (simp add: page_hdr_def)
qed

text \<open>The block before a block of the free list.\<close>

lemma arena_prev:
  assumes "arena lo hi m p bs (xs @ b # ys)" and "prev = last (NULL # xs)"
  shows "prev = NULL \<or> (\<exists>k. (prev, k) \<in> set bs) \<and> prev \<in> set xs" "prev \<noteq> b" "NULL \<notin> set xs"
proof -
  have null: "NULL \<notin> set (xs @ b # ys)" using arena_free_block [OF assms(1)] arena_block(8) [OF assms(1)] by blast
  then show "NULL \<notin> set xs" by simp
  show 1: "prev = NULL \<or> (\<exists>k. (prev, k) \<in> set bs) \<and> prev \<in> set xs"
    using assms(2) arena_free_block [OF assms(1), of prev] by (cases xs) auto
  show "prev \<noteq> b" using 1 arenaD(9) [OF assms(1)] null by auto
qed

definition outside :: "addr \<Rightarrow> addr \<Rightarrow> bool" where
  "outside a x \<longleftrightarrow> unat x + 16 \<le> 4294967296 \<and> (unat a < unat x \<or> unat x + 16 \<le> unat a)"

lemma hdr_bytes:
  assumes "outside a x"
  shows "store32 m x v a = m a" "store32 m (x + 4) v a = m a" "store32 m (x + 8) v a = m a" "a \<noteq> x + 12"
proof -
  have x: "unat x + 16 \<le> 4294967296" "unat a < unat x \<or> unat x + 16 \<le> unat a" using assms by (simp_all add: outside_def)
  note u = hdr_unat [OF x(1)]
  show "store32 m x v a = m a" "store32 m (x + 4) v a = m a" "store32 m (x + 8) v a = m a" using x u by (auto intro!: store32_range)
  show "a \<noteq> x + 12" using x u by auto
qed

lemma relink_bytes:
  assumes "unat p + 24 \<le> unat a" and "prev = NULL \<or> outside a prev"
  shows "relink p prev q m a = m a"
proof -
  have "unat a < 4294967296" by simp
  then have "unat p + 16 \<le> 4294967296" using assms(1) by linarith
  then have "unat (p + 12) = unat p + 12" using hdr_unat by blast
  then have "store32 m (p + 12) q a = m a" using assms(1) \<open>unat a < 4294967296\<close> by (intro store32_range) linarith+
  then show ?thesis using assms(2) by (auto simp: relink_def hdr_bytes)
qed

lemma data_outside:
  assumes "arena lo hi m p bs fs" and "(y, l) \<in> set bs" and "a \<in> data_bytes (y, l)"
  shows "(x, k) \<in> set bs \<Longrightarrow> outside a x" "unat p + 24 \<le> unat a"
proof -
  have a: "unat y + 16 \<le> unat a" "unat a < unat y + 16 + unat l" using assms(3) by (auto simp: data_bytes_def addrs_def)
  show "unat p + 24 \<le> unat a" using arena_block(2) [OF assms(1,2)] a by simp
  assume x: "(x, k) \<in> set bs"
  then have "unat x + 16 \<le> 4294967296" using arena_block(1) [OF assms(1) x] arenaD(5) [OF assms(1)] by (auto simp: struct_in_def)
  then show "outside a x" using tiled_apart [OF arenaD(6) [OF assms(1)] x assms(2)] a by (auto simp: outside_def)
qed

definition keeps_data :: "memory \<Rightarrow> memory \<Rightarrow> addr \<times> u32 \<Rightarrow> bool" where
  "keeps_data m m' b \<longleftrightarrow> (\<forall>a \<in> data_bytes b. m' a = m a)"

lemma keeps_dataI:
  assumes "arena lo hi m p bs fs" and "set cs \<subseteq> set bs"
    and "\<And>a y l. (y, l) \<in> set cs \<Longrightarrow> a \<in> data_bytes (y, l) \<Longrightarrow> (\<And>x k. (x, k) \<in> set bs \<Longrightarrow> outside a x) \<Longrightarrow> unat p + 24 \<le> unat a \<Longrightarrow> m' a = m a"
  shows "\<forall>c \<in> set cs. keeps_data m m' c"
proof
  fix c assume "c \<in> set cs"
  moreover obtain y l where c: "c = (y, l)" by (cases c)
  ultimately have y: "(y, l) \<in> set cs" "(y, l) \<in> set bs" using assms(2) by auto
  then show "keeps_data m m' c" unfolding keeps_data_def c using assms(3) [OF y(1)] data_outside [OF assms(1) y(2)] by blast
qed

text \<open>Taking out a block of the size asked for.\<close>

definition detach :: "addr \<Rightarrow> addr \<Rightarrow> addr \<Rightarrow> memory \<Rightarrow> memory" where
  "detach p prev b m = relink p prev (load32 m (b + 8)) (m(b + 12 := 1))"

lemma arena_detach:
  assumes "arena lo hi m p bs (xs @ b # ys)" and "prev = last (NULL # xs)"
  shows "arena lo hi (detach p prev b m) p bs (xs @ ys)" "\<forall>c \<in> set bs. keeps_data m (detach p prev b m) c"
proof -
  let ?m = "detach p prev b m" and ?q = "load32 m (b + 8)"
  note D = arenaD [OF assms(1)] and P = arena_prev [OF assms]
  obtain n where b: "(b, n) \<in> set bs" using arena_free_block [OF assms(1)] by auto
  note H = arena_hdrs [OF assms(1)]
  have pr: "prev = NULL \<or> hdrs prev x \<and> page_hdr p prev" if "(x, k) \<in> set bs" for x k using P(1) H that by blast
  have F: "load32 ?m x = load32 m x" "load32 ?m (x + 4) = load32 m (x + 4)" "load32 ?m (x + 8) = (if prev \<noteq> NULL \<and> x = prev then ?q else load32 m (x + 8))"
      "?m (x + 12) = (if x = b then 1 else m (x + 12))" if "(x, k) \<in> set bs" for x k
    using relink_fields [OF H(2) [OF that that] pr [OF that], of ?q "m(b + 12 := 1)"] hdr_words [OF H(1) [OF b that], of m] by (auto simp: detach_def)
  have G: "load32 ?m p = load32 m p" "load32 ?m (p + 4) = load32 m (p + 4)" "load32 ?m (p + 8) = load32 m (p + 8)"
      "load32 ?m (p + 12) = (if prev = NULL then ?q else load32 m (p + 12))"
    using relink_fields [OF H(2) [OF b b] pr [OF b], of ?q "m(b + 12 := 1)"] page_words [OF H(2) [OF b b], of m] by (auto simp: detach_def)
  have t: "tiled ?m p (unat p + 24) bs (unat (load32 ?m (p + 8)))" using D(6) tiled_cong [of bs ?m m] F(1,2) G(3) by simp
  have in_bs: "\<exists>k. (x, k) \<in> set bs" if "x \<in> set (xs @ ys)" for x using arena_free_block [OF assms(1), of x] that by auto
  have px: "path (links m) (load32 m (p + 12)) xs b" and ys: "path (links m) ?q ys NULL" using D(8) by (auto simp: links_def [of m b])
  have not_prev: "x \<noteq> prev" if "x \<in> set ys" for x using P(1,3) D(9) that arena_free_block [OF assms(1), of x] arena_block(8) [OF assms(1)] by auto
  have "path (links ?m) ?q ys NULL" using ys path_links_cong [of ys ?m m] in_bs F(3) not_prev by fastforce
  moreover have "links ?m x = (if x = prev then Some ?q else links m x)" if "x \<in> set xs" for x
    using in_bs [of x] that F(3) P(3) by (auto simp: links_def)
  ultimately have "path (links ?m) (load32 ?m (p + 12)) (xs @ ys) NULL"
    using path_splice [OF px _ P(3) assms(2), of "links ?m" ?q] D(9) G(4) by simp
  moreover have "?m (x + 12) = (if x \<in> set (xs @ ys) then 0 else 1)" if "(x, k) \<in> set bs" for x k
    using F(4) [OF that] D(11) [OF that] D(9) by auto
  ultimately show "arena lo hi ?m p bs (xs @ ys)"
    unfolding arena_def using D(1-5,7,9,10) t G(1-3) by auto
  show "\<forall>c \<in> set bs. keeps_data m ?m c"
  proof (rule keeps_dataI [OF assms(1) order_refl])
    fix a assume o: "\<And>x k. (x, k) \<in> set bs \<Longrightarrow> outside a x" "unat p + 24 \<le> unat a"
    have "prev = NULL \<or> outside a prev" using P(1) o(1) by blast
    then show "?m a = m a" using relink_bytes [OF o(2)] hdr_bytes(4) [OF o(1) [OF b]] by (simp add: detach_def)
  qed
qed

text \<open>Splitting a larger block: the rest becomes a block of its own, in the place of the old one in the free list.\<close>

definition cut_block :: "addr \<Rightarrow> addr \<Rightarrow> addr \<Rightarrow> u32 \<Rightarrow> memory \<Rightarrow> memory" where
  "cut_block p prev b n m = (let q = b + (n + 16) in
     store32 (relink p prev q (store32 ((store32 (store32 ((store32 m q (load32 m b - (n + 16)))(q + 12 := 0)) (q + 4) p) b n)(b + 12 := 1))
       (q + 8) (load32 m (b + 8)))) (b + 8) NULL)"

lemma cut_fields:
  assumes "page_hdr p b" and "page_hdr p q" and "hdrs b q" and "b \<noteq> q" and "prev \<noteq> b" and "prev \<noteq> q"
    and "prev = NULL \<or> hdrs prev b \<and> hdrs prev q \<and> page_hdr p prev" and q: "q = b + (n + 16)"
  shows "load32 (cut_block p prev b n m) b = n" "load32 (cut_block p prev b n m) (b + 4) = load32 m (b + 4)" "cut_block p prev b n m (b + 12) = 1"
    "load32 (cut_block p prev b n m) q = load32 m b - (n + 16)" "load32 (cut_block p prev b n m) (q + 4) = p" "load32 (cut_block p prev b n m) (q + 8) = load32 m (b + 8)" "cut_block p prev b n m (q + 12) = 0"
    "load32 (cut_block p prev b n m) p = load32 m p" "load32 (cut_block p prev b n m) (p + 4) = load32 m (p + 4)" "load32 (cut_block p prev b n m) (p + 8) = load32 m (p + 8)"
    "load32 (cut_block p prev b n m) (p + 12) = (if prev = NULL then q else load32 m (p + 12))"
proof -
  have s: "hdrs q b" "hdrs b b" "hdrs q q" using assms(3) by (auto simp: hdrs_def)
  have pb: "prev = NULL \<or> hdrs prev b \<and> page_hdr p prev" and pq: "prev = NULL \<or> hdrs prev q \<and> page_hdr p prev" using assms(7) by auto
  note W = relink_fields [OF assms(1) pb] relink_fields [OF assms(2) pq] hdr_words [OF assms(3)] hdr_words [OF s(1)] hdr_words [OF s(2)] hdr_words [OF s(3)]
    page_words [OF assms(1)] page_words [OF assms(2)]
  show "load32 (cut_block p prev b n m) b = n" "load32 (cut_block p prev b n m) (b + 4) = load32 m (b + 4)" "cut_block p prev b n m (b + 12) = 1"
    "load32 (cut_block p prev b n m) q = load32 m b - (n + 16)" "load32 (cut_block p prev b n m) (q + 4) = p" "load32 (cut_block p prev b n m) (q + 8) = load32 m (b + 8)" "cut_block p prev b n m (q + 12) = 0"
    "load32 (cut_block p prev b n m) p = load32 m p" "load32 (cut_block p prev b n m) (p + 4) = load32 m (p + 4)" "load32 (cut_block p prev b n m) (p + 8) = load32 m (p + 8)"
    "load32 (cut_block p prev b n m) (p + 12) = (if prev = NULL then q else load32 m (p + 12))"
    unfolding cut_block_def Let_def q [symmetric] using assms(4-6) by (simp_all add: W del: fun_upd_apply)
qed

lemma cut_others:
  assumes "page_hdr p x" and "hdrs b x" and "hdrs q x" and "x \<noteq> b" and "x \<noteq> q" and "prev = NULL \<or> hdrs prev x \<and> page_hdr p prev" and q: "q = b + (n + 16)"
  shows "load32 (cut_block p prev b n m) x = load32 m x" "load32 (cut_block p prev b n m) (x + 4) = load32 m (x + 4)"
    "load32 (cut_block p prev b n m) (x + 8) = (if prev \<noteq> NULL \<and> x = prev then q else load32 m (x + 8))" "cut_block p prev b n m (x + 12) = m (x + 12)"
  unfolding cut_block_def Let_def q [symmetric] using assms(4,5)
  by (simp_all add: relink_fields [OF assms(1,6)] hdr_words [OF assms(2)] hdr_words [OF assms(3)] del: fun_upd_apply)

lemma cut_bytes:
  assumes "unat p + 24 \<le> unat a" and "outside a b" and "outside a q" and "prev = NULL \<or> outside a prev" and q: "q = b + (n + 16)"
  shows "cut_block p prev b n m a = m a"
  unfolding cut_block_def Let_def q [symmetric]
  using hdr_bytes(4) [OF assms(2)] hdr_bytes(4) [OF assms(3)] by (simp add: hdr_bytes(1-3) [OF assms(2)] hdr_bytes(1-3) [OF assms(3)] relink_bytes [OF assms(1,4)])

lemma arena_cut:
  assumes "arena lo hi m p (as @ (b, k) # cs) (xs @ b # ys)" and "prev = last (NULL # xs)"
    and n: "8 dvd unat n" "unat n + 16 \<le> unat k" and q: "q = b + (n + 16)"
  shows "arena lo hi (cut_block p prev b n m) p (as @ (b, n) # (q, k - (n + 16)) # cs) (xs @ q # ys)"
    "\<forall>c \<in> set (as @ cs). keeps_data m (cut_block p prev b n m) c"
proof -
  let ?m = "cut_block p prev b n m" and ?bs = "as @ (b, k) # cs"
  note D = arenaD [OF assms(1)] and P = arena_prev [OF assms(1,2)] and H = arena_hdrs [OF assms(1)]
  have b: "(b, k) \<in> set ?bs" by simp
  note B = arena_block [OF assms(1) b]
  have lim: "unat b + 16 + unat k < 4294967296" using B(3,9) D(5) by simp
  have uq: "unat q = unat b + 16 + unat n" "unat (k - (n + 16)) = unat k - (unat n + 16)"
    using n(2) lim unat_add_u32 [of n 16] unat_add_u32 [of b "n + 16"] by (simp_all add: q unat_sub word_le_nat_alt)
  have T: "tiled m p (unat p + 24) as (unat b)" "tiled m p (unat b + 16 + unat k) cs (unat (load32 m (p + 8)))"
    using D(6) by (auto simp: tiled_append)
  have others: "unat x + 16 + unat l \<le> unat b \<or> unat b + 16 + unat k \<le> unat x" if "(x, l) \<in> set (as @ cs)" for x l
    using that tiled_in [OF T(1)] tiled_in [OF T(2)] by fastforce
  have bq: "hdrs b q" "b \<noteq> q" "page_hdr p q" using uq n(2) lim B(2) by (auto simp: hdrs_def page_hdr_def)
  have xq: "hdrs q x" "hdrs b x" "page_hdr p x" "x \<noteq> b" "x \<noteq> q" if "(x, l) \<in> set (as @ cs)" for x l
  proof -
    have "(x, l) \<in> set ?bs" using that by auto
    from H(1) [OF b this] H(2) [OF this this] show "hdrs b x" "page_hdr p x" by simp_all
    with others [OF that] uq n(2) lim show "hdrs q x" "x \<noteq> b" "x \<noteq> q" by (auto simp: hdrs_def)
  qed
  have prev: "prev = NULL \<or> (\<exists>l. (prev, l) \<in> set (as @ cs))" using P(1,2) by auto
  then have prevH: "prev = NULL \<or> hdrs prev x \<and> page_hdr p prev" if "(x, l) \<in> set ?bs" for x l using H that by fastforce
  have "prev \<noteq> q" using prev xq(5) uq(1) by auto
  moreover have "prev = NULL \<or> hdrs prev q" using prev xq(1) unfolding hdrs_def by blast
  ultimately have C: "load32 ?m b = n" "load32 ?m (b + 4) = load32 m (b + 4)" "?m (b + 12) = 1" "load32 ?m q = load32 m b - (n + 16)" "load32 ?m (q + 4) = p"
      "load32 ?m (q + 8) = load32 m (b + 8)" "?m (q + 12) = 0" "load32 ?m p = load32 m p" "load32 ?m (p + 4) = load32 m (p + 4)" "load32 ?m (p + 8) = load32 m (p + 8)"
      "load32 ?m (p + 12) = (if prev = NULL then q else load32 m (p + 12))"
    using cut_fields [OF H(2) [OF b b] bq(3,1,2) P(2) _ _ q, of m] prevH [OF b] by auto
  have O: "load32 ?m x = load32 m x" "load32 ?m (x + 4) = load32 m (x + 4)" "load32 ?m (x + 8) = (if prev \<noteq> NULL \<and> x = prev then q else load32 m (x + 8))"
      "?m (x + 12) = m (x + 12)" if "(x, l) \<in> set (as @ cs)" for x l
  proof -
    have "(x, l) \<in> set ?bs" using that by auto
    from cut_others [OF xq(3,2,1,4,5) [OF that] prevH [OF this] q, of m]
    show "load32 ?m x = load32 m x" "load32 ?m (x + 4) = load32 m (x + 4)" "load32 ?m (x + 8) = (if prev \<noteq> NULL \<and> x = prev then q else load32 m (x + 8))"
      "?m (x + 12) = m (x + 12)" by simp_all
  qed
  have "tiled ?m p (unat p + 24) as (unat b)" "tiled ?m p (unat b + 16 + unat k) cs (unat (load32 m (p + 8)))"
  proof -
    have "tiled ?m p u as v = tiled m p u as v" for u v by (rule tiled_cong) (metis O(1,2) Un_iff set_append)
    moreover have "tiled ?m p u cs v = tiled m p u cs v" for u v by (rule tiled_cong) (metis O(1,2) Un_iff set_append)
    ultimately show "tiled ?m p (unat p + 24) as (unat b)" "tiled ?m p (unat b + 16 + unat k) cs (unat (load32 m (p + 8)))" using T by simp_all
  qed
  moreover have "8 dvd unat (k - (n + 16))" using uq(2) n B(4) by (simp add: dvd_diff_nat)
  ultimately have t: "tiled ?m p (unat p + 24) (as @ (b, n) # (q, k - (n + 16)) # cs) (unat (load32 ?m (p + 8)))"
    using C(1,2,4,5,10) B(6,7) n uq by (auto simp: tiled_append ac_simps)
  have d: "distinct (xs @ b # ys)" "b \<notin> set xs" "b \<notin> set ys" using D(9) by auto
  have in_bs: "\<exists>l. (x, l) \<in> set (as @ cs)" if "x \<in> set (xs @ ys)" for x
    using arena_free_block [OF assms(1), of x] that d by auto
  have px: "path (links m) (load32 m (p + 12)) xs b" and ys: "path (links m) (load32 m (b + 8)) ys NULL" using D(8) by (auto simp: links_def [of m b])
  have not_prev: "x \<noteq> prev" if "x \<in> set ys" for x
    using P(1) D(9) that arena_free_block [OF assms(1), of x] arena_block(8) [OF assms(1)] by auto
  have "path (links ?m) (load32 m (b + 8)) ys NULL" using ys path_links_cong [of ys ?m m] in_bs O(3) not_prev by fastforce
  then have "path (links ?m) q (q # ys) NULL" using C(6) by (simp add: links_def)
  moreover have "links ?m x = (if x = prev then Some q else links m x)" if x: "x \<in> set xs" for x
  proof -
    obtain l where "(x, l) \<in> set (as @ cs)" using in_bs [of x] x by auto
    from O(3) [OF this] P(3) x show ?thesis by (auto simp: links_def)
  qed
  ultimately have path: "path (links ?m) (load32 ?m (p + 12)) (xs @ q # ys) NULL"
    using path_splice [OF px _ P(3) assms(2), of "links ?m" q "load32 ?m (p + 12)" "q # ys" NULL] d C(11) by simp
  have q_new: "q \<notin> set (xs @ ys)" using in_bs xq(5) by blast
  have flags: "?m (x + 12) = (if x \<in> set (xs @ q # ys) then 0 else 1)" if x: "(x, l) \<in> set (as @ (b, n) # (q, k - (n + 16)) # cs)" for x l
  proof -
    consider "x = b" | "x = q" | "(x, l) \<in> set (as @ cs)" using x by auto
    then show ?thesis
    proof cases
      case 3
      then have "(x, l) \<in> set ?bs" by auto
      then show ?thesis using D(11) [of x l] O(4) [OF 3] xq(4,5) [OF 3] by auto
    qed (use C(3,7) d bq(2) in auto)
  qed
  have sub: "set (xs @ q # ys) \<subseteq> fst ` set (as @ (b, n) # (q, k - (n + 16)) # cs)"
  proof
    fix x assume "x \<in> set (xs @ q # ys)"
    then have "x = q \<or> (\<exists>l. (x, l) \<in> set (as @ cs))" using in_bs [of x] by auto
    then show "x \<in> fst ` set (as @ (b, n) # (q, k - (n + 16)) # cs)" by force
  qed
  show "arena lo hi ?m p (as @ (b, n) # (q, k - (n + 16)) # cs) (xs @ q # ys)"
  proof (rule arenaI)
    show "distinct (xs @ q # ys)" using d(1) q_new by auto
  qed (use D(1-5,7) C(8-10) t path sub flags in simp_all)
  show "\<forall>c \<in> set (as @ cs). keeps_data m ?m c"
  proof (rule keeps_dataI [OF assms(1)])
    fix a y l assume c: "(y, l) \<in> set (as @ cs)" "a \<in> data_bytes (y, l)" and o: "\<And>x k. (x, k) \<in> set ?bs \<Longrightarrow> outside a x" "unat p + 24 \<le> unat a"
    have "prev = NULL \<or> outside a prev" using P(1) o(1) by blast
    moreover have "outside a q" using others [OF c(1)] c(2) uq n(2) lim by (auto simp: outside_def data_bytes_def addrs_def)
    ultimately show "?m a = m a" using cut_bytes [OF o(2) o(1) [OF b] _ _ q] by simp
  qed auto
qed

section \<open>Giving a block back\<close>

text \<open>At the end of the free list.\<close>

definition attach :: "addr \<Rightarrow> addr \<Rightarrow> addr \<Rightarrow> memory \<Rightarrow> memory" where
  "attach p prev b m = relink p prev b (m(b + 12 := 0))"

lemma arena_last:
  assumes "arena lo hi m p bs fs" and "prev = last (NULL # fs)"
  shows "prev = NULL \<longleftrightarrow> fs = []" "prev = NULL \<or> (\<exists>k. (prev, k) \<in> set bs) \<and> prev \<in> set fs" "NULL \<notin> set fs"
proof -
  show null: "NULL \<notin> set fs" using arena_free_block [OF assms(1)] arena_block(8) [OF assms(1)] by blast
  show e: "prev = NULL \<longleftrightarrow> fs = []" unfolding assms(2) by (metis last.simps last_in_set null)
  show "prev = NULL \<or> (\<exists>k. (prev, k) \<in> set bs) \<and> prev \<in> set fs"
    using assms(2) e arena_free_block [OF assms(1), of prev] by auto
qed

lemma attach_fields:
  assumes "arena lo hi m p bs fs" and "prev = last (NULL # fs)" and b: "(b, k) \<in> set bs"
  shows "(x, l) \<in> set bs \<Longrightarrow> load32 (attach p prev b m) x = load32 m x" "(x, l) \<in> set bs \<Longrightarrow> load32 (attach p prev b m) (x + 4) = load32 m (x + 4)"
    "(x, l) \<in> set bs \<Longrightarrow> load32 (attach p prev b m) (x + 8) = (if prev \<noteq> NULL \<and> x = prev then b else load32 m (x + 8))"
    "(x, l) \<in> set bs \<Longrightarrow> attach p prev b m (x + 12) = (if x = b then 0 else m (x + 12))"
    "load32 (attach p prev b m) p = load32 m p" "load32 (attach p prev b m) (p + 4) = load32 m (p + 4)" "load32 (attach p prev b m) (p + 8) = load32 m (p + 8)"
    "load32 (attach p prev b m) (p + 12) = (if prev = NULL then b else load32 m (p + 12))"
proof -
  note P = arena_last [OF assms(1,2)] and H = arena_hdrs [OF assms(1)]
  have pr: "prev = NULL \<or> hdrs prev x \<and> page_hdr p prev" if "(x, l) \<in> set bs" for x l using P(2) H that by blast
  let ?m = "attach p prev b m"
  show "load32 ?m x = load32 m x" "load32 ?m (x + 4) = load32 m (x + 4)" "load32 ?m (x + 8) = (if prev \<noteq> NULL \<and> x = prev then b else load32 m (x + 8))"
      "?m (x + 12) = (if x = b then 0 else m (x + 12))" if "(x, l) \<in> set bs"
    using relink_fields [OF H(2) [OF that that] pr [OF that], of b "m(b + 12 := 0)"] hdr_words [OF H(1) [OF b that], of m] by (auto simp: attach_def)
  show "load32 ?m p = load32 m p" "load32 ?m (p + 4) = load32 m (p + 4)" "load32 ?m (p + 8) = load32 m (p + 8)"
      "load32 ?m (p + 12) = (if prev = NULL then b else load32 m (p + 12))"
    using relink_fields [OF H(2) [OF b b] pr [OF b], of b "m(b + 12 := 0)"] page_words [OF H(2) [OF b b], of m] by (auto simp: attach_def)
qed

text \<open>The links from the head of the list up to the new block, whatever that links to.\<close>

lemma attach_path:
  assumes "arena lo hi m p bs fs" and "prev = last (NULL # fs)" and b: "(b, k) \<in> set bs" "b \<notin> set fs"
  shows "path (links (attach p prev b m)) (load32 (attach p prev b m) (p + 12)) (fs @ [b]) (load32 m (b + 8))"
proof -
  let ?m = "attach p prev b m"
  note D = arenaD [OF assms(1)] and P = arena_last [OF assms(1,2)] and F = attach_fields [OF assms(1-3)]
  have "b \<noteq> prev" using P(2) b(2) arena_block(8) [OF assms(1) b(1)] by auto
  then have pb: "path (links ?m) b [b] (load32 m (b + 8))" using F(3) [OF b(1)] by (simp add: links_def)
  have "links ?m x = (if x = prev then Some b else links m x)" if x: "x \<in> set fs" for x
  proof -
    obtain l where "(x, l) \<in> set bs" using arena_free_block [OF assms(1) x] by auto
    from F(3) [OF this] P(3) x show ?thesis by (auto simp: links_def)
  qed
  then show ?thesis by (rule path_splice [OF D(8,9) P(3) assms(2) _ F(8) pb])
qed

lemma arena_attach:
  assumes "arena lo hi m p bs fs" and "prev = last (NULL # fs)" and b: "(b, k) \<in> set bs" "b \<notin> set fs" and "load32 m (b + 8) = NULL"
  shows "arena lo hi (attach p prev b m) p bs (fs @ [b])" "\<forall>c \<in> set bs. keeps_data m (attach p prev b m) c"
proof -
  let ?m = "attach p prev b m"
  note D = arenaD [OF assms(1)] and P = arena_last [OF assms(1,2)] and F = attach_fields [OF assms(1-3)]
  have path: "path (links ?m) (load32 ?m (p + 12)) (fs @ [b]) NULL" using attach_path [OF assms(1-4)] assms(5) by simp
  have t: "tiled ?m p (unat p + 24) bs (unat (load32 ?m (p + 8)))" using D(6) tiled_cong [of bs ?m m] F(1,2,7) by simp
  show "arena lo hi ?m p bs (fs @ [b])"
  proof (rule arenaI)
    show "set (fs @ [b]) \<subseteq> fst ` set bs" using D(10) b(1) by force
    show "?m (x + 12) = (if x \<in> set (fs @ [b]) then 0 else 1)" if "(x, l) \<in> set bs" for x l using F(4) [OF that] D(11) [OF that] by auto
  qed (use D(1-5,7,9) b(2) F(5-7) t path in simp_all)
  show "\<forall>c \<in> set bs. keeps_data m ?m c"
  proof (rule keeps_dataI [OF assms(1) order_refl])
    fix a assume o: "\<And>x k. (x, k) \<in> set bs \<Longrightarrow> outside a x" "unat p + 24 \<le> unat a"
    have "prev = NULL \<or> outside a prev" using P(2) o(1) by blast
    then show "?m a = m a" using relink_bytes [OF o(2)] hdr_bytes(4) [OF o(1) [OF b(1)]] by (simp add: attach_def)
  qed
qed

text \<open>Into the last block of the free list, when the block given back lies right behind it.\<close>

definition absorb :: "addr \<Rightarrow> addr \<Rightarrow> memory \<Rightarrow> memory" where
  "absorb l b m = store32 (m(b + 12 := 0)) l (load32 m l + (load32 m b + 16))"

lemma tiled_next:
  assumes "tiled m p a bs e" and "(l, n) \<in> set bs" and "(b, k) \<in> set bs" and "unat b = unat l + 16 + unat n"
  shows "\<exists>as cs. bs = as @ (l, n) # (b, k) # cs"
proof -
  obtain as ds where bs: "bs = as @ (l, n) # ds" using assms(2) by (metis split_list)
  then have T: "tiled m p a as (unat l)" "tiled m p (unat l + 16 + unat n) ds e" using assms(1) by (auto simp: tiled_append)
  have "(b, k) \<in> set ds" using assms(3,4) tiled_in [OF T(1), of b k] by (auto simp: bs)
  then obtain x j cs where ds: "ds = (x, j) # cs" by (cases ds) auto
  then have "x = b" using T(2) assms(4) by (simp add: word_eq_iff_unat_u32)
  moreover have "j = k" using tiled_in [OF assms(1), of x j] tiled_in [OF assms(1,3)] calculation by (simp add: bs ds)
  ultimately show ?thesis using bs ds by auto
qed

lemma arena_absorb:
  assumes "arena lo hi m p (as @ (l, n) # (b, k) # cs) fs" and l: "l \<in> set fs" and b: "b \<notin> set fs"
  shows "arena lo hi (absorb l b m) p (as @ (l, n + (k + 16)) # cs) fs" "\<forall>c \<in> set (as @ cs). keeps_data m (absorb l b m) c"
proof -
  let ?m = "absorb l b m" and ?bs = "as @ (l, n) # (b, k) # cs"
  note D = arenaD [OF assms(1)] and H = arena_hdrs [OF assms(1)]
  have ins: "(l, n) \<in> set ?bs" "(b, k) \<in> set ?bs" by auto
  note L = arena_block [OF assms(1) ins(1)] and B = arena_block [OF assms(1) ins(2)]
  have T: "tiled m p (unat p + 24) as (unat l)" "unat b = unat l + 16 + unat n" "tiled m p (unat b + 16 + unat k) cs (unat (load32 m (p + 8)))"
    using D(6) by (auto simp: tiled_append)
  have lim: "unat b + 16 + unat k < 4294967296" using B(3,9) D(5) by simp
  have sz: "unat (n + (k + 16)) = unat n + 16 + unat k" using lim T(2) unat_add_u32 [of k 16] unat_add_u32 [of n "k + 16"] by simp
  have dist: "x \<noteq> l" "x \<noteq> b" if "(x, j) \<in> set (as @ cs)" for x j
  proof -
    have "x \<in> fst ` set (as @ cs)" using that by force
    then show "x \<noteq> l" "x \<noteq> b" using tiled_distinct [OF D(6)] by auto
  qed
  have F: "load32 ?m x = (if x = l then n + (k + 16) else load32 m x)" "load32 ?m (x + 4) = load32 m (x + 4)" "load32 ?m (x + 8) = load32 m (x + 8)"
      "?m (x + 12) = (if x = b then 0 else m (x + 12))" if "(x, j) \<in> set ?bs" for x j
    using hdr_words [OF H(1) [OF ins(1) that], of "m(b + 12 := 0)"] hdr_words [OF H(1) [OF ins(2) that], of m] L(6) B(6) by (auto simp: absorb_def)
  have G: "load32 ?m p = load32 m p" "load32 ?m (p + 4) = load32 m (p + 4)" "load32 ?m (p + 8) = load32 m (p + 8)" "load32 ?m (p + 12) = load32 m (p + 12)"
    using page_words [OF H(2) [OF ins(1) ins(1)], of "m(b + 12 := 0)"] page_words [OF H(2) [OF ins(2) ins(2)], of m] by (simp_all add: absorb_def)
  have same: "load32 ?m x = load32 m x \<and> load32 ?m (x + 4) = load32 m (x + 4)" if "(x, j) \<in> set as \<or> (x, j) \<in> set cs" for x j
    using F(1,2) [of x j] dist(1) [of x j] that by auto
  have "tiled ?m p u as v = tiled m p u as v" for u v by (rule tiled_cong) (meson same)
  moreover have "tiled ?m p u cs v = tiled m p u cs v" for u v by (rule tiled_cong) (meson same)
  ultimately have "tiled ?m p (unat p + 24) as (unat l)" "tiled ?m p (unat b + 16 + unat k) cs (unat (load32 m (p + 8)))"
    using T(1,3) by simp_all
  then have t: "tiled ?m p (unat p + 24) (as @ (l, n + (k + 16)) # cs) (unat (load32 ?m (p + 8)))"
    using F(1,2) [OF ins(1)] G(3) T(2) L(4,7) B(4) sz by (auto simp: tiled_append ac_simps)
  have links: "load32 ?m (x + 8) = load32 m (x + 8)" if "x \<in> set fs" for x using arena_free_block [OF assms(1) that] F(3) by blast
  have new: "(x, j) \<in> set (as @ (l, n + (k + 16)) # cs) \<Longrightarrow> x \<noteq> b \<and> (\<exists>j. (x, j) \<in> set ?bs)" for x j
    using dist(2) [of x j] T(2) by auto
  show "arena lo hi ?m p (as @ (l, n + (k + 16)) # cs) fs"
  proof (rule arenaI)
    show "path (links ?m) (load32 ?m (p + 12)) fs NULL" using D(8) path_links_cong [OF links, of fs] G(4) by simp
    show "set fs \<subseteq> fst ` set (as @ (l, n + (k + 16)) # cs)" using D(10) b by auto
    show "?m (x + 12) = (if x \<in> set fs then 0 else 1)" if x: "(x, j) \<in> set (as @ (l, n + (k + 16)) # cs)" for x j
      using new [OF x] F(4) D(11) by metis
  qed (use D(1-5,7,9) G(1-3) t in simp_all)
  show "\<forall>c \<in> set (as @ cs). keeps_data m ?m c"
  proof (rule keeps_dataI [OF assms(1)])
    fix a assume "\<And>x k. (x, k) \<in> set ?bs \<Longrightarrow> outside a x"
    then have "outside a l" "outside a b" using ins by blast+
    then show "?m a = m a" by (simp add: absorb_def hdr_bytes)
  qed auto
qed

end
