(* ===== verification/Malloc_Run.thy ===== *)
theory Malloc_Run
  imports Malloc_Arena
begin

text \<open>
  \<open>malloc\<close> and \<open>free\<close> executed on a page block that is an arena: which path a call takes, what it leaves, and the two
  requests that break the free list.
\<close>

section \<open>Running malloc on an arena\<close>

lemmas malloc_consts = PB_OG_SIZE_def PB_FREE_SIZE_def PB_NEXT_FREE_ADDR_def PB_FREE_BLOCKS_def PB_NEXT_def PB_PREV_def sizeof_page_block_def
  MB_SIZE_def MB_PARENT_def MB_NEXT_def MB_ALLOCATED_def sizeof_mem_block_def

lemma struct_words:
  assumes "holds s0 pa lo hi m s" and "struct_in lo hi x 16"
  shows "in_area lo hi x" "in_area lo hi (x + 4)" "in_area lo hi (x + 8)" "x + 12 \<in> addrs lo hi"
    "vload32 x s = Some (load32 m x)" "vload32 (x + 4) s = Some (load32 m (x + 4))" "vload32 (x + 8) s = Some (load32 m (x + 8))" "vload8 (x + 12) s = Some (m (x + 12))"
proof -
  note f = struct_field [OF assms(2) holds_bounds [OF assms(1)]]
  show a: "in_area lo hi x" "in_area lo hi (x + 4)" "in_area lo hi (x + 8)" "x + 12 \<in> addrs lo hi"
    using f(2) [of 0] f(2) [of 4] f(2) [of 8] f(3) [of 12] by simp_all
  show "vload32 x s = Some (load32 m x)" "vload32 (x + 4) s = Some (load32 m (x + 4))" "vload32 (x + 8) s = Some (load32 m (x + 8))" "vload8 (x + 12) s = Some (m (x + 12))"
    using holds_load32 [OF assms(1)] holds_load8 [OF assms(1)] a by simp_all
qed

lemma page_fields:
  assumes "holds s0 pa lo hi m s" and "struct_in lo hi p 24"
  shows "vload32 (p + 4) s = Some (load32 m (p + 4))" "vload32 (p + 8) s = Some (load32 m (p + 8))" "vload32 (p + 12) s = Some (load32 m (p + 12))"
proof -
  note f = struct_field(2) [OF assms(2) holds_bounds [OF assms(1)]] and L = holds_load32 [OF assms(1)]
  show "vload32 (p + 4) s = Some (load32 m (p + 4))" "vload32 (p + 8) s = Some (load32 m (p + 8))" "vload32 (p + 12) s = Some (load32 m (p + 12))"
    using L [OF f [of 4]] L [OF f [of 8]] L [OF f [of 12]] by simp_all
qed

lemma holds_written:
  fixes s :: "'a user_state_scheme"
  assumes "holds s0 pa lo hi m s"
  shows "holds (s0\<lparr>written := w\<rparr>) pa lo hi m (s\<lparr>written := w\<rparr>)"
proof -
  obtain x where "s = s0\<lparr>phys := x\<rparr>" using assms by (auto simp: holds_def)
  then have "s\<lparr>written := w\<rparr> = s0\<lparr>written := w\<rparr>\<lparr>phys := x\<rparr>" by simp
  then have "\<exists>x. s\<lparr>written := w\<rparr> = s0\<lparr>written := w\<rparr>\<lparr>phys := x\<rparr>" by (intro exI [of _ x])
  moreover have "user_area (s\<lparr>written := w\<rparr>) pa lo hi" using assms by (simp add: holds_def user_area_def)
  moreover have "\<forall>a \<in> addrs lo hi. phys (s\<lparr>written := w\<rparr>) (pa a) = m a" using assms by (simp add: holds_def)
  ultimately show ?thesis unfolding holds_def by (intro conjI)
qed

lemma user_printf_lines:
  assumes "- (2 ^ 31) \<le> v" and "v < 2 ^ 31"
  shows "\<exists>w. user_printf ''size: %i\<newline>'' [IntArg v] s = Some (s\<lparr>written := w\<rparr>)"
    "\<exists>w. user_printf ''is_allocated: %i\<newline>'' [IntArg v] s = Some (s\<lparr>written := w\<rparr>)"
  using printf_number [of "map of_char ''size: ''" "[10]" "[]" "[[10]]" v] printf_number [of "map of_char ''is_allocated: ''" "[10]" "[]" "[[10]]" v] assms
  unfolding user_printf_def by auto

lemma print_free_blocks_returns:
  fixes s :: "'a user_state_scheme"
  assumes "holds s0 pa lo hi m s" and "path (links m) f fs NULL" and "NULL \<notin> set fs" and "\<And>x. x \<in> set fs \<Longrightarrow> struct_in lo hi x 16"
  shows "\<exists>w. print_free_blocks f s = Some (s\<lparr>written := w\<rparr>)"
  using assms
proof (induction fs arbitrary: f s0 s)
  case Nil
  then show ?case by (intro exI [of _ "written s"]) (simp add: print_free_blocks.simps [of 0 s])
next
  case (Cons b fs)
  then have f: "f = b" "b \<noteq> NULL" "path (links m) (load32 m (b + 8)) fs NULL" "struct_in lo hi b 16" by (auto simp: links_def [of m b])
  note L = struct_words(5-8) [OF _ f(4)]
  obtain w1 where w1: "user_printf ''size: %i\<newline>'' [IntArg (sint (load32 m b))] s = Some (s\<lparr>written := w1\<rparr>)"
    using user_printf_lines(1) [of "sint (load32 m b)" s] sint_ge [of "load32 m b"] sint_lt [of "load32 m b"] by auto
  note h1 = holds_written [OF Cons.prems(1), of w1]
  have "uint (m (b + 12)) < 2 ^ LENGTH(8)" "0 \<le> uint (m (b + 12))" by (rule unsigned_less) simp
  moreover have "(2 :: int) ^ LENGTH(8) = 256" "(2 :: int) ^ 31 = 2147483648" by simp_all
  ultimately have a: "- (2 ^ 31) \<le> uint (m (b + 12))" "uint (m (b + 12)) < 2 ^ 31" by linarith+
  obtain w2 where w2: "user_printf ''is_allocated: %i\<newline>'' [IntArg (uint (m (b + 12)))] (s\<lparr>written := w1\<rparr>) = Some (s\<lparr>written := w2\<rparr>)"
    using user_printf_lines(2) [OF a, of "s\<lparr>written := w1\<rparr>"] by auto
  note h2 = holds_written [OF Cons.prems(1), of w2]
  obtain w where "print_free_blocks (load32 m (b + 8)) (s\<lparr>written := w2\<rparr>) = Some (s\<lparr>written := w\<rparr>)"
    using Cons.IH [OF h2 f(3)] Cons.prems(3,4) by auto
  then show ?case using w1 w2 f(1,2) L [OF Cons.prems(1)] L [OF h1] L [OF h2]
    by (intro exI [of _ w]) (simp add: print_free_blocks.simps [of b s] malloc_consts)
qed

lemma arena_free_headers:
  assumes "arena lo hi m p bs fs"
  shows "NULL \<notin> set fs" "x \<in> set fs \<Longrightarrow> struct_in lo hi x 16"
proof -
  have "x \<noteq> NULL \<and> struct_in lo hi x 16" if x: "x \<in> set fs" for x
  proof -
    obtain n where "(x, n) \<in> set bs" using arena_free_block [OF assms x] by auto
    then show ?thesis using arena_block(1,8) [OF assms] by simp
  qed
  then show "NULL \<notin> set fs" "x \<in> set fs \<Longrightarrow> struct_in lo hi x 16" by blast+
qed

lemma split_block_runs:
  fixes s :: "'a user_state_scheme"
  assumes h: "holds s0 pa lo hi m s" and sb: "struct_in lo hi b 16" and sq: "struct_in lo hi q 16" and "load32 m (b + 4) = p" and ps: "struct_in lo hi p 24"
    and pr: "prev = NULL \<or> struct_in lo hi prev 16" and hq: "hdrs q b" and bq: "b \<noteq> q" and q: "q = b + (n + 16)" and t: "t = n + 16"
    and pb: "load32 (cut_block p prev b n m) (b + 4) = p"
    and list: "path (links (cut_block p prev b n m)) (load32 (cut_block p prev b n m) (p + 12)) fs NULL" "NULL \<notin> set fs" "\<And>x. x \<in> set fs \<Longrightarrow> struct_in lo hi x 16"
  shows "\<exists>w s'. split_block n t prev b s = Some s' \<and> holds (s0\<lparr>written := w\<rparr>) pa lo hi (cut_block p prev b n m) s'"
proof -
  let ?m = "cut_block p prev b n m"
  have "hdrs b b" using hq by (simp add: hdrs_def)
  note W = hdr_words [OF hq] hdr_words [OF this]
  define m1 where "m1 = store32 m q (load32 m b - t)"
  define m2 where "m2 = m1(q + 12 := 0)"
  define m3 where "m3 = store32 m2 (q + 4) p"
  define m4 where "m4 = store32 m3 b n"
  define m5 where "m5 = m4(b + 12 := 1)"
  define m6 where "m6 = store32 m5 (q + 8) (load32 m (b + 8))"
  define m7 where "m7 = relink p prev q m6"
  have m8: "store32 m7 (b + 8) NULL = ?m"
    unfolding m1_def m2_def m3_def m4_def m5_def m6_def m7_def cut_block_def Let_def q t by (rule refl)
  have L: "load32 m2 (b + 4) = p" "load32 m5 (b + 8) = load32 m (b + 8)" "load32 m6 (b + 4) = p" "load32 ?m (b + 4) = p"
    using W bq assms(4) pb by (simp_all add: m1_def m2_def m3_def m4_def m5_def m6_def del: fun_upd_apply)
  note qf = struct_words(1-4) [OF _ sq] and bf = struct_words(1-4) [OF _ sb] and bl = struct_words(5-8) [OF _ sb]
  obtain s1 where s1: "vstore32 q (load32 m b - t) s = Some s1" "holds s0 pa lo hi m1 s1" using holds_store32 [OF h qf(1) [OF h]] unfolding m1_def by blast
  obtain s2 where s2: "vstore8 (q + 12) 0 s1 = Some s2" "holds s0 pa lo hi m2 s2" using holds_store8 [OF s1(2) qf(4) [OF h]] unfolding m2_def by blast
  obtain s3 where s3: "vstore32 (q + 4) p s2 = Some s3" "holds s0 pa lo hi m3 s3" using holds_store32 [OF s2(2) qf(2) [OF h]] unfolding m3_def by blast
  obtain s4 where s4: "vstore32 b n s3 = Some s4" "holds s0 pa lo hi m4 s4" using holds_store32 [OF s3(2) bf(1) [OF h]] unfolding m4_def by blast
  obtain s5 where s5: "vstore8 (b + 12) 1 s4 = Some s5" "holds s0 pa lo hi m5 s5" using holds_store8 [OF s4(2) bf(4) [OF h]] unfolding m5_def by blast
  obtain s6 where s6: "vstore32 (q + 8) (load32 m (b + 8)) s5 = Some s6" "holds s0 pa lo hi m6 s6" using holds_store32 [OF s5(2) qf(3) [OF h]] unfolding m6_def by blast
  obtain s7 where s7: "link_block prev b q s6 = Some s7" "holds s0 pa lo hi m7 s7" using link_block_relinks [OF s6(2) sb L(3) ps pr] unfolding m7_def by blast
  obtain s8 where s8: "vstore32 (b + 8) NULL s7 = Some s8" "holds s0 pa lo hi ?m s8" using holds_store32 [OF s7(2) bf(3) [OF h], of NULL] unfolding m8 by blast
  have "\<exists>w. print_free_blocks (load32 ?m (p + 12)) s8 = Some (s8\<lparr>written := w\<rparr>)"
    by (rule print_free_blocks_returns [OF s8(2) list])
  then obtain w where w: "print_free_blocks (load32 ?m (p + 12)) s8 = Some (s8\<lparr>written := w\<rparr>)" by (elim exE)
  have "split_block n t prev b s = Some (s8\<lparr>written := w\<rparr>)"
    using s1(1) s2(1) s3(1) s4(1) s5(1) s6(1) s7(1) s8(1) w bl(1) [OF h] bl(2) [OF s2(2)] bl(3) [OF s5(2)] bl(2) [OF s8(2)] page_fields(3) [OF s8(2) ps] L
    by (simp add: split_block_def malloc_consts t q [symmetric] add.commute)
  then show ?thesis using holds_written [OF s8(2)] by blast
qed

lemma split_block_cuts:
  fixes s :: "'a user_state_scheme"
  assumes h: "holds s0 pa lo hi m s" and a: "arena lo hi m p (as @ (b, k) # cs) (xs @ b # ys)" and prev: "prev = last (NULL # xs)"
    and n: "8 dvd unat n" "unat n + 16 \<le> unat k" and t: "t = n + 16"
  shows "\<exists>w s'. split_block n t prev b s = Some s' \<and> holds (s0\<lparr>written := w\<rparr>) pa lo hi (cut_block p prev b n m) s'"
proof -
  define q where q: "q = b + (n + 16)"
  let ?bs = "as @ (b, n) # (q, k - (n + 16)) # cs"
  note A' = arena_cut(1) [OF a prev n q]
  have b: "(b, k) \<in> set (as @ (b, k) # cs)" "(b, n) \<in> set ?bs" and q': "(q, k - (n + 16)) \<in> set ?bs" by auto
  note B = arena_block [OF a b(1)] and Q = arena_block [OF A' q']
  have "b \<noteq> q" using arenaD(6) [OF A'] by (auto simp: tiled_append)
  moreover have "prev = NULL \<or> struct_in lo hi prev 16" using arena_prev(1) [OF a prev] arena_block(1) [OF a] by blast
  ultimately show ?thesis
    using arena_hdrs(1) [OF A' q' b(2)] arena_block(7) [OF A' b(2)] arenaD(8) [OF A'] arena_free_headers [OF A']
    by (intro split_block_runs [OF h B(1) Q(1) B(7) arena_page [OF a] _ _ _ q t])
qed

lemma exact_fit_detaches:
  assumes h: "holds s0 pa lo hi m s" and a: "arena lo hi m p bs (xs @ b # ys)" and prev: "prev = last (NULL # xs)" and b: "(b, n) \<in> set bs"
  shows "\<exists>s'. search_blocks n t prev b s = Some (Some (b + 16), s') \<and> holds s0 pa lo hi (detach p prev b m) s'"
proof -
  note B = arena_block [OF a b] and ps = arena_page [OF a]
  note bf = struct_words [OF _ B(1)] and W = hdr_words [OF arena_hdrs(1) [OF a b b], of m]
  have pr: "prev = NULL \<or> struct_in lo hi prev 16" using arena_prev(1) [OF a prev] arena_block(1) [OF a] by blast
  obtain s1 where s1: "vstore8 (b + 12) 1 s = Some s1" "holds s0 pa lo hi (m(b + 12 := 1)) s1" using holds_store8 [OF h bf(4) [OF h]] by blast
  have "load32 (m(b + 12 := 1)) (b + 4) = p" using W(11) B(7) by simp
  then obtain s2 where s2: "link_block prev b (load32 m (b + 8)) s1 = Some s2" "holds s0 pa lo hi (detach p prev b m) s2"
    using link_block_relinks [OF s1(2) B(1) _ ps pr] unfolding detach_def by blast
  have "vload32 (b + 8) s1 = Some (load32 m (b + 8))" using bf(7) [OF s1(2)] W(12) by simp
  then show ?thesis using s1(1) s2 B(6,8) bf(5) [OF h]
    by (simp add: search_blocks.simps [of n t prev b] malloc_consts)
qed

lemma search_blocks_skip:
  assumes "holds s0 pa lo hi m s" and "path (links m) f xs g" and "NULL \<notin> set xs" and "\<And>x. x \<in> set xs \<Longrightarrow> struct_in lo hi x 16 \<and> load32 m x < n"
  shows "search_blocks n t prev f s = search_blocks n t (last (prev # xs)) g s"
  using assms(2-4)
proof (induction xs arbitrary: prev f)
  case (Cons x xs)
  then have x: "f = x" "x \<noteq> NULL" "path (links m) (load32 m (x + 8)) xs g" "struct_in lo hi x 16" "load32 m x < n" by (auto simp: links_def [of m x])
  have "search_blocks n t prev x s = search_blocks n t x (load32 m (x + 8)) s"
    using struct_words [OF assms(1) x(4)] x(2,5) less_asym [OF x(5)] by (auto simp: search_blocks.simps [of n t prev x] malloc_consts)
  also have "\<dots> = search_blocks n t (last (x # xs)) g s" using Cons.IH [OF x(3)] Cons.prems(2,3) by simp
  finally show ?case using x(1) by simp
qed simp

section \<open>What a successful allocation promises\<close>

text \<open>
  The block \<open>q\<close> of \<open>n\<close> bytes has been handed out: it is one of the blocks, it is not free, and every block that was in
  use still is one, is not free, has no byte in common with the new one and holds the same data.
\<close>

definition hands_out :: "addr \<Rightarrow> u32 \<Rightarrow> memory \<Rightarrow> (addr \<times> u32) list \<Rightarrow> addr list \<Rightarrow> memory \<Rightarrow> (addr \<times> u32) list \<Rightarrow> addr list \<Rightarrow> bool" where
  "hands_out q n m bs fs m' bs' fs' \<longleftrightarrow> (q, n) \<in> set bs' \<and> q \<notin> set fs' \<and>
     (\<forall>(b, k) \<in> set bs. b \<notin> set fs \<longrightarrow> (b, k) \<in> set bs' \<and> b \<notin> set fs' \<and> block_bytes (b, k) \<inter> block_bytes (q, n) = {} \<and> keeps_data m m' (b, k))"

lemma blocks_disjoint:
  assumes "arena lo hi m p bs fs" and "(b, k) \<in> set bs" and "(q, n) \<in> set bs" and "b \<noteq> q"
  shows "block_bytes (b, k) \<inter> block_bytes (q, n) = {}"
  using tiled_apart [OF arenaD(6) [OF assms(1)] assms(2,3)] assms(4) by (auto simp: block_bytes_def addrs_def)

lemma hands_outI:
  assumes "arena lo hi m' p bs' fs'" and "(q, n) \<in> set bs'" and "q \<notin> set fs'"
    and "\<And>b k. (b, k) \<in> set bs \<Longrightarrow> b \<notin> set fs \<Longrightarrow> (b, k) \<in> set bs' \<and> b \<notin> set fs' \<and> b \<noteq> q \<and> keeps_data m m' (b, k)"
  shows "hands_out q n m bs fs m' bs' fs'"
  using assms(2-4) blocks_disjoint [OF assms(1) _ assms(2)] by (fastforce simp: hands_out_def)

lemma carve_hands_out:
  assumes a: "arena lo hi m p bs fs" and q: "load32 m (p + 8) = q" and n: "8 dvd unat n" "unat n + 16 \<le> unat (load32 m (p + 4))"
  shows "hands_out q n m bs fs (carve p (n + 16) q m) (bs @ [(q, n)]) fs"
proof (rule hands_outI [OF arena_carve(1) [OF a q n]])
  have lt: "unat b < unat q" if "(b, k) \<in> set bs" for b k using arena_block(3) [OF a that] q by simp
  show "q \<notin> set fs" using arena_free_block [OF a] lt by blast
  show "(b, k) \<in> set (bs @ [(q, n)]) \<and> b \<notin> set fs \<and> b \<noteq> q \<and> keeps_data m (carve p (n + 16) q m) (b, k)" if "(b, k) \<in> set bs" "b \<notin> set fs" for b k
    using that lt [OF that(1)] arena_carve(2) [OF a q n] by (auto simp: keeps_data_def keeps_block_def data_bytes_def block_bytes_def addrs_def)
qed simp

lemma detach_hands_out:
  assumes a: "arena lo hi m p bs (xs @ b # ys)" and prev: "prev = last (NULL # xs)" and b: "(b, n) \<in> set bs"
  shows "hands_out b n m bs (xs @ b # ys) (detach p prev b m) bs (xs @ ys)"
  using arenaD(9) [OF a] arena_detach(2) [OF a prev] by (intro hands_outI [OF arena_detach(1) [OF a prev] b]) auto

lemma cut_hands_out:
  assumes a: "arena lo hi m p (as @ (b, k) # cs) (xs @ b # ys)" and prev: "prev = last (NULL # xs)"
    and n: "8 dvd unat n" "unat n + 16 \<le> unat k" and q: "q = b + (n + 16)"
  shows "hands_out b n m (as @ (b, k) # cs) (xs @ b # ys) (cut_block p prev b n m) (as @ (b, n) # (q, k - (n + 16)) # cs) (xs @ q # ys)"
proof (rule hands_outI [OF arena_cut(1) [OF a prev n q]])
  note A' = arena_cut(1) [OF a prev n q]
  have bq: "b \<noteq> q" using arenaD(6) [OF A'] by (auto simp: tiled_append)
  then show "b \<notin> set (xs @ q # ys)" using arenaD(9) [OF a] by auto
  show "(y, l) \<in> set (as @ (b, n) # (q, k - (n + 16)) # cs) \<and> y \<notin> set (xs @ q # ys) \<and> y \<noteq> b \<and> keeps_data m (cut_block p prev b n m) (y, l)"
    if y: "(y, l) \<in> set (as @ (b, k) # cs)" "y \<notin> set (xs @ b # ys)" for y l
  proof -
    have y': "(y, l) \<in> set (as @ cs)" using y by auto
    have "q \<notin> fst ` set (as @ cs)" using tiled_distinct [OF arenaD(6) [OF A']] by auto
    then have "y \<noteq> q" using y' by (metis fst_conv imageI)
    then show ?thesis using y y' bspec [OF arena_cut(2) [OF a prev n q] y'] by auto
  qed
qed simp

text \<open>The search of the free list hands out the first block that is large enough.\<close>

lemma search_blocks_hands_out:
  fixes s :: "'a user_state_scheme"
  assumes h: "holds s0 pa lo hi m s" and a: "arena lo hi m p bs fs" and n: "8 dvd unat n" and t: "t = n + 16"
    and fit: "\<exists>b \<in> set fs. n \<le> load32 m b" and no8: "\<And>b. b \<in> set fs \<Longrightarrow> unat (load32 m b) \<noteq> unat n + 8"
  shows "\<exists>w s' m' bs' fs' q. search_blocks n t NULL (load32 m (p + 12)) s = Some (Some (q + 16), s') \<and>
    holds (s0\<lparr>written := w\<rparr>) pa lo hi m' s' \<and> arena lo hi m' p bs' fs' \<and> hands_out q n m bs fs m' bs' fs'"
proof -
  obtain xs b ys where fs: "fs = xs @ b # ys" and b: "n \<le> load32 m b" and xs: "\<And>x. x \<in> set xs \<Longrightarrow> load32 m x < n"
    using split_list_first_prop [OF fit] by (metis not_le)
  define prev where prev: "prev = last (NULL # xs)"
  note a' = a [unfolded fs] and F = arena_free_headers [OF a]
  obtain k where k: "(b, k) \<in> set bs" using arena_free_block [OF a, of b] fs by auto
  note B = arena_block [OF a k]
  have "path (links m) (load32 m (p + 12)) xs b" using arenaD(8) [OF a'] by auto
  then have s: "search_blocks n t NULL (load32 m (p + 12)) s = search_blocks n t prev b s"
    unfolding prev using F fs xs by (intro search_blocks_skip [OF h]) auto
  show ?thesis
  proof (cases "k = n")
    case True
    obtain s' where s': "search_blocks n t prev b s = Some (Some (b + 16), s')" "holds s0 pa lo hi (detach p prev b m) s'"
      using exact_fit_detaches [OF h a' prev, of n t] k True by auto
    moreover have "holds (s0\<lparr>written := written s0\<rparr>) pa lo hi (detach p prev b m) s'" using s'(2) by simp
    ultimately show ?thesis using arena_detach(1) [OF a' prev] detach_hands_out [OF a' prev, of n] k True s unfolding fs by metis
  next
    case False
    then have "unat n < unat k" using b B(6) by (metis le_neq_trans word_less_nat_alt)
    moreover have "8 dvd unat k" "unat k \<noteq> unat n + 8" using B(4,6) no8 [of b] fs by auto
    ultimately have nk: "unat n + 16 \<le> unat k" using n by presburger
    obtain as cs where bs: "bs = as @ (b, k) # cs" using k by (metis split_list)
    note a2 = a [unfolded fs bs]
    obtain w s' where s': "split_block n t prev b s = Some s'" "holds (s0\<lparr>written := w\<rparr>) pa lo hi (cut_block p prev b n m) s'"
      using split_block_cuts [OF h a2 prev n nk t] by blast
    have "n < load32 m b" using \<open>unat n < unat k\<close> B(6) by (simp add: word_less_nat_alt)
    then have "search_blocks n t prev b s = Some (Some (b + 16), s')"
      using s'(1) B(8) struct_words(5) [OF h B(1)] by (simp add: search_blocks.simps [of n t prev b] malloc_consts)
    then show ?thesis using s'(2) s arena_cut(1) [OF a2 prev n nk refl] cut_hands_out [OF a2 prev n nk refl] unfolding fs bs by metis
  qed
qed

section \<open>The size of a block\<close>

lemma align_up_mod: "align_up n = (n + 7) - (n + 7) mod 8"
  using and_NOT_mask [of "n + 7" 3] by (simp add: align_up_def take_bit_eq_mod mask_eq_exp_minus_1)

lemma unat_align_up:
  assumes "unat n \<le> 4294967288"
  shows "unat (align_up n) = (unat n + 7) div 8 * 8"
proof -
  have u: "unat (n + 7) = unat n + 7" using assms by (simp add: unat_add_u32)
  have "(n + 7) mod 8 \<le> n + 7" by (simp add: word_le_nat_alt unat_mod_distrib)
  then have "unat (align_up n) = (unat n + 7) - (unat n + 7) mod 8"
    by (simp add: align_up_mod unat_sub unat_mod_distrib u)
  then show ?thesis by (simp add: minus_mod_eq_div_mult)
qed

lemma align_up_fits:
  assumes "unat n \<le> 4294967288"
  shows "8 dvd unat (align_up n)" "unat n \<le> unat (align_up n)" "unat (align_up n) \<le> unat n + 7"
  unfolding unat_align_up [OF assms] by simp presburger+

text \<open>Above that the sum wraps.\<close>

lemma align_up_wraps:
  assumes "4294967288 < unat n"
  shows "align_up n = 0"
proof -
  have lim: "unat n < 4294967296" by simp
  then have e: "unat n + 7 = (unat n - 4294967289) + 4294967296" "unat n - 4294967289 < 8" using assms by linarith+
  have "unat (n + 7) = (unat n + 7) mod 4294967296" by (simp add: unat_word_ariths)
  also have "\<dots> = unat n - 4294967289" unfolding e(1) using e(2) by simp
  also note e(2)
  finally have "(n + 7) mod 8 = n + 7" by (simp add: word_eq_iff_unat_u32 unat_mod_distrib)
  then show ?thesis by (simp add: align_up_mod)
qed

section \<open>malloc\<close>

text \<open>A search that finds nothing leaves the state alone.\<close>

lemma search_blocks_none:
  assumes "holds s0 pa lo hi m s" and "arena lo hi m p bs fs" and "\<And>b. b \<in> set fs \<Longrightarrow> load32 m b < n"
  shows "search_blocks n t NULL (load32 m (p + 12)) s = Some (None, s)"
  using search_blocks_skip [OF assms(1) arenaD(8) [OF assms(2)], of n t NULL] arena_free_headers [OF assms(2)] assms(3)
  by (simp add: search_blocks.simps [of n t _ 0])

lemma search_pages_hands_out:
  fixes s :: "'a user_state_scheme"
  assumes h: "holds s0 pa lo hi m s" and a: "arena lo hi m p bs fs" and n: "8 dvd unat n" and t: "t = n + 16"
    and room: "(\<exists>b \<in> set fs. n \<le> load32 m b) \<or> unat n + 16 \<le> unat (load32 m (p + 4))"
    and no8: "\<And>b. b \<in> set fs \<Longrightarrow> unat (load32 m b) \<noteq> unat n + 8"
  shows "\<exists>w s' m' bs' fs' q. search_pages n t prev p s = Some (Inl (q + 16), s') \<and>
    holds (s0\<lparr>written := w\<rparr>) pa lo hi m' s' \<and> arena lo hi m' p bs' fs' \<and> hands_out q n m bs fs m' bs' fs'"
proof (cases "\<exists>b \<in> set fs. n \<le> load32 m b")
  case True
  then obtain w s' m' bs' fs' q where s': "search_blocks n t NULL (load32 m (p + 12)) s = Some (Some (q + 16), s')"
      "holds (s0\<lparr>written := w\<rparr>) pa lo hi m' s'" "arena lo hi m' p bs' fs'" "hands_out q n m bs fs m' bs' fs'"
    using search_blocks_hands_out [OF h a n t _ no8] by blast
  have "load32 m (p + 12) \<noteq> NULL" using arenaD(8) [OF a] arena_free_headers(1) [OF a] True by (cases fs) auto
  then have "search_pages n t prev p s = Some (Inl (q + 16), s')"
    using s'(1) arenaD(2) [OF a] page_fields(3) [OF h arena_page [OF a]] by (simp add: search_pages.simps [of n t prev p] malloc_consts)
  then show ?thesis using s'(2-4) by blast
next
  case False
  define q where q: "q = load32 m (p + 8)"
  have n2: "unat n + 16 \<le> unat (load32 m (p + 4))" using room False by blast
  note C = arena_carve [OF a q [symmetric] n n2]
  obtain s' where s': "alloc_mem_block t p s = Some (q, s')" "holds s0 pa lo hi (carve p (n + 16) q m) s'"
    using alloc_mem_block_carves [OF h arena_page [OF a] C(3) q [symmetric], of t] t by auto
  have "search_blocks n t NULL (load32 m (p + 12)) s = Some (None, s)"
    using False by (intro search_blocks_none [OF h a]) (simp add: not_le)
  moreover have "unat (load32 m (p + 4)) < 4294967296" by simp
  then have "unat n < 4294967280" using n2 by linarith
  then have "unat (n + 16) = unat n + 16" using unat_add_u32 [of n 16] by simp
  then have "t \<le> load32 m (p + 4)" using n2 t by (simp add: word_le_nat_alt)
  ultimately have "search_pages n t prev p s = Some (Inl (q + 16), s')"
    using s'(1) arenaD(2) [OF a] page_fields [OF h arena_page [OF a]] by (simp add: search_pages.simps [of n t prev p] malloc_consts)
  moreover have "holds (s0\<lparr>written := written s0\<rparr>) pa lo hi (carve p (n + 16) q m) s'" using s'(2) by simp
  ultimately show ?thesis using C(1) carve_hands_out [OF a q [symmetric] n n2] by blast
qed

lemma malloc_hands_out:
  fixes s :: "'a user_state_scheme"
  assumes "holds s pa lo hi m s" and "mem_pool s = p" and "arena lo hi m p bs fs" and "8 dvd unat (align_up n)"
    and "(\<exists>b \<in> set fs. align_up n \<le> load32 m b) \<or> unat (align_up n) + 16 \<le> unat (load32 m (p + 4))"
    and "\<forall>b \<in> set fs. unat (load32 m b) \<noteq> unat (align_up n) + 8"
  shows "\<exists>w s' m' bs' fs' q. malloc frame regs n s = Some (q + 16, s') \<and> 8 dvd unat (q + 16) \<and>
    holds (s\<lparr>written := w\<rparr>) pa lo hi m' s' \<and> arena lo hi m' p bs' fs' \<and> hands_out q (align_up n) m bs fs m' bs' fs'"
proof -
  obtain w s' m' bs' fs' q where s': "search_pages (align_up n) (align_up n + 16) NULL p s = Some (Inl (q + 16), s')"
      "holds (s\<lparr>written := w\<rparr>) pa lo hi m' s'" and a': "arena lo hi m' p bs' fs'" and o: "hands_out q (align_up n) m bs fs m' bs' fs'"
    using search_pages_hands_out [OF assms(1,3,4) refl assms(5)] assms(6) by blast
  have "(q, align_up n) \<in> set bs'" using o by (simp add: hands_out_def)
  note Q = arena_block [OF a' this]
  have "unat (q + 16) = unat q + 16" using Q(3,9) arenaD(5) [OF a'] unat_add_u32 [of q 16] by simp
  then have "8 dvd unat (q + 16)" using Q(5) by simp
  moreover have "malloc frame regs n s = Some (q + 16, s')"
    using s'(1) assms(2) arenaD(2) [OF assms(3)] by (simp add: malloc_def malloc_consts)
  ultimately show ?thesis using s'(2) a' o by blast
qed

text \<open>
  C33: On a pool whose first page block is in order, \<open>malloc\<close> of a size for which that block has room, be it a free
  block or its unused end, returns. The address is a multiple of eight; the block behind it is at least as large as
  asked for, has no byte in common with a block in use, and no byte of the data of those changes. The page block is in
  order again. A free block of exactly eight bytes more than the size is the one case excluded.
\<close>

theorem malloc_keeps_arena:
  fixes s :: "'a user_state_scheme"
  assumes "holds s pa lo hi m s" and "mem_pool s = p" and "arena lo hi m p bs fs" and "unat n \<le> 4294967288"
    and "(\<exists>b \<in> set fs. align_up n \<le> load32 m b) \<or> unat (align_up n) + 16 \<le> unat (load32 m (p + 4))"
    and "\<forall>b \<in> set fs. unat (load32 m b) \<noteq> unat (align_up n) + 8"
  shows "\<exists>w s' m' bs' fs' q. malloc frame regs n s = Some (q + 16, s') \<and> 8 dvd unat (q + 16) \<and> unat n \<le> unat (align_up n) \<and>
    holds (s\<lparr>written := w\<rparr>) pa lo hi m' s' \<and> arena lo hi m' p bs' fs' \<and> hands_out q (align_up n) m bs fs m' bs' fs'"
  using malloc_hands_out [OF assms(1-3) align_up_fits(1) [OF assms(4)] assms(5,6)] align_up_fits(2) [OF assms(4)] by blast

text \<open>
  C37: The rounding of the size wraps: for the seven sizes above 0xFFFFFFF8, \<open>malloc\<close> does not fail but hands out a
  block of zero bytes, as soon as the page block has room for a header or a free block.
\<close>

theorem malloc_huge_is_empty:
  fixes s :: "'a user_state_scheme"
  assumes "holds s pa lo hi m s" and "mem_pool s = p" and "arena lo hi m p bs fs" and "4294967288 < unat n"
    and "fs \<noteq> [] \<or> 16 \<le> unat (load32 m (p + 4))" and "\<forall>b \<in> set fs. unat (load32 m b) \<noteq> 8"
  shows "\<exists>w s' m' bs' fs' q. malloc frame regs n s = Some (q + 16, s') \<and>
    holds (s\<lparr>written := w\<rparr>) pa lo hi m' s' \<and> arena lo hi m' p bs' fs' \<and> (q, 0) \<in> set bs' \<and> q \<notin> set fs'"
proof -
  note z = align_up_wraps [OF assms(4)]
  have "(\<exists>b \<in> set fs. align_up n \<le> load32 m b) \<or> unat (align_up n) + 16 \<le> unat (load32 m (p + 4))" using assms(5) by (cases fs) (auto simp: z)
  then show ?thesis using malloc_hands_out [OF assms(1-3), of n frame regs] assms(6) by (simp add: z hands_out_def) blast
qed

text \<open>A program with one page block of one page at 0x1000: a block of 32 bytes in use, a free one of 64 bytes, and the rest.\<close>

definition words_at :: "(addr \<times> u32) list \<Rightarrow> memory" where
  "words_at ws = fold (\<lambda>(a, v) m. store32 m a v) ws (\<lambda>_. 0)"

definition two_blocks :: memory where
  "two_blocks = words_at [(0x1000, 0x1000), (0x1004, 0xF68), (0x1008, 0x1098), (0x100C, 0x1048),
     (0x1018, 32), (0x101C, 0x1000), (0x1024, 1), (0x1048, 64), (0x104C, 0x1000)]"

definition program :: "memory \<Rightarrow> user_state" where
  "program m = tty_state.extend (reading\<lparr>phys := one_page m, cr3 := 0x1000\<rparr>) (user_state.fields 0x1000 [])"

lemma program_fields: "phys (program m) = one_page m" "cr3 (program m) = 0x1000" "mem_pool (program m) = 0x1000"
  by (simp_all add: program_def tty_state.defs user_state.defs)

lemma program_holds: "holds (program m) (\<lambda>a. a + 0x4000) 0x1000 0x2000 m (program m)"
  by (rule holds_one_page) (simp_all add: program_fields)

lemma two_blocks_arena: "arena 0x1000 0x2000 two_blocks 0x1000 [(0x1018, 32), (0x1048, 64)] [0x1048]"
  by (rule arenaI) (auto simp: two_blocks_def words_at_def load32_def store32_def links_def)

theorem malloc_keeps_arena_witness:
  "\<exists>w s' m' bs' fs' q. malloc 0 plain_ctx 20 (program two_blocks) = Some (q + 16, s') \<and> 8 dvd unat (q + 16) \<and> unat (20 :: u32) \<le> unat (align_up 20) \<and>
    holds (program two_blocks\<lparr>written := w\<rparr>) (\<lambda>a. a + 0x4000) 0x1000 0x2000 m' s' \<and> arena 0x1000 0x2000 m' 0x1000 bs' fs' \<and>
    hands_out q (align_up 20) two_blocks [(0x1018, 32), (0x1048, 64)] [0x1048] m' bs' fs'"
proof (rule malloc_keeps_arena [OF program_holds program_fields(3) two_blocks_arena])
  have a: "align_up 20 = 24" by (simp add: align_up_def)
  have w: "load32 two_blocks 0x1048 = 64" by (simp add: two_blocks_def words_at_def load32_def store32_def)
  show "unat (20 :: u32) \<le> 4294967288" by simp
  show "(\<exists>b \<in> set [0x1048]. align_up 20 \<le> load32 two_blocks b) \<or> unat (align_up 20) + 16 \<le> unat (load32 two_blocks (0x1000 + 4))"
    "\<forall>b \<in> set [0x1048]. unat (load32 two_blocks b) \<noteq> unat (align_up 20) + 8"
    by (simp_all add: a w)
qed

theorem malloc_huge_is_empty_witness:
  "\<exists>w s' m' bs' fs' q. malloc 0 plain_ctx 0xFFFFFFFF (program two_blocks) = Some (q + 16, s') \<and>
    holds (program two_blocks\<lparr>written := w\<rparr>) (\<lambda>a. a + 0x4000) 0x1000 0x2000 m' s' \<and> arena 0x1000 0x2000 m' 0x1000 bs' fs' \<and>
    (q, 0) \<in> set bs' \<and> q \<notin> set fs'"
proof (rule malloc_huge_is_empty [OF program_holds program_fields(3) two_blocks_arena])
  have "load32 two_blocks 0x1048 = 64" by (simp add: two_blocks_def words_at_def load32_def store32_def)
  then show "\<forall>b \<in> set [0x1048]. unat (load32 two_blocks b) \<noteq> 8" by simp
qed simp_all

end
