(* ===== verification/Free_Run.thy ===== *)
theory Free_Run
  imports Malloc_Run
begin

text \<open>
  \<open>free\<close> executed on a page block that is an arena: when it gives the page block back to the kernel, and what it leaves
  when it keeps it.
\<close>

section \<open>Is the page block free?\<close>

lemma sum_free_path:
  assumes "holds s0 pa lo hi m s" and "path (links m) f fs NULL" and "NULL \<notin> set fs" and "\<And>x. x \<in> set fs \<Longrightarrow> struct_in lo hi x 16"
  shows "sum_free tot f s = Some (tot + word_of_nat (\<Sum>x\<leftarrow>fs. unat (load32 m x) + 16))"
  using assms(2-4)
proof (induction fs arbitrary: tot f)
  case Nil
  then show ?case by (simp add: sum_free.simps [of tot 0])
next
  case (Cons x fs)
  then have x: "f = x" "x \<noteq> NULL" "path (links m) (load32 m (x + 8)) fs NULL" "struct_in lo hi x 16" by (auto simp: links_def [of m x])
  have "sum_free tot x s = sum_free (tot + (load32 m x + 16)) (load32 m (x + 8)) s"
    using struct_words [OF assms(1) x(4)] x(2) by (simp add: sum_free.simps [of tot x] malloc_consts)
  also have "\<dots> = Some (tot + (load32 m x + 16) + word_of_nat (\<Sum>x\<leftarrow>fs. unat (load32 m x) + 16))"
    using Cons.IH [OF x(3)] Cons.prems(2,3) by simp
  finally show ?case using x(1) by (simp add: algebra_simps)
qed

lemma tiled_sum: "tiled m p a bs e \<Longrightarrow> e = a + (\<Sum>x\<leftarrow>map fst bs. unat (load32 m x) + 16)"
  by (induction m p a bs e rule: tiled.induct) auto

text \<open>Some of the blocks and all of them.\<close>

lemma arena_sum:
  assumes "arena lo hi m p bs fs" and "set xs \<subseteq> fst ` set bs" and "distinct xs"
  shows "unat (load32 m (p + 4)) + (\<Sum>x\<leftarrow>xs. unat (load32 m x) + 16) + 24 \<le> unat (load32 m p)"
    "unat (load32 m (p + 4)) + (\<Sum>x\<leftarrow>xs. unat (load32 m x) + 16) + 24 = unat (load32 m p) \<longleftrightarrow> set xs = fst ` set bs"
proof -
  let ?w = "\<lambda>x. unat (load32 m x) + 16"
  note D = arenaD [OF assms(1)]
  have all: "unat (load32 m (p + 4)) + (\<Sum>x\<in>fst ` set bs. ?w x) + 24 = unat (load32 m p)"
    using tiled_sum [OF D(6)] D(7) sum_list_distinct_conv_sum_set [OF tiled_distinct [OF D(6)], of ?w] by simp
  have xs: "(\<Sum>x\<leftarrow>xs. ?w x) = (\<Sum>x\<in>set xs. ?w x)" by (rule sum_list_distinct_conv_sum_set [OF assms(3)])
  have split: "(\<Sum>x\<in>fst ` set bs. ?w x) = (\<Sum>x\<in>set xs. ?w x) + (\<Sum>x\<in>fst ` set bs - set xs. ?w x)"
    using sum.subset_diff [OF assms(2), of ?w] by simp
  then show "unat (load32 m (p + 4)) + (\<Sum>x\<leftarrow>xs. ?w x) + 24 \<le> unat (load32 m p)" using all xs by simp
  have "(\<Sum>x\<in>fst ` set bs - set xs. ?w x) = 0 \<longleftrightarrow> fst ` set bs - set xs = {}" by (subst sum_eq_0_iff) auto
  also have "\<dots> \<longleftrightarrow> set xs = fst ` set bs" using assms(2) by blast
  finally show "unat (load32 m (p + 4)) + (\<Sum>x\<leftarrow>xs. ?w x) + 24 = unat (load32 m p) \<longleftrightarrow> set xs = fst ` set bs"
    using all xs split by linarith
qed

lemma is_page_free_iff:
  assumes h: "holds s0 pa lo hi (m(b + 12 := 0)) s" and a: "arena lo hi m p bs fs" and b: "(b, k) \<in> set bs" "b \<notin> set fs"
  shows "is_page_free b s = Some (\<forall>(c, l) \<in> set bs. c \<in> set fs \<or> c = b)"
proof -
  let ?m = "m(b + 12 := 0)" and ?w = "\<lambda>x. unat (load32 m x) + 16"
  note D = arenaD [OF a] and B = arena_block [OF a b(1)] and ps = arena_page [OF a] and H = arena_hdrs [OF a]
  note W = page_words(13-16) [OF H(2) [OF b(1) b(1)], of m]
  have F: "load32 ?m x = load32 m x" "load32 ?m (x + 4) = load32 m (x + 4)" "load32 ?m (x + 8) = load32 m (x + 8)" if "(x, j) \<in> set bs" for x j
    using hdr_words [OF H(1) [OF b(1) that], of m] by simp_all
  have fs: "load32 ?m x = load32 m x" "load32 ?m (x + 8) = load32 m (x + 8)" if "x \<in> set fs" for x
    using arena_free_block [OF a that] F by blast+
  have "path (links ?m) (load32 ?m (p + 12)) fs NULL" using D(8) path_links_cong [OF fs(2), of fs] W(4) by simp
  then have s: "sum_free t (load32 m (p + 12)) s = Some (t + word_of_nat (\<Sum>x\<leftarrow>fs. ?w x))" for t
    using sum_free_path [OF h _ arena_free_headers [OF a], of "load32 m (p + 12)" t] W(4) fs(1) by (simp cong: map_cong)
  define tot where "tot = unat (load32 m (p + 4)) + (\<Sum>x\<leftarrow>b # fs. ?w x) + 24"
  have bfs: "set (b # fs) \<subseteq> fst ` set bs" "distinct (b # fs)" using D(9,10) b by force+
  note S = arena_sum [OF a bfs, folded tot_def]
  have "tot < 4294967296" using S(1) unat_u32_less [of "load32 m p"] by linarith
  then have "unat (word_of_nat tot :: u32) = tot" by (simp add: unat_of_nat)
  then have eq: "word_of_nat tot = load32 m p \<longleftrightarrow> tot = unat (load32 m p)" by (metis word_eq_iff_unat_u32)
  have t: "load32 m (p + 4) + load32 m b + 16 + 24 + word_of_nat (\<Sum>x\<leftarrow>fs. ?w x) = word_of_nat tot" by (simp add: tot_def algebra_simps)
  have pl: "vload32 p s = Some (load32 m p)" using holds_load32 [OF h struct_field(2) [OF ps holds_bounds [OF h], of 0]] W(1) by simp
  have "set (b # fs) = fst ` set bs \<longleftrightarrow> fst ` set bs \<subseteq> set (b # fs)" using bfs(1) by blast
  also have "\<dots> \<longleftrightarrow> (\<forall>(c, l) \<in> set bs. c \<in> set fs \<or> c = b)" by auto
  finally show ?thesis
    using s t eq S(2) struct_words(5-7) [OF h B(1)] page_fields [OF h ps] W pl F [OF b(1)] B(7)
    by (simp add: is_page_free_def malloc_consts)
qed

section \<open>free\<close>

lemma last_block_path:
  assumes "holds s0 pa lo hi m s" and "path (links m) f fs NULL" and "fs \<noteq> []" and "NULL \<notin> set fs" and "\<And>x. x \<in> set fs \<Longrightarrow> struct_in lo hi x 16"
  shows "last_block f s = Some (last fs)"
  using assms(2-5)
proof (induction fs arbitrary: f)
  case (Cons x fs)
  then have x: "f = x" "path (links m) (load32 m (x + 8)) fs NULL" "struct_in lo hi x 16" by (auto simp: links_def [of m x])
  note L = struct_words(7) [OF assms(1) x(3)]
  show ?case
  proof (cases fs)
    case Nil
    then show ?thesis using x L by (simp add: last_block.simps [of x] malloc_consts)
  next
    case (Cons y ys)
    then have "load32 m (x + 8) \<noteq> NULL" using x(2) Cons.prems(3) by auto
    then show ?thesis using Cons.IH [OF x(2)] Cons.prems(3,4) Cons x(1) L by (simp add: last_block.simps [of x] malloc_consts)
  qed
qed simp

text \<open>The block \<open>b\<close> has been given back: every other block in use is as before.\<close>

definition takes_back :: "addr \<Rightarrow> memory \<Rightarrow> (addr \<times> u32) list \<Rightarrow> addr list \<Rightarrow> memory \<Rightarrow> (addr \<times> u32) list \<Rightarrow> addr list \<Rightarrow> bool" where
  "takes_back b m bs fs m' bs' fs' \<longleftrightarrow> b \<notin> fst ` set bs' - set fs' \<and>
     (\<forall>(c, k) \<in> set bs. c \<notin> set fs \<and> c \<noteq> b \<longrightarrow> (c, k) \<in> set bs' \<and> c \<notin> set fs' \<and> keeps_data m m' (c, k))"

text \<open>Which of its stores \<open>free\<close> performs, after it has cleared the flag of the block.\<close>

lemma free_runs:
  assumes h: "holds s0 pa lo hi m s" and a: "arena lo hi m p bs fs" and b: "(b, k) \<in> set bs" "b \<notin> set fs"
    and live: "\<exists>(c, l) \<in> set bs. c \<notin> set fs \<and> c \<noteq> b"
  obtains s1 where "holds s0 pa lo hi (m(b + 12 := 0)) s1"
    "free frame regs (b + 16) s = (if fs = [] then vstore32 (p + 12) b s1
       else if last fs + load32 m (last fs) + 16 = b then vstore32 (last fs) (load32 m (last fs) + (k + 16)) s1
       else vstore32 (last fs + 8) b s1)"
proof -
  note D = arenaD [OF a] and B = arena_block [OF a b(1)] and ps = arena_page [OF a] and H = arena_hdrs [OF a] and P = arena_last [OF a refl]
  let ?m = "m(b + 12 := 0)"
  obtain s1 where s1: "vstore8 (b + 12) 0 s = Some s1" "holds s0 pa lo hi ?m s1" using holds_store8 [OF h struct_words(4) [OF h B(1)]] by blast
  have F: "load32 ?m x = load32 m x" "load32 ?m (x + 4) = load32 m (x + 4)" "load32 ?m (x + 8) = load32 m (x + 8)" "?m (x + 12) = (if x = b then 0 else m (x + 12))"
    if "(x, j) \<in> set bs" for x j using hdr_words [OF H(1) [OF b(1) that], of m] by auto
  have nx: "load32 ?m (x + 8) = load32 m (x + 8)" if "x \<in> set fs" for x using arena_free_block [OF a that] F(3) by blast
  have f: "vload32 (p + 12) s1 = Some (load32 m (p + 12))" using page_fields(3) [OF s1(2) ps] page_words(16) [OF H(2) [OF b(1) b(1)], of m] by simp
  have "is_page_free b s1 = Some False" using is_page_free_iff [OF s1(2) a b] live by auto
  then have run: "free frame regs (b + 16) s = (if load32 m (p + 12) = NULL then vstore32 (p + 12) b s1 else do {
         l \<leftarrow> last_block (load32 m (p + 12)) s1;
         al \<leftarrow> vload8 (l + 12) s1;
         n \<leftarrow> vload32 l s1;
         if al = 0 \<and> l + n + 16 = b then vstore32 l (n + (k + 16)) s1 else vstore32 (l + 8) b s1 })"
    using s1(1) f struct_words(5,6) [OF s1(2) B(1)] F(1,2) [OF b(1)] B(6,7) by (simp add: free_def malloc_consts cong: if_cong)
  have "free frame regs (b + 16) s = (if fs = [] then vstore32 (p + 12) b s1
       else if last fs + load32 m (last fs) + 16 = b then vstore32 (last fs) (load32 m (last fs) + (k + 16)) s1
       else vstore32 (last fs + 8) b s1)"
  proof (cases "fs = []")
    case True
    then show ?thesis using run D(8) by simp
  next
    case False
    then have l: "last fs \<in> set fs" by simp
    obtain n where n: "(last fs, n) \<in> set bs" using arena_free_block [OF a l] by auto
    have path: "path (links ?m) (load32 m (p + 12)) fs NULL" using D(8) path_links_cong [OF nx, of fs] by simp
    have "load32 m (p + 12) \<noteq> NULL" using D(8) False P(3) by (cases fs) auto
    moreover have "last_block (load32 m (p + 12)) s1 = Some (last fs)" by (rule last_block_path [OF s1(2) path False arena_free_headers [OF a]])
    moreover have "vload8 (last fs + 12) s1 = Some 0" "vload32 (last fs) s1 = Some (load32 m (last fs))"
      using struct_words(5,8) [OF s1(2) arena_block(1) [OF a n]] F(1,4) [OF n] D(11) [OF n] l by auto
    ultimately show ?thesis using run False by simp
  qed
  then show thesis using that s1(2) by blast
qed

lemma attach_takes_back:
  assumes "arena lo hi m p bs fs" and "(b, k) \<in> set bs" and "b \<notin> set fs" and "load32 m (b + 8) = NULL"
  shows "takes_back b m bs fs (attach p (last (NULL # fs)) b m) bs (fs @ [b])"
  using arena_attach(2) [OF assms(1) refl assms(2-4)] by (auto simp: takes_back_def)

lemma absorb_takes_back:
  assumes "arena lo hi m p (as @ (l, n) # (b, k) # cs) fs" and "l \<in> set fs" and "b \<notin> set fs"
  shows "takes_back b m (as @ (l, n) # (b, k) # cs) fs (absorb l b m) (as @ (l, n + (k + 16)) # cs) fs"
proof -
  have "b \<notin> fst ` set (as @ (l, n + (k + 16)) # cs)" using tiled_distinct [OF arenaD(6) [OF assms(1)]] by auto
  moreover have "(c, j) \<in> set (as @ cs)" if "(c, j) \<in> set (as @ (l, n) # (b, k) # cs)" "c \<notin> set fs" "c \<noteq> b" for c j
    using that assms(2) by auto
  ultimately show ?thesis using arena_absorb(2) [OF assms] by (fastforce simp: takes_back_def)
qed

text \<open>
  C34: \<open>free\<close> of a block in use, in a page block that is in order and has another block in use, returns and leaves the
  page block in order. The block is in use no more: it has joined the free list, or the last block of that list when
  it lies right behind it. Every other block in use still is one and holds the same data. The link of the block must be
  null, which \<open>malloc\<close> does not ensure when it reuses a block as it is.
\<close>

theorem free_keeps_arena:
  assumes "holds s pa lo hi m s" and "arena lo hi m p bs fs" and "(b, k) \<in> set bs" and "b \<notin> set fs" and "load32 m (b + 8) = NULL"
    and "\<exists>(c, l) \<in> set bs. c \<notin> set fs \<and> c \<noteq> b"
  shows "\<exists>s' m' bs' fs'. free frame regs (b + 16) s = Some s' \<and> holds s pa lo hi m' s' \<and> arena lo hi m' p bs' fs' \<and> takes_back b m bs fs m' bs' fs'"
proof -
  note D = arenaD [OF assms(2)] and ps = arena_page [OF assms(2)] and B = arena_block [OF assms(2,3)] and P = arena_last [OF assms(2) refl]
  obtain s1 where h: "holds s pa lo hi (m(b + 12 := 0)) s1" and run: "free frame regs (b + 16) s = (if fs = [] then vstore32 (p + 12) b s1
       else if last fs + load32 m (last fs) + 16 = b then vstore32 (last fs) (load32 m (last fs) + (k + 16)) s1
       else vstore32 (last fs + 8) b s1)"
    by (rule free_runs [OF assms(1-4,6), of frame regs])
  consider "fs = []" | "fs \<noteq> []" "last fs + load32 m (last fs) + 16 = b" | "fs \<noteq> []" "last fs + load32 m (last fs) + 16 \<noteq> b" by blast
  then show ?thesis
  proof cases
    case 2
    then have l: "last fs \<in> set fs" by simp
    obtain n where n: "(last fs, n) \<in> set bs" using arena_free_block [OF assms(2) l] by auto
    note L = arena_block [OF assms(2) n]
    have "unat (last fs + n + 16) = unat (last fs) + 16 + unat n"
      using L(3,9) D(5) unat_add_u32 [of "last fs" n] unat_add_u32 [of "last fs + n" 16] by simp
    then have "unat b = unat (last fs) + 16 + unat n" using 2(2) L(6) by simp
    then obtain as cs where bs: "bs = as @ (last fs, n) # (b, k) # cs" using tiled_next [OF D(6) n assms(3)] by blast
    note a = assms(2) [unfolded bs]
    obtain s' where "vstore32 (last fs) (n + (k + 16)) s1 = Some s'" "holds s pa lo hi (absorb (last fs) b m) s'"
      using holds_store32 [OF h struct_words(1) [OF h L(1)], of "n + (k + 16)"] L(6) B(6) unfolding absorb_def by auto
    then show ?thesis using run 2 L(6) arena_absorb(1) [OF a l assms(4)] absorb_takes_back [OF a l assms(4)] unfolding bs by auto
  next
    case 1
    obtain s' where "vstore32 (p + 12) b s1 = Some s'" "holds s pa lo hi (attach p (last (NULL # fs)) b m) s'"
      using holds_store32 [OF h struct_field(2) [OF ps holds_bounds [OF h], of 12], of b] 1 by (auto simp: attach_def relink_def)
    then show ?thesis using run 1 arena_attach(1) [OF assms(2) refl assms(3-5)] attach_takes_back [OF assms(2-5)] by auto
  next
    case 3
    then have l: "last fs \<in> set fs" "last fs \<noteq> NULL" using P(1) by simp_all
    obtain s' where "vstore32 (last fs + 8) b s1 = Some s'" "holds s pa lo hi (attach p (last (NULL # fs)) b m) s'"
      using holds_store32 [OF h struct_words(3) [OF h arena_free_headers(2) [OF assms(2) l(1)]], of b] 3 l by (auto simp: attach_def relink_def)
    then show ?thesis using run 3 arena_attach(1) [OF assms(2) refl assms(3-5)] attach_takes_back [OF assms(2-5)] by auto
  qed
qed

text \<open>Two blocks in use and a free one behind them.\<close>

definition three_blocks :: memory where
  "three_blocks = words_at [(0x1000, 0x1000), (0x1004, 0xF48), (0x1008, 0x10B8), (0x100C, 0x1098),
     (0x1018, 32), (0x101C, 0x1000), (0x1024, 1), (0x1048, 64), (0x104C, 0x1000), (0x1054, 1), (0x1098, 16), (0x109C, 0x1000)]"

lemma three_blocks_arena: "arena 0x1000 0x2000 three_blocks 0x1000 [(0x1018, 32), (0x1048, 64), (0x1098, 16)] [0x1098]"
  by (rule arenaI) (auto simp: three_blocks_def words_at_def load32_def store32_def links_def)

theorem free_keeps_arena_witness:
  "\<exists>s' m' bs' fs'. free 0 plain_ctx 0x1058 (program three_blocks) = Some s' \<and> holds (program three_blocks) (\<lambda>a. a + 0x4000) 0x1000 0x2000 m' s' \<and>
    arena 0x1000 0x2000 m' 0x1000 bs' fs' \<and> takes_back 0x1048 three_blocks [(0x1018, 32), (0x1048, 64), (0x1098, 16)] [0x1098] m' bs' fs'"
proof -
  have "load32 three_blocks (0x1048 + 8) = NULL" by (simp add: three_blocks_def words_at_def load32_def store32_def)
  then show ?thesis using free_keeps_arena [OF program_holds three_blocks_arena, of "0x1048" 64 0 plain_ctx] by simp
qed

end
