(* ===== verification/Malloc_Limits.thy ===== *)
theory Malloc_Limits
  imports Free_Run
begin

text \<open>
  Where the allocator of user programs leaves its contract: a block that is reused as it is and given back closes the
  free list into a ring, and a free block eight bytes larger than the request is split into a header that does not fit.
\<close>

section \<open>A free list that is a ring\<close>

lemma ring_search:
  fixes s :: "'a user_state_scheme"
  assumes h: "holds s0 pa lo hi m s" and ring: "\<And>x. x \<in> R \<Longrightarrow> x \<noteq> NULL \<and> struct_in lo hi x 16 \<and> load32 m x < n \<and> load32 m (x + 8) \<in> R" and "f \<in> R"
  shows "search_blocks n t prev f s = None"
proof -
  have "n' = n \<longrightarrow> s' = s \<longrightarrow> f \<notin> R" if "search_blocks n' t prev f s' = Some r" for n' t prev f r and s' :: "'a user_state_scheme"
    using that
  proof (rule search_blocks.raw_induct [where P = "\<lambda>n' t prev f s' r. n' = n \<longrightarrow> s' = s \<longrightarrow> f \<notin> R", rotated])
    fix g n' t prev f and s' :: "'a user_state_scheme" and r
    assume IH: "\<And>n' t prev f s' r. g n' t prev f s' = Some r \<Longrightarrow> n' = n \<longrightarrow> s' = s \<longrightarrow> f \<notin> R"
      and step: "(if f = NULL then Some (None, s') else do {
          k \<leftarrow> vload32 (f + MB_SIZE) s';
          if k > n' then do { s \<leftarrow> split_block n' t prev f s'; Some (Some (f + sizeof_mem_block), s) }
          else if k = n' then do {
            s \<leftarrow> vstore8 (f + MB_ALLOCATED) 1 s';
            nx \<leftarrow> vload32 (f + MB_NEXT) s;
            s \<leftarrow> link_block prev f nx s;
            Some (Some (f + sizeof_mem_block), s) }
          else do { nx \<leftarrow> vload32 (f + MB_NEXT) s'; g n' t f nx s' } }) = Some r"
    show "n' = n \<longrightarrow> s' = s \<longrightarrow> f \<notin> R"
    proof (intro impI notI)
      assume "n' = n" "s' = s" and f: "f \<in> R"
      note R = ring [OF f]
      then have "vload32 f s = Some (load32 m f)" "vload32 (f + 8) s = Some (load32 m (f + 8))" "\<not> n < load32 m f" "load32 m f \<noteq> n" "f \<noteq> NULL"
        using struct_words(5,7) [OF h] by auto
      then have "g n t f (load32 m (f + 8)) s = Some r" using step \<open>n' = n\<close> \<open>s' = s\<close> by (simp add: malloc_consts)
      then show False using IH R by blast
    qed
  qed
  then show ?thesis using assms(3) by (cases "search_blocks n t prev f s") auto
qed

lemma ring_link:
  assumes "path nx f xs f" and "x \<in> set xs"
  shows "\<exists>y \<in> set xs. nx x = Some y"
proof -
  obtain as bs where xs: "xs = as @ x # bs" using assms(2) by (metis split_list)
  then obtain c where c: "nx x = Some c" "path nx c bs f" using assms(1) by auto
  show ?thesis
  proof (cases bs)
    case Nil
    moreover have "f \<in> set xs" using assms by (cases xs) auto
    ultimately show ?thesis using c by auto
  qed (use c xs in auto)
qed

lemma malloc_finds:
  fixes s :: "'a user_state_scheme"
  assumes "holds s0 pa lo hi m s" and "mem_pool s = p" and "arena lo hi m p bs (b # ys)"
    and "search_blocks (align_up n) (align_up n + 16) NULL b s = Some (Some r, s')"
  shows "malloc frame regs n s = Some (r, s')"
proof -
  have "load32 m (p + 12) = b" "b \<noteq> NULL" using arenaD(8) [OF assms(3)] arena_free_headers(1) [OF assms(3)] by auto
  then have "search_pages (align_up n) (align_up n + 16) NULL p s = Some (Inl r, s')"
    using assms(4) arenaD(2) [OF assms(3)] page_fields(3) [OF assms(1) arena_page [OF assms(3)]]
    by (simp add: search_pages.simps [of _ _ _ p] malloc_consts)
  then show ?thesis using assms(2) arenaD(2) [OF assms(3)] by (simp add: malloc_def malloc_consts)
qed

text \<open>
  C35: When \<open>malloc\<close> hands out the first block of the free list as it is, the block keeps its link to the next one.
  Given back while another block is free and another in use, it is appended to a list that it still points into: the
  free list is then a ring, and the next \<open>malloc\<close> of a size above that of every free block does not return.
\<close>

theorem malloc_free_ring:
  fixes s :: "'a user_state_scheme"
  assumes "holds s pa lo hi m s" and "mem_pool s = p" and "arena lo hi m p bs (b # y # ys)" and "(b, align_up n) \<in> set bs"
    and "\<exists>(c, l) \<in> set bs. c \<notin> set (b # y # ys)" and "last (y # ys) + load32 m (last (y # ys)) + 16 \<noteq> b"
    and "\<forall>x \<in> set (b # y # ys). load32 m x < align_up n'"
  shows "\<exists>s1 s2 m2. malloc frame regs n s = Some (b + 16, s1) \<and> free frame regs (b + 16) s1 = Some s2 \<and>
    holds s pa lo hi m2 s2 \<and> path (links m2) (load32 m2 (p + 12)) (y # ys @ [b]) (load32 m2 (p + 12)) \<and> malloc frame regs n' s2 = None"
proof -
  let ?m1 = "detach p NULL b m" and ?fs = "y # ys"
  let ?m2 = "attach p (last (NULL # ?fs)) b ?m1"
  obtain s1 where s1: "malloc frame regs n s = Some (b + 16, s1)" "holds s pa lo hi ?m1 s1" 
    using exact_fit_detaches [OF assms(1), of p bs "[]" b ?fs NULL "align_up n" "align_up n + 16"] assms(3,4) malloc_finds [OF assms(1-3)] by auto
  have a1: "arena lo hi ?m1 p bs ?fs" using arena_detach(1) [of lo hi m p bs "[]" b ?fs] assms(3) by simp
  have b: "b \<notin> set ?fs" using arenaD(9) [OF assms(3)] by simp
  note D1 = arenaD [OF a1] and P1 = arena_last [OF a1 refl] and F = attach_fields [OF a1 refl assms(4)] and B1 = arena_block [OF a1]
  have sz1: "load32 ?m1 x = load32 m x" if "(x, k) \<in> set bs" for x k using arena_block(6) [OF a1 that] arena_block(6) [OF assms(3) that] by simp
  have lb: "\<exists>k. (last ?fs, k) \<in> set bs" using arena_free_block [OF a1, of "last ?fs"] by simp
  have live: "\<exists>(c, l) \<in> set bs. c \<notin> set ?fs \<and> c \<noteq> b" using assms(5) by auto
  obtain s1' where h1: "holds s pa lo hi (?m1(b + 12 := 0)) s1'" and run: "free frame regs (b + 16) s1 = (if ?fs = [] then vstore32 (p + 12) b s1'
       else if last ?fs + load32 ?m1 (last ?fs) + 16 = b then vstore32 (last ?fs) (load32 ?m1 (last ?fs) + (align_up n + 16)) s1'
       else vstore32 (last ?fs + 8) b s1')"
    by (rule free_runs [OF s1(2) a1 assms(4) b live, of frame regs])
  have l: "struct_in lo hi (last ?fs) 16" "last ?fs \<noteq> NULL" using arena_free_headers [OF a1] last_in_set [of ?fs] by force+
  obtain s2 where v: "vstore32 (last ?fs + 8) b s1' = Some s2" "holds s pa lo hi (store32 (?m1(b + 12 := 0)) (last ?fs + 8) b) s2"
    by (rule holds_store32 [OF h1 struct_words(3) [OF h1 l(1)], of b])
  have "store32 (?m1(b + 12 := 0)) (last ?fs + 8) b = ?m2" using l(2) by (simp add: attach_def relink_def)
  then have s2: "free frame regs (b + 16) s1 = Some s2" "holds s pa lo hi ?m2 s2" using run v assms(6) sz1 lb by auto
  have "load32 ?m1 (b + 8) = y"
    using arenaD(8) [OF assms(3)] hdr_words [OF arena_hdrs(1) [OF assms(3,4,4)], of m] page_words [OF arena_hdrs(2) [OF assms(3,4,4)], of "m(b + 12 := 1)"]
    by (simp add: detach_def relink_def links_def)
  moreover have "load32 ?m2 (p + 12) = y" using F(8) D1(8) l(2) by simp
  ultimately have ring: "path (links ?m2) y (y # ys @ [b]) y" using attach_path [OF a1 refl assms(4) b] by simp
  have "search_blocks (align_up n') t NULL y s2 = None" for t
  proof (rule ring_search [OF s2(2)])
    show "y \<in> set (y # ys @ [b])" by simp
    fix x assume x: "x \<in> set (y # ys @ [b])"
    then obtain k where k: "(x, k) \<in> set bs" using arena_free_block [OF assms(3), of x] by auto
    show "x \<noteq> NULL \<and> struct_in lo hi x 16 \<and> load32 ?m2 x < align_up n' \<and> load32 ?m2 (x + 8) \<in> set (y # ys @ [b])"
      using ring_link [OF ring x] B1(1,8) [OF k] F(1) [OF k] sz1 [OF k] assms(7) x by (auto simp: links_def)
  qed
  moreover have "y \<noteq> NULL" using P1(3) by auto
  ultimately have "search_pages (align_up n') t NULL p s2 = None" for t
    using D1(2) page_fields(3) [OF s2(2) arena_page [OF a1]] \<open>load32 ?m2 (p + 12) = y\<close> by (simp add: search_pages.simps [of _ _ _ p] malloc_consts)
  moreover have "mem_pool s2 = p" using s2(2) assms(2) by (auto simp: holds_def)
  ultimately have "malloc frame regs n' s2 = None" using D1(2) by (simp add: malloc_def)
  moreover have "path (links ?m2) (load32 ?m2 (p + 12)) (y # ys @ [b]) (load32 ?m2 (p + 12))" unfolding \<open>load32 ?m2 (p + 12) = y\<close> by (rule ring)
  ultimately show ?thesis using s1(1) s2 by blast
qed

section \<open>A free block eight bytes too large\<close>

text \<open>
  C36: When the first free block is eight bytes larger than the aligned size and a block in use lies behind it,
  \<open>malloc\<close> splits it all the same. The header of the rest does not fit into those eight bytes: the free list now
  begins with a block whose size field holds 0xFFFFFFF8, and the size field of the block in use has been overwritten
  with the link of the block that was split.
\<close>

theorem malloc_split_overlaps:
  fixes s :: "'a user_state_scheme"
  assumes "holds s pa lo hi m s" and "mem_pool s = p" and "arena lo hi m p (as @ (b, align_up n + 8) # (c, l) # cs) (b # ys)"
    and "c \<notin> set ys" and "unat n \<le> 4294967280"
  shows "\<exists>w s' m'. malloc frame regs n s = Some (b + 16, s') \<and> holds (s\<lparr>written := w\<rparr>) pa lo hi m' s' \<and>
    load32 m' (p + 12) = b + 16 + align_up n \<and> load32 m' (b + 16 + align_up n) = 0xFFFFFFF8 \<and> load32 m' c = load32 m (b + 8)"
proof -
  let ?N = "align_up n" and ?bs = "as @ (b, align_up n + 8) # (c, l) # cs"
  define q where q: "q = b + (?N + 16)"
  let ?m = "cut_block p NULL b ?N m"
  note a = assms(3) and D = arenaD [OF assms(3)] and H = arena_hdrs [OF assms(3)]
  have ins: "(b, ?N + 8) \<in> set ?bs" "(c, l) \<in> set ?bs" by auto
  note B = arena_block [OF a ins(1)] and C = arena_block [OF a ins(2)]
  have N: "unat (?N + 8) = unat ?N + 8" using align_up_fits [of n] assms(5) unat_align_up [of n] unat_add_u32 [of ?N 8] by simp
  have uc: "unat c = unat b + 16 + unat (?N + 8)" using D(6) by (auto simp: tiled_append)
  have lim: "unat c + 16 < 4294967296" using C(3,9) D(5) by simp
  have uq: "unat q = unat b + 16 + unat ?N" using q uc N lim unat_add_u32 [of ?N 16] unat_add_u32 [of b "?N + 16"] by simp
  then have c: "c = q + 8" using uc N lim unat_add_u32 [of q 8] by (simp add: word_eq_iff_unat_u32)
  have sq: "struct_in lo hi q 16" using uq uc N C(1,3,9) B(1,5) align_up_fits(1) [of n] assms(5) by (auto simp: struct_in_def elim: dvd_trans [rotated])
  have bq: "hdrs b q" "hdrs q b" "page_hdr p q" "b \<noteq> q" "q \<noteq> NULL" using uq uc N lim B(2) by (auto simp: hdrs_def page_hdr_def)
  note F = cut_fields [OF H(2) [OF ins(1,1)] bq(3,1,4) _ _ _ q, of NULL m]
  have fld: "load32 ?m (b + 4) = p" "load32 ?m q = 0xFFFFFFF8" "load32 ?m (q + 8) = load32 m (b + 8)" "load32 ?m (p + 12) = q"
    using F B(6,7,8) bq(5) by simp_all
  have "load32 ?m (x + 8) = load32 m (x + 8)" if x: "x \<in> set ys" for x
  proof -
    obtain k where k: "(x, k) \<in> set ?bs" using arena_free_block [OF a, of x] x by auto
    have ne: "x \<noteq> b" "x \<noteq> c" using D(9) assms(4) x by auto
    have "hdrs q x \<and> x \<noteq> q" using tiled_apart [OF D(6) ins(1) k] tiled_apart [OF D(6) ins(2) k] ne arena_block(3,9) [OF a k] D(5) uq uc N lim
      by (auto simp: hdrs_def)
    then show ?thesis using cut_others(3) [OF H(2) [OF k k] H(1) [OF ins(1) k] _ ne(1) _ _ q, of NULL m] by simp
  qed
  then have "path (links ?m) (load32 m (b + 8)) ys NULL" using D(8) path_links_cong [of ys ?m m] by (auto simp: links_def [of m b])
  then have list: "path (links ?m) (load32 ?m (p + 12)) (q # ys) NULL" using fld(3,4) by (simp add: links_def [of ?m q])
  have fs: "NULL \<notin> set (q # ys)" "x \<in> set (q # ys) \<Longrightarrow> struct_in lo hi x 16" for x using arena_free_headers [OF a] bq(5) sq by auto
  obtain w s' where s': "split_block ?N (?N + 16) NULL b s = Some s'" "holds (s\<lparr>written := w\<rparr>) pa lo hi ?m s'"
    using split_block_runs [OF assms(1) B(1) sq B(7) arena_page [OF a] _ bq(2,4) q refl fld(1) list fs] by blast
  have "?N < load32 m b" using B(6) N by (simp add: word_less_nat_alt)
  then have "search_blocks ?N (?N + 16) NULL b s = Some (Some (b + 16), s')"
    using s'(1) B(8) struct_words(5) [OF assms(1) B(1)] by (simp add: search_blocks.simps [of _ _ _ b] malloc_consts)
  then have "malloc frame regs n s = Some (b + 16, s')" by (rule malloc_finds [OF assms(1-3)])
  moreover have "b + 16 + ?N = q" by (simp add: q)
  ultimately show ?thesis using s'(2) fld(2-4) c by auto
qed

section \<open>Programs that meet these limits\<close>

text \<open>Two free blocks and one in use behind them; one free block and one in use.\<close>

definition ring_blocks :: memory where
  "ring_blocks = words_at [(0x1000, 0x1000), (0x1004, 0xF48), (0x1008, 0x10B8), (0x100C, 0x1018),
     (0x1018, 32), (0x101C, 0x1000), (0x1020, 0x1048), (0x1048, 64), (0x104C, 0x1000), (0x1098, 16), (0x109C, 0x1000), (0x10A4, 1)]"

definition tight_blocks :: memory where
  "tight_blocks = words_at [(0x1000, 0x1000), (0x1004, 0xF68), (0x1008, 0x1098), (0x100C, 0x1018),
     (0x1018, 32), (0x101C, 0x1000), (0x1048, 64), (0x104C, 0x1000), (0x1054, 1)]"

lemma ring_blocks_arena: "arena 0x1000 0x2000 ring_blocks 0x1000 [(0x1018, 32), (0x1048, 64), (0x1098, 16)] [0x1018, 0x1048]"
  by (rule arenaI) (auto simp: ring_blocks_def words_at_def load32_def store32_def links_def)

lemma tight_blocks_arena: "arena 0x1000 0x2000 tight_blocks 0x1000 [(0x1018, 32), (0x1048, 64)] [0x1018]"
  by (rule arenaI) (auto simp: tight_blocks_def words_at_def load32_def store32_def links_def)

theorem malloc_free_ring_witness:
  "\<exists>s1 s2 m2. malloc 0 plain_ctx 32 (program ring_blocks) = Some (0x1028, s1) \<and> free 0 plain_ctx 0x1028 s1 = Some s2 \<and>
    holds (program ring_blocks) (\<lambda>a. a + 0x4000) 0x1000 0x2000 m2 s2 \<and>
    path (links m2) (load32 m2 0x100C) [0x1048, 0x1018] (load32 m2 0x100C) \<and> malloc 0 plain_ctx 100 s2 = None"
proof -
  have "align_up 32 = 32" "align_up 100 = 104" by (simp_all add: align_up_def)
  moreover have "load32 ring_blocks 0x1018 = 32" "load32 ring_blocks 0x1048 = 64"
    by (simp_all add: ring_blocks_def words_at_def load32_def store32_def)
  ultimately show ?thesis
    using malloc_free_ring [OF program_holds program_fields(3) ring_blocks_arena, of 32 100 0 plain_ctx] by simp
qed

theorem malloc_split_overlaps_witness:
  "\<exists>w s' m'. malloc 0 plain_ctx 24 (program tight_blocks) = Some (0x1028, s') \<and>
    holds (program tight_blocks\<lparr>written := w\<rparr>) (\<lambda>a. a + 0x4000) 0x1000 0x2000 m' s' \<and>
    load32 m' 0x100C = 0x1040 \<and> load32 m' 0x1040 = 0xFFFFFFF8 \<and> load32 m' 0x1048 = 0"
proof -
  have n: "align_up 24 = 24" by (simp add: align_up_def)
  have "load32 tight_blocks 0x1020 = 0" by (simp add: tight_blocks_def words_at_def load32_def store32_def)
  moreover have "arena 0x1000 0x2000 tight_blocks 0x1000 ([] @ (0x1018, align_up 24 + 8) # (0x1048, 64) # []) (0x1018 # [])"
    using tight_blocks_arena by (simp add: n)
  ultimately show ?thesis using malloc_split_overlaps [OF program_holds program_fields(3), of tight_blocks "[]" "0x1018" 24 "0x1048" 64 "[]" "[]" 0 plain_ctx] by (simp add: n)
qed

end
