(* ===== verification/User_Space.thy ===== *)
theory User_Space
  imports Address_Space
begin

text \<open>
  The address space of a user program as the kernel's system calls change it: its page directory \<open>pd\<close>, the page tables
  behind its first 768 entries and the pages they map. \<open>uspace\<close> says that it is in order, \<open>uview\<close> what a program finds
  in its pages; the theorems say what \<open>mmap\<close> does to them.
\<close>

section \<open>Fresh frames and entries\<close>

text \<open>The kernel can use its window, and no frame it needs for that is free.\<close>

definition kbase :: "'a mem_state_scheme \<Rightarrow> bool" where
  "kbase s \<longleftrightarrow> win_wf s \<and> closed s \<and> pmm_inv s \<and> (\<forall>f \<in> win_frames s. frame_used s f)"

lemma kbase_log [simp]: "kbase (s\<lparr>invlpg_log := l\<rparr>) = kbase s"
proof -
  have "pmm_inv (s\<lparr>invlpg_log := l\<rparr>) = pmm_inv s" "used_pages (s\<lparr>invlpg_log := l\<rparr>) = used_pages s"
    by (rule pmm_cong; simp)+
  then show ?thesis by (simp add: kbase_def frame_used_def win_frames_def)
qed

definition same_kernel :: "'a mem_state_scheme \<Rightarrow> 'a mem_state_scheme \<Rightarrow> bool" where
  "same_kernel s s' \<longleftrightarrow> cr3 s' = cr3 s \<and> kpd_phys s' = kpd_phys s \<and> boot_pt s' = boot_pt s"

lemma same_kernel_frames: "same_kernel s s' \<Longrightarrow> win_frames s' = win_frames s"
  by (simp add: same_kernel_def win_frames_def)

lemma same_kernel_trans: "same_kernel s s' \<Longrightarrow> same_kernel s' s'' \<Longrightarrow> same_kernel s s''"
  by (simp add: same_kernel_def)

lemma fresh_zeroed:
  assumes "kbase s" and "free_pages s \<noteq> {}"
  obtains x s0 s1 where "pmm_alloc 1 s = Some (page_addr x, s0)" "zero_page (page_addr x) s0 = Some s1" "page_aligned (page_addr x)" "\<not> frame_used s (page_addr x)"
    "x \<in> free_pages s" "kbase s1" "same_kernel s s1" "phys s1 = zero_frame (phys s) (page_addr x)"
    "free_pages s1 = free_pages s - {x}" "used_pages s1 = insert x (used_pages s)" "frame_used s1 (page_addr x)"
proof -
  have wf: "win_wf s" "closed s" "pmm_inv s" "\<And>f. f \<in> win_frames s \<Longrightarrow> frame_used s f" using assms(1) by (auto simp: kbase_def)
  obtain x arr where a: "pmm_alloc 1 s = Some (page_addr x, s\<lparr>bitmap := arr\<rparr>)" "x \<in> free_pages s"
    "pmm_inv (s\<lparr>bitmap := arr\<rparr>)" "free_pages (s\<lparr>bitmap := arr\<rparr>) = free_pages s - {x}" "used_pages (s\<lparr>bitmap := arr\<rparr>) = insert x (used_pages s)"
    using pmm_alloc_one [OF wf(3) assms(2)] by metis
  let ?f = "page_addr x" and ?l = "invlpg_log s @ [tmp_map_addr s, tmp_map_addr s]"
  let ?s = "s\<lparr>bitmap := arr, phys := zero_frame (phys s) ?f, invlpg_log := ?l\<rparr>"
  have f: "page_aligned ?f" "?f \<notin> win_frames s" "\<not> frame_used s ?f" "unat ?f div 4096 = x" using fresh_frame [OF wf(3) a(2)] wf(4) by blast+
  have m: "?f AND PAGE_MASK = ?f" by (rule mask_page_aligned [OF f(1)])
  have z: "zero_page ?f (s\<lparr>bitmap := arr\<rparr>) = Some ?s" using zero_page_eq [of "s\<lparr>bitmap := arr\<rparr>" ?f] wf(1,2) f m by simp
  have w: "win_wf ?s" "closed ?s" "win_frames ?s = win_frames s" using zero_keeps [of "s\<lparr>bitmap := arr\<rparr>" ?f ?l] wf(1,2) f by simp_all
  have p: "pmm_inv ?s" "free_pages ?s = free_pages s - {x}" "used_pages ?s = insert x (used_pages s)" using a(3-5) pmm_cong [of ?s "s\<lparr>bitmap := arr\<rparr>"] by simp_all
  have "kbase ?s" using w p wf(4) by (auto simp: kbase_def frame_used_def)
  moreover have "same_kernel s ?s" using win_wf_zero_frame(2) [of "s\<lparr>bitmap := arr\<rparr>" ?f] wf(1) f by (simp add: same_kernel_def kpd_phys_def)
  moreover have "frame_used ?s ?f" using p(3) f(1,4) by (simp add: frame_used_def)
  ultimately show thesis using that [OF a(1) z f(1,3) a(2)] p(2,3) by simp
qed

lemma write_kept:
  assumes "kbase s" and "may_write s (pa AND PAGE_MASK) i"
  obtains s' where "write_entry pa i v s = Some s'" "kbase s'" "same_kernel s s'" "phys s' = store32 (phys s) (entry (pa AND PAGE_MASK) i) v"
    "free_pages s' = free_pages s" "used_pages s' = used_pages s"
proof -
  have wf: "win_wf s" "closed s" "pmm_inv s" "\<And>f. f \<in> win_frames s \<Longrightarrow> frame_used s f" using assms(1) by (auto simp: kbase_def)
  let ?l = "invlpg_log s @ [tmp_map_addr s, tmp_map_addr s]"
  let ?s = "s\<lparr>phys := store32 (phys s) (entry (pa AND PAGE_MASK) i) v, invlpg_log := ?l\<rparr>"
  note w = write_keeps [OF wf(1,2) assms(2), where v = v and l = ?l]
  have p: "pmm_inv ?s = pmm_inv s" "free_pages ?s = free_pages s" "used_pages ?s = used_pages s" by (rule pmm_cong; simp)+
  have "kbase ?s" using w p wf(3,4) by (auto simp: kbase_def frame_used_def)
  moreover have "same_kernel s ?s" using store_keeps_win(2) [OF wf(1) assms(2), of v] by (simp add: same_kernel_def)
  ultimately show thesis using that [OF write_entry_eq [OF wf(1,2) assms(2)]] p(2,3) by simp
qed

section \<open>An address space in order\<close>

definition upde :: "'a mem_state_scheme \<Rightarrow> addr \<Rightarrow> u32 \<Rightarrow> u32" where
  "upde s pd d = load32 (phys s) (entry pd d)"

definition utable :: "'a mem_state_scheme \<Rightarrow> addr \<Rightarrow> u32 \<Rightarrow> addr" where
  "utable s pd d = upde s pd d AND PAGE_MASK"

definition dir_of :: "nat \<Rightarrow> u32" where "dir_of n = of_nat (n div 1024)"
definition idx_of :: "nat \<Rightarrow> u32" where "idx_of n = of_nat (n mod 1024)"

text \<open>The table entry of page \<open>n\<close>, or zero when there is no table; the frame it names.\<close>

definition upte :: "'a mem_state_scheme \<Rightarrow> addr \<Rightarrow> nat \<Rightarrow> u32" where
  "upte s pd n = (if upde s pd (dir_of n) = 0 then 0 else load32 (phys s) (entry (utable s pd (dir_of n)) (idx_of n)))"

definition uframe :: "'a mem_state_scheme \<Rightarrow> addr \<Rightarrow> nat \<Rightarrow> addr" where
  "uframe s pd n = upte s pd n AND PAGE_MASK"

definition user_entry :: "u32 \<Rightarrow> bool" where
  "user_entry e \<longleftrightarrow> bit e 0 \<and> bit e 1 \<and> bit e 2"

text \<open>The pages below the kernel's half.\<close>

definition user_pages :: nat where "user_pages = 786432"

definition uspace :: "'a mem_state_scheme \<Rightarrow> addr \<Rightarrow> bool" where
  "uspace s pd \<longleftrightarrow> kbase s \<and> frame_used s pd \<and> pd \<noteq> boot_pt s \<and> pd \<noteq> kpd_phys s \<and>
     (\<forall>d<768. upde s pd d \<noteq> 0 \<longrightarrow> user_entry (upde s pd d) \<and> frame_used s (utable s pd d) \<and> utable s pd d \<notin> insert pd (win_frames s)) \<and>
     (\<forall>d<768. \<forall>d'<768. upde s pd d \<noteq> 0 \<longrightarrow> upde s pd d' \<noteq> 0 \<longrightarrow> utable s pd d = utable s pd d' \<longrightarrow> d = d') \<and>
     (\<forall>n<user_pages. upte s pd n \<noteq> 0 \<longrightarrow> user_entry (upte s pd n) \<and> frame_used s (uframe s pd n) \<and> uframe s pd n \<notin> insert pd (win_frames s) \<and>
        (\<forall>d<768. upde s pd d \<noteq> 0 \<longrightarrow> uframe s pd n \<noteq> utable s pd d)) \<and>
     (\<forall>n<user_pages. \<forall>n'<user_pages. upte s pd n \<noteq> 0 \<longrightarrow> upte s pd n' \<noteq> 0 \<longrightarrow> uframe s pd n = uframe s pd n' \<longrightarrow> n = n')"

definition uview :: "'a mem_state_scheme \<Rightarrow> addr \<Rightarrow> nat \<Rightarrow> (u32 \<Rightarrow> u8) option" where
  "uview s pd n = (if upte s pd n = 0 then None else Some (\<lambda>off. if off < 4096 then phys s (uframe s pd n + off) else 0))"

lemma page_indices:
  assumes "n < user_pages"
  shows "dir_of n < 768" "dir_of n < 1024" "idx_of n < 1024"
proof -
  have "n div 1024 < 768" using assms by (simp add: user_pages_def less_mult_imp_div_less)
  then show "dir_of n < 768" "dir_of n < 1024" "idx_of n < 1024"
    by (simp_all add: dir_of_def idx_of_def word_less_nat_alt unat_of_nat_u32)
qed

lemma page_of_indices:
  assumes "n < user_pages" and "n' < user_pages" and "dir_of n = dir_of n'" and "idx_of n = idx_of n'"
  shows "n = n'"
proof -
  have "n div 1024 = n' div 1024" "n mod 1024 = n' mod 1024"
    using assms by (simp_all add: dir_of_def idx_of_def word_eq_iff_unat_u32 unat_of_nat_u32 user_pages_def less_mult_imp_div_less)
  then show ?thesis by (metis div_mod_decomp)
qed

lemma uspaceD:
  assumes "uspace s pd"
  shows "kbase s" "frame_used s pd" "pd \<noteq> boot_pt s" "pd \<noteq> kpd_phys s" "page_aligned pd"
    "d < 768 \<Longrightarrow> upde s pd d \<noteq> 0 \<Longrightarrow> user_entry (upde s pd d) \<and> frame_used s (utable s pd d) \<and> utable s pd d \<notin> insert pd (win_frames s)"
    "d < 768 \<Longrightarrow> d' < 768 \<Longrightarrow> upde s pd d \<noteq> 0 \<Longrightarrow> upde s pd d' \<noteq> 0 \<Longrightarrow> utable s pd d = utable s pd d' \<Longrightarrow> d = d'"
    "n < user_pages \<Longrightarrow> upte s pd n \<noteq> 0 \<Longrightarrow> user_entry (upte s pd n) \<and> frame_used s (uframe s pd n) \<and> uframe s pd n \<notin> insert pd (win_frames s)"
    "n < user_pages \<Longrightarrow> upte s pd n \<noteq> 0 \<Longrightarrow> d < 768 \<Longrightarrow> upde s pd d \<noteq> 0 \<Longrightarrow> uframe s pd n \<noteq> utable s pd d"
    "n < user_pages \<Longrightarrow> n' < user_pages \<Longrightarrow> upte s pd n \<noteq> 0 \<Longrightarrow> upte s pd n' \<noteq> 0 \<Longrightarrow> uframe s pd n = uframe s pd n' \<Longrightarrow> n = n'"
  using assms unfolding uspace_def by (blast, blast, blast, blast, simp add: frame_used_def, blast+)

lemma utable_aligned [simp]: "page_aligned (utable s pd d)" "page_aligned (uframe s pd n)"
  by (simp_all add: utable_def uframe_def)

lemma user_entry_frame: "page_aligned f \<Longrightarrow> (f OR 7) AND PAGE_MASK = f" "page_aligned f \<Longrightarrow> user_entry (f OR 7)" "page_aligned f \<Longrightarrow> f OR 7 \<noteq> 0"
proof -
  assume f: "page_aligned f"
  show "(f OR 7) AND PAGE_MASK = f" by (rule page_aligned_frame [OF f unat_flags(2)])
  show "user_entry (f OR 7)" using page_aligned_flag [OF f, of _ 7] by (simp add: user_entry_def bit_simps)
  then show "f OR 7 \<noteq> 0" by (auto simp: user_entry_def)
qed

section \<open>One more table or one more page\<close>

text \<open>A frame that was free becomes the table of directory entry \<open>D\<close> or the page \<open>N\<close>.\<close>

lemma uspace_step:
  assumes u: "uspace s pd" and k: "kbase s'" "same_kernel s s'" and x: "used_pages s' = insert x (used_pages s)"
    and f: "page_aligned f" "\<not> frame_used s f" "frame_used s' f"
    and D: "\<And>d. d < 768 \<Longrightarrow> upde s' pd d = (if D = Some d then f OR 7 else upde s pd d)"
    and N: "\<And>n. n < user_pages \<Longrightarrow> upte s' pd n = (if N = Some n then f OR 7 else upte s pd n)"
    and one: "D = None \<or> N = None"
  shows "uspace s' pd"
proof -
  note U = uspaceD [OF u] and E = user_entry_frame [OF f(1)]
  have grow: "frame_used s g \<Longrightarrow> frame_used s' g" for g using frame_used_grow [of s s' g] x by auto
  have fresh: "frame_used s g \<Longrightarrow> f \<noteq> g" for g using f(2) by auto
  have w: "win_frames s' = win_frames s" "boot_pt s' = boot_pt s" "kpd_phys s' = kpd_phys s" using k(2) by (auto simp: same_kernel_def win_frames_def)
  have wf: "f \<notin> insert pd (win_frames s)" using fresh U(1,2) by (auto simp: kbase_def)
  have T: "utable s' pd d = (if D = Some d then f else utable s pd d)" if "d < 768" for d using D [OF that] E(1) by (simp add: utable_def)
  have F: "uframe s' pd n = (if N = Some n then f else uframe s pd n)" if "n < user_pages" for n using N [OF that] E(1) by (simp add: uframe_def)
  show ?thesis unfolding uspace_def w
  proof (intro conjI allI impI)
    fix d assume d: "d < 768" "upde s' pd d \<noteq> 0"
    show "user_entry (upde s' pd d)" "frame_used s' (utable s' pd d)" "utable s' pd d \<notin> insert pd (win_frames s)"
      using D [OF d(1)] T [OF d(1)] U(6) [OF d(1)] d(2) E(2) f(3) wf grow by (auto split: if_splits)
  next
    fix d d' assume d: "d < 768" "d' < 768" "upde s' pd d \<noteq> 0" "upde s' pd d' \<noteq> 0" "utable s' pd d = utable s' pd d'"
    then show "d = d'" using D T U(6) [of d] U(6) [of d'] U(7) [OF d(1,2)] fresh by (auto split: if_splits)
  next
    fix n assume n: "n < user_pages" "upte s' pd n \<noteq> 0"
    show "user_entry (upte s' pd n)" "frame_used s' (uframe s' pd n)" "uframe s' pd n \<notin> insert pd (win_frames s)"
      using N [OF n(1)] F [OF n(1)] U(8) [OF n(1)] n(2) E(2) f(3) wf grow by (auto split: if_splits)
    fix d assume d: "d < 768" "upde s' pd d \<noteq> 0"
    show "uframe s' pd n \<noteq> utable s' pd d"
      using D [OF d(1)] T [OF d(1)] N [OF n(1)] F [OF n(1)] U(6) [OF d(1)] U(8) [OF n(1)] U(9) [OF n(1) _ d(1)] n(2) d(2) fresh [of "utable s pd d"] fresh [of "uframe s pd n"] one by (auto split: if_splits)
  next
    fix n n' assume n: "n < user_pages" "n' < user_pages" "upte s' pd n \<noteq> 0" "upte s' pd n' \<noteq> 0" "uframe s' pd n = uframe s' pd n'"
    then show "n = n'" using N F U(8) [of n] U(8) [of n'] U(10) [OF n(1,2)] fresh by (auto split: if_splits)
  qed (use k(1) U(2-4) grow in auto)
qed

text \<open>The view is made of the bytes of frames in use that are neither the directory nor a table.\<close>

lemma uview_step:
  assumes u: "uspace s pd" and "\<And>n. n < user_pages \<Longrightarrow> upte s' pd n = (if N = Some n then f OR 7 else upte s pd n)" and f: "page_aligned f"
    and other: "\<And>a. frame_used s (a AND PAGE_MASK) \<Longrightarrow> a AND PAGE_MASK \<noteq> pd \<Longrightarrow> (\<And>d. d < 768 \<Longrightarrow> upde s pd d \<noteq> 0 \<Longrightarrow> a AND PAGE_MASK \<noteq> utable s pd d) \<Longrightarrow> phys s' a = phys s a"
    and zero: "\<And>a. N \<noteq> None \<Longrightarrow> a AND PAGE_MASK = f \<Longrightarrow> phys s' a = 0" and n: "n < user_pages"
  shows "uview s' pd n = (if N = Some n then Some (\<lambda>_. 0) else uview s pd n)"
proof (cases "N = Some n")
  case True
  have "uframe s' pd n = f" "upte s' pd n \<noteq> 0" using assms(2) [OF n] True user_entry_frame [OF f] by (simp_all add: uframe_def)
  moreover have "phys s' (f + off) = 0" if "off < 4096" for off using zero frame_offset [OF f that] True by simp
  ultimately show ?thesis using True by (auto simp: uview_def)
next
  case False
  note e = assms(2) [OF n]
  have "phys s' (uframe s pd n + off) = phys s (uframe s pd n + off)" if "upte s pd n \<noteq> 0" "off < 4096" for off
  proof (rule other)
    have o: "(uframe s pd n + off) AND PAGE_MASK = uframe s pd n" by (rule frame_offset) (use that in simp_all)
    show "frame_used s ((uframe s pd n + off) AND PAGE_MASK)" "(uframe s pd n + off) AND PAGE_MASK \<noteq> pd" using uspaceD(8) [OF u n that(1)] o by simp_all
    show "(uframe s pd n + off) AND PAGE_MASK \<noteq> utable s pd d" if "d < 768" "upde s pd d \<noteq> 0" for d
      using uspaceD(9) [OF u n \<open>upte s pd n \<noteq> 0\<close> that] o by simp
  qed
  then show ?thesis using False e by (auto simp: uview_def uframe_def)
qed

lemma add_table:
  assumes u: "uspace s pd" and d: "d < 768" "upde s pd d = 0" and free: "free_pages s \<noteq> {}"
  obtains x s0 s1 s2 where "pmm_alloc 1 s = Some (page_addr x, s0)" "zero_page (page_addr x) s0 = Some s1"
    "write_entry pd d (page_addr x OR 7) s1 = Some s2" "uspace s2 pd" "upde s2 pd d = page_addr x OR 7" "page_aligned (page_addr x)"
    "\<And>n. n < user_pages \<Longrightarrow> uview s2 pd n = uview s pd n" "card (free_pages s2) + 1 = card (free_pages s)"
proof -
  note U = uspaceD [OF u]
  obtain x s0 s1 where a: "pmm_alloc 1 s = Some (page_addr x, s0)" "zero_page (page_addr x) s0 = Some s1" and g: "page_aligned (page_addr x)" "\<not> frame_used s (page_addr x)"
      and x: "x \<in> free_pages s" and b: "kbase s1" "same_kernel s s1" "phys s1 = zero_frame (phys s) (page_addr x)"
      "free_pages s1 = free_pages s - {x}" "used_pages s1 = insert x (used_pages s)" "frame_used s1 (page_addr x)"
    by (rule fresh_zeroed [OF U(1) free])
  let ?g = "page_addr x"
  have pd: "pd AND PAGE_MASK = pd" by (rule mask_page_aligned [OF U(5)])
  have d': "d < 1024" "d \<noteq> 768" using d(1) by (auto simp: word_less_nat_alt)
  have "may_write s1 (pd AND PAGE_MASK) d" using U(3,5) b(2) d' by (simp add: pd may_write_def same_kernel_def)
  then obtain s2 where c: "write_entry pd d (?g OR 7) s1 = Some s2" "kbase s2" "same_kernel s1 s2" "phys s2 = store32 (phys s1) (entry pd d) (?g OR 7)"
      "free_pages s2 = free_pages s1" "used_pages s2 = used_pages s1"
    using write_kept [OF b(1), of pd d "?g OR 7"] pd by metis
  have ne: "frame_used s h \<Longrightarrow> h \<noteq> ?g" for h using g(2) by auto
  have E: "load32 (phys s2) (entry h i) = (if h = pd \<and> i = d then ?g OR 7 else load32 (phys s) (entry h i))" if "frame_used s h" "i < 1024" for h i
    using ne [OF that(1)] that U(5) d'(1) by (auto simp: c(4) b(3) load32_store32_entry load32_zero_frame frame_used_def)
  have G: "load32 (phys s2) (entry ?g i) = 0" if "i < 1024" for i
    using that g(1) U(5) d'(1) ne [OF U(2)] by (simp add: c(4) b(3) load32_store32_entry load32_zero_frame)
  have D: "upde s2 pd d' = (if Some d = Some d' then ?g OR 7 else upde s pd d')" if "d' < 768" for d'
    using E [OF U(2), of d'] that by (auto simp: upde_def word_less_nat_alt)
  have N: "upte s2 pd n = upte s pd n" if n: "n < user_pages" for n
    using page_indices [OF n] D [OF page_indices(1) [OF n]] d(2) G E [of "utable s pd (dir_of n)" "idx_of n"] U(6) [of "dir_of n"] user_entry_frame [OF g(1)]
    by (auto simp: upte_def utable_def)
  show thesis
  proof (rule that [OF a c(1)])
    show "uspace s2 pd"
      by (rule uspace_step [OF u c(2) same_kernel_trans [OF b(2) c(3)], where D = "Some d" and N = None])
        (use b(5,6) c(6) g D N in \<open>simp_all add: frame_used_def\<close>)
    show "upde s2 pd d = ?g OR 7" using D [OF d(1)] by simp
    show "uview s2 pd n = uview s pd n" if "n < user_pages" for n
      using uview_step [OF u _ g(1) _ _ that, of s2 None] N U(5) d'(1) ne by (simp add: c(4) b(3) store32_other_frame zero_frame_other)
    show "card (free_pages s2) + 1 = card (free_pages s)" using c(5) b(4) x card_Suc_Diff1 [of "free_pages s" x] by simp
  qed (rule g(1))
qed

lemma add_page:
  assumes u: "uspace s pd" and n: "n < user_pages" "upde s pd (dir_of n) \<noteq> 0" "upte s pd n = 0" and free: "free_pages s \<noteq> {}"
  obtains s' where "sys_mmap_new_page (upde s pd (dir_of n)) (idx_of n) s = Some s'" "uspace s' pd"
    "\<And>k. k < user_pages \<Longrightarrow> uview s' pd k = (if k = n then Some (\<lambda>_. 0) else uview s pd k)" "card (free_pages s') + 1 = card (free_pages s)"
proof -
  note U = uspaceD [OF u] and I = page_indices [OF n(1)]
  let ?t = "utable s pd (dir_of n)"
  note T = U(6) [OF I(1) n(2)]
  obtain x s0 s1 where a: "pmm_alloc 1 s = Some (page_addr x, s0)" "zero_page (page_addr x) s0 = Some s1" and g: "page_aligned (page_addr x)" "\<not> frame_used s (page_addr x)"
      and x: "x \<in> free_pages s" and b: "kbase s1" "same_kernel s s1" "phys s1 = zero_frame (phys s) (page_addr x)"
      "free_pages s1 = free_pages s - {x}" "used_pages s1 = insert x (used_pages s)" "frame_used s1 (page_addr x)"
    by (rule fresh_zeroed [OF U(1) free])
  let ?f = "page_addr x"
  have "may_write s1 ?t (idx_of n)" using T same_kernel_frames [OF b(2)] I(3) by (intro may_write_fresh) auto
  then obtain s2 where c: "write_entry (upde s pd (dir_of n)) (idx_of n) (?f OR 7) s1 = Some s2" "kbase s2" "same_kernel s1 s2"
      "phys s2 = store32 (phys s1) (entry ?t (idx_of n)) (?f OR 7)" "free_pages s2 = free_pages s1" "used_pages s2 = used_pages s1"
    using write_kept [OF b(1), of "upde s pd (dir_of n)" "idx_of n" "?f OR 7"] unfolding utable_def by metis
  have ne: "frame_used s h \<Longrightarrow> h \<noteq> ?f" for h using g(2) by auto
  have E: "load32 (phys s2) (entry h i) = (if h = ?t \<and> i = idx_of n then ?f OR 7 else load32 (phys s) (entry h i))" if "frame_used s h" "i < 1024" for h i
    using ne [OF that(1)] that I(3) by (auto simp: c(4) b(3) load32_store32_entry load32_zero_frame frame_used_def)
  have D: "upde s2 pd d = upde s pd d" if "d < 768" for d
    using E [OF U(2), of d] that T by (auto simp: upde_def word_less_nat_alt)
  have N: "upte s2 pd k = (if Some n = Some k then ?f OR 7 else upte s pd k)" if k: "k < user_pages" for k
  proof (cases "upde s pd (dir_of k) = 0")
    case True
    then show ?thesis using D [OF page_indices(1) [OF k]] n(2) by (auto simp: upte_def)
  next
    case False
    note K = page_indices [OF k]
    have "utable s pd (dir_of k) = ?t \<and> idx_of k = idx_of n \<longleftrightarrow> k = n"
      using U(7) [OF K(1) I(1) False n(2)] page_of_indices [OF k n(1)] by auto
    then show ?thesis using E [of "utable s pd (dir_of k)" "idx_of k"] U(6) [OF K(1) False] K(3) D [OF K(1)] False by (auto simp: upte_def utable_def)
  qed
  have new: "sys_mmap_new_page (upde s pd (dir_of n)) (idx_of n) s = Some s2"
    using a c(1) by (simp add: sys_mmap_new_page_def user_flags mask_page_aligned [OF g(1)])
  show thesis
  proof (rule that [OF new])
    show "uspace s2 pd"
      by (rule uspace_step [OF u c(2) same_kernel_trans [OF b(2) c(3)], where D = None and N = "Some n"])
        (use b(5,6) c(6) g D N in \<open>simp_all add: frame_used_def\<close>)
    show "uview s2 pd k = (if k = n then Some (\<lambda>_. 0) else uview s pd k)" if "k < user_pages" for k
    proof -
      have "uview s2 pd k = (if Some n = Some k then Some (\<lambda>_. 0) else uview s pd k)"
      proof (rule uview_step [OF u N g(1) _ _ that])
        fix a assume "frame_used s (a AND PAGE_MASK)" "\<And>d. d < 768 \<Longrightarrow> upde s pd d \<noteq> 0 \<Longrightarrow> a AND PAGE_MASK \<noteq> utable s pd d"
        then show "phys s2 a = phys s a" using ne I n(2) by (simp add: c(4) b(3) store32_other_frame zero_frame_other)
      next
        fix a assume "a AND PAGE_MASK = ?f"
        moreover have "?f \<noteq> ?t" using ne [of ?t] T by auto
        ultimately show "phys s2 a = 0" using I(3) by (simp add: c(4) b(3) store32_other_frame zero_frame_def)
      qed
      then show ?thesis by auto
    qed
    show "card (free_pages s2) + 1 = card (free_pages s)" using c(5) b(4) x card_Suc_Diff1 [of "free_pages s" x] by simp
  qed
qed

section \<open>One visit of the loop\<close>

text \<open>
  The loop leaves its window open on a table when it passes a page that is mapped; the next visit closes it. \<open>ajar s t\<close>:
  the state \<open>t\<close> is \<open>s\<close> but for the window and the log.
\<close>

definition ajar :: "'a mem_state_scheme \<Rightarrow> 'a mem_state_scheme \<Rightarrow> bool" where
  "ajar s t \<longleftrightarrow> (\<exists>v l. t = s\<lparr>phys := store32 (phys s) (slot s) v, invlpg_log := l\<rparr>)"

lemma ajar_refl: "closed s \<Longrightarrow> ajar s s"
  unfolding ajar_def closed_def by (intro exI [of _ 0] exI [of _ "invlpg_log s"]) (simp add: store32_same_value)

lemma read_entry_ajar:
  assumes "kbase s" and "ajar s t" and "i < 1024" and "pd AND PAGE_MASK \<noteq> boot_pt s"
  shows "\<exists>l. read_entry pd i t = Some (load32 (phys s) (entry (pd AND PAGE_MASK) i), s\<lparr>invlpg_log := l\<rparr>)"
proof -
  have w: "win_wf s" "closed s" using assms(1) by (simp_all add: kbase_def)
  obtain v l where t: "t = s\<lparr>phys := store32 (phys s) (slot s) v, invlpg_log := l\<rparr>" using assms(2) by (auto simp: ajar_def)
  let ?s = "s\<lparr>invlpg_log := l\<rparr>"
  have "win_wf t" "slot t = slot s" "tmp_map_addr t = tmp_map_addr s" using slot_store [OF w(1), of v] by (simp_all add: t)
  then have "map_tmp_page pd t = map_tmp_page pd ?s" using map_tmp_page_eq [of t pd] map_tmp_page_eq [of ?s pd] w(1) by (simp add: t)
  then have "read_entry pd i t = read_entry pd i ?s" by (simp add: read_entry_def)
  then show ?thesis using read_entry_eq [of ?s i pd] w assms(3,4) by auto
qed

lemma space_log [simp]:
  "upde (s\<lparr>invlpg_log := l\<rparr>) pd d = upde s pd d" "utable (s\<lparr>invlpg_log := l\<rparr>) pd d = utable s pd d" "upte (s\<lparr>invlpg_log := l\<rparr>) pd n = upte s pd n"
  "uframe (s\<lparr>invlpg_log := l\<rparr>) pd n = uframe s pd n" "uview (s\<lparr>invlpg_log := l\<rparr>) pd n = uview s pd n" "free_pages (s\<lparr>invlpg_log := l\<rparr>) = free_pages s"
  "uspace (s\<lparr>invlpg_log := l\<rparr>) pd = uspace s pd"
proof -
  show e: "upde (s\<lparr>invlpg_log := l\<rparr>) pd d = upde s pd d" for d by (simp add: upde_def)
  then show t: "utable (s\<lparr>invlpg_log := l\<rparr>) pd d = utable s pd d" for d by (simp add: utable_def)
  from e t show n: "upte (s\<lparr>invlpg_log := l\<rparr>) pd n = upte s pd n" for n by (simp add: upte_def)
  then show f: "uframe (s\<lparr>invlpg_log := l\<rparr>) pd n = uframe s pd n" for n by (simp add: uframe_def)
  from n f show "uview (s\<lparr>invlpg_log := l\<rparr>) pd n = uview s pd n" by (simp add: uview_def cong: if_cong)
  show "free_pages (s\<lparr>invlpg_log := l\<rparr>) = free_pages s" by (rule pmm_cong; simp)
  have "used_pages (s\<lparr>invlpg_log := l\<rparr>) = used_pages s" by (rule pmm_cong; simp)
  then show "uspace (s\<lparr>invlpg_log := l\<rparr>) pd = uspace s pd" by (simp add: uspace_def e t n f frame_used_def win_frames_def)
qed

text \<open>The window on the table of a page.\<close>

lemma table_window:
  assumes u: "uspace s pd" and n: "n < user_pages" "upde s pd (dir_of n) \<noteq> 0"
  shows "\<exists>t. map_tmp_page (upde s pd (dir_of n)) s = Some (tmp_map_addr s, t) \<and> vload32 (entry (tmp_map_addr s) (idx_of n)) t = Some (upte s pd n) \<and>
    ajar s t \<and> (\<exists>l. unmap_tmp_page t = Some (s\<lparr>invlpg_log := l\<rparr>))"
proof -
  note U = uspaceD [OF u] and I = page_indices [OF n(1)]
  have w: "win_wf s" "closed s" using U(1) by (simp_all add: kbase_def)
  let ?f = "utable s pd (dir_of n)" and ?l = "invlpg_log s @ [tmp_map_addr s]"
  let ?t = "s\<lparr>phys := store32 (phys s) (slot s) (?f OR 3), invlpg_log := ?l\<rparr>"
  have nb: "?f \<noteq> boot_pt s" using U(6) [OF I(1) n(2)] by (auto simp: win_frames_def)
  have m: "map_tmp_page (upde s pd (dir_of n)) s = Some (tmp_map_addr s, ?t)" using map_tmp_page_eq [OF w(1)] by (simp add: utable_def)
  have "vload32 (entry (tmp_map_addr s) (idx_of n)) ?t = Some (load32 (store32 (phys s) (slot s) (?f OR 3)) (entry ?f (idx_of n)))"
    using open_load [OF open_on_opened [OF w(1), of ?f] I(3)] by simp
  moreover have "load32 (store32 (phys s) (slot s) (?f OR 3)) (entry ?f (idx_of n)) = upte s pd n"
    using nb I(3) n(2) by (simp add: slot_def load32_store32_entry upte_def)
  moreover have "unmap_tmp_page ?t = Some (s\<lparr>phys := phys s, invlpg_log := ?l @ [tmp_map_addr s]\<rparr>)"
    using close_eq [OF slot_store(1,3) [OF w(1)]] w(2) by (simp add: closed_def)
  ultimately show ?thesis using m by (auto simp: ajar_def)
qed

lemma visit_mapped:
  assumes u: "uspace s pd" and t: "ajar s t" and n: "n < user_pages" "upte s pd n \<noteq> 0"
  shows "\<exists>t'. sys_mmap_entry pd (dir_of n) (idx_of n) c a t = Some ((c, a), t') \<and> ajar s t'"
proof -
  note U = uspaceD [OF u] and I = page_indices [OF n(1)]
  have d: "upde s pd (dir_of n) \<noteq> 0" using n(2) by (auto simp: upte_def)
  have pd: "pd AND PAGE_MASK = pd" by (rule mask_page_aligned [OF U(5)])
  obtain l where r: "read_entry pd (dir_of n) t = Some (upde s pd (dir_of n), s\<lparr>invlpg_log := l\<rparr>)"
    using read_entry_ajar [OF U(1) t I(2), of pd] U(3) by (auto simp: pd upde_def)
  obtain t' where m: "map_tmp_page (upde s pd (dir_of n)) (s\<lparr>invlpg_log := l\<rparr>) = Some (tmp_map_addr s, t')"
      "vload32 (entry (tmp_map_addr s) (idx_of n)) t' = Some (upte s pd n)" "ajar (s\<lparr>invlpg_log := l\<rparr>) t'"
    using table_window [of "s\<lparr>invlpg_log := l\<rparr>" pd n] u n(1) d by auto
  have "ajar s t'" using m(3) by (auto simp: ajar_def)
  then show ?thesis using r m(1,2) d n(2) by (simp add: sys_mmap_entry_def)
qed

lemma visit_free:
  assumes u: "uspace s pd" and t: "ajar s t" and n: "n < user_pages" "upte s pd n = 0" and free: "2 \<le> card (free_pages s)"
  shows "\<exists>s'. sys_mmap_entry pd (dir_of n) (idx_of n) c a t = Some (sys_mmap_count (dir_of n) (idx_of n) c a, s') \<and> uspace s' pd \<and>
    (\<forall>k<user_pages. uview s' pd k = (if k = n then Some (\<lambda>_. 0) else uview s pd k)) \<and> card (free_pages s) \<le> card (free_pages s') + 2"
proof -
  note U = uspaceD [OF u] and I = page_indices [OF n(1)]
  have pd: "pd AND PAGE_MASK = pd" by (rule mask_page_aligned [OF U(5)])
  obtain l where r: "read_entry pd (dir_of n) t = Some (upde s pd (dir_of n), s\<lparr>invlpg_log := l\<rparr>)"
    using read_entry_ajar [OF U(1) t I(2), of pd] U(3) by (auto simp: pd upde_def)
  let ?s = "s\<lparr>invlpg_log := l\<rparr>"
  have u1: "uspace ?s pd" "free_pages ?s \<noteq> {}" using u free by auto
  show ?thesis
  proof (cases "upde s pd (dir_of n) = 0")
    case True
    obtain x s0 s1 s2 where a: "pmm_alloc 1 ?s = Some (page_addr x, s0)" "zero_page (page_addr x) s0 = Some s1"
        "write_entry pd (dir_of n) (page_addr x OR 7) s1 = Some s2" "uspace s2 pd" "upde s2 pd (dir_of n) = page_addr x OR 7" "page_aligned (page_addr x)"
        "\<And>k. k < user_pages \<Longrightarrow> uview s2 pd k = uview ?s pd k" "card (free_pages s2) + 1 = card (free_pages ?s)"
      using add_table [OF u1(1) I(1) _ u1(2)] True by (metis space_log(1))
    have v: "upde s2 pd (dir_of n) \<noteq> 0" "upte s2 pd n = 0" "free_pages s2 \<noteq> {}"
      using a(5,8) user_entry_frame(3) [OF a(6)] a(7) [OF n(1)] n(2) free by (auto simp: uview_def split: if_splits)
    obtain s3 where b: "sys_mmap_new_page (upde s2 pd (dir_of n)) (idx_of n) s2 = Some s3" "uspace s3 pd"
        "\<And>k. k < user_pages \<Longrightarrow> uview s3 pd k = (if k = n then Some (\<lambda>_. 0) else uview s2 pd k)" "card (free_pages s3) + 1 = card (free_pages s2)"
      using add_page [OF a(4) n(1) v] by metis
    have "sys_mmap_entry pd (dir_of n) (idx_of n) c a t = Some (sys_mmap_count (dir_of n) (idx_of n) c a, invlpg (push_bit 22 (dir_of n) OR push_bit 12 (idx_of n)) s3)"
      using r True a(1-3) b(1) by (simp add: sys_mmap_entry_def user_flags mask_page_aligned [OF a(6)] a(5))
    then show ?thesis using b(2-4) a(7,8) by (auto simp: invlpg_def)
  next
    case False
    obtain t' l' where m: "map_tmp_page (upde s pd (dir_of n)) ?s = Some (tmp_map_addr s, t')"
        "vload32 (entry (tmp_map_addr s) (idx_of n)) t' = Some (upte s pd n)" "unmap_tmp_page t' = Some (s\<lparr>invlpg_log := l'\<rparr>)"
      using table_window [of ?s pd n] u n(1) False by auto
    have u2: "uspace (s\<lparr>invlpg_log := l'\<rparr>) pd" using u by simp
    obtain s3 where b: "sys_mmap_new_page (upde s pd (dir_of n)) (idx_of n) (s\<lparr>invlpg_log := l'\<rparr>) = Some s3" "uspace s3 pd"
        "\<And>k. k < user_pages \<Longrightarrow> uview s3 pd k = (if k = n then Some (\<lambda>_. 0) else uview s pd k)" "card (free_pages s3) + 1 = card (free_pages s)"
      using add_page [OF u2 n(1)] False n(2) u1(2) by (metis space_log(1,3,5,6))
    have "sys_mmap_entry pd (dir_of n) (idx_of n) c a t = Some (sys_mmap_count (dir_of n) (idx_of n) c a, invlpg (push_bit 22 (dir_of n) OR push_bit 12 (idx_of n)) s3)"
      using r False m b(1) n(2) by (simp add: sys_mmap_entry_def)
    then show ?thesis using b(2-4) by (auto simp: invlpg_def)
  qed
qed

section \<open>mmap\<close>

lemma less_1024_bits: "p < (1024 :: u32) \<Longrightarrow> bit p i \<Longrightarrow> i < 10"
proof -
  assume p: "p < 1024" "bit p i"
  then have "p mod 1024 = p" by (simp add: word_eq_iff_unat_u32 unat_mod_distrib word_less_nat_alt)
  then have "take_bit 10 p = p" by (simp add: take_bit_eq_mod)
  then have "bit (take_bit 10 p) i" using p(2) by simp
  then show "i < 10" by (simp add: bit_take_bit_iff)
qed

lemma page_address:
  assumes "n < user_pages"
  shows "push_bit 22 (dir_of n) OR push_bit 12 (idx_of n) = page_addr n"
proof -
  have "push_bit 22 (dir_of n) OR push_bit 12 (idx_of n) = push_bit 22 (dir_of n) + push_bit 12 (idx_of n)"
    using less_1024_bits [OF page_indices(3) [OF assms]] by (intro disjunctive_add [symmetric]) (fastforce simp: bit_simps)
  also have "\<dots> = (of_nat (n div 1024) * 1024 + of_nat (n mod 1024)) * 4096"
    by (simp add: push_bit_eq_mult dir_of_def idx_of_def algebra_simps)
  also have "of_nat (n div 1024) * 1024 + of_nat (n mod 1024) = (of_nat n :: u32)"
    by (metis div_mult_mod_eq of_nat_add of_nat_mult of_nat_numeral)
  finally show ?thesis by (simp add: page_addr_def)
qed

lemma mmap_visits:
  fixes s t :: "'a mem_state_scheme"
  assumes "uspace s pd" and "ajar s t" and "\<And>n. n \<in> set ms \<Longrightarrow> n < user_pages" and "distinct ms" and "fr = filter (\<lambda>n. uview s pd n = None) ms" and "fr \<noteq> []"
    and "unat c + length fr = unat k" and "2 * length fr \<le> card (free_pages s)"
  shows "\<exists>s'. sys_mmap_loop (ms @ rest) pd k c a t = Some (if c = 0 then page_addr (hd fr) else a, s') \<and> uspace s' pd \<and>
    (\<forall>n<user_pages. uview s' pd n = (if n \<in> set fr then Some (\<lambda>_. 0) else uview s pd n))"
  using assms
proof (induction ms arbitrary: s t c a fr)
  case (Cons n ms)
  have n: "n < user_pages" using Cons.prems(3) by simp
  have I: "of_nat (n div 1024) = dir_of n" "of_nat (n mod 1024) = idx_of n" by (simp_all add: dir_of_def idx_of_def)
  show ?case
  proof (cases "upte s pd n = 0")
    case False
    obtain t' where t': "sys_mmap_entry pd (dir_of n) (idx_of n) c a t = Some ((c, a), t')" "ajar s t'"
      using visit_mapped [OF Cons.prems(1,2) n False, of c a] by auto
    have "fr = filter (\<lambda>n. uview s pd n = None) ms" using Cons.prems(5) False by (simp add: uview_def)
    from Cons.IH [OF Cons.prems(1) t'(2) _ _ this Cons.prems(6-8), of a] show ?thesis
      using t'(1) Cons.prems(3,4) by (simp add: I)
  next
    case True
    then have v: "uview s pd n = None" by (simp add: uview_def)
    define gs where gs: "gs = filter (\<lambda>n. uview s pd n = None) ms"
    have fr: "fr = n # gs" using Cons.prems(5) v gs by simp
    obtain s1 where s1: "sys_mmap_entry pd (dir_of n) (idx_of n) c a t = Some (sys_mmap_count (dir_of n) (idx_of n) c a, s1)" "uspace s1 pd"
        "\<forall>k<user_pages. uview s1 pd k = (if k = n then Some (\<lambda>_. 0) else uview s pd k)" "card (free_pages s) \<le> card (free_pages s1) + 2"
      using visit_free [OF Cons.prems(1,2) n True, of c a] Cons.prems(8) fr by auto
    define b where b: "b = (if c = 0 then page_addr n else a)"
    have cnt: "sys_mmap_count (dir_of n) (idx_of n) c a = (c + 1, b)" by (simp add: sys_mmap_count_def b page_address [OF n])
    have kb: "unat k < 4294967296" by simp
    then have "unat c + 1 < 4294967296" using Cons.prems(7) fr by (metis One_nat_def add_le_cancel_left length_Cons less_eq_Suc_le order_le_less_trans zero_less_Suc)
    then have c1: "unat (c + 1) = unat c + 1" using unat_add_u32 [of c 1] by simp
    then have ne: "c + 1 \<noteq> c" "c + 1 \<noteq> 0" by auto
    show ?thesis
    proof (cases "gs = []")
      case nil: True
      then have "c + 1 = k" using Cons.prems(7) fr c1 by (simp add: word_eq_iff_unat_u32)
      then show ?thesis using s1 ne fr nil by (auto simp: I cnt b)
    next
      case False
      then have "c + 1 \<noteq> k" using Cons.prems(7) fr c1 by auto
      have "gs = filter (\<lambda>n. uview s1 pd n = None) ms" unfolding gs
        using Cons.prems(3,4) s1(3) by (intro filter_cong) auto
      moreover have "ajar s1 s1" using uspaceD(1) [OF s1(2)] by (simp add: ajar_refl kbase_def)
      ultimately obtain s' where "sys_mmap_loop (ms @ rest) pd k (c + 1) b s1 = Some (if c + 1 = 0 then page_addr (hd gs) else b, s')" "uspace s' pd"
          "\<forall>n<user_pages. uview s' pd n = (if n \<in> set gs then Some (\<lambda>_. 0) else uview s1 pd n)"
        using Cons.IH [OF s1(2), of s1 gs "c + 1" b] Cons.prems(3,4,7,8) s1(4) fr False c1 by auto
      then show ?thesis using s1(1,3) ne fr \<open>c + 1 \<noteq> k\<close> by (auto simp: I cnt b)
    qed
  qed
qed simp

lemma filter_prefix:
  "k \<le> length (filter P xs) \<Longrightarrow> \<exists>ys zs. xs = ys @ zs \<and> filter P ys = take k (filter P xs)"
proof (induction xs arbitrary: k)
  case (Cons x xs)
  show ?case
  proof (cases k)
    case 0
    then have "x # xs = [] @ (x # xs) \<and> filter P [] = take k (filter P (x # xs))" by simp
    then show ?thesis by blast
  next
    case (Suc k')
    let ?k = "if P x then k' else k"
    have "?k \<le> length (filter P xs)" using Cons.prems Suc by auto
    then obtain ys zs where "xs = ys @ zs" "filter P ys = take ?k (filter P xs)" using Cons.IH by blast
    then have "x # xs = (x # ys) @ zs \<and> filter P (x # ys) = take k (filter P (x # xs))" using Suc by auto
    then show ?thesis by blast
  qed
qed simp

lemma ceil_div_4096: "((n :: nat) + 4095) div 4096 = n div 4096 + (if n mod 4096 = 0 then 0 else 1)"
proof -
  define q r where qr: "q = n div 4096" "r = n mod 4096"
  then have n: "n = 4096 * q + r" "r < 4096" by simp_all
  have "(n + 4095) div 4096 = q + (r + 4095) div 4096" unfolding n(1) add.assoc by (rule div_mult_self4) simp
  also have "(r + 4095) div 4096 = (if r = 0 then 0 else 1)"
  proof (cases "r = 0")
    case False
    then have "(r + 4095) div 4096 = 1" using n(2) by (intro div_nat_eqI) simp_all
    then show ?thesis using False by simp
  qed simp
  finally show ?thesis by (simp only: qr)
qed

lemma unat_total_pages: "unat (len div PAGE_SIZE + (if len mod PAGE_SIZE > 0 then 1 else 0)) = (unat len + 4095) div 4096"
proof -
  have l: "unat len < 4294967296" by simp
  have d: "unat (len div PAGE_SIZE) = unat len div 4096" "unat (len mod PAGE_SIZE) = unat len mod 4096"
    by (simp_all add: PAGE_SIZE_def unat_div_distrib unat_mod_distrib)
  show ?thesis
  proof (cases "unat len mod 4096 = 0")
    case True
    then have "\<not> len mod PAGE_SIZE > 0" using d(2) by (simp add: word_less_nat_alt)
    moreover have "(unat len + 4095) div 4096 = unat len div 4096" using True by (simp only: ceil_div_4096) simp
    ultimately show ?thesis using d(1) by simp
  next
    case False
    then have "len mod PAGE_SIZE > 0" using d(2) by (simp add: word_less_nat_alt)
    moreover have "(unat len + 4095) div 4096 = unat len div 4096 + 1" using False by (simp only: ceil_div_4096) simp
    moreover have "unat len div 4096 + 1 < 4294967296" using l div_le_dividend [of "unat len" 4096] less_mult_imp_div_less [of "unat len" 1048576 4096] by simp
    ultimately show ?thesis using d(1) unat_add_u32 [of "len div PAGE_SIZE" 1] by simp
  qed
qed

lemma upt_split: "i \<le> j \<Longrightarrow> j \<le> k \<Longrightarrow> [i..<k] = [i..<j] @ [j..<k]"
  using upt_add_eq_append [of i j "k - j"] by simp

definition unmapped :: "'a mem_state_scheme \<Rightarrow> addr \<Rightarrow> nat list" where
  "unmapped s pd = filter (\<lambda>n. uview s pd n = None) [1..<user_pages]"

lemma sys_mmap_effect:
  assumes "uspace s pd" and "ms = take ((unat len + 4095) div 4096) (unmapped s pd)" and "length ms = (unat len + 4095) div 4096" and "len \<noteq> 0"
    and "2 * length ms \<le> card (free_pages s)"
  shows "\<exists>s'. sys_mmap pd len s = Some (page_addr (hd ms), s') \<and> uspace s' pd \<and>
    (\<forall>n<user_pages. uview s' pd n = (if n \<in> set ms then Some (\<lambda>_. 0) else uview s pd n))"
proof -
  let ?k = "(unat len + 4095) div 4096"
  have "?k \<le> length (unmapped s pd)" using assms(2,3) by simp
  then obtain ys zs where ys: "[1..<user_pages] = ys @ zs" "filter (\<lambda>n. uview s pd n = None) ys = ms"
    unfolding unmapped_def assms(2) by (elim exE conjE filter_prefix [elim_format])
  have ub: "1 \<le> user_pages" "user_pages \<le> 1048576" by (simp_all add: user_pages_def)
  have all: "[1..<1048576] = ys @ zs @ [user_pages..<1048576]"
    unfolding append_assoc [symmetric] ys(1) [symmetric] by (rule upt_split [OF ub])
  have mem: "n < user_pages" if "n \<in> set ys" for n
  proof -
    have "n \<in> set [1..<user_pages]" unfolding ys(1) using that by simp
    then show ?thesis by simp
  qed
  have "distinct [1..<user_pages]" by simp
  then have d: "distinct ys" unfolding ys(1) by simp
  have "unat len \<noteq> 0" using assms(4) by (simp add: unat_eq_0)
  then have "0 < ?k" by (simp add: div_greater_zero_iff)
  then have ne: "ms \<noteq> []" using assms(3) by auto
  define K where K: "K = len div PAGE_SIZE + (if len mod PAGE_SIZE > 0 then 1 else 0)"
  have k: "unat (0 :: u32) + length ms = unat K" using unat_total_pages [of len] assms(3) by (simp add: K)
  have "ajar s s" using uspaceD(1) [OF assms(1)] by (simp add: ajar_refl kbase_def)
  from mmap_visits [OF assms(1) this mem d ys(2) [symmetric] ne k assms(5), of "zs @ [user_pages..<1048576]" 0]
  show ?thesis unfolding sys_mmap_def Let_def K [symmetric] all by (simp only: if_True simp_thms)
qed

text \<open>What the processor does with an address of the program.\<close>

lemma walk_entries:
  assumes "page_aligned pd" and n: "n < user_pages" and off: "off < 4096" and "load32 m (entry pd (dir_of n)) = e" and "user_entry e"
    and "load32 m (entry (e AND PAGE_MASK) (idx_of n)) = e'" and "user_entry e'"
  shows "translate m pd w (page_addr n + off) = Some ((e' AND PAGE_MASK) + off)"
proof -
  have nb: "n < 1048576" using n by (simp add: user_pages_def)
  have o: "unat off < 4096" using off by (simp add: word_less_nat_alt)
  note pa = page_aligned_page_addr [OF nb]
  have "PDE_INDEX (page_addr n + off) = dir_of n" "PTE_INDEX (page_addr n + off) = idx_of n"
    using unat_page_addr [OF nb] nb index_offset [OF pa o]
    by (simp_all add: word_eq_iff_unat_u32 unat_PDE_INDEX unat_PTE_INDEX div_4194304 dir_of_def idx_of_def unat_of_nat_u32)
  moreover have "(page_addr n + off) AND 0xFFF = off" using mask_page_offset(2) [OF pa o] by simp
  ultimately show ?thesis using assms by (simp add: translate_def denies_def user_entry_def mask_page_aligned)
qed

lemma uspace_translate:
  assumes u: "uspace s pd" and n: "n < user_pages" "upte s pd n \<noteq> 0" and off: "off < 4096"
  shows "translate (phys s) pd w (page_addr n + off) = Some (uframe s pd n + off)"
proof -
  note U = uspaceD [OF u]
  have "upde s pd (dir_of n) \<noteq> 0" using n(2) by (auto simp: upte_def)
  then have "user_entry (upde s pd (dir_of n))" "user_entry (upte s pd n)" "load32 (phys s) (entry (upde s pd (dir_of n) AND PAGE_MASK) (idx_of n)) = upte s pd n"
    using U(6) [OF page_indices(1) [OF n(1)]] U(8) [OF n] by (auto simp: upte_def utable_def)
  then show ?thesis using walk_entries [OF U(5) n(1) off] by (simp add: upde_def uframe_def)
qed

text \<open>
  C10: In an address space that is in order, \<open>mmap\<close> of any length for which memory suffices maps exactly the lowest
  unmapped pages, as many as the length needs, and returns the address of the first. Every byte of them is then zero
  and can be read and written by the program; every other page keeps its frame and its bytes, and the address space is
  in order again.
\<close>

theorem sys_mmap_maps_lowest:
  assumes "uspace s pd" and "ms = take ((unat len + 4095) div 4096) (unmapped s pd)" and "length ms = (unat len + 4095) div 4096" and "len \<noteq> 0"
    and "2 * length ms \<le> card (free_pages s)"
  shows "\<exists>s'. sys_mmap pd len s = Some (page_addr (hd ms), s') \<and> uspace s' pd \<and>
    (\<forall>n<user_pages. uview s' pd n = (if n \<in> set ms then Some (\<lambda>_. 0) else uview s pd n)) \<and>
    (\<forall>n\<in>set ms. \<forall>off<4096. \<forall>w. \<exists>a. translate (phys s') pd w (page_addr n + off) = Some a \<and> phys s' a = 0)"
proof -
  obtain s' where s': "sys_mmap pd len s = Some (page_addr (hd ms), s')" "uspace s' pd"
      "\<forall>n<user_pages. uview s' pd n = (if n \<in> set ms then Some (\<lambda>_. 0) else uview s pd n)"
    using sys_mmap_effect [OF assms] by blast
  have "\<exists>a. translate (phys s') pd w (page_addr n + off) = Some a \<and> phys s' a = 0" if n: "n \<in> set ms" "off < 4096" for n off w
  proof -
    have "n \<in> set (unmapped s pd)" using n(1) assms(2) by (auto dest: in_set_takeD)
    then have u: "n < user_pages" by (auto simp: unmapped_def)
    then have v: "uview s' pd n = Some (\<lambda>_. 0)" using s'(3) n(1) by simp
    then have "upte s' pd n \<noteq> 0" by (auto simp: uview_def)
    moreover have "phys s' (uframe s' pd n + off) = 0" using v n(2) by (auto simp: uview_def fun_eq_iff split: if_splits)
    ultimately show ?thesis using uspace_translate [OF s'(2) u _ n(2)] by blast
  qed
  then show ?thesis using s' by blast
qed

text \<open>
  The pages of one \<open>mmap\<close> need not be adjacent. When the page behind the lowest unmapped one is mapped, a call for
  two pages returns the address of that unmapped page, and the second page at that address is still the old one.
\<close>

theorem sys_mmap_scatters:
  assumes "uspace s pd" and "unmapped s pd = i # j # js" and "j \<noteq> i + 1" and "i + 1 < user_pages" and "4 \<le> card (free_pages s)"
  shows "\<exists>s'. sys_mmap pd 8192 s = Some (page_addr i, s') \<and> uview s pd (i + 1) \<noteq> None \<and> uview s' pd (i + 1) = uview s pd (i + 1)"
proof -
  have s: "sorted (unmapped s pd)" "distinct (unmapped s pd)" unfolding unmapped_def by (simp_all add: sorted_wrt_filter)
  have m: "[i, j] = take ((unat (8192 :: u32) + 4095) div 4096) (unmapped s pd)" using assms(2) by simp
  have "i + 1 \<notin> set (unmapped s pd)"
  proof
    assume "i + 1 \<in> set (unmapped s pd)"
    then have "j \<le> i + 1" "i < j" using s assms(2,3) by (auto simp: less_le)
    then show False using assms(3) by simp
  qed
  moreover have "i \<in> set (unmapped s pd)" using assms(2) by simp
  ultimately have v: "uview s pd (i + 1) \<noteq> None" using assms(4) by (auto simp: unmapped_def)
  obtain s' where "sys_mmap pd 8192 s = Some (page_addr (hd [i, j]), s')" "\<forall>n<user_pages. uview s' pd n = (if n \<in> set [i, j] then Some (\<lambda>_. 0) else uview s pd n)"
    using sys_mmap_effect [OF assms(1) m] assms(5) by auto
  then show ?thesis using v assms(3,4) by auto
qed

section \<open>A program with one page\<close>

text \<open>A page directory in frame 0x107000 whose first table, in frame 0x104000, maps page 2 to frame 0x103000.\<close>

definition spaced :: mem_state where
  "spaced = booted\<lparr>phys := store32 (store32 booted_phys (entry 0x107000 0) 0x104007) (entry 0x104000 2) 0x103007\<rparr>"

lemma spaced_consts: "page_aligned 0x107000" "page_aligned 0x104000" "page_aligned 0x103000" "page_aligned 0x105000" "page_aligned 0x106000"
  "(0x104007 :: u32) AND PAGE_MASK = 0x104000" "(0x103007 :: u32) AND PAGE_MASK = 0x103000" "user_entry 0x104007" "user_entry 0x103007"
  by (simp_all add: page_aligned_iff PAGE_MASK_def user_entry_def bit_iff_odd)

lemma spaced_base: "win_wf spaced" "closed spaced" "win_frames spaced = {0x105000, 0x106000}" "kpd_phys spaced = 0x105000" "boot_pt spaced = 0x106000"
proof -
  let ?s1 = "booted\<lparr>phys := store32 booted_phys (entry 0x107000 0) 0x104007\<rparr>"
  have 1: "may_write booted 0x107000 0" by (rule may_write_fresh) (simp_all add: booted_win spaced_consts)
  note w1 = write_keeps [OF booted_win(1,2) 1, where v = "0x104007" and l = "[]", simplified]
  have 2: "may_write ?s1 0x104000 2" by (rule may_write_fresh) (simp_all add: w1 booted_win spaced_consts)
  note w2 = write_keeps [OF w1(1,2) 2, where v = "0x103007" and l = "[]"]
  have e: "?s1\<lparr>phys := store32 (phys ?s1) (entry 0x104000 2) 0x103007, invlpg_log := []\<rparr> = spaced" by (simp add: spaced_def booted_def)
  show "win_wf spaced" "closed spaced" "win_frames spaced = {0x105000, 0x106000}" using w2 w1(3) booted_win(3) unfolding e by auto
  show "kpd_phys spaced = 0x105000" by (simp add: spaced_def)
  show "boot_pt spaced = 0x106000"
    using store_keeps_win(2) [OF booted_win(1) 1, of "0x104007"] store_keeps_win(2) [OF w1(1) 2, of "0x103007"] by (simp add: spaced_def)
qed

lemma spaced_pages: "pmm_inv spaced" "free_pages spaced = {264..<512}" "used_pages spaced = {..<264}"
  using pmm_cong [of spaced booted] booted_pages(1) booted_sets by (simp_all add: spaced_def)

lemma spaced_entries:
  "d < 768 \<Longrightarrow> upde spaced 0x107000 d = (if d = 0 then 0x104007 else 0)"
  "n < user_pages \<Longrightarrow> upte spaced 0x107000 n = (if n = 2 then 0x103007 else 0)"
proof -
  have z: "load32 (\<lambda>_. 0) a = 0" for a by (simp add: load32_def)
  show d: "upde spaced 0x107000 d = (if d = 0 then 0x104007 else 0)" if "d < 768" for d
  proof -
    have "d < 1024" using that by (simp add: word_less_nat_alt)
    then show ?thesis by (simp add: upde_def spaced_def booted_phys_def load32_store32_entry spaced_consts z)
  qed
  assume n: "n < user_pages"
  note I = page_indices [OF n]
  have t: "load32 (phys spaced) (entry 0x104000 i) = (if i = 2 then 0x103007 else 0)" if "i < 1024" for i
    using that by (simp add: spaced_def booted_phys_def load32_store32_entry spaced_consts z)
  have "dir_of n = 0 \<and> idx_of n = 2 \<longleftrightarrow> n = 2"
  proof -
    have "dir_of 2 = 0" "idx_of 2 = 2" by (simp_all add: dir_of_def idx_of_def)
    then show ?thesis using page_of_indices [OF n, of 2] by (auto simp: user_pages_def)
  qed
  then show "upte spaced 0x107000 n = (if n = 2 then 0x103007 else 0)"
    using t [OF I(3)] d [OF I(1)] by (auto simp: upte_def utable_def spaced_consts)
qed

lemma spaced_uspace: "uspace spaced 0x107000"
proof -
  have used: "frame_used spaced 0x103000" "frame_used spaced 0x104000" "frame_used spaced 0x105000" "frame_used spaced 0x106000" "frame_used spaced 0x107000"
    by (simp_all add: frame_used_def spaced_pages spaced_consts)
  have d: "upde spaced 0x107000 d \<noteq> 0 \<longleftrightarrow> d = 0" "utable spaced 0x107000 0 = 0x104000" "upde spaced 0x107000 0 = 0x104007" if "d < 768" for d
    using spaced_entries(1) [OF that] spaced_entries(1) [of 0] by (simp_all add: utable_def spaced_consts)
  have n: "upte spaced 0x107000 n \<noteq> 0 \<longleftrightarrow> n = 2" "uframe spaced 0x107000 2 = 0x103000" "upte spaced 0x107000 2 = 0x103007" if "n < user_pages" for n
    using spaced_entries(2) [OF that] spaced_entries(2) [of 2] by (simp_all add: uframe_def spaced_consts user_pages_def)
  have "kbase spaced" using used by (simp add: kbase_def spaced_base spaced_pages)
  then show ?thesis unfolding uspace_def using used d n by (auto simp: spaced_base spaced_consts)
qed

lemma spaced_unmapped: "unmapped spaced 0x107000 = 1 # 3 # filter (\<lambda>n. uview spaced 0x107000 n = None) [4..<user_pages]"
proof -
  have "1 < user_pages" "2 < user_pages" "3 < user_pages" by (simp_all add: user_pages_def)
  note this [THEN upt_conv_Cons, unfolded Suc_1 Suc_numeral arith_simps]
  then have "[1..<user_pages] = [1, 2, 3] @ [4..<user_pages]" by (simp only: append.simps)
  moreover have "uview spaced 0x107000 1 = None" "uview spaced 0x107000 2 \<noteq> None" "uview spaced 0x107000 3 = None"
    by (simp_all add: uview_def spaced_entries(2) user_pages_def)
  ultimately show ?thesis by (simp add: unmapped_def)
qed

theorem sys_mmap_maps_lowest_witness:
  "\<exists>s'. sys_mmap 0x107000 8192 spaced = Some (0x1000, s') \<and> uspace s' 0x107000 \<and>
    (\<forall>n<user_pages. uview s' 0x107000 n = (if n \<in> {1, 3} then Some (\<lambda>_. 0) else uview spaced 0x107000 n)) \<and>
    (\<forall>n\<in>{1, 3}. \<forall>off<4096. \<forall>w. \<exists>a. translate (phys s') 0x107000 w (page_addr n + off) = Some a \<and> phys s' a = 0)"
proof -
  have "[1, 3] = take ((unat (8192 :: u32) + 4095) div 4096) (unmapped spaced 0x107000)" by (simp add: spaced_unmapped)
  from sys_mmap_maps_lowest [OF spaced_uspace this] show ?thesis by (simp add: spaced_pages page_addr_def)
qed

theorem sys_mmap_scatters_witness:
  "\<exists>s'. sys_mmap 0x107000 8192 spaced = Some (0x1000, s') \<and> uview spaced 0x107000 2 \<noteq> None \<and> uview s' 0x107000 2 = uview spaced 0x107000 2"
  using sys_mmap_scatters [OF spaced_uspace spaced_unmapped] unfolding one_add_one by (simp add: spaced_pages page_addr_def user_pages_def)

end
