(* ===== verification/User_Unmap.thy ===== *)
theory User_Unmap
  imports User_Space
begin

text \<open>
  \<open>munmap\<close> on the address space of a user program: the pages of a region behind one page table leave the address space
  and their frames become free.
\<close>

section \<open>One page less\<close>

lemma aligned_page_inject: "page_aligned f \<Longrightarrow> page_aligned g \<Longrightarrow> unat f div 4096 = unat g div 4096 \<Longrightarrow> f = g"
  by (metis page_addr_of_frame)

text \<open>An address space from which entries have been taken out, as long as the frames of the others are in use.\<close>

lemma uspace_shrink:
  assumes u: "uspace s pd" and k: "kbase s'" "same_kernel s s'" "frame_used s' pd"
    and D: "\<And>d. d < 768 \<Longrightarrow> upde s' pd d \<noteq> 0 \<Longrightarrow> upde s' pd d = upde s pd d \<and> frame_used s' (utable s pd d)"
    and N: "\<And>n. n < user_pages \<Longrightarrow> upte s' pd n \<noteq> 0 \<Longrightarrow> upte s' pd n = upte s pd n \<and> frame_used s' (uframe s pd n)"
  shows "uspace s' pd"
proof -
  note U = uspaceD [OF u]
  have wf: "win_frames s' = win_frames s" "boot_pt s' = boot_pt s" "kpd_phys s' = kpd_phys s" using k(2) by (auto simp: same_kernel_def win_frames_def)
  have T: "utable s' pd d = utable s pd d" if "d < 768" "upde s' pd d \<noteq> 0" for d using D [OF that] by (simp add: utable_def)
  have F: "uframe s' pd n = uframe s pd n" if "n < user_pages" "upte s' pd n \<noteq> 0" for n using N [OF that] by (simp add: uframe_def)
  show ?thesis unfolding uspace_def wf
  proof (intro conjI allI impI)
    fix d assume d: "d < 768" "upde s' pd d \<noteq> 0"
    then show "user_entry (upde s' pd d)" "frame_used s' (utable s' pd d)" "utable s' pd d \<notin> insert pd (win_frames s)"
      using D [OF d] T [OF d] U(6) [OF d(1)] by auto
  next
    fix d d' assume d: "d < 768" "d' < 768" "upde s' pd d \<noteq> 0" "upde s' pd d' \<noteq> 0" "utable s' pd d = utable s' pd d'"
    then show "d = d'" using D [OF d(1,3)] D [OF d(2,4)] T U(7) by metis
  next
    fix n assume n: "n < user_pages" "upte s' pd n \<noteq> 0"
    then show "user_entry (upte s' pd n)" "frame_used s' (uframe s' pd n)" "uframe s' pd n \<notin> insert pd (win_frames s)"
      using N [OF n] F [OF n] U(8) [OF n(1)] by auto
    fix d assume d: "d < 768" "upde s' pd d \<noteq> 0"
    then show "uframe s' pd n \<noteq> utable s' pd d" using N [OF n] F [OF n] D [OF d] T [OF d] U(9) [OF n(1) _ d(1)] n(2) by auto
  next
    fix n n' assume n: "n < user_pages" "n' < user_pages" "upte s' pd n \<noteq> 0" "upte s' pd n' \<noteq> 0" "uframe s' pd n = uframe s' pd n'"
    then show "n = n'" using N [OF n(1,3)] N [OF n(2,4)] F U(10) by metis
  qed (use k U(3,4) in auto)
qed

lemma uspace_drop:
  assumes u: "uspace s pd" and w: "win_wf s'" "closed s'" "pmm_inv s'" "same_kernel s s'" and n: "n < user_pages" "upte s pd n \<noteq> 0"
    and used: "used_pages s' = used_pages s - {unat (uframe s pd n) div 4096}"
    and D: "\<And>d. d < 768 \<Longrightarrow> upde s' pd d = upde s pd d" and N: "\<And>k. k < user_pages \<Longrightarrow> upte s' pd k = (if k = n then 0 else upte s pd k)"
  shows "uspace s' pd"
proof (rule uspace_shrink [OF u _ w(4)])
  note U = uspaceD [OF u] and P = uspaceD(8) [OF u n]
  have keep: "frame_used s' g" if "frame_used s g" "g \<noteq> uframe s pd n" for g
    using that aligned_page_inject [of g "uframe s pd n"] by (auto simp: frame_used_def used)
  have "win_frames s' = win_frames s" using w(4) by (rule same_kernel_frames)
  then show "kbase s'" using w(1-3) keep U(1) P by (auto simp: kbase_def)
  show "frame_used s' pd" using keep [OF U(2)] P by auto
  show "upde s' pd d = upde s pd d \<and> frame_used s' (utable s pd d)" if "d < 768" "upde s' pd d \<noteq> 0" for d
    using that D [OF that(1)] U(6) [OF that(1)] U(9) [OF n that(1)] keep [of "utable s pd d"] by auto
  show "upte s' pd k = upte s pd k \<and> frame_used s' (uframe s pd k)" if "k < user_pages" "upte s' pd k \<noteq> 0" for k
    using that N [OF that(1)] U(8) [OF that(1)] U(10) [OF that(1) n(1) _ n(2)] keep [of "uframe s pd k"] by (auto split: if_splits)
qed

lemma frame_div: "(e AND PAGE_MASK) div PAGE_SIZE = e div PAGE_SIZE"
proof -
  have "(unat e - unat e mod 4096) div 4096 = unat e div 4096" by (metis div_mult_self1_is_m minus_mod_eq_mult_div zero_less_numeral)
  then show ?thesis by (simp add: word_eq_iff_unat_u32 PAGE_SIZE_def unat_div unat_and_PAGE_MASK)
qed

lemma pmm_free_frame: "pmm_free e k s = pmm_free (e AND PAGE_MASK) k s"
  by (simp add: pmm_free_def frame_div)

text \<open>The entries after that of page \<open>n\<close> has been cleared.\<close>

lemma cleared_page:
  assumes u: "uspace s pd" and n: "n < user_pages" "upte s pd n \<noteq> 0" and ph: "phys s' = store32 (phys s) (entry (utable s pd (dir_of n)) (idx_of n)) 0"
  shows "d < 768 \<Longrightarrow> upde s' pd d = upde s pd d" and "k < user_pages \<Longrightarrow> upte s' pd k = (if k = n then 0 else upte s pd k)"
proof -
  note U = uspaceD [OF u] and I = page_indices [OF n(1)]
  have d: "upde s pd (dir_of n) \<noteq> 0" using n(2) by (auto simp: upte_def)
  let ?f = "utable s pd (dir_of n)" and ?i = "idx_of n"
  have E: "load32 (phys s') (entry h j) = (if h = ?f \<and> j = ?i then 0 else load32 (phys s) (entry h j))" if "page_aligned h" "j < 1024" for h j
    using that I(3) by (simp add: ph load32_store32_entry)
  show D: "upde s' pd d = upde s pd d" if "d < 768" for d
    using that U(6) [OF I(1) d] U(5) E [of pd d] by (auto simp: upde_def word_less_nat_alt)
  assume k: "k < user_pages"
  show "upte s' pd k = (if k = n then 0 else upte s pd k)"
  proof (cases "upde s pd (dir_of k) = 0")
    case True
    then show ?thesis using D [OF page_indices(1) [OF k]] d by (auto simp: upte_def)
  next
    case False
    note K = page_indices [OF k]
    have "utable s pd (dir_of k) = ?f \<and> idx_of k = ?i \<longleftrightarrow> k = n" using U(7) [OF K(1) I(1) False d] page_of_indices [OF k n(1)] by auto
    then show ?thesis using E [of "utable s pd (dir_of k)" "idx_of k"] K(3) D [OF K(1)] False by (auto simp: upte_def utable_def)
  qed
qed

lemma drop_page:
  assumes u: "uspace s pd" and n: "n < user_pages" "upte s pd n \<noteq> 0"
  obtains t s1 s2 s3 where "map_tmp_page (upde s pd (dir_of n)) s = Some (tmp_map_addr s, t)" "vload32 (entry (tmp_map_addr s) (idx_of n)) t = Some (upte s pd n)"
    "vstore32 (entry (tmp_map_addr s) (idx_of n)) 0 t = Some s1" "unmap_tmp_page s1 = Some s2" "pmm_free (upte s pd n) 1 s2 = Some s3" "uspace s3 pd"
    "upde s3 pd (dir_of n) = upde s pd (dir_of n)" "\<forall>k<user_pages. uview s3 pd k = (if k = n then None else uview s pd k)"
    "free_pages s3 = insert (unat (uframe s pd n) div 4096) (free_pages s)" "\<forall>k<user_pages. upte s3 pd k = (if k = n then 0 else upte s pd k)"
proof -
  note U = uspaceD [OF u] and I = page_indices [OF n(1)] and P = uspaceD(8) [OF u n]
  have w: "win_wf s" "closed s" "pmm_inv s" using U(1) by (simp_all add: kbase_def)
  have d: "upde s pd (dir_of n) \<noteq> 0" using n(2) by (auto simp: upte_def)
  let ?f = "utable s pd (dir_of n)" and ?i = "idx_of n" and ?x = "unat (uframe s pd n) div 4096"
  note T = U(6) [OF I(1) d]
  have mw: "may_write s ?f ?i" using T I(3) by (intro may_write_fresh) auto
  let ?M = "store32 (phys s) (entry ?f ?i) 0" and ?t = "opened ?f s"
  let ?s1 = "?t\<lparr>phys := store32 ?M (slot s) (?f OR 3)\<rparr>"
  let ?s2 = "?s1\<lparr>phys := ?M, invlpg_log := invlpg_log ?s1 @ [tmp_map_addr s]\<rparr>"
  have m: "map_tmp_page (upde s pd (dir_of n)) s = Some (tmp_map_addr s, ?t)" using map_tmp_page_eq [OF w(1)] by (simp add: utable_def)
  have l: "vload32 (entry (tmp_map_addr s) ?i) ?t = Some (upte s pd n)" using window_write(1) [OF w(1,2) mw, of ?t] d by (simp add: same_win_def upte_def)
  have st: "vstore32 (entry (tmp_map_addr s) ?i) 0 ?t = Some ?s1" by (rule window_write(2) [OF w(1,2) mw]) (simp add: same_win_def)
  have um: "unmap_tmp_page ?s1 = Some ?s2" by (rule window_write(3) [OF w(1,2) mw]) (simp add: same_win_def)
  let ?L = "invlpg_log s @ [tmp_map_addr s, tmp_map_addr s]"
  have e: "?s2 = s\<lparr>phys := ?M, invlpg_log := ?L\<rparr>" by simp
  note wk = write_keeps [OF w(1,2) mw, where v = 0 and l = ?L, folded e]
  have pm: "pmm_inv ?s2" "free_pages ?s2 = free_pages s" "used_pages ?s2 = used_pages s" "page_count ?s2 = page_count s"
    using pmm_cong [of ?s2 s] w(3) by simp_all
  have x: "?x < page_count ?s2" "page_addr ?x = uframe s pd n"
    unfolding pm(4) using P page_addr_of_frame [of "uframe s pd n"] by (auto simp: frame_used_def used_pages_def)
  obtain arr where fr: "pmm_free (page_addr ?x) 1 ?s2 = Some (?s2\<lparr>bitmap := arr\<rparr>)" "pmm_inv (?s2\<lparr>bitmap := arr\<rparr>)"
      "free_pages (?s2\<lparr>bitmap := arr\<rparr>) = insert ?x (free_pages ?s2)" "used_pages (?s2\<lparr>bitmap := arr\<rparr>) = used_pages ?s2 - {?x}"
    by (rule pmm_free_one [OF pm(1) x(1)])
  let ?s3 = "?s2\<lparr>bitmap := arr\<rparr>"
  have free: "pmm_free (upte s pd n) 1 ?s2 = Some ?s3" using fr(1) unfolding pmm_free_frame [of "upte s pd n"] uframe_def [symmetric] x(2) .
  have ph: "phys ?s3 = ?M" by simp
  note C = cleared_page [OF u n ph]
  have D: "upde ?s3 pd d = upde s pd d" if "d < 768" for d using C(1) that by blast
  have N: "upte ?s3 pd k = (if k = n then 0 else upte s pd k)" if "k < user_pages" for k using C(2) that by blast
  have sk: "same_kernel s ?s3" using store_keeps_win(2) [OF w(1) mw, of 0] by (simp add: same_kernel_def kpd_phys_def boot_pt_def)
  show thesis
  proof (rule that [OF m l st um free])
    show "uspace ?s3 pd" by (rule uspace_drop [OF u _ _ fr(2) sk n _ D N]) (use wk fr(4) pm(3) in simp_all)
    show "upde ?s3 pd (dir_of n) = upde s pd (dir_of n)" by (rule D [OF I(1)])
    show "\<forall>k<user_pages. upte ?s3 pd k = (if k = n then 0 else upte s pd k)" using N by blast
    show "free_pages ?s3 = insert ?x (free_pages s)" using fr(3) pm(2) by simp
    have "uview ?s3 pd k = (if k = n then None else uview s pd k)" if k: "k < user_pages" for k
    proof (cases "upte s pd k = 0 \<or> k = n")
      case True
      then show ?thesis using N [OF k] by (auto simp: uview_def)
    next
      case False
      have "?M (uframe s pd k + off) = phys s (uframe s pd k + off)" if off: "off < 4096" for off
      proof (rule store32_other_frame)
        show "(uframe s pd k + off) AND PAGE_MASK \<noteq> ?f" using frame_offset [OF _ off, of "uframe s pd k"] U(9) [OF k _ I(1) d] False by simp
      qed (use I(3) in simp_all)
      then show ?thesis using False N [OF k] ph by (auto simp: uview_def uframe_def fun_eq_iff)
    qed
    then show "\<forall>k<user_pages. uview ?s3 pd k = (if k = n then None else uview s pd k)" by blast
  qed
qed

section \<open>munmap\<close>

lemma invlpg_space [simp]:
  "upde (invlpg a s) pd d = upde s pd d" "uview (invlpg a s) pd n = uview s pd n" "free_pages (invlpg a s) = free_pages s" "uspace (invlpg a s) pd = uspace s pd"
  "upte (invlpg a s) pd n = upte s pd n" "uframe (invlpg a s) pd n = uframe s pd n"
  by (simp_all add: invlpg_def)

text \<open>The inner loop, as long as it has pages to remove and stays in its table.\<close>

lemma munmap_table:
  assumes "uspace s pd" and "D < 768" and "j + r \<le> 1024" and "unat cur + r = unat tp" and "\<And>q. q < r \<Longrightarrow> upte s pd (D * 1024 + j + q) \<noteq> 0"
  shows "\<exists>s'. sys_munmap_table [j..<1024] (of_nat D) (upde s pd (of_nat D)) tp cur s = Some (tp, s') \<and> uspace s' pd \<and>
    (\<forall>n<user_pages. uview s' pd n = (if D * 1024 + j \<le> n \<and> n < D * 1024 + j + r then None else uview s pd n)) \<and>
    free_pages s' = free_pages s \<union> (\<lambda>q. unat (uframe s pd (D * 1024 + j + q)) div 4096) ` {..<r}"
  using assms
proof (induction r arbitrary: j cur s)
  case 0
  then have "cur = tp" by (simp add: word_eq_iff_unat_u32)
  then show ?case using 0 by (cases "[j..<1024]") auto
next
  case (Suc r)
  let ?n = "D * 1024 + j"
  have j: "j < 1024" using Suc.prems(3) by simp
  have n: "?n < user_pages" using Suc.prems(2) j by (simp add: user_pages_def)
  have I: "dir_of ?n = of_nat D" "idx_of ?n = of_nat j" using j by (simp_all add: dir_of_def idx_of_def)
  have m: "upte s pd ?n \<noteq> 0" using Suc.prems(5) [of 0] by simp
  obtain t s1 s2 s3 where a: "map_tmp_page (upde s pd (dir_of ?n)) s = Some (tmp_map_addr s, t)" "vload32 (entry (tmp_map_addr s) (idx_of ?n)) t = Some (upte s pd ?n)"
      "vstore32 (entry (tmp_map_addr s) (idx_of ?n)) 0 t = Some s1" "unmap_tmp_page s1 = Some s2" "pmm_free (upte s pd ?n) 1 s2 = Some s3" and u3: "uspace s3 pd"
      and e3: "upde s3 pd (dir_of ?n) = upde s pd (dir_of ?n)" and v3: "\<forall>k<user_pages. uview s3 pd k = (if k = ?n then None else uview s pd k)"
      and f3: "free_pages s3 = insert (unat (uframe s pd ?n) div 4096) (free_pages s)" and p3: "\<forall>k<user_pages. upte s3 pd k = (if k = ?n then 0 else upte s pd k)"
    by (rule drop_page [OF Suc.prems(1) n m])
  have "unat tp < 4294967296" by simp
  then have "unat cur + 1 < 4294967296" using Suc.prems(4) by linarith
  then have c: "unat (cur + 1) = unat cur + 1" "\<not> tp \<le> cur" using Suc.prems(4) unat_add_u32 [of cur 1] by (auto simp: word_le_nat_alt)
  let ?s = "invlpg (push_bit 22 (of_nat D) OR push_bit 12 (of_nat j)) s3"
  have step: "sys_munmap_table [j..<1024] (of_nat D) (upde s pd (of_nat D)) tp cur s = sys_munmap_table [Suc j..<1024] (of_nat D) (upde ?s pd (of_nat D)) tp (cur + 1) ?s"
    using a c(2) e3 unfolding I upt_conv_Cons [OF j] by simp
  have q: "D * 1024 + Suc j + q < user_pages \<and> upte ?s pd (D * 1024 + Suc j + q) = upte s pd (D * 1024 + j + Suc q)" if "q < r" for q
    using that Suc.prems(2,3) p3 by (simp add: user_pages_def)
  have "\<exists>s'. sys_munmap_table [Suc j..<1024] (of_nat D) (upde ?s pd (of_nat D)) tp (cur + 1) ?s = Some (tp, s') \<and> uspace s' pd \<and>
    (\<forall>n<user_pages. uview s' pd n = (if D * 1024 + Suc j \<le> n \<and> n < D * 1024 + Suc j + r then None else uview ?s pd n)) \<and>
    free_pages s' = free_pages ?s \<union> (\<lambda>q. unat (uframe ?s pd (D * 1024 + Suc j + q)) div 4096) ` {..<r}"
  proof (rule Suc.IH)
    show "upte ?s pd (D * 1024 + Suc j + q) \<noteq> 0" if "q < r" for q using q [OF that] Suc.prems(5) [of "Suc q"] that by simp
  qed (use Suc.prems(2-4) u3 c(1) in simp_all)
  moreover have "(\<lambda>q. unat (uframe ?s pd (D * 1024 + Suc j + q)) div 4096) ` {..<r} = (\<lambda>q. unat (uframe s pd (D * 1024 + j + q)) div 4096) ` Suc ` {..<r}"
    unfolding image_image using q by (intro image_cong) (simp_all add: uframe_def)
  moreover have "{..<Suc r} = insert 0 (Suc ` {..<r})" by (rule lessThan_Suc_eq_insert_0)
  ultimately show ?case unfolding step using v3 f3 by auto
qed

text \<open>The outer loop reads the rest of the directory and does nothing.\<close>

lemma munmap_table_done: "tp \<le> cur \<Longrightarrow> sys_munmap_table js i pt tp cur s = Some (cur, s)"
  by (cases js) auto

lemma munmap_dirs_done:
  assumes "kbase s" and "pd AND PAGE_MASK \<noteq> boot_pt s" and "\<And>i. i \<in> set is \<Longrightarrow> i < 1024" and "tp \<le> cur"
  shows "\<exists>l. sys_munmap_dirs is pd p tp cur s = Some (s\<lparr>invlpg_log := l\<rparr>)"
  using assms
proof (induction "is" arbitrary: s)
  case Nil
  then show ?case by (intro exI [of _ "invlpg_log s"]) simp
next
  case (Cons i "is")
  have w: "win_wf s" "closed s" using Cons.prems(1) by (simp_all add: kbase_def)
  have "(of_nat i :: u32) < 1024" using Cons.prems(3) [of i] by (simp add: word_less_nat_alt unat_of_nat_u32)
  then obtain e l where r: "read_entry pd (of_nat i) s = Some (e, s\<lparr>invlpg_log := l\<rparr>)" using read_entry_eq [OF w _ Cons.prems(2)] by blast
  have "\<exists>l'. sys_munmap_dirs is pd p tp cur (s\<lparr>invlpg_log := l\<rparr>) = Some (s\<lparr>invlpg_log := l\<rparr>\<lparr>invlpg_log := l'\<rparr>)"
    using Cons.prems by (intro Cons.IH) simp_all
  then show ?case by (simp add: r munmap_table_done [OF Cons.prems(4)])
qed

text \<open>
  C31: \<open>munmap\<close> of a region that one page table covers and in which every page is mapped returns 0. Exactly its pages
  leave the address space, their frames become free, every other page keeps its bytes, and the address space is in
  order. The length must not wrap when it is rounded up.
\<close>

theorem sys_munmap_releases:
  assumes "uspace s pd" and "n < user_pages" and "k = (unat len + 4095) div 4096" and "n mod 1024 + k \<le> 1024" and "unat len < 4294963201"
    and "\<forall>q<k. uview s pd (n + q) \<noteq> None"
  shows "\<exists>s'. sys_munmap pd (page_addr n) len s = Some (0, s') \<and> uspace s' pd \<and>
    (\<forall>i<user_pages. uview s' pd i = (if n \<le> i \<and> i < n + k then None else uview s pd i)) \<and>
    free_pages s' = free_pages s \<union> (\<lambda>q. unat (uframe s pd (n + q)) div 4096) ` {..<k}"
proof -
  let ?D = "n div 1024" and ?j = "n mod 1024"
  note U = uspaceD [OF assms(1)] and I = page_indices [OF assms(2)]
  have D: "?D < 768" "?D < 1024" using assms(2) by (simp_all add: user_pages_def less_mult_imp_div_less)
  have nn: "?D * 1024 + ?j = n" by simp
  have nb: "n < 1048576" using assms(2) by (simp add: user_pages_def)
  have ix: "unat (PDE_INDEX (page_addr n)) = ?D" "unat (PTE_INDEX (page_addr n)) = ?j"
    using unat_page_addr [OF nb] by (simp_all add: unat_PDE_INDEX unat_PTE_INDEX div_4194304)
  have tp: "unat (0 :: u32) + k = unat (pages_required len)" using unat_pages_required [of len] assms(3,5) by simp
  have up: "upte s pd (?D * 1024 + ?j + q) \<noteq> 0" if "q < k" for q using assms(6) that unfolding nn by (auto simp: uview_def)
  have pd: "pd AND PAGE_MASK = pd" by (rule mask_page_aligned [OF U(5)])
  have w: "win_wf s" "closed s" using U(1) by (simp_all add: kbase_def)
  obtain l where r: "read_entry pd (of_nat ?D) s = Some (upde s pd (of_nat ?D), s\<lparr>invlpg_log := l\<rparr>)"
    using read_entry_eq [OF w, of "of_nat ?D" pd] I(2) U(3) by (auto simp: pd upde_def dir_of_def)
  let ?s = "s\<lparr>invlpg_log := l\<rparr>"
  obtain s1 where s1: "sys_munmap_table [?j..<1024] (of_nat ?D) (upde s pd (of_nat ?D)) (pages_required len) 0 ?s = Some (pages_required len, s1)" "uspace s1 pd"
      "\<forall>i<user_pages. uview s1 pd i = (if n \<le> i \<and> i < n + k then None else uview s pd i)"
      "free_pages s1 = free_pages s \<union> (\<lambda>q. unat (uframe s pd (n + q)) div 4096) ` {..<k}"
    using munmap_table [OF _ D(1) assms(4) tp, of ?s pd] assms(1) up unfolding nn by auto
  note U1 = uspaceD [OF s1(2)]
  obtain l' where rest: "sys_munmap_dirs [Suc ?D..<1024] pd ?j (pages_required len) (pages_required len) s1 = Some (s1\<lparr>invlpg_log := l'\<rparr>)"
    using munmap_dirs_done [OF U1(1), of pd "[Suc ?D..<1024]" "pages_required len" "pages_required len" ?j] U1(3) pd by auto
  have "sys_munmap pd (page_addr n) len s = Some (0, s1\<lparr>invlpg_log := l'\<rparr>)"
    unfolding sys_munmap_def ix upt_conv_Cons [OF D(2)] by (simp add: r s1(1) rest)
  then show ?thesis using s1(2-4) by simp
qed

theorem sys_munmap_releases_witness:
  "\<exists>s'. sys_munmap 0x107000 0x2000 4096 spaced = Some (0, s') \<and> uspace s' 0x107000 \<and>
    (\<forall>i<user_pages. uview s' 0x107000 i = (if 2 \<le> i \<and> i < 2 + 1 then None else uview spaced 0x107000 i)) \<and>
    free_pages s' = free_pages spaced \<union> (\<lambda>q. unat (uframe spaced 0x107000 (2 + q)) div 4096) ` {..<1}"
proof -
  have "page_addr 2 = 0x2000" by (simp add: page_addr_def)
  moreover have "uview spaced 0x107000 2 \<noteq> None" by (simp add: uview_def spaced_entries(2) user_pages_def)
  ultimately show ?thesis using sys_munmap_releases [OF spaced_uspace, of 2 1 4096] by (simp add: user_pages_def)
qed

end
