(* ===== verification/Malloc_First.thy ===== *)
theory Malloc_First
  imports Malloc_Run User_Space Frames
begin

text \<open>
  The first \<open>malloc\<close> of a program, from the system call down to the page tables: the pages \<open>mmap\<close> has added to the
  address space are a memory of their own, and the page block laid out in them is in order.
\<close>

section \<open>Mapped pages are a user area\<close>

definition upa :: "'a mem_state_scheme \<Rightarrow> addr \<Rightarrow> addr \<Rightarrow> addr" where
  "upa s pd a = uframe s pd (unat a div 4096) + (a AND 0xFFF)"

lemma offset_bound: "a AND 0xFFF < (4096 :: u32)" "unat (a AND (0xFFF :: u32)) < 4096"
  by (simp_all add: word_less_nat_alt unat_and_0xFFF)

lemma upa_page: "upa s pd a AND PAGE_MASK = uframe s pd (unat a div 4096)"
  unfolding upa_def by (rule frame_offset) (simp_all add: offset_bound)

lemma addr_page: "a = page_addr (unat a div 4096) + (a AND 0xFFF)"
proof -
  have n: "unat a div 4096 < 1048576" using unat_u32_less [of a] by (simp add: less_mult_imp_div_less)
  have "unat (page_addr (unat a div 4096) + (a AND 0xFFF)) = unat a div 4096 * 4096 + unat a mod 4096"
    using unat_page_offset [OF page_aligned_page_addr [OF n] offset_bound(2)] unat_page_addr [OF n] by (simp add: unat_and_0xFFF)
  then show ?thesis by (simp add: word_eq_iff_unat_u32)
qed

lemma add_in_page:
  assumes "(x :: nat) mod 4096 + j < 4096"
  shows "(x + j) div 4096 = x div 4096" "(x + j) mod 4096 = x mod 4096 + j"
proof -
  have x: "x + j = 4096 * (x div 4096) + (x mod 4096 + j)" by simp
  have "(4096 * (x div 4096) + (x mod 4096 + j)) div 4096 = x div 4096 + (x mod 4096 + j) div 4096" by (rule div_mult_self4) simp
  then show "(x + j) div 4096 = x div 4096" using x div_less [OF assms] by (simp only: add_0_right)
  show "(x + j) mod 4096 = x mod 4096 + j" using assms by (metis mod_add_left_eq mod_less)
qed

lemma mapped_area:
  assumes u: "uspace s pd" and "cr3 s = pd" and "i + k \<le> user_pages" and mp: "\<And>n. i \<le> n \<Longrightarrow> n < i + k \<Longrightarrow> upte s pd n \<noteq> 0"
  shows "user_area s (upa s pd) (i * 4096) ((i + k) * 4096)"
proof -
  note U = uspaceD [OF u]
  let ?A = "addrs (i * 4096) ((i + k) * 4096)"
  have pg: "i \<le> unat a div 4096" "unat a div 4096 < i + k" "unat a div 4096 < user_pages" if "a \<in> ?A" for a
  proof -
    have "i * 4096 \<le> unat a" "unat a < (i + k) * 4096" using that by (simp_all add: addrs_def)
    then show "i \<le> unat a div 4096" "unat a div 4096 < i + k" by (simp_all add: less_eq_div_iff_mult_less_eq less_mult_imp_div_less)
    then show "unat a div 4096 < user_pages" using assms(3) by simp
  qed
  have inj: "a = b" if ab: "a \<in> ?A" "b \<in> ?A" "upa s pd a = upa s pd b" for a b
  proof -
    have "uframe s pd (unat a div 4096) = uframe s pd (unat b div 4096)" using ab(3) by (metis upa_page)
    then have "unat a div 4096 = unat b div 4096" using U(10) pg [OF ab(1)] pg [OF ab(2)] mp by metis
    moreover from this ab(3) have "a AND 0xFFF = b AND 0xFFF" by (simp add: upa_def)
    ultimately show ?thesis using addr_page [of a] addr_page [of b] by metis
  qed
  have word: "upa s pd (a + j) = upa s pd a + j" if a: "a \<in> ?A" "4 dvd unat a" and j: "j \<in> {1, 2, 3}" for a j
  proof -
    have "4 dvd unat a mod 4096" using a(2) by (simp add: dvd_mod)
    then obtain c where c: "unat a mod 4096 = 4 * c" by (elim dvdE)
    then have "c < 1024" using mod_less_divisor [of 4096 "unat a"] by simp
    then have o: "unat a mod 4096 + unat j < 4096" "unat j < 4" using c j by auto
    have "(unat a + unat j) div 4096 = unat a div 4096" "(unat a + unat j) mod 4096 = unat a mod 4096 + unat j"
      using add_in_page [OF o(1)] by simp_all
    moreover have "unat a div 4096 < 786432" using pg(3) [OF a(1)] by (simp add: user_pages_def)
    then have "unat a < 3221225472" by (simp add: div_less_iff_less_mult)
    then have "unat (a + j) = unat a + unat j" using o(2) by (intro unat_add_u32) simp
    ultimately have e: "unat (a + j) div 4096 = unat a div 4096" "(a + j) AND 0xFFF = (a AND 0xFFF) + j"
      using o unat_add_u32 [of "a AND 0xFFF" j] by (simp_all add: word_eq_iff_unat_u32 unat_and_0xFFF)
    then show ?thesis by (simp add: upa_def)
  qed
  have walk: "translate m pd w a = Some (upa s pd a)" if m: "\<forall>x. x \<notin> upa s pd ` ?A \<longrightarrow> m x = phys s x" and a: "a \<in> ?A" for m w a
  proof -
    let ?n = "unat a div 4096"
    note p = pg [OF a] and I = page_indices [OF pg(3) [OF a]]
    have t: "upte s pd ?n \<noteq> 0" using mp p by blast
    then have d: "upde s pd (dir_of ?n) \<noteq> 0" by (auto simp: upte_def)
    have keep: "load32 m (entry g j) = load32 (phys s) (entry g j)" if "page_aligned g" "j < 1024" "\<And>n. n < user_pages \<Longrightarrow> upte s pd n \<noteq> 0 \<Longrightarrow> uframe s pd n \<noteq> g" for g j
    proof (rule load32_frame_cong [OF that(1,2)])
      fix x assume x: "x AND PAGE_MASK = g"
      have "x \<notin> upa s pd ` ?A"
      proof
        assume "x \<in> upa s pd ` ?A"
        then obtain b where b: "b \<in> ?A" "x = upa s pd b" by blast
        then show False using x that(3) [OF pg(3) [OF b(1)] mp [OF pg(1,2) [OF b(1)]]] upa_page [of s pd b] by simp
      qed
      then show "m x = phys s x" using m by blast
    qed
    have 1: "load32 m (entry pd (dir_of ?n)) = upde s pd (dir_of ?n)" unfolding upde_def using U(5,8) I(2) by (intro keep) auto
    have 2: "load32 m (entry (utable s pd (dir_of ?n)) (idx_of ?n)) = upte s pd ?n"
      using keep [of "utable s pd (dir_of ?n)" "idx_of ?n"] U(9) [OF _ _ I(1) d] I(3) d by (simp add: upte_def)
    have "translate m pd w (page_addr ?n + (a AND 0xFFF)) = Some ((upte s pd ?n AND PAGE_MASK) + (a AND 0xFFF))"
      using walk_entries [OF U(5) p(3) offset_bound(1) 1 _ _, of "upte s pd ?n"] 2 U(6) [OF I(1) d] U(8) [OF p(3) t] by (simp add: utable_def)
    then show ?thesis unfolding addr_page [symmetric] upa_def uframe_def .
  qed
  have "4 dvd i * 4096" "4 dvd (i + k) * 4096" by (simp_all add: dvd_mult)
  moreover have "(i + k) * 4096 \<le> 4294967296" using assms(3) by (simp add: user_pages_def)
  ultimately show ?thesis unfolding user_area_def assms(2) using inj word walk by (simp add: inj_on_def)
qed

section \<open>The system call\<close>

lemma mem_rest_new_page: "sys_mmap_new_page pt i s = Some s' \<Longrightarrow> mem_rest s' = mem_rest s"
  unfolding sys_mmap_new_page_def by (elim bind_pair_SomeE bind_SomeE) (auto dest!: mem_rests)

lemma mem_rest_sys_mmap_entry: "sys_mmap_entry pd d i c a s = Some (r, s') \<Longrightarrow> mem_rest s' = mem_rest s"
  unfolding sys_mmap_entry_def Let_def by (elim bind_pair_SomeE bind_SomeE if_SomeE) (auto dest!: mem_rests mem_rest_new_page)

lemma mem_rest_sys_mmap: "sys_mmap pd len s = Some (r, s') \<Longrightarrow> mem_rest s' = mem_rest s"
proof -
  have "sys_mmap_loop ns pd k c a s = Some (r, s') \<Longrightarrow> mem_rest s' = mem_rest s" for ns k c a r and s s' :: "'a mem_state_scheme"
  proof (induction ns arbitrary: c a s)
    case (Cons n ns)
    then obtain c' a' s1 where "sys_mmap_entry pd (of_nat (n div 1024)) (of_nat (n mod 1024)) c a s = Some ((c', a'), s1)"
        "s' = s1 \<or> sys_mmap_loop ns pd k c' a' s1 = Some (r, s')"
      by (auto simp: bind_Some_iff split: if_splits)
    then show ?case using Cons.IH [of c' a' s1] mem_rest_sys_mmap_entry by metis
  qed simp
  then show "sys_mmap pd len s = Some (r, s') \<Longrightarrow> mem_rest s' = mem_rest s" unfolding sys_mmap_def Let_def .
qed

lemma user_mmap_runs:
  assumes "current_cr3 s = Some pd" and "sys_mmap pd len s = Some (r, s')"
  shows "user_mmap frame regs a len s = Some (r, s')"
proof -
  have "syscall_handler frame (regs\<lparr>ctx_eax := 9, ctx_ebx := a, ctx_ecx := len, ctx_edx := ctx_edx regs\<rparr>) s =
      Some (Returns (regs\<lparr>ctx_eax := 9, ctx_ebx := a, ctx_ecx := len, ctx_edx := ctx_edx regs\<rparr>\<lparr>ctx_eax := r\<rparr>) s')"
    using assms by (simp add: syscall_handler_def SYS_EXIT_def SYS_READ_def SYS_WRITE_def SYS_MMAP_def returns_def)
  then show ?thesis by (simp add: user_mmap_def int80_def result_def)
qed

section \<open>A new page block\<close>

definition page_init :: "addr \<Rightarrow> u32 \<Rightarrow> memory \<Rightarrow> memory" where
  "page_init p og m = store32 (store32 (store32 (store32 (store32 (store32 m p og) (p + 4) (og - 24)) (p + 12) NULL) (p + 16) NULL) (p + 20) NULL) (p + 8) (p + 24)"

lemma page_init_fields:
  assumes "unat p + 24 \<le> 4294967296"
  shows "load32 (page_init p og m) p = og" "load32 (page_init p og m) (p + 4) = og - 24" "load32 (page_init p og m) (p + 8) = p + 24"
    "load32 (page_init p og m) (p + 12) = NULL"
proof -
  have u: "unat (p + 4) = unat p + 4" "unat (p + 8) = unat p + 8" "unat (p + 12) = unat p + 12" "unat (p + 16) = unat p + 16" "unat (p + 20) = unat p + 20"
    using assms by (simp_all add: unat_add_u32)
  show "load32 (page_init p og m) p = og" "load32 (page_init p og m) (p + 4) = og - 24" "load32 (page_init p og m) (p + 8) = p + 24"
    "load32 (page_init p og m) (p + 12) = NULL"
    unfolding page_init_def using assms by (simp_all add: u load32_store32_range)
qed

lemma alloc_page_block_runs:
  assumes mm: "user_mmap frame regs NULL n s = Some (p, s1)" and h: "holds s0 pa lo hi m s1" and p: "struct_in lo hi p 24"
    and og: "og = PAGE_SIZE * user_pages_required n"
  shows "\<exists>s2. alloc_page_block frame regs n s = Some (p, s2) \<and> holds s0 pa lo hi (page_init p og m) s2"
proof -
  note f = struct_field(2) [OF p holds_bounds [OF h]]
  have a: "in_area lo hi p" "in_area lo hi (p + 4)" "in_area lo hi (p + 8)" "in_area lo hi (p + 12)" "in_area lo hi (p + 16)" "in_area lo hi (p + 20)"
    using f [of 0] f [of 4] f [of 8] f [of 12] f [of 16] f [of 20] by simp_all
  obtain t1 where t1: "vstore32 p og s1 = Some t1" "holds s0 pa lo hi (store32 m p og) t1" using holds_store32 [OF h a(1)] by blast
  obtain t2 where t2: "vstore32 (p + 4) (og - 24) t1 = Some t2" "holds s0 pa lo hi (store32 (store32 m p og) (p + 4) (og - 24)) t2" using holds_store32 [OF t1(2) a(2)] by blast
  obtain t3 where t3: "vstore32 (p + 12) NULL t2 = Some t3" "holds s0 pa lo hi (store32 (store32 (store32 m p og) (p + 4) (og - 24)) (p + 12) NULL) t3"
    using holds_store32 [OF t2(2) a(4)] by blast
  obtain t4 where t4: "vstore32 (p + 16) NULL t3 = Some t4" "holds s0 pa lo hi (store32 (store32 (store32 (store32 m p og) (p + 4) (og - 24)) (p + 12) NULL) (p + 16) NULL) t4"
    using holds_store32 [OF t3(2) a(5)] by blast
  obtain t5 where t5: "vstore32 (p + 20) NULL t4 = Some t5" "holds s0 pa lo hi (store32 (store32 (store32 (store32 (store32 m p og) (p + 4) (og - 24)) (p + 12) NULL) (p + 16) NULL) (p + 20) NULL) t5"
    using holds_store32 [OF t4(2) a(6)] by blast
  obtain t6 where t6: "vstore32 (p + 8) (p + 24) t5 = Some t6" "holds s0 pa lo hi (page_init p og m) t6" using holds_store32 [OF t5(2) a(3)] unfolding page_init_def by blast
  have "alloc_page_block frame regs n s = Some (p, t6)"
    using mm t1(1) t2(1) t3(1) t4(1) t5(1) t6(1) by (simp add: alloc_page_block_def malloc_consts Let_def og)
  then show ?thesis using t6(2) by blast
qed

text \<open>A new page block is an arena without blocks.\<close>

lemma arena_init:
  assumes "8 dvd unat p" and "p \<noteq> NULL" and "lo \<le> unat p" and "unat p + unat og \<le> hi" and "hi < 4294967296" and "24 \<le> unat og"
  shows "arena lo hi (page_init p og m) p [] []"
proof -
  have lim: "unat p + 24 \<le> 4294967296" using assms(4-6) by simp
  note F = page_init_fields [OF lim, of og m]
  have "unat (p + 24) = unat p + 24" "unat (og - 24) = unat og - 24" using assms(4-6) by (simp_all add: unat_add_u32 unat_sub word_le_nat_alt)
  then show ?thesis by (intro arenaI) (use assms F in simp_all)
qed

section \<open>The first allocation\<close>

lemma holds_pool:
  fixes s :: "'a user_state_scheme"
  assumes "holds s0 pa lo hi m s"
  shows "holds (s\<lparr>mem_pool := p\<rparr>) pa lo hi m (s\<lparr>mem_pool := p\<rparr>)"
proof -
  have "user_area (s\<lparr>mem_pool := p\<rparr>) pa lo hi" using assms by (simp add: holds_def user_area_def)
  moreover have "\<forall>a \<in> addrs lo hi. phys (s\<lparr>mem_pool := p\<rparr>) (pa a) = m a" using assms by (simp add: holds_def)
  moreover have "s\<lparr>mem_pool := p\<rparr> = s\<lparr>mem_pool := p\<rparr>\<lparr>phys := phys s\<rparr>" by simp
  ultimately show ?thesis unfolding holds_def by blast
qed

lemma unat_page_block:
  assumes "unat len + 4095 < 4294967296" and "k = (unat len + 4095) div 4096"
  shows "unat (PAGE_SIZE * user_pages_required len) = k * 4096" "unat len \<le> k * 4096" "k < 1048576"
proof -
  have k: "unat (user_pages_required len) = k" using unat_pages_required [OF assms(1)] assms(2) by (simp add: user_pages_required_def pages_required_def)
  show l: "k < 1048576" using assms by (simp add: less_mult_imp_div_less)
  then show "unat (PAGE_SIZE * user_pages_required len) = k * 4096" using unat_mult_u32 [of PAGE_SIZE "user_pages_required len"] k by (simp add: PAGE_SIZE_def)
  show "unat len \<le> k * 4096" using ceil_div_4096 [of "unat len"] div_mult_mod_eq [of "unat len" 4096] mod_less_divisor [of 4096 "unat len"] assms(2)
    by (auto split: if_splits)
qed

text \<open>What \<open>mmap\<close> gives the allocator: adjacent pages that are a memory of their own.\<close>

lemma user_mmap_area:
  fixes s :: "'a tty_state_scheme"
  assumes "uspace s pd" and "cr3 s = pd" and "current_cr3 s = Some pd" and "len \<noteq> 0" and k: "k = (unat len + 4095) div 4096"
    and un: "unmapped s pd = [i..<i + k] @ js" and "2 * k \<le> card (free_pages s)"
  obtains s1 where "user_mmap frame regs a len s = Some (page_addr i, s1)" "holds s1 (upa s1 pd) (i * 4096) ((i + k) * 4096) (\<lambda>a. phys s1 (upa s1 pd a)) s1"
    "0 < k" "1 \<le> i" "i + k \<le> user_pages"
proof -
  have "unat len \<noteq> 0" using assms(4) by (simp add: unat_eq_0)
  then have k0: "0 < k" unfolding k by (simp add: div_greater_zero_iff)
  then have "i \<in> set (unmapped s pd)" "i + k - 1 \<in> set (unmapped s pd)" using un by auto
  then have ib: "1 \<le> i" "i + k \<le> user_pages" using k0 by (auto simp: unmapped_def)
  have ms: "[i..<i + k] = take ((unat len + 4095) div 4096) (unmapped s pd)" "length [i..<i + k] = (unat len + 4095) div 4096"
    using un k by simp_all
  from sys_mmap_effect [OF assms(1) ms assms(4)] obtain s1 where s1: "sys_mmap pd len s = Some (page_addr i, s1)" "uspace s1 pd"
      "\<forall>n<user_pages. uview s1 pd n = (if n \<in> set [i..<i + k] then Some (\<lambda>_. 0) else uview s pd n)"
    using assms(7) k0 by (auto simp: hd_upt)
  have c1: "cr3 s1 = pd" using mem_restD(1) [OF mem_rest_sys_mmap [OF s1(1)]] assms(2) by simp
  have mp: "upte s1 pd j \<noteq> 0" if "i \<le> j" "j < i + k" for j
  proof -
    have "uview s1 pd j = Some (\<lambda>_. 0)" using s1(3) that ib(2) by simp
    then show ?thesis by (auto simp: uview_def)
  qed
  have "holds s1 (upa s1 pd) (i * 4096) ((i + k) * 4096) (\<lambda>a. phys s1 (upa s1 pd a)) s1"
    using mapped_area [OF s1(2) c1 ib(2) mp] by (auto simp: holds_def intro: exI [of _ "phys s1"])
  then show thesis by (rule that [OF user_mmap_runs [OF assms(3) s1(1)] _ k0 ib])
qed

text \<open>
  C32: The first \<open>malloc\<close> of a program, when the lowest unmapped pages it needs are adjacent and memory suffices:
  the \<open>mmap\<close> system call maps them, the page block is laid out at their start and becomes the pool, and the block
  returned begins 40 bytes into it. Through the processor's page walk the pages are a memory of their own, and the
  page block in them is in order, with that one block in use and none free.
\<close>

theorem malloc_first_block:
  fixes s :: "'a user_state_scheme"
  assumes "uspace s pd" and "cr3 s = pd" and "current_cr3 s = Some pd" and "mem_pool s = NULL" and "unat n < 4294963000"
    and "k = (unat (align_up n) + 40 + 4095) div 4096" and "unmapped s pd = [i..<i + k] @ js" and "2 * k \<le> card (free_pages s)"
  shows "\<exists>s' pa m. malloc frame regs n s = Some (page_addr i + 40, s') \<and> mem_pool s' = page_addr i \<and>
    holds s' pa (i * 4096) ((i + k) * 4096) m s' \<and> arena (i * 4096) ((i + k) * 4096) m (page_addr i) [(page_addr i + 24, align_up n)] []"
proof -
  let ?N = "align_up n" and ?lo = "i * 4096" and ?hi = "(i + k) * 4096"
  have "unat n \<le> 4294967288" using assms(5) by simp
  note N = align_up_fits [OF this]
  have l: "unat (?N + 16) = unat ?N + 16" "unat (?N + 16 + 24) = unat ?N + 40"
    using N assms(5) unat_add_u32 [of ?N 16] unat_add_u32 [of "?N + 16" 24] by simp_all
  define len where len: "len = ?N + 16 + 24"
  have ul: "unat len = unat ?N + 40" using l(2) len by simp
  have lim: "unat len + 4095 < 4294967296" using ul N assms(5) by simp
  have kk: "k = (unat len + 4095) div 4096" using ul assms(6) by simp
  note B = unat_page_block [OF lim kk]
  have "len \<noteq> 0" using ul by auto
  then obtain s1 where m1: "user_mmap frame regs NULL len s = Some (page_addr i, s1)" and h1: "holds s1 (upa s1 pd) ?lo ?hi (\<lambda>a. phys s1 (upa s1 pd a)) s1"
      and ib: "0 < k" "1 \<le> i" "i + k \<le> user_pages"
    using user_mmap_area [OF assms(1-3) _ kk assms(7,8)] by blast
  then have bd: "?hi < 4294967296" "i < 1048576" by (auto simp: user_pages_def)
  let ?pa = "upa s1 pd" and ?p = "page_addr i"
  have up: "unat ?p = ?lo" by (rule unat_page_addr [OF bd(2)])
  have ps: "struct_in ?lo ?hi ?p 24" using up ib(1) by (auto simp: struct_in_def dvd_mult)
  define og where og: "og = PAGE_SIZE * user_pages_required len"
  obtain s2 where s2: "alloc_page_block frame regs len s = Some (?p, s2)" "holds s1 ?pa ?lo ?hi (page_init ?p og (\<lambda>a. phys s1 (?pa a))) s2"
    using alloc_page_block_runs [OF m1 h1 ps og] by blast
  have a2: "arena ?lo ?hi (page_init ?p og (\<lambda>a. phys s1 (?pa a))) ?p [] []"
    using up B(1) og bd(1) ib(1,2) by (intro arena_init) (auto simp: dvd_mult unat_eq_0 [symmetric] algebra_simps)
  let ?m2 = "page_init ?p og (\<lambda>a. phys s1 (?pa a))" and ?q = "?p + 24"
  have F: "load32 ?m2 (?p + 8) = ?q" "load32 ?m2 (?p + 4) = og - 24" using page_init_fields [of ?p og] up bd(1) ib(1) by auto
  have room: "unat ?N + 16 \<le> unat (load32 ?m2 (?p + 4))"
    using B(1,2) og ul F(2) ib(1) by (simp add: unat_sub word_le_nat_alt)
  note C = arena_carve [OF a2 F(1) N(1) room]
  obtain s3 where s3: "alloc_mem_block (?N + 16) ?p s2 = Some (?q, s3)" "holds s1 ?pa ?lo ?hi (carve ?p (?N + 16) ?q ?m2) s3"
    using alloc_mem_block_carves [OF s2(2) ps C(3) F(1)] by blast
  have "malloc frame regs n s = Some (?p + 40, s3\<lparr>mem_pool := ?p\<rparr>)"
    using assms(4) s2(1) s3(1) by (simp add: malloc_def malloc_consts Let_def len)
  moreover have "arena ?lo ?hi (carve ?p (?N + 16) ?q ?m2) ?p [(?q, ?N)] []" using C(1) by simp
  ultimately show ?thesis using holds_pool [OF s3(2), of ?p] by fastforce
qed

section \<open>A program that has just started\<close>

text \<open>The address space depends on six components of the state, whatever else the record holds.\<close>

lemma same_space:
  fixes s :: "'a mem_state_scheme" and t :: "'b mem_state_scheme"
  assumes sel: "phys t = phys s" "cr3 t = cr3 s" "kernel_page_directory t = kernel_page_directory s"
    "tmp_map_addr t = tmp_map_addr s" "bitmap t = bitmap s" "bitmap_size t = bitmap_size s"
  shows "uspace t pd = uspace s pd" "unmapped t pd = unmapped s pd" "free_pages t = free_pages s"
proof -
  have kp: "kpd_phys t = kpd_phys s" by (simp add: kpd_phys_def sel)
  have b: "boot_pt t = boot_pt s" "slot t = slot s" "kmapped t = kmapped s" by (simp_all add: boot_pt_def slot_def kmapped_def fun_eq_iff kp sel)
  have w: "win_wf t = win_wf s" "closed t = closed s" "win_frames t = win_frames s" by (simp_all add: win_wf_def closed_def win_frames_def kp sel b)
  show f: "free_pages t = free_pages s" by (simp add: free_pages_def page_used_def page_count_def sel)
  have g: "pmm_inv t = pmm_inv s" "frame_used t = frame_used s"
    by (simp_all add: pmm_inv_def frame_used_def used_pages_def page_used_def page_count_def fun_eq_iff sel)
  have e: "upde t = upde s" by (simp add: upde_def fun_eq_iff sel)
  then have u: "utable t = utable s" by (simp add: utable_def fun_eq_iff)
  then have p: "upte t = upte s" by (simp add: upte_def fun_eq_iff sel e)
  then have q: "uframe t = uframe s" by (simp add: uframe_def fun_eq_iff)
  show "uspace t pd = uspace s pd" by (simp add: uspace_def kbase_def w g e u p q b kp)
  have "uview t = uview s" by (simp add: uview_def fun_eq_iff p q sel)
  then show "unmapped t pd = unmapped s pd" by (simp add: unmapped_def)
qed

text \<open>An empty address space in frame 0x107000 that shares the kernel's entry 768, and the program that runs in it.\<close>

definition empty_space :: mem_state where
  "empty_space = booted\<lparr>phys := store32 booted_phys (entry 0x107000 768) 0x106003, cr3 := 0x107000\<rparr>"

definition starter :: user_state where
  "starter = tty_state.extend (reading\<lparr>phys := phys empty_space, cr3 := 0x107000,
     tasks := (tasks reading)(3 \<mapsto> plain_task 2 TASK_RUNNING 4\<lparr>t_cr3 := 0x107000\<rparr>)\<rparr>) (user_state.fields NULL [])"

lemma empty_space_load:
  "i < 1024 \<Longrightarrow> load32 (phys empty_space) (entry 0x105000 i) = (if i = 768 then 0x106003 else 0)"
  "i < 1024 \<Longrightarrow> load32 (phys empty_space) (entry 0x106000 i) = (if i = 0x106 then 0x106003 else if i = 0x105 then 0x105003 else 0)"
  "i < 1024 \<Longrightarrow> load32 (phys empty_space) (entry 0x107000 i) = (if i = 768 then 0x106003 else 0)"
proof -
  have z: "load32 (\<lambda>_. 0) a = 0" for a by (simp add: load32_def)
  show "i < 1024 \<Longrightarrow> load32 (phys empty_space) (entry 0x105000 i) = (if i = 768 then 0x106003 else 0)"
    "i < 1024 \<Longrightarrow> load32 (phys empty_space) (entry 0x106000 i) = (if i = 0x106 then 0x106003 else if i = 0x105 then 0x105003 else 0)"
    by (simp_all add: empty_space_def load32_store32_entry spaced_consts booted_load)
  show "i < 1024 \<Longrightarrow> load32 (phys empty_space) (entry 0x107000 i) = (if i = 768 then 0x106003 else 0)"
    by (simp add: empty_space_def booted_phys_def load32_store32_entry spaced_consts z)
qed

lemma empty_space_fields:
  "cr3 empty_space = 0x107000" "kernel_page_directory empty_space = 0xC0105000" "tmp_map_addr empty_space = 0xC0200000" "kpd_phys empty_space = 0x105000"
  "boot_pt empty_space = 0x106000" "bitmap empty_space = bitmap booted" "bitmap_size empty_space = bitmap_size booted"
proof -
  show k: "kpd_phys empty_space = 0x105000" by (simp add: empty_space_def kpd_phys_def KERNEL_BASE_def)
  have "(0x106003 :: u32) AND PAGE_MASK = 0x106000" by (simp add: PAGE_MASK_def)
  then show "boot_pt empty_space = 0x106000" unfolding boot_pt_def k by (simp add: empty_space_load)
qed (simp_all add: empty_space_def)

lemma empty_space_uspace: "uspace empty_space 0x107000" "unmapped empty_space 0x107000 = [1..<user_pages]" "card (free_pages empty_space) = 248"
proof -
  have m: "(0x106003 :: u32) AND PAGE_MASK = 0x106000" "(0x105003 :: u32) AND PAGE_MASK = 0x105000" by (simp_all add: PAGE_MASK_def)
  have "bit (0x106003 :: u32) 0" "bit (0x106003 :: u32) (Suc 0)" "bit (0x105003 :: u32) 0" "bit (0x105003 :: u32) (Suc 0)" by (simp_all add: bit_iff_odd)
  with m have w: "win_wf empty_space"
    by (simp add: win_wf_def kmapped_def booted_consts spaced_consts empty_space_load empty_space_fields denies_def KERNEL_BASE_def)
  have c: "closed empty_space" by (simp add: closed_def slot_def booted_consts empty_space_load empty_space_fields)
  have p: "pmm_inv empty_space" "free_pages empty_space = {264..<512}" "used_pages empty_space = {..<264}"
    using pmm_cong [of empty_space booted] booted_pages(1) booted_sets by (simp_all add: empty_space_fields)
  then show "card (free_pages empty_space) = 248" by simp
  have used: "frame_used empty_space 0x105000" "frame_used empty_space 0x106000" "frame_used empty_space 0x107000"
    by (simp_all add: frame_used_def p spaced_consts)
  have d: "upde empty_space 0x107000 d = 0" if "d < 768" for d
    using that empty_space_load(3) [of d] by (auto simp: upde_def word_less_nat_alt)
  have n: "upte empty_space 0x107000 n = 0" if "n < user_pages" for n using d [OF page_indices(1) [OF that]] by (simp add: upte_def)
  have "kbase empty_space" using w c p used by (auto simp: kbase_def win_frames_def empty_space_fields)
  then show "uspace empty_space 0x107000" unfolding uspace_def using used d n by (auto simp: empty_space_fields)
  show "unmapped empty_space 0x107000 = [1..<user_pages]" unfolding unmapped_def using n by (simp add: uview_def)
qed

lemma starter_fields:
  "phys starter = phys empty_space" "cr3 starter = cr3 empty_space" "kernel_page_directory starter = kernel_page_directory empty_space"
  "tmp_map_addr starter = tmp_map_addr empty_space" "bitmap starter = bitmap empty_space" "bitmap_size starter = bitmap_size empty_space"
  "current_cr3 starter = Some 0x107000" "mem_pool starter = NULL"
  by (simp_all add: starter_def reading_def four_tasks_def current_cr3_def user_state.defs tty_state.defs sched_state.defs vfs_state.defs
      boot_vfs_def slab_state.defs boot_slab_def cpu_state.defs boot_cpu_def mem_state.defs empty_space_fields empty_space_def)

theorem malloc_first_block_witness:
  "\<exists>s' pa m. malloc 0 plain_ctx 100 starter = Some (0x1028, s') \<and> mem_pool s' = 0x1000 \<and>
    holds s' pa 0x1000 0x2000 m s' \<and> arena 0x1000 0x2000 m 0x1000 [(0x1018, 104)] []"
proof -
  note S = same_space [OF starter_fields(1-6)]
  have n: "align_up 100 = 104" by (simp add: align_up_def)
  have "1 < user_pages" by (simp add: user_pages_def)
  then have "unmapped starter 0x107000 = [1..<1 + 1] @ [2..<user_pages]" unfolding S(2) empty_space_uspace(2)
    using upt_conv_Cons [of 1 user_pages] by (simp add: numeral_2_eq_2)
  then show ?thesis
    using malloc_first_block [of starter "0x107000" 100 1 1 "[2..<user_pages]" 0 plain_ctx] S(1,3) empty_space_uspace(1,3) starter_fields(2,7,8) empty_space_fields(1)
    by (simp add: n page_addr_def)
qed

end
