(* ===== verification/Window_Session.thy ===== *)
theory Window_Session
  imports User_Space
begin

text \<open>
  A longer use of the kernel's window: it is opened on a fresh frame, the frame is filled by loops that also read other
  memory, and it is closed. A session is the state in between: the window's entry points to the frame, and memory is
  that of the start but for the bytes of the frame.
\<close>

section \<open>Sessions\<close>

definition outside :: "addr \<Rightarrow> memory \<Rightarrow> memory \<Rightarrow> bool" where
  "outside f m M \<longleftrightarrow> (\<forall>a. a AND PAGE_MASK \<noteq> f \<longrightarrow> M a = m a)"

definition session :: "'a mem_state_scheme \<Rightarrow> addr \<Rightarrow> memory \<Rightarrow> addr list \<Rightarrow> 'a mem_state_scheme" where
  "session s f M l = s\<lparr>phys := store32 M (slot s) (f OR 3), invlpg_log := l\<rparr>"

text \<open>A frame the window may be opened on and filled.\<close>

definition fillable :: "'a mem_state_scheme \<Rightarrow> addr \<Rightarrow> bool" where
  "fillable s f \<longleftrightarrow> win_wf s \<and> closed s \<and> page_aligned f \<and> f \<notin> win_frames s"

lemma outside_refl [simp]: "outside f m m"
  by (simp add: outside_def)

lemma outside_load32:
  "outside f m M \<Longrightarrow> page_aligned b \<Longrightarrow> b \<noteq> f \<Longrightarrow> i < 1024 \<Longrightarrow> load32 M (entry b i) = load32 m (entry b i)"
  by (rule load32_frame_cong) (auto simp: outside_def)

lemma outside_changes:
  assumes "outside f m M" and "page_aligned f"
  shows "i < 1024 \<Longrightarrow> outside f m (store32 M (entry f i) v)" and "outside f m (zero_frame M f)"
    and "off < 4096 \<Longrightarrow> outside f m (M(f + off := b))"
  using assms by (auto simp: outside_def store32_other_frame zero_frame_other frame_offset)

lemma fillableD:
  assumes "fillable s f"
  shows "win_wf s" "closed s" "page_aligned f" "f \<notin> win_frames s" "f \<noteq> boot_pt s" "f \<noteq> cr3 s" "f \<noteq> kpd_phys s"
    "page_aligned (cr3 s)" "page_aligned (kpd_phys s)" "f AND PAGE_MASK = f"
  using assms by (auto simp: fillable_def win_frames_def win_wf_def mask_page_aligned)

lemma filled_wf:
  assumes w: "fillable s f" and o: "outside f (phys s) M"
  shows "win_wf (s\<lparr>phys := M\<rparr>)" "boot_pt (s\<lparr>phys := M\<rparr>) = boot_pt s" "slot (s\<lparr>phys := M\<rparr>) = slot s"
    "load32 M (slot s) = 0" "win_frames (s\<lparr>phys := M\<rparr>) = win_frames s"
proof -
  note F = fillableD [OF w]
  have e: "load32 M (entry (cr3 s) 768) = load32 (phys s) (entry (cr3 s) 768)"
    "load32 M (entry (kpd_phys s) 768) = load32 (phys s) (entry (kpd_phys s) 768)"
    "\<And>i. i < 1024 \<Longrightarrow> load32 M (entry (boot_pt s) i) = load32 (phys s) (entry (boot_pt s) i)"
    using outside_load32 [OF o] F by auto
  from win_wf_cong [OF F(1) e] show "win_wf (s\<lparr>phys := M\<rparr>)" and b: "boot_pt (s\<lparr>phys := M\<rparr>) = boot_pt s" and "slot (s\<lparr>phys := M\<rparr>) = slot s"
    by blast+
  show "load32 M (slot s) = 0" using F(2) e(3) by (simp add: closed_def slot_def)
  show "win_frames (s\<lparr>phys := M\<rparr>) = win_frames s" using b by (simp add: win_frames_def)
qed

lemma session_wf:
  assumes w: "fillable s f" and o: "outside f (phys s) M"
  shows "open_on (session s f M l) f" "boot_pt (session s f M l) = boot_pt s" "slot (session s f M l) = slot s"
    "win_frames (session s f M l) = win_frames s" "tmp_map_addr (session s f M l) = tmp_map_addr s" "cr3 (session s f M l) = cr3 s"
    "kernel_page_directory (session s f M l) = kernel_page_directory s"
proof -
  note W = filled_wf [OF assms]
  note S = slot_store [OF W(1), of "f OR 3"]
  show "open_on (session s f M l) f" using S W(3) fillableD(3) [OF w] by (simp add: session_def open_on_def)
  show b: "boot_pt (session s f M l) = boot_pt s" and "slot (session s f M l) = slot s" using S W(2,3) by (simp_all add: session_def)
  show "win_frames (session s f M l) = win_frames s" using b by (simp add: session_def win_frames_def)
qed (simp_all add: session_def)

section \<open>Steps of a session\<close>

lemma session_open:
  assumes "fillable s f"
  shows "map_tmp_page f s = Some (tmp_map_addr s, session s f (phys s) (invlpg_log s @ [tmp_map_addr s]))"
  using map_tmp_page_eq [OF fillableD(1) [OF assms], of f] fillableD(10) [OF assms] by (simp add: session_def)

lemma session_close:
  assumes w: "fillable s f" and o: "outside f (phys s) M"
  shows "unmap_tmp_page (session s f M l) = Some (s\<lparr>phys := M, invlpg_log := l @ [tmp_map_addr s]\<rparr>)"
  using close_eq [where s = s and m = M and v = "f OR 3" and l = l] slot_store [OF filled_wf(1) [OF assms], of "f OR 3"] filled_wf(3,4) [OF assms] by (simp add: session_def)

lemma session_store:
  assumes w: "fillable s f" and o: "outside f (phys s) M" and i: "i < 1024"
  shows "vstore32 (entry (tmp_map_addr s) i) v (session s f M l) = Some (session s f (store32 M (entry f i) v) l)"
proof -
  note F = fillableD [OF w]
  have "store32 (store32 M (slot s) (f OR 3)) (entry f i) v = store32 (store32 M (entry f i) v) (slot s) (f OR 3)"
    unfolding slot_def by (rule store32_commute_entry) (use F i in auto)
  then show ?thesis using open_store [OF session_wf(1) [OF w o, of l] i, of v] by (simp add: session_def)
qed

lemma session_zero:
  assumes w: "fillable s f" and o: "outside f (phys s) M"
  shows "zero_loop (tmp_map_addr s) 0 (session s f M l) = Some (session s f (zero_frame M f) l)"
proof -
  note F = fillableD [OF w] and S = session_wf [OF w o, of l]
  have "zero_frame (store32 M (slot s) (f OR 3)) f = store32 (zero_frame M f) (slot s) (f OR 3)"
    unfolding slot_def by (rule zero_frame_store32) (use F in auto)
  then show ?thesis using zero_loop_eq [OF S(1), of 0] S(4) F(4) by (simp add: session_def zero_from_0)
qed

lemma open_byte:
  assumes "open_on s f" and "off < 4096"
  shows "translate (phys s) (cr3 s) w (tmp_map_addr s + off) = Some (f + off)"
proof -
  have o: "win_wf s" "page_aligned f" "load32 (phys s) (slot s) = f OR 3" using assms(1) by (simp_all add: open_on_def)
  have t: "page_aligned (tmp_map_addr s)" "PDE_INDEX (tmp_map_addr s) = 768" using o(1) by (simp_all add: win_wf_def)
  have u: "unat off < 4096" using assms(2) by (simp add: word_less_nat_alt)
  have "\<not> denies w (f OR 3)" "(f OR 3) AND PAGE_MASK = f" using o(2) by (simp_all add: denies_def page_aligned_flag page_aligned_frame)
  then show ?thesis using o(3) translate_768 [OF o(1), of "tmp_map_addr s + off" w]
    by (simp add: index_offset [OF t(1) u] t(2) mask_page_offset(2) [OF t(1) u] slot_def)
qed

lemma session_store8:
  assumes w: "fillable s f" and o: "outside f (phys s) M" and i: "off < 4096"
  shows "vstore8 (tmp_map_addr s + off) b (session s f M l) = Some (session s f (M(f + off := b)) l)"
proof -
  note F = fillableD [OF w]
  have "(store32 M (slot s) (f OR 3))(f + off := b) = store32 (M(f + off := b)) (slot s) (f OR 3)"
  proof
    fix a
    have "(f + off) AND PAGE_MASK \<noteq> boot_pt s" using F(3,5) i by (simp add: frame_offset)
    then have "store32 m (slot s) v (f + off) = m (f + off)" for m v unfolding slot_def by (intro store32_other_frame) auto
    then show "((store32 M (slot s) (f OR 3))(f + off := b)) a = store32 (M(f + off := b)) (slot s) (f OR 3) a"
      using store32_pointwise [of M a "M(f + off := b)"] by (cases "a = f + off") auto
  qed
  then show ?thesis using open_byte [OF session_wf(1) [OF w o, of l] i, of True] by (simp add: session_def vstore8_def)
qed

text \<open>
  Memory of the kernel that a session can read: mapped behind entry 768, not at the window, in a frame other than the
  boot page table.
\<close>

definition readable :: "'a mem_state_scheme \<Rightarrow> addr \<Rightarrow> addr \<Rightarrow> bool" where
  "readable s va pa \<longleftrightarrow> PDE_INDEX va = 768 \<and> PTE_INDEX va \<noteq> PTE_INDEX (tmp_map_addr s) \<and> translate (phys s) (cr3 s) False va = Some pa \<and>
     pa AND PAGE_MASK \<noteq> boot_pt s"

lemma session_load8:
  assumes w: "fillable s f" and o: "outside f (phys s) M" and r: "readable s va pa" and f: "pa AND PAGE_MASK \<noteq> f"
  shows "vload8 va (session s f M l) = Some (phys s pa)"
proof -
  note F = fillableD [OF w] and S = session_wf [OF w o, of l]
  let ?m = "store32 M (slot s) (f OR 3)"
  have r': "PDE_INDEX va = 768" "PTE_INDEX va \<noteq> PTE_INDEX (tmp_map_addr s)" "translate (phys s) (cr3 s) False va = Some pa" "pa AND PAGE_MASK \<noteq> boot_pt s"
    using r by (simp_all add: readable_def)
  have "load32 ?m (entry (boot_pt s) (PTE_INDEX va)) = load32 (phys s) (entry (boot_pt s) (PTE_INDEX va))"
    using r'(2) outside_load32 [OF o] F(5) by (simp add: slot_def load32_store32_entry)
  then have "translate ?m (cr3 s) False va = Some pa"
    using translate_768 [OF F(1) r'(1)] translate_768 [of "session s f M l" va False] S r'(1,3) by (simp add: session_def open_on_def)
  moreover have "?m pa = phys s pa"
    using r'(4) f o by (simp add: slot_def store32_other_frame outside_def)
  ultimately show ?thesis by (simp add: vload8_def session_def)
qed

lemma session_load_kpd:
  assumes w: "fillable s f" and o: "outside f (phys s) M" and i: "i < 1024"
  shows "vload32 (entry (kernel_page_directory s) i) (session s f M l) = Some (load32 (phys s) (entry (kpd_phys s) i))"
proof -
  note F = fillableD [OF w] and S = session_wf [OF w o, of l]
  have wf: "win_wf (session s f M l)" using S(1) by (simp add: open_on_def)
  have k: "kpd_phys (session s f M l) = kpd_phys s" by (simp add: session_def kpd_phys_def)
  have nb: "kpd_phys s \<noteq> boot_pt s" using F(1) by (auto simp: win_wf_def)
  have "kmapped (session s f M l) (kernel_page_directory s) (kpd_phys s)" using wf k by (simp add: win_wf_def S)
  from translate_kmapped [OF wf this i] have "vload32 (entry (kernel_page_directory s) i) (session s f M l) = Some (load32 (store32 M (slot s) (f OR 3)) (entry (kpd_phys s) i))"
    by (simp add: vload32_def session_def)
  also have "load32 (store32 M (slot s) (f OR 3)) (entry (kpd_phys s) i) = load32 (phys s) (entry (kpd_phys s) i)"
    using F(7,9) i outside_load32 [OF o F(9) _ i] nb by (simp add: slot_def load32_store32_entry)
  finally show ?thesis .
qed

section \<open>Loops in a session\<close>

fun put_bytes :: "memory \<Rightarrow> addr \<Rightarrow> u8 list \<Rightarrow> memory" where
  "put_bytes m a [] = m"
| "put_bytes m a (b # bs) = put_bytes (m(a := b)) (a + 1) bs"

text \<open>The bytes that a session on \<open>f\<close> reads from an address of the kernel.\<close>

definition code_at :: "'a mem_state_scheme \<Rightarrow> addr \<Rightarrow> addr \<Rightarrow> u8 list \<Rightarrow> bool" where
  "code_at s f va bs \<longleftrightarrow> (\<forall>i<length bs. \<exists>pa. readable s (va + of_nat i) pa \<and> pa AND PAGE_MASK \<noteq> f \<and> phys s pa = bs ! i)"

lemma code_at_Cons: "code_at s f va (b # bs) \<longleftrightarrow> (\<exists>pa. readable s va pa \<and> pa AND PAGE_MASK \<noteq> f \<and> phys s pa = b) \<and> code_at s f (va + 1) bs"
  unfolding code_at_def by (simp add: All_less_Suc2 add.assoc)

lemma put_bytes_at:
  assumes "page_aligned f" and "k + length bs \<le> 4096" and "off < 4096"
  shows "put_bytes M (f + of_nat k) bs (f + off) = (if k \<le> unat off \<and> unat off < k + length bs then bs ! (unat off - k) else M (f + off))"
  using assms(2)
proof (induction bs arbitrary: M k)
  case (Cons b bs)
  have "f + off = f + of_nat k \<longleftrightarrow> unat off = k"
    using Cons.prems by (auto simp: word_eq_iff_unat_u32 [of off] unat_of_nat_u32)
  define N where "N = M(f + of_nat k := b)"
  with \<open>f + off = f + of_nat k \<longleftrightarrow> unat off = k\<close> have N: "N (f + off) = (if unat off = k then b else M (f + off))" by simp
  show ?case
    using Cons.prems Cons.IH [of "Suc k" N] N
    by (auto simp: add.assoc add.commute [of 1] nth_Cons' simp flip: N_def)
qed auto

lemma session_copy:
  assumes w: "fillable s f"
  shows "outside f (phys s) M \<Longrightarrow> k + length bs \<le> 4096 \<Longrightarrow> code_at s f src bs \<Longrightarrow>
    outside f (phys s) (put_bytes M (f + of_nat k) bs) \<and>
    kmemcpy_loop (length bs) (tmp_map_addr s + of_nat k) src (session s f M l) = Some (session s f (put_bytes M (f + of_nat k) bs) l)"
proof (induction bs arbitrary: M k src)
  case (Cons b bs)
  obtain pa where pa: "readable s src pa" "pa AND PAGE_MASK \<noteq> f" "phys s pa = b" and rest: "code_at s f (src + 1) bs" using Cons.prems(3) by (auto simp: code_at_Cons)
  have k: "(of_nat k :: u32) < 4096" using Cons.prems(2) by (simp add: word_less_nat_alt unat_of_nat_u32)
  have ld: "vload8 src (session s f M l) = Some b"
    using session_load8 [OF w Cons.prems(1) pa(1,2)] pa(3) by simp
  define N where "N = M(f + of_nat k := b)"
  have st: "vstore8 (tmp_map_addr s + of_nat k) b (session s f M l) = Some (session s f N l)" unfolding N_def by (rule session_store8 [OF w Cons.prems(1) k])
  have o: "outside f (phys s) N" unfolding N_def by (rule outside_changes(3) [OF Cons.prems(1) fillableD(3) [OF w] k])
  show ?case using Cons.IH [OF o, of "Suc k" "src + 1"] Cons.prems(2) rest ld st by (simp add: add.assoc add.commute [of 1] flip: N_def)
qed simp

lemma session_copy_half:
  assumes w: "fillable s f"
  shows "outside f (phys s) M \<Longrightarrow> \<forall>i\<in>set is. i < 1024 \<Longrightarrow>
    \<exists>M'. copy_kernel_half is (tmp_map_addr s) (session s f M l) = Some (session s f M' l) \<and> outside f (phys s) M' \<and>
      (\<forall>j<1024. load32 M' (entry f (of_nat j)) = (if j \<in> set is then load32 (phys s) (entry (kpd_phys s) (of_nat j)) else load32 M (entry f (of_nat j))))"
proof (induction "is" arbitrary: M)
  case (Cons i js)
  have i: "(of_nat i :: u32) < 1024" using Cons.prems(2) by (simp add: word_less_nat_alt unat_of_nat_u32)
  let ?e = "load32 (phys s) (entry (kpd_phys s) (of_nat i))" and ?M = "store32 M (entry f (of_nat i)) (load32 (phys s) (entry (kpd_phys s) (of_nat i)))"
  note ld = session_load_kpd [OF w Cons.prems(1) i, of l] and st = session_store [OF w Cons.prems(1) i, of ?e l]
  obtain M' where M': "copy_kernel_half js (tmp_map_addr s) (session s f ?M l) = Some (session s f M' l)" "outside f (phys s) M'"
      "\<forall>j<1024. load32 M' (entry f (of_nat j)) = (if j \<in> set js then load32 (phys s) (entry (kpd_phys s) (of_nat j)) else load32 ?M (entry f (of_nat j)))"
    using Cons.IH [OF outside_changes(1) [OF Cons.prems(1) fillableD(3) [OF w] i, of ?e]] Cons.prems(2) by auto
  have "load32 ?M (entry f (of_nat j)) = (if j = i then ?e else load32 M (entry f (of_nat j)))" if j: "j < 1024" for j
  proof (cases "j = i")
    case False
    then have "(of_nat j :: u32) < 1024" "(of_nat j :: u32) \<noteq> of_nat i"
      using j Cons.prems(2) by (simp_all add: word_less_nat_alt word_eq_iff_unat_u32 unat_of_nat_u32)
    then show ?thesis using False i fillableD(3) [OF w] by (simp add: load32_store32_entry)
  qed simp
  with M'(3) have "\<forall>j<1024. load32 M' (entry f (of_nat j)) = (if j \<in> set (i # js) then load32 (phys s) (entry (kpd_phys s) (of_nat j)) else load32 M (entry f (of_nat j)))"
    by auto
  moreover have "copy_kernel_half (i # js) (tmp_map_addr s) (session s f M l) = Some (session s f M' l)"
    using ld st M'(1) session_wf(7) [OF w Cons.prems(1), of l] by simp
  ultimately show ?case using M'(2) by blast
qed auto

lemma session_copy_upt:
  assumes "fillable s f" and "outside f (phys s) M" and "b \<le> 1024"
  shows "\<exists>M'. copy_kernel_half [a..<b] (tmp_map_addr s) (session s f M l) = Some (session s f M' l) \<and> outside f (phys s) M' \<and>
    (\<forall>j<1024. load32 M' (entry f (of_nat j)) = (if a \<le> j \<and> j < b then load32 (phys s) (entry (kpd_phys s) (of_nat j)) else load32 M (entry f (of_nat j))))"
  using session_copy_half [OF assms(1,2), of "[a..<b]" l] assms(3) by auto

section \<open>A fresh frame\<close>

text \<open>What a session on a fresh frame changes: the frame is taken, and its bytes are the only ones that differ.\<close>

definition takes_frame :: "'a mem_state_scheme \<Rightarrow> addr \<Rightarrow> 'a mem_state_scheme \<Rightarrow> bool" where
  "takes_frame s f s' \<longleftrightarrow> kbase s' \<and> same_kernel s s' \<and> outside f (phys s) (phys s') \<and> page_aligned f \<and> \<not> frame_used s f \<and> frame_used s' f \<and>
     kernel_page_directory s' = kernel_page_directory s \<and> tmp_map_addr s' = tmp_map_addr s \<and> mem_rest s' = mem_rest s \<and>
     unat f div 4096 \<in> free_pages s \<and> free_pages s' = free_pages s - {unat f div 4096} \<and> used_pages s' = insert (unat f div 4096) (used_pages s)"

lemma takes_frameD:
  assumes "takes_frame s f s'"
  shows "kbase s'" "same_kernel s s'" "outside f (phys s) (phys s')" "page_aligned f" "\<not> frame_used s f" "frame_used s' f"
    "kernel_page_directory s' = kernel_page_directory s" "frame_used s g \<Longrightarrow> frame_used s' g" "frame_used s g \<Longrightarrow> g \<noteq> f"
    "Suc (card (free_pages s')) = card (free_pages s)" "mem_rest s' = mem_rest s" "used_pages s' = insert (unat f div 4096) (used_pages s)"
  using assms card_Suc_Diff1 [of "free_pages s"] by (auto simp: takes_frame_def frame_used_def)

lemma takes_frame_bytes:
  "takes_frame s f s' \<Longrightarrow> frame_used s (a AND PAGE_MASK) \<Longrightarrow> phys s' a = phys s a"
  using takes_frameD(3,9) [of s f s'] by (auto simp: outside_def)

lemma fresh_session:
  fixes s :: "'a mem_state_scheme"
  assumes "kbase s" and "free_pages s \<noteq> {}"
  obtains f arr where "pmm_alloc 1 s = Some (f, s\<lparr>bitmap := arr\<rparr>)" "fillable (s\<lparr>bitmap := arr\<rparr>) f"
    "\<And>M l. outside f (phys s) M \<Longrightarrow> takes_frame s f (s\<lparr>bitmap := arr, phys := M, invlpg_log := l\<rparr>)"
proof -
  have wf: "win_wf s" "closed s" "pmm_inv s" "\<And>f. f \<in> win_frames s \<Longrightarrow> frame_used s f" using assms(1) by (auto simp: kbase_def)
  obtain x arr where a: "pmm_alloc 1 s = Some (page_addr x, s\<lparr>bitmap := arr\<rparr>)" "x \<in> free_pages s"
    "pmm_inv (s\<lparr>bitmap := arr\<rparr>)" "free_pages (s\<lparr>bitmap := arr\<rparr>) = free_pages s - {x}" "used_pages (s\<lparr>bitmap := arr\<rparr>) = insert x (used_pages s)"
    using pmm_alloc_one [OF wf(3) assms(2)] by metis
  let ?f = "page_addr x" and ?s = "s\<lparr>bitmap := arr\<rparr>"
  have f: "page_aligned ?f" "\<not> frame_used s ?f" "unat ?f div 4096 = x" using fresh_frame [OF wf(3) a(2)] by blast+
  have fill: "fillable ?s ?f" using wf f by (auto simp: fillable_def)
  have "takes_frame s ?f (?s\<lparr>phys := M, invlpg_log := l\<rparr>)" if o: "outside ?f (phys s) M" for M l
  proof -
    let ?t = "?s\<lparr>phys := M, invlpg_log := l\<rparr>"
    have p: "pmm_inv ?t" "free_pages ?t = free_pages s - {x}" "used_pages ?t = insert x (used_pages s)"
      using a(3-5) pmm_cong [of ?t ?s] by simp_all
    note W = filled_wf [OF fill, of M]
    have "\<forall>g \<in> win_frames s. frame_used ?t g" "frame_used ?t ?f" using wf(4) p(3) f by (auto simp: frame_used_def)
    moreover from this have "kbase ?t" using W o p(1) by (simp add: kbase_def closed_def win_frames_def)
    moreover have "same_kernel s ?t" using W(2) o by (simp add: same_kernel_def kpd_phys_def)
    ultimately show ?thesis using o f p a(2) by (auto simp: takes_frame_def)
  qed
  then show thesis using that [OF a(1) fill] by simp
qed

text \<open>A session on the fresh frame \<open>f\<close>: how it starts, and that it may end whatever the frame is filled with.\<close>

definition starts :: "'a mem_state_scheme \<Rightarrow> addr \<Rightarrow> 'a mem_state_scheme \<Rightarrow> addr list \<Rightarrow> bool" where
  "starts s f s0 l \<longleftrightarrow> (\<exists>arr. s0 = s\<lparr>bitmap := arr\<rparr>) \<and> pmm_alloc 1 s = Some (f, s0) \<and> fillable s0 f \<and> \<not> frame_used s f \<and>
     map_tmp_page f s0 = Some (tmp_map_addr s, session s0 f (phys s) l) \<and>
     (\<forall>M. outside f (phys s) M \<longrightarrow> (\<exists>s'. unmap_tmp_page (session s0 f M l) = Some s' \<and> phys s' = M \<and> takes_frame s f s'))"

lemma startsD:
  assumes "starts s f s0 l"
  shows "pmm_alloc 1 s = Some (f, s0)" "fillable s0 f" "\<not> frame_used s f" "page_aligned f" "\<exists>arr. s0 = s\<lparr>bitmap := arr\<rparr>"
    "phys s0 = phys s" "tmp_map_addr s0 = tmp_map_addr s" "kpd_phys s0 = kpd_phys s"
    "map_tmp_page f s0 = Some (tmp_map_addr s, session s0 f (phys s) l)"
    "zero_loop (tmp_map_addr s) 0 (session s0 f (phys s) l) = Some (session s0 f (zero_frame (phys s) f) l)"
    "outside f (phys s) (zero_frame (phys s) f)"
    "outside f (phys s) M \<Longrightarrow> \<exists>s'. unmap_tmp_page (session s0 f M l) = Some s' \<and> phys s' = M \<and> takes_frame s f s'"
proof -
  show S: "pmm_alloc 1 s = Some (f, s0)" "fillable s0 f" "\<not> frame_used s f" "\<exists>arr. s0 = s\<lparr>bitmap := arr\<rparr>" "phys s0 = phys s"
    "tmp_map_addr s0 = tmp_map_addr s" "kpd_phys s0 = kpd_phys s" "map_tmp_page f s0 = Some (tmp_map_addr s, session s0 f (phys s) l)"
    using assms by (auto simp: starts_def)
  show al: "page_aligned f" by (rule fillableD(3) [OF S(2)])
  show "zero_loop (tmp_map_addr s) 0 (session s0 f (phys s) l) = Some (session s0 f (zero_frame (phys s) f) l)"
    using session_zero [OF S(2), of "phys s" l] S(5,6) by simp
  show "outside f (phys s) (zero_frame (phys s) f)" by (rule outside_changes(2) [OF outside_refl al])
  show "outside f (phys s) M \<Longrightarrow> \<exists>s'. unmap_tmp_page (session s0 f M l) = Some s' \<and> phys s' = M \<and> takes_frame s f s'"
    using assms by (simp add: starts_def)
qed

lemma session_starts:
  fixes s :: "'a mem_state_scheme"
  assumes "kbase s" and "free_pages s \<noteq> {}"
  obtains f s0 l where "starts s f s0 l"
proof -
  obtain f arr where a: "pmm_alloc 1 s = Some (f, s\<lparr>bitmap := arr\<rparr>)" and w: "fillable (s\<lparr>bitmap := arr\<rparr>) f"
      and t: "\<And>M l. outside f (phys s) M \<Longrightarrow> takes_frame s f (s\<lparr>bitmap := arr, phys := M, invlpg_log := l\<rparr>)"
    by (rule fresh_session [OF assms]) blast
  let ?s = "s\<lparr>bitmap := arr\<rparr>"
  let ?l = "invlpg_log ?s @ [tmp_map_addr ?s]"
  have "\<not> frame_used s f" using t [OF outside_refl] by (simp add: takes_frame_def)
  moreover have "map_tmp_page f ?s = Some (tmp_map_addr s, session ?s f (phys s) ?l)" using session_open [OF w] by simp
  moreover have "\<exists>s'. unmap_tmp_page (session ?s f M ?l) = Some s' \<and> phys s' = M \<and> takes_frame s f s'" if "outside f (phys s) M" for M
    using session_close [OF w, of M ?l] t [OF that] that by auto
  ultimately have "starts s f ?s ?l" unfolding starts_def using a w by blast
  then show thesis by (rule that)
qed

end
