(* ===== verification/New_Space.thy ===== *)
theory New_Space
  imports Window_Session
begin

text \<open>
  The creation of an address space by \<open>mmap_ring3\<close> of \<open>kernel/memory.c\<close>: a page with the program, a page for its
  stack, their page table and the page directory with the kernel's half, each filled in a session of its own.
\<close>

section \<open>The four frames\<close>

text \<open>The program as the boot loader left it, in frames in use that the kernel can read.\<close>

definition module_at :: "'a mem_state_scheme \<Rightarrow> addr \<Rightarrow> u8 list \<Rightarrow> bool" where
  "module_at s va bs \<longleftrightarrow> (\<forall>i<length bs. \<exists>pa. readable s (va + of_nat i) pa \<and> frame_used s (pa AND PAGE_MASK) \<and> phys s pa = bs ! i)"

lemma module_code: "module_at s va bs \<Longrightarrow> \<not> frame_used s f \<Longrightarrow> code_at (s\<lparr>bitmap := arr\<rparr>) f va bs"
  unfolding module_at_def code_at_def readable_def by (simp, metis)

lemma code_page:
  assumes s: "kbase s" "free_pages s \<noteq> {}" and c: "module_at s src bs" "length bs \<le> 4096"
  obtains f s0 s1 s2 s3 s' where "pmm_alloc 1 s = Some (f, s0)" "map_tmp_page f s0 = Some (tmp_map_addr s, s1)"
    "zero_loop (tmp_map_addr s) 0 s1 = Some s2" "kmemcpy_loop (length bs) (tmp_map_addr s) src s2 = Some s3" "unmap_tmp_page s3 = Some s'"
    "takes_frame s f s'" "\<And>off. off < 4096 \<Longrightarrow> phys s' (f + off) = (if unat off < length bs then bs ! unat off else 0)"
proof -
  obtain f s0 l where "starts s f s0 l" by (rule session_starts [OF s])
  note S = startsD [OF this]
  let ?Z = "zero_frame (phys s) f"
  let ?M = "put_bytes ?Z f bs"
  have "code_at s0 f src bs" using module_code [OF c(1) S(3)] S(5) by auto
  then have C: "outside f (phys s) ?M" "kmemcpy_loop (length bs) (tmp_map_addr s) src (session s0 f ?Z l) = Some (session s0 f ?M l)"
    using session_copy [OF S(2), of ?Z 0 bs src l] c(2) S(11) by (simp_all add: S(6,7))
  obtain s' where s': "unmap_tmp_page (session s0 f ?M l) = Some s'" "phys s' = ?M" "takes_frame s f s'" using S(12) [OF C(1)] by blast
  have "phys s' (f + off) = (if unat off < length bs then bs ! unat off else 0)" if "off < 4096" for off
    using put_bytes_at [OF S(4), of 0 bs off ?Z] c(2) that frame_offset [OF S(4) that] by (simp add: s'(2) zero_frame_def)
  then show thesis using that [OF S(1,9,10) C(2) s'(1,3)] by blast
qed

lemma blank_page:
  assumes s: "kbase s" "free_pages s \<noteq> {}"
  obtains f s0 s' where "pmm_alloc 1 s = Some (f, s0)" "zero_page f s0 = Some s'" "takes_frame s f s'" "\<And>off. off < 4096 \<Longrightarrow> phys s' (f + off) = 0"
proof -
  obtain f s0 l where "starts s f s0 l" by (rule session_starts [OF s])
  note S = startsD [OF this]
  obtain s' where s': "unmap_tmp_page (session s0 f (zero_frame (phys s) f) l) = Some s'" "phys s' = zero_frame (phys s) f" "takes_frame s f s'"
    using S(12) [OF S(11)] by blast
  have "phys s' (f + off) = 0" if "off < 4096" for off using frame_offset [OF S(4) that] by (simp add: s'(2) zero_frame_def)
  then show thesis using that [OF S(1) _ s'(3)] S(9,10) s'(1) by (simp add: zero_page_def)
qed

lemma table_frame:
  assumes s: "kbase s" "free_pages s \<noteq> {}"
  obtains f s0 s1 s2 s3 s4 s' where "pmm_alloc 1 s = Some (f, s0)" "map_tmp_page f s0 = Some (tmp_map_addr s, s1)" "zero_loop (tmp_map_addr s) 0 s1 = Some s2"
    "vstore32 (entry (tmp_map_addr s) 1) v s2 = Some s3" "vstore32 (entry (tmp_map_addr s) 2) w s3 = Some s4" "unmap_tmp_page s4 = Some s'"
    "takes_frame s f s'" "\<And>i. i < 1024 \<Longrightarrow> load32 (phys s') (entry f i) = (if i = 1 then v else if i = 2 then w else 0)"
proof -
  obtain f s0 l where "starts s f s0 l" by (rule session_starts [OF s])
  note S = startsD [OF this]
  let ?Z = "zero_frame (phys s) f"
  let ?A = "store32 ?Z (entry f 1) v"
  let ?B = "store32 ?A (entry f 2) w"
  have A: "outside f (phys s) ?A" using outside_changes(1) [OF S(11,4)] by simp
  have B: "outside f (phys s) ?B" using outside_changes(1) [OF A S(4)] by simp
  have st: "vstore32 (entry (tmp_map_addr s) 1) v (session s0 f ?Z l) = Some (session s0 f ?A l)"
    "vstore32 (entry (tmp_map_addr s) 2) w (session s0 f ?A l) = Some (session s0 f ?B l)"
    using session_store [OF S(2), of ?Z 1 v l] session_store [OF S(2), of ?A 2 w l] S(11) A by (simp_all add: S(6,7))
  obtain s' where s': "unmap_tmp_page (session s0 f ?B l) = Some s'" "phys s' = ?B" "takes_frame s f s'" using S(12) [OF B] by blast
  have "load32 (phys s') (entry f i) = (if i = 1 then v else if i = 2 then w else 0)" if "i < 1024" for i
    using that S(4) by (auto simp: s'(2) load32_store32_entry load32_zero_frame)
  then show thesis using that [OF S(1,9,10) st s'(1,3)] by blast
qed

lemma directory_frame:
  assumes s: "kbase s" "free_pages s \<noteq> {}"
  obtains f s0 s1 s2 s3 s4 s' where "pmm_alloc 1 s = Some (f, s0)" "map_tmp_page f s0 = Some (tmp_map_addr s, s1)" "zero_loop (tmp_map_addr s) 0 s1 = Some s2"
    "vstore32 (entry (tmp_map_addr s) 0) v s2 = Some s3" "copy_kernel_half [768..<1024] (tmp_map_addr s) s3 = Some s4" "unmap_tmp_page s4 = Some s'"
    "takes_frame s f s'"
    "\<And>i. i < 1024 \<Longrightarrow> load32 (phys s') (entry f i) = (if i = 0 then v else if 768 \<le> i then load32 (phys s) (entry (kpd_phys s) i) else 0)"
proof -
  obtain f s0 l where "starts s f s0 l" by (rule session_starts [OF s])
  note S = startsD [OF this]
  let ?Z = "zero_frame (phys s) f"
  let ?A = "store32 ?Z (entry f 0) v"
  have A: "outside f (phys s) ?A" using outside_changes(1) [OF S(11,4)] by simp
  have st: "vstore32 (entry (tmp_map_addr s) 0) v (session s0 f ?Z l) = Some (session s0 f ?A l)"
    using session_store [OF S(2), of ?Z 0 v l] S(11) by (simp add: S(6,7))
  obtain M where M: "copy_kernel_half [768..<1024] (tmp_map_addr s) (session s0 f ?A l) = Some (session s0 f M l)" "outside f (phys s) M"
      "\<forall>j<1024. load32 M (entry f (of_nat j)) = (if 768 \<le> j \<and> j < 1024 then load32 (phys s) (entry (kpd_phys s) (of_nat j)) else load32 ?A (entry f (of_nat j)))"
    using session_copy_upt [OF S(2), of ?A 1024 768 l] A unfolding S(6-8) by blast
  obtain s' where s': "unmap_tmp_page (session s0 f M l) = Some s'" "phys s' = M" "takes_frame s f s'" using S(12) [OF M(2)] by blast
  have "load32 (phys s') (entry f i) = (if i = 0 then v else if 768 \<le> i then load32 (phys s) (entry (kpd_phys s) i) else 0)" if "i < 1024" for i
    using M(3) [rule_format, of "unat i"] that S(4) by (auto simp: s'(2) load32_store32_entry load32_zero_frame word_less_nat_alt word_le_nat_alt)
  then show thesis using that [OF S(1,9,10) st M(1) s'(1,3)] by blast
qed

section \<open>The address space\<close>

lemma first_indices:
  assumes "n < user_pages"
  shows "dir_of n = 0 \<longleftrightarrow> n < 1024" and "n < 1024 \<Longrightarrow> k < 1024 \<Longrightarrow> idx_of n = of_nat k \<longleftrightarrow> n = k"
  using assms
  by (auto simp: dir_of_def idx_of_def user_pages_def word_eq_iff_unat_u32 unat_of_nat_u32 less_mult_imp_div_less div_eq_0_iff)

text \<open>A directory with one table that maps two pages is an address space in order.\<close>

lemma two_pages_space:
  fixes s :: "'a mem_state_scheme"
  assumes k: "kbase s" and al: "page_aligned t" "page_aligned f" "page_aligned g"
    and used: "frame_used s pd" "frame_used s t" "frame_used s f" "frame_used s g"
    and dist: "distinct [pd, t, f, g]" and win: "{pd, t, f, g} \<inter> win_frames s = {}"
    and D: "\<And>d. d < 768 \<Longrightarrow> load32 (phys s) (entry pd d) = (if d = 0 then t OR 7 else 0)"
    and N: "\<And>i. i < 1024 \<Longrightarrow> load32 (phys s) (entry t i) = (if i = 1 then f OR 7 else if i = 2 then g OR 7 else 0)"
  shows "uspace s pd" and "n < user_pages \<Longrightarrow> upte s pd n = (if n = 1 then f OR 7 else if n = 2 then g OR 7 else 0)"
proof -
  note E = user_entry_frame [OF al(1)] user_entry_frame [OF al(2)] user_entry_frame [OF al(3)]
  have d: "upde s pd d = (if d = 0 then t OR 7 else 0)" if "d < 768" for d using D [OF that] by (simp add: upde_def)
  have tb: "utable s pd 0 = t" using d [of 0] E by (simp add: utable_def)
  show n: "upte s pd n = (if n = 1 then f OR 7 else if n = 2 then g OR 7 else 0)" if n: "n < user_pages" for n
    using d [OF page_indices(1) [OF n]] tb N [OF page_indices(3) [OF n]] first_indices(1) [OF n] first_indices(2) [OF n, of 1] first_indices(2) [OF n, of 2] E(3)
    by (auto simp: upte_def)
  have F: "uframe s pd 1 = f" "uframe s pd 2 = g" using n [of 1] n [of 2] E by (simp_all add: uframe_def user_pages_def)
  have z: "d < 768 \<Longrightarrow> upde s pd d \<noteq> 0 \<Longrightarrow> d = 0" for d using d [of d] by (auto split: if_splits)
  have m: "m < user_pages \<Longrightarrow> upte s pd m \<noteq> 0 \<Longrightarrow> m = 1 \<or> m = 2" for m using n [of m] by (auto split: if_splits)
  have one: "(1 :: nat) < user_pages" "(2 :: nat) < user_pages" by (simp_all add: user_pages_def)
  show "uspace s pd" unfolding uspace_def
  proof (intro conjI allI impI)
    show "kbase s" "frame_used s pd" "pd \<noteq> boot_pt s" "pd \<noteq> kpd_phys s" using k used(1) win by (auto simp: win_frames_def)
    fix d assume a: "d < 768" "upde s pd d \<noteq> 0"
    then have a0: "d = 0" by (rule z)
    show "user_entry (upde s pd d)" "frame_used s (utable s pd d)" "utable s pd d \<notin> insert pd (win_frames s)"
      using d [of d] a a0 tb E(2) used(2) dist win by auto
    fix d' assume "d' < 768" "upde s pd d' \<noteq> 0"
    then show "utable s pd d = utable s pd d' \<Longrightarrow> d = d'" using a0 z by blast
  next
    fix k assume a: "k < user_pages" "upte s pd k \<noteq> 0"
    then have k: "k = 1 \<or> k = 2" by (rule m)
    then show "user_entry (upte s pd k)" "frame_used s (uframe s pd k)" "uframe s pd k \<notin> insert pd (win_frames s)"
      using n [OF a(1)] F E used dist win by auto
    fix d assume "d < 768" "upde s pd d \<noteq> 0"
    then have "d = 0" by (rule z)
    then show "uframe s pd k \<noteq> utable s pd d" using k F tb dist by auto
  next
    fix k k' assume "k < user_pages" "k' < user_pages" "upte s pd k \<noteq> 0" "upte s pd k' \<noteq> 0" "uframe s pd k = uframe s pd k'"
    then show "k = k'" using m [of k] m [of k'] F dist by auto
  qed
qed

text \<open>Loading the new directory keeps the kernel where it is.\<close>

lemma kbase_cr3:
  assumes "kbase s" and "page_aligned pd" and "frame_used s pd" and "pd \<noteq> boot_pt s" and "load32 (phys s) (entry pd 768) = load32 (phys s) (entry (kpd_phys s) 768)"
  shows "kbase (s\<lparr>cr3 := pd\<rparr>)"
proof -
  have p: "pmm_inv (s\<lparr>cr3 := pd\<rparr>) = pmm_inv s" "used_pages (s\<lparr>cr3 := pd\<rparr>) = used_pages s" by (rule pmm_cong; simp)+
  have b: "kpd_phys (s\<lparr>cr3 := pd\<rparr>) = kpd_phys s" "boot_pt (s\<lparr>cr3 := pd\<rparr>) = boot_pt s" by (simp_all add: boot_pt_def kpd_phys_def)
  have u: "frame_used (s\<lparr>cr3 := pd\<rparr>) g = frame_used s g" for g by (simp add: frame_used_def p)
  have "\<forall>g \<in> win_frames (s\<lparr>cr3 := pd\<rparr>). frame_used (s\<lparr>cr3 := pd\<rparr>) g" using assms(1,3) by (auto simp: kbase_def win_frames_def b u)
  moreover have "win_wf (s\<lparr>cr3 := pd\<rparr>)" using assms by (auto simp: kbase_def win_wf_def kmapped_def b)
  moreover have "closed (s\<lparr>cr3 := pd\<rparr>)" using assms(1) by (simp add: kbase_def closed_def slot_def b)
  ultimately show ?thesis using assms(1) p by (simp add: kbase_def)
qed

text \<open>What a series of sessions keeps of the frames in use before it.\<close>

fun takes_frames :: "'a mem_state_scheme \<Rightarrow> addr list \<Rightarrow> 'a mem_state_scheme \<Rightarrow> bool" where
  "takes_frames s [] s' \<longleftrightarrow> s' = s"
| "takes_frames s (f # fs) s' \<longleftrightarrow> (\<exists>t. takes_frame s f t \<and> takes_frames t fs s')"

lemma takes_framesD:
  assumes "takes_frames s fs s'" and "kbase s"
  shows "kbase s'" "same_kernel s s'" "win_frames s' = win_frames s" "set fs \<inter> win_frames s = {}" "distinct fs"
    "f \<in> set fs \<Longrightarrow> frame_used s' f \<and> \<not> frame_used s f" "frame_used s g \<Longrightarrow> frame_used s' g"
    "frame_used s (x AND PAGE_MASK) \<Longrightarrow> phys s' x = phys s x" "card (free_pages s') + length fs = card (free_pages s)"
    "mem_rest s' = mem_rest s" "used_pages s' = (\<lambda>f. unat f div 4096) ` set fs \<union> used_pages s"
proof -
  have "kbase s' \<and> same_kernel s s' \<and> set fs \<inter> win_frames s = {} \<and> distinct fs \<and>
    (\<forall>f \<in> set fs. frame_used s' f \<and> \<not> frame_used s f) \<and> (\<forall>g. frame_used s g \<longrightarrow> frame_used s' g) \<and>
    (\<forall>x. frame_used s (x AND PAGE_MASK) \<longrightarrow> phys s' x = phys s x) \<and> card (free_pages s') + length fs = card (free_pages s) \<and>
    mem_rest s' = mem_rest s \<and> used_pages s' = (\<lambda>f. unat f div 4096) ` set fs \<union> used_pages s"
    using assms
  proof (induction fs arbitrary: s)
    case (Cons f fs)
    then obtain t where t: "takes_frame s f t" and r: "takes_frames t fs s'" by auto
    note T = takes_frameD [OF t] and R = Cons.IH [OF r takes_frameD(1) [OF t]]
    have "f \<notin> win_frames s" "f \<notin> set fs" using Cons.prems(2) T(5,6) R by (auto simp: kbase_def)
    then show ?case using R T(5,6,8,10,11,12) same_kernel_frames [OF T(2)] same_kernel_trans [OF T(2)] takes_frame_bytes [OF t] by auto
  qed (simp add: same_kernel_def)
  then show "kbase s'" "same_kernel s s'" "win_frames s' = win_frames s" "set fs \<inter> win_frames s = {}" "distinct fs"
    "f \<in> set fs \<Longrightarrow> frame_used s' f \<and> \<not> frame_used s f" "frame_used s g \<Longrightarrow> frame_used s' g"
    "frame_used s (x AND PAGE_MASK) \<Longrightarrow> phys s' x = phys s x" "card (free_pages s') + length fs = card (free_pages s)"
    "mem_rest s' = mem_rest s" "used_pages s' = (\<lambda>f. unat f div 4096) ` set fs \<union> used_pages s" using same_kernel_frames by auto
qed

lemma takes_frames_frame:
  assumes "takes_frames s fs s'" and "kbase s" and "frame_used s b"
  shows "i < 1024 \<Longrightarrow> load32 (phys s') (entry b i) = load32 (phys s) (entry b i)" and "off < 4096 \<Longrightarrow> phys s' (b + off) = phys s (b + off)"
proof -
  have b: "page_aligned b" using assms(3) by (simp add: frame_used_def)
  show "i < 1024 \<Longrightarrow> load32 (phys s') (entry b i) = load32 (phys s) (entry b i)"
    by (rule load32_frame_cong [OF b]) (use takes_framesD(8) [OF assms(1,2)] assms(3) in auto)
  show "off < 4096 \<Longrightarrow> phys s' (b + off) = phys s (b + off)"
    using takes_framesD(8) [OF assms(1,2), of "b + off"] assms(3) frame_offset [OF b, of off] by simp
qed

text \<open>The frames of the new address space, what they hold, and what they leave alone.\<close>

definition program_page :: "u8 list \<Rightarrow> u32 \<Rightarrow> u8" where
  "program_page code = (\<lambda>off. if unat off < length code then code ! unat off else 0)"

lemma mmap_ring3_frames:
  fixes s :: "'a mem_state_scheme"
  assumes k: "kbase s" and free: "4 \<le> card (free_pages s)"
    and code: "module_at s (mod_start um + KERNEL_BASE) code" "unat (mod_end um - mod_start um) = length code" "length code \<le> 4096"
  obtains pd f g t s' where "mmap_ring3 um s = Some (pd, s')" "takes_frames s [f, g, t, pd] s'" "page_aligned f" "page_aligned g" "page_aligned t" "page_aligned pd"
    "\<And>off. off < 4096 \<Longrightarrow> phys s' (f + off) = program_page code off" "\<And>off. off < 4096 \<Longrightarrow> phys s' (g + off) = 0"
    "\<And>i. i < 1024 \<Longrightarrow> load32 (phys s') (entry t i) = (if i = 1 then f OR 7 else if i = 2 then g OR 7 else 0)"
    "\<And>i. i < 1024 \<Longrightarrow> load32 (phys s') (entry pd i) = (if i = 0 then t OR 7 else if 768 \<le> i then load32 (phys s) (entry (kpd_phys s) i) else 0)"
proof -
  have limit: "unat (ucast (mod_end um - mod_start um) :: u16) = length code"
    using code(2,3) by (simp add: unsigned_ucast_eq take_bit_nat_eq_self)
  obtain f a0 a1 a2 a3 a where A: "pmm_alloc 1 s = Some (f, a0)" "map_tmp_page f a0 = Some (tmp_map_addr s, a1)"
      "zero_loop (tmp_map_addr s) 0 a1 = Some a2" "kmemcpy_loop (length code) (tmp_map_addr s) (mod_start um + KERNEL_BASE) a2 = Some a3" "unmap_tmp_page a3 = Some a"
      and Af: "takes_frame s f a" and Ab: "\<And>off. off < 4096 \<Longrightarrow> phys a (f + off) = (if unat off < length code then code ! unat off else 0)"
    using code_page [OF k _ code(1,3)] free by (metis card.empty not_numeral_le_zero)
  note Ad = takes_frameD [OF Af]
  have "free_pages a \<noteq> {}" using Ad(10) free by auto
  then obtain g b0 b where B: "pmm_alloc 1 a = Some (g, b0)" "zero_page g b0 = Some b" and Bf: "takes_frame a g b" and Bb: "\<And>off. off < 4096 \<Longrightarrow> phys b (g + off) = 0"
    using blank_page [OF Ad(1)] by metis
  note Bd = takes_frameD [OF Bf]
  have "free_pages b \<noteq> {}" using Ad(10) Bd(10) free by auto
  then obtain t c0 c1 c2 c3 c4 c where C: "pmm_alloc 1 b = Some (t, c0)" "map_tmp_page t c0 = Some (tmp_map_addr b, c1)" "zero_loop (tmp_map_addr b) 0 c1 = Some c2"
      "vstore32 (entry (tmp_map_addr b) 1) (f OR 7) c2 = Some c3" "vstore32 (entry (tmp_map_addr b) 2) (g OR 7) c3 = Some c4" "unmap_tmp_page c4 = Some c"
      and Cf: "takes_frame b t c" and Cl: "\<And>i. i < 1024 \<Longrightarrow> load32 (phys c) (entry t i) = (if i = 1 then f OR 7 else if i = 2 then g OR 7 else 0)"
    using table_frame [OF Bd(1), of "f OR 7" "g OR 7"] by blast
  note Cd = takes_frameD [OF Cf]
  have "free_pages c \<noteq> {}" using Ad(10) Bd(10) Cd(10) free by auto
  then obtain pd d0 d1 d2 d3 d4 d where D: "pmm_alloc 1 c = Some (pd, d0)" "map_tmp_page pd d0 = Some (tmp_map_addr c, d1)" "zero_loop (tmp_map_addr c) 0 d1 = Some d2"
      "vstore32 (entry (tmp_map_addr c) 0) (t OR 7) d2 = Some d3" "copy_kernel_half [768..<1024] (tmp_map_addr c) d3 = Some d4" "unmap_tmp_page d4 = Some d"
      and Df: "takes_frame c pd d"
      and Dl: "\<And>i. i < 1024 \<Longrightarrow> load32 (phys d) (entry pd i) = (if i = 0 then t OR 7 else if 768 \<le> i then load32 (phys c) (entry (kpd_phys c) i) else 0)"
    using directory_frame [OF Cd(1), of "t OR 7"] by blast
  have run: "mmap_ring3 um s = Some (pd, d)"
    using A B C D limit by (simp add: mmap_ring3_def user_flags mask_page_aligned [OF Ad(4)] mask_page_aligned [OF Bd(4)] mask_page_aligned [OF Cd(4)] del: upt_rec_numeral)
  have chain: "takes_frames s [f, g, t, pd] d" "takes_frames s [f, g, t] c" "takes_frames a [g, t, pd] d" "takes_frames b [t, pd] d" "takes_frames c [pd] d"
    using Af Bf Cf Df by auto
  have "frame_used s (kpd_phys s)" "kpd_phys c = kpd_phys s" using k takes_framesD(2) [OF chain(2) k] by (simp_all add: kbase_def win_frames_def same_kernel_def)
  note kpd = takes_frames_frame(1) [OF chain(2) k this(1)] this(2)
  show thesis
    by (rule that [OF run chain(1) Ad(4) Bd(4) Cd(4) takes_frameD(4) [OF Df]])
      (use takes_frames_frame(2) [OF chain(3) Ad(1,6)] Ab takes_frames_frame(2) [OF chain(4) Bd(1,6)] Bb takes_frames_frame(1) [OF chain(5) Cd(1,6)] Cl Dl kpd
        in \<open>auto simp: program_page_def\<close>)
qed

lemma new_space:
  assumes k: "kbase s" and chain: "takes_frames s [f, g, t, pd] s'" and al: "page_aligned f" "page_aligned g" "page_aligned t" "page_aligned pd"
    and T: "\<And>i. i < 1024 \<Longrightarrow> load32 (phys s') (entry t i) = (if i = 1 then f OR 7 else if i = 2 then g OR 7 else 0)"
    and D: "\<And>i. i < 1024 \<Longrightarrow> load32 (phys s') (entry pd i) = (if i = 0 then t OR 7 else if 768 \<le> i then load32 (phys s) (entry (kpd_phys s) i) else 0)"
  shows "uspace s' pd" and "n < user_pages \<Longrightarrow> upte s' pd n = (if n = 1 then f OR 7 else if n = 2 then g OR 7 else 0)" and "kbase (s'\<lparr>cr3 := pd\<rparr>)"
proof -
  note W = takes_framesD [OF chain k]
  have D0: "load32 (phys s') (entry pd i) = (if i = 0 then t OR 7 else 0)" if "i < 768" for i using D [of i] that by (auto simp: word_less_nat_alt word_le_nat_alt)
  show "uspace s' pd" "n < user_pages \<Longrightarrow> upte s' pd n = (if n = 1 then f OR 7 else if n = 2 then g OR 7 else 0)"
    using two_pages_space [OF W(1) al(3,1,2) _ _ _ _ _ _ D0 T] W(3-6) by auto
  have "frame_used s (kpd_phys s)" using k by (simp add: kbase_def win_frames_def)
  note kpd = takes_frames_frame(1) [OF chain k this, of 768]
  show "kbase (s'\<lparr>cr3 := pd\<rparr>)"
    by (rule kbase_cr3 [OF W(1) al(4)]) (use W(2,4,6) kpd D [of 768] in \<open>auto simp: win_frames_def same_kernel_def\<close>)
qed

text \<open>
  C4: \<open>mmap_ring3\<close> creates an address space in order. Its page directory is a fresh frame; page 1 holds the program,
  zero behind it, page 2 is zero, no other page is mapped; the upper quarter of the directory is the kernel's, so that the
  kernel can go on with this directory loaded; four frames are taken and no frame in use is changed. This is for a program
  of at most a page.
\<close>

theorem mmap_ring3_creates_space:
  fixes s :: "'a mem_state_scheme"
  assumes k: "kbase s" and free: "4 \<le> card (free_pages s)"
    and code: "module_at s (mod_start um + KERNEL_BASE) code" "unat (mod_end um - mod_start um) = length code" "length code \<le> 4096"
  shows "\<exists>pd s'. mmap_ring3 um s = Some (pd, s') \<and> uspace s' pd \<and> \<not> frame_used s pd \<and> kbase (s'\<lparr>cr3 := pd\<rparr>) \<and>
    (\<forall>n<user_pages. uview s' pd n = (if n = 1 then Some (program_page code) else if n = 2 then Some (\<lambda>_. 0) else None)) \<and>
    (\<forall>d. 768 \<le> d \<and> d < 1024 \<longrightarrow> upde s' pd d = load32 (phys s) (entry (kpd_phys s) d)) \<and>
    (\<forall>a. frame_used s (a AND PAGE_MASK) \<longrightarrow> phys s' a = phys s a) \<and> card (free_pages s') + 4 = card (free_pages s)"
proof -
  obtain pd f g t s' where run: "mmap_ring3 um s = Some (pd, s')" and chain: "takes_frames s [f, g, t, pd] s'"
      and al: "page_aligned f" "page_aligned g" "page_aligned t" "page_aligned pd"
      and F: "\<And>off. off < 4096 \<Longrightarrow> phys s' (f + off) = program_page code off" and G: "\<And>off. off < 4096 \<Longrightarrow> phys s' (g + off) = 0"
      and T: "\<And>i. i < 1024 \<Longrightarrow> load32 (phys s') (entry t i) = (if i = 1 then f OR 7 else if i = 2 then g OR 7 else 0)"
      and D: "\<And>i. i < 1024 \<Longrightarrow> load32 (phys s') (entry pd i) = (if i = 0 then t OR 7 else if 768 \<le> i then load32 (phys s) (entry (kpd_phys s) i) else 0)"
    by (rule mmap_ring3_frames [OF assms]) blast
  note W = takes_framesD [OF chain k]
  have S: "uspace s' pd" "\<And>n. n < user_pages \<Longrightarrow> upte s' pd n = (if n = 1 then f OR 7 else if n = 2 then g OR 7 else 0)" "kbase (s'\<lparr>cr3 := pd\<rparr>)"
    using new_space [OF k chain al] T D by blast+
  have "uview s' pd n = (if n = 1 then Some (program_page code) else if n = 2 then Some (\<lambda>_. 0) else None)" if "n < user_pages" for n
    using S(2) [OF that] F G user_entry_frame [OF al(1)] user_entry_frame [OF al(2)] code(3)
    by (auto simp: uview_def uframe_def fun_eq_iff word_less_nat_alt program_page_def)
  moreover have "upde s' pd d = load32 (phys s) (entry (kpd_phys s) d)" if "768 \<le> d" "d < 1024" for d using D [OF that(2)] that(1) by (auto simp: upde_def)
  ultimately show ?thesis using run S(1,3) W(6-9) by auto
qed

text \<open>The state after boot with a program of four bytes in frame \<open>0x104000\<close>, which the boot page table maps.\<close>

definition staged :: mem_state where
  "staged = booted\<lparr>phys := store32 (store32 booted_phys (entry 0x106000 0x104) 0x104003) (entry 0x104000 0) 0x80CDC031\<rparr>"

definition small_module :: user_module where
  "small_module = \<lparr>mod_start = 0x104000, mod_end = 0x104004\<rparr>"

lemma staged_load:
  "i < 1024 \<Longrightarrow> load32 (phys staged) (entry 0x105000 i) = (if i = 768 then 0x106003 else 0)"
  "i < 1024 \<Longrightarrow> load32 (phys staged) (entry 0x106000 i) =
    (if i = 0x104 then 0x104003 else if i = 0x106 then 0x106003 else if i = 0x105 then 0x105003 else 0)"
  "page_aligned 0x104000"
proof -
  show a: "page_aligned 0x104000" by (simp add: page_aligned_iff)
  show "i < 1024 \<Longrightarrow> load32 (phys staged) (entry 0x105000 i) = (if i = 768 then 0x106003 else 0)"
    by (simp add: staged_def load32_store32_entry booted_load booted_consts a)
  show "i < 1024 \<Longrightarrow> load32 (phys staged) (entry 0x106000 i) =
    (if i = 0x104 then 0x104003 else if i = 0x106 then 0x106003 else if i = 0x105 then 0x105003 else 0)"
    by (simp add: staged_def load32_store32_entry booted_load booted_consts a)
qed

lemma staged_fields [simp]:
  "cr3 staged = 0x105000" "kernel_page_directory staged = 0xC0105000" "tmp_map_addr staged = 0xC0200000" "kpd_phys staged = 0x105000" "boot_pt staged = 0x106000"
proof -
  show k: "kpd_phys staged = 0x105000" by (simp add: kpd_phys_def staged_def KERNEL_BASE_def)
  have "(0x106003 :: u32) AND PAGE_MASK = 0x106000" by (simp add: PAGE_MASK_def)
  then show "boot_pt staged = 0x106000" unfolding boot_pt_def k by (simp add: staged_load)
qed (simp_all add: staged_def)

lemma staged_pages: "pmm_inv staged" "free_pages staged = {264..<512}" "used_pages staged = {..<264}"
  using booted_pages(1) booted_sets pmm_cong [of staged booted] by (simp_all add: staged_def)

lemma staged_kbase: "kbase staged" "frame_used staged 0x104000" "frame_used staged 0x105000"
proof -
  have m: "(0x106003 :: u32) AND PAGE_MASK = 0x106000" "(0x105003 :: u32) AND PAGE_MASK = 0x105000" by (simp_all add: PAGE_MASK_def)
  have "bit (0x106003 :: u32) 0" "bit (0x106003 :: u32) (Suc 0)" "bit (0x105003 :: u32) 0" "bit (0x105003 :: u32) (Suc 0)"
    by (simp_all add: bit_iff_odd)
  with m have "win_wf staged" by (simp add: win_wf_def kmapped_def booted_consts staged_load denies_def KERNEL_BASE_def)
  moreover have "closed staged" by (simp add: closed_def slot_def booted_consts staged_load)
  moreover have "\<forall>f \<in> win_frames staged. frame_used staged f" by (simp add: win_frames_def frame_used_def staged_pages booted_consts)
  ultimately show "kbase staged" using staged_pages by (simp add: kbase_def)
  show "frame_used staged 0x104000" "frame_used staged 0x105000" by (simp_all add: frame_used_def staged_pages staged_load booted_consts)
qed

lemma staged_readable:
  assumes "off < 4096"
  shows "readable staged (0xC0104000 + off) (0x104000 + off) \<and> (0x104000 + off) AND PAGE_MASK = 0x104000"
    and "readable staged (0xC0105000 + off) (0x105000 + off) \<and> (0x105000 + off) AND PAGE_MASK = 0x105000"
proof -
  have u: "unat off < 4096" using assms by (simp add: word_less_nat_alt)
  have al: "page_aligned 0xC0104000" "PDE_INDEX 0xC0104000 = 768" "PTE_INDEX 0xC0104000 = 0x104"
    by (simp_all add: page_aligned_iff word_eq_iff_unat_u32 unat_PDE_INDEX unat_PTE_INDEX)
  have e: "\<not> denies False 0x104003" "(0x104003 :: u32) AND PAGE_MASK = 0x104000" "\<not> denies False 0x105003" "(0x105003 :: u32) AND PAGE_MASK = 0x105000"
    by (simp_all add: denies_def bit_iff_odd PAGE_MASK_def)
  have w: "win_wf staged" using staged_kbase(1) by (simp add: kbase_def)
  note ix = index_offset [OF al(1) u] mask_page_offset(2) [OF al(1) u] mask_page_offset(1) [OF staged_load(3) u]
    index_offset [OF booted_consts(3) u] mask_page_offset(2) [OF booted_consts(3) u] mask_page_offset(1) [OF booted_consts(1) u]
  have "translate (phys staged) (cr3 staged) False (0xC0104000 + off) = Some (0x104000 + off)"
    "translate (phys staged) (cr3 staged) False (0xC0105000 + off) = Some (0x105000 + off)"
    using translate_768 [OF w, of "0xC0104000 + off" False] translate_768 [OF w, of "0xC0105000 + off" False]
    by (simp_all add: ix al booted_consts staged_load(2) e)
  then show "readable staged (0xC0104000 + off) (0x104000 + off) \<and> (0x104000 + off) AND PAGE_MASK = 0x104000"
    "readable staged (0xC0105000 + off) (0x105000 + off) \<and> (0x105000 + off) AND PAGE_MASK = 0x105000"
    using ix al by (simp_all add: readable_def booted_consts)
qed

lemma staged_module: "module_at staged (mod_start small_module + KERNEL_BASE) [0x31, 0xC0, 0xCD, 0x80]"
proof -
  have "\<exists>pa. readable staged (0xC0104000 + of_nat i) pa \<and> frame_used staged (pa AND PAGE_MASK) \<and> phys staged pa = [0x31, 0xC0, 0xCD, 0x80] ! i" if "i < 4" for i
  proof -
    have "phys staged (0x104000 + of_nat i) = [0x31, 0xC0, 0xCD, 0x80] ! i"
    proof -
      consider "i = 0" | "i = 1" | "i = 2" | "i = 3" using \<open>i < 4\<close> by linarith
      then show ?thesis by cases (simp_all add: staged_def entry_def store32_def)
    qed
    moreover have "(of_nat i :: u32) < 4096" using that by (simp add: word_less_nat_alt unat_of_nat_u32)
    ultimately show ?thesis using staged_readable(1) [of "of_nat i"] staged_kbase(2) by metis
  qed
  then show ?thesis by (simp add: module_at_def small_module_def KERNEL_BASE_def)
qed

theorem mmap_ring3_creates_space_witness:
  "\<exists>pd s'. mmap_ring3 small_module staged = Some (pd, s') \<and> uspace s' pd \<and> uview s' pd 1 = Some (program_page [0x31, 0xC0, 0xCD, 0x80]) \<and>
    uview s' pd 2 = Some (\<lambda>_. 0) \<and> card (free_pages s') = 244"
proof -
  have "unat (mod_end small_module - mod_start small_module) = length [0x31 :: u8, 0xC0, 0xCD, 0x80]" by (simp add: small_module_def)
  then show ?thesis using mmap_ring3_creates_space [OF staged_kbase(1) _ staged_module] by (fastforce simp: user_pages_def staged_pages)
qed

section \<open>A program of more than a page\<close>

lemma kmemcpy_loop_add:
  fixes s :: "'a mem_state_scheme"
  shows "kmemcpy_loop (m + n) to from s = kmemcpy_loop m to from s \<bind> kmemcpy_loop n (to + of_nat m) (from + of_nat m)"
proof (induction m arbitrary: to "from" s)
  case (Suc m)
  have "kmemcpy_loop (m + n) (to + 1) (from + 1) = (\<lambda>y :: 'a mem_state_scheme. kmemcpy_loop m (to + 1) (from + 1) y \<bind> kmemcpy_loop n (to + (1 + of_nat m)) (from + (1 + of_nat m)))"
    using Suc.IH [of "to + 1" "from + 1"] by (intro ext) (simp add: add.assoc)
  then show ?case by simp
qed simp

lemma session_store8_behind:
  assumes w: "fillable s f" and o: "outside f (phys s) M" and b: "PDE_INDEX (tmp_map_addr s + 4096) = 768"
    and d: "denies True (load32 (phys s) (entry (boot_pt s) (PTE_INDEX (tmp_map_addr s + 4096))))" and n: "PTE_INDEX (tmp_map_addr s + 4096) \<noteq> PTE_INDEX (tmp_map_addr s)"
  shows "vstore8 (tmp_map_addr s + 4096) v (session s f M l) = None"
proof -
  note F = fillableD [OF w] and S = session_wf [OF w o, of l]
  have "load32 (store32 M (slot s) (f OR 3)) (entry (boot_pt s) (PTE_INDEX (tmp_map_addr s + 4096))) = load32 (phys s) (entry (boot_pt s) (PTE_INDEX (tmp_map_addr s + 4096)))"
    using n outside_load32 [OF o _ F(5) [symmetric]] by (simp add: slot_def load32_store32_entry)
  then show ?thesis using d translate_768 [of "session s f M l" "tmp_map_addr s + 4096" True] S b by (simp add: vstore8_def open_on_def session_def)
qed

text \<open>
  C39: a program of more than 4096 bytes (and less than 65536) is not staged: the copy runs over the end of the window, and
  since the kernel maps nothing behind the window, the kernel takes a page fault.
\<close>

theorem mmap_ring3_large_program_faults:
  fixes s :: "'a mem_state_scheme"
  assumes k: "kbase s" "free_pages s \<noteq> {}" and code: "module_at s (mod_start um + KERNEL_BASE) code" "unat (mod_end um - mod_start um) = length code"
    and large: "4096 < length code" "length code < 65536" and behind: "PDE_INDEX (tmp_map_addr s + 4096) = 768"
    "load32 (phys s) (entry (boot_pt s) (PTE_INDEX (tmp_map_addr s + 4096))) = 0"
  shows "mmap_ring3 um s = None"
proof -
  have limit: "unat (ucast (mod_end um - mod_start um) :: u16) = length code"
    using code(2) large(2) by (simp add: unsigned_ucast_eq take_bit_nat_eq_self)
  obtain f s0 l where "starts s f s0 l" by (rule session_starts [OF k])
  note S = startsD [OF this]
  let ?Z = "zero_frame (phys s) f" and ?src = "mod_start um + KERNEL_BASE"
  let ?M = "put_bytes ?Z f (take 4096 code)"
  have c: "code_at s0 f ?src (take 4096 code)" using module_code [OF code(1) S(3)] S(5) large(1) by (auto simp: code_at_def)
  have C: "outside f (phys s) ?M" "kmemcpy_loop 4096 (tmp_map_addr s) ?src (session s0 f ?Z l) = Some (session s0 f ?M l)"
    using session_copy [OF S(2) _ _ c, of ?Z 0 l] S(11) large(1) by (simp_all add: S(6,7))
  have t: "PTE_INDEX (tmp_map_addr s + 4096) \<noteq> PTE_INDEX (tmp_map_addr s)"
  proof -
    have "PDE_INDEX (tmp_map_addr s) = 768" "page_aligned (tmp_map_addr s)" using k(1) by (simp_all add: kbase_def win_wf_def)
    moreover have "page_aligned (tmp_map_addr s + 4096)" using \<open>page_aligned (tmp_map_addr s)\<close> dvd_add [of 4096 _ "4096 :: nat"] by (simp add: page_aligned_dvd unat_word_ariths dvd_mod)
    ultimately show ?thesis using index_inject [of "tmp_map_addr s + 4096" "tmp_map_addr s"] behind(1) by auto
  qed
  have bt: "boot_pt s0 = boot_pt s" using S(5) by auto
  have "vstore8 (tmp_map_addr s + 4096) b (session s0 f ?M l) = None" for b
    using session_store8_behind [OF S(2), of ?M b l] C(1) behind t by (simp add: S(6,7) bt denies_def)
  then have stop: "kmemcpy_loop (Suc n) (tmp_map_addr s + of_nat 4096) (?src + of_nat 4096) (session s0 f ?M l) = None" for n by simp
  obtain n where n: "length code = 4096 + Suc n" using less_imp_Suc_add [OF large(1)] by (auto simp only: add_Suc_right)
  have "kmemcpy_loop (length code) (tmp_map_addr s) ?src (session s0 f ?Z l) = None"
    unfolding n kmemcpy_loop_add C(2) Option.bind.bind_lunit by (rule stop)
  then show ?thesis using S(1,9,10) limit by (simp add: mmap_ring3_def)
qed

theorem mmap_ring3_large_program_faults_witness:
  "mmap_ring3 \<lparr>mod_start = 0x104000, mod_end = 0x105001\<rparr> staged = None"
proof -
  let ?um = "\<lparr>mod_start = 0x104000, mod_end = 0x105001\<rparr>"
  define code where "code = map (\<lambda>i. phys staged (0x104000 + of_nat i)) [0..<4097]"
  have pa: "readable staged (0xC0104000 + of_nat i) (0x104000 + of_nat i) \<and> frame_used staged ((0x104000 + of_nat i) AND PAGE_MASK)" if "i < 4097" for i
  proof (cases "i < 4096")
    case True
    then have "(of_nat i :: u32) < 4096" by (simp add: word_less_nat_alt unat_of_nat_u32)
    then show ?thesis using staged_readable(1) [of "of_nat i"] staged_kbase(2) by simp
  next
    case False
    with that have "i = 4096" by simp
    then show ?thesis using staged_readable(2) [of 0] staged_kbase(3) by simp
  qed
  have m: "module_at staged (mod_start ?um + KERNEL_BASE) code"
    unfolding module_at_def using pa by (auto simp: code_def KERNEL_BASE_def simp del: upt_rec_numeral)
  have i: "PDE_INDEX (tmp_map_addr staged + 4096) = 768" "PTE_INDEX (tmp_map_addr staged + 4096) = 0x201"
    by (simp_all add: word_eq_iff_unat_u32 unat_PDE_INDEX unat_PTE_INDEX)
  have l: "unat (mod_end ?um - mod_start ?um) = length code" "4096 < length code" "length code < 65536" by (simp_all add: code_def del: upt_rec_numeral)
  have b: "free_pages staged \<noteq> {}" "load32 (phys staged) (entry (boot_pt staged) (PTE_INDEX (tmp_map_addr staged + 4096))) = 0"
    unfolding i(2) by (simp_all add: staged_pages staged_load)
  show ?thesis by (rule mmap_ring3_large_program_faults [OF staged_kbase(1) b(1) m l i(1) b(2)])
qed

end
