(* ===== verification/End_Space.thy ===== *)
theory End_Space
  imports User_Unmap New_Space Frames
begin

text \<open>
  The end of an address space: \<open>unmmap_ring3\<close> of \<open>kernel/memory.c\<close> walks the user's half of a page directory, clears
  every entry it finds and gives the pages, the page tables and the directory back. With New_Space it closes the life
  of an address space: what its creation took is what its end gives back.
\<close>

section \<open>The screen and the frames it stands on\<close>

text \<open>
  The walk prints a line for every page and every table it gives back, so it relies on the frame buffer being mapped. These are
  the frames that mapping stands on: the loaded directory and the page tables of its entries from 896 on.
\<close>

definition screen_frames :: "'a mem_state_scheme \<Rightarrow> addr set" where
  "screen_frames s = insert (cr3 s AND PAGE_MASK)
     {load32 (phys s) (entry (cr3 s AND PAGE_MASK) d) AND PAGE_MASK | d. 896 \<le> d \<and> d < 1024 \<and> bit (load32 (phys s) (entry (cr3 s AND PAGE_MASK) d)) 0}"

lemma screen_frames_aligned: "f \<in> screen_frames s \<Longrightarrow> page_aligned f"
  by (auto simp: screen_frames_def)

lemma screen_index:
  assumes "FRAMEBUFFER_ADDR \<le> va"
  shows "896 \<le> PDE_INDEX va" "PDE_INDEX va < 1024" "PTE_INDEX va < 1024"
proof -
  have "3758096384 \<le> unat va" using assms by (simp add: FRAMEBUFFER_ADDR_def word_le_nat_alt)
  moreover have "unat va < 4294967296" using unsigned_less [of va] by simp
  ultimately have "896 \<le> unat va div 4194304" "unat va div 4194304 < 1024" by (simp_all add: less_mult_imp_div_less)
  then show "896 \<le> PDE_INDEX va" "PDE_INDEX va < 1024" "PTE_INDEX va < 1024"
    by (simp_all add: word_le_nat_alt word_less_nat_alt unat_PDE_INDEX unat_PTE_INDEX)
qed

lemma screen_agree:
  fixes s s' :: "'a mem_state_scheme"
  assumes c: "cr3 s' = cr3 s" and e: "\<And>f i. f \<in> screen_frames s \<Longrightarrow> i < 1024 \<Longrightarrow> load32 (phys s') (entry f i) = load32 (phys s) (entry f i)"
  shows "screen_frames s' = screen_frames s"
    and "FRAMEBUFFER_ADDR \<le> va \<Longrightarrow> translate (phys s') (cr3 s') w va = translate (phys s) (cr3 s) w va"
proof -
  let ?c = "cr3 s AND PAGE_MASK"
  have d: "load32 (phys s') (entry ?c i) = load32 (phys s) (entry ?c i)" if "i < 1024" for i by (rule e) (use that in \<open>simp_all add: screen_frames_def\<close>)
  show "screen_frames s' = screen_frames s" unfolding screen_frames_def c using d by (intro arg_cong [of _ _ "insert _"] Collect_cong ex_cong1) auto
  show "translate (phys s') (cr3 s') w va = translate (phys s) (cr3 s) w va" if "FRAMEBUFFER_ADDR \<le> va"
  proof -
    note x = screen_index [OF that]
    let ?e = "load32 (phys s) (entry ?c (PDE_INDEX va))"
    have "load32 (phys s') (entry (?e AND PAGE_MASK) (PTE_INDEX va)) = load32 (phys s) (entry (?e AND PAGE_MASK) (PTE_INDEX va))" if "bit ?e 0"
      using that x by (intro e) (auto simp: screen_frames_def)
    then show ?thesis unfolding translate_def c d [OF x(2)] by (simp add: denies_def Let_def)
  qed
qed

lemma screen_store:
  assumes "page_aligned f" and "f \<notin> screen_frames s" and "i < 1024" and "g \<in> screen_frames s" and "j < 1024"
  shows "load32 (store32 (phys s) (entry f i) v) (entry g j) = load32 (phys s) (entry g j)"
  using assms screen_frames_aligned [of g s] load32_store32_entry [of g f j i "phys s" v] by auto

section \<open>Clearing one entry\<close>

lemma off_screen_mem:
  fixes s s' :: "'a mem_state_scheme"
  assumes "off_screen s' = off_screen s"
  shows "phys s' = phys s" "cr3 s' = cr3 s" "kernel_page_directory s' = kernel_page_directory s" "tmp_map_addr s' = tmp_map_addr s"
    "bitmap s' = bitmap s" "bitmap_size s' = bitmap_size s"
proof -
  obtain p r c where "s' = s\<lparr>fb_mem := p, terminal_row := r, terminal_column := c\<rparr>" using assms unfolding off_screen_eq by blast
  then show "phys s' = phys s" "cr3 s' = cr3 s" "kernel_page_directory s' = kernel_page_directory s" "tmp_map_addr s' = tmp_map_addr s"
    "bitmap s' = bitmap s" "bitmap_size s' = bitmap_size s" by simp_all
qed

text \<open>The two halves of a visit have the same shape: look at an entry through the window and, if it counts, clear it and free a frame.\<close>

definition clear_entry :: "string \<Rightarrow> (u32 \<Rightarrow> bool) \<Rightarrow> (u32 \<Rightarrow> addr) \<Rightarrow> addr \<Rightarrow> u32 \<Rightarrow> 'a mem_state_scheme \<Rightarrow> 'a mem_state_scheme option" where
  "clear_entry msg counts frame pa i s = do {
     (tmp, s) \<leftarrow> map_tmp_page pa s;
     e \<leftarrow> vload32 (entry tmp i) s;
     s \<leftarrow> (if counts e then do {
              s \<leftarrow> terminal_writestring msg s;
              s \<leftarrow> vstore32 (entry tmp i) 0 s;
              pmm_free (frame e) 1 s }
            else Some s);
     unmap_tmp_page s }"

lemma unmmap_ring3_entry_eq:
  "unmmap_ring3_entry pd i j s = do {
     (pt, s) \<leftarrow> read_entry pd i s;
     s \<leftarrow> (if pt AND PAGE_PRESENT \<noteq> 0 then clear_entry ''table free\<newline>'' (\<lambda>e. e \<noteq> 0) (\<lambda>e. e AND PAGE_MASK) pt j s else Some s);
     if j + 1 \<ge> 1024 then clear_entry ''page table free\<newline>'' (\<lambda>e. e AND PAGE_PRESENT \<noteq> 0) (\<lambda>_. pt AND PAGE_MASK) pd i s else Some s }"
  unfolding unmmap_ring3_entry_def clear_entry_def ..

definition clears :: "nat \<Rightarrow> 'a mem_state_scheme \<Rightarrow> addr \<Rightarrow> u32 \<Rightarrow> addr \<Rightarrow> 'a mem_state_scheme \<Rightarrow> bool" where
  "clears k s f i h s' \<longleftrightarrow> phys s' = store32 (phys s) (entry f i) 0 \<and> kbase s' \<and> same_kernel s s' \<and>
     term_ok k s' \<and> screen_frames s' = screen_frames s \<and>
     used_pages s' = used_pages s - {unat h div 4096}"

lemma clear_entry_none:
  assumes w: "win_wf s" "closed s" "may_write s (pa AND PAGE_MASK) i" and "\<not> counts (load32 (phys s) (entry (pa AND PAGE_MASK) i))"
  shows "\<exists>l. clear_entry msg counts frame pa i s = Some (s\<lparr>invlpg_log := l\<rparr>)"
proof -
  let ?f = "pa AND PAGE_MASK"
  have l: "vload32 (entry (tmp_map_addr s) i) (opened ?f s) = Some (load32 (phys s) (entry ?f i))"
    by (rule window_write(1) [OF w]) (simp add: same_win_def)
  have "unmap_tmp_page (opened ?f s) = Some (s\<lparr>phys := phys s, invlpg_log := (invlpg_log s @ [tmp_map_addr s]) @ [tmp_map_addr s]\<rparr>)"
    using close_eq [OF slot_store(1,3) [OF w(1)]] w(2) by (simp add: closed_def)
  then show ?thesis using assms(4) by (auto simp: clear_entry_def map_tmp_page_eq [OF w(1)] l)
qed

lemma clear_entry_some:
  fixes s :: "'a mem_state_scheme"
  assumes k: "kbase s" "term_ok (Suc n) s" "message msg" "boot_pt s \<notin> screen_frames s" "pa AND PAGE_MASK \<notin> screen_frames s" and mw: "may_write s (pa AND PAGE_MASK) i" and c: "counts (load32 (phys s) (entry (pa AND PAGE_MASK) i))"
    and h: "h = frame (load32 (phys s) (entry (pa AND PAGE_MASK) i))" "frame_used s h" "h \<notin> win_frames s"
  shows "\<exists>s'. clear_entry msg counts frame pa i s = Some s' \<and> clears n s (pa AND PAGE_MASK) i h s'"
proof -
  have w: "win_wf s" "closed s" "pmm_inv s" using k(1) by (simp_all add: kbase_def)
  let ?f = "pa AND PAGE_MASK" and ?x = "unat h div 4096"
  let ?M = "store32 (phys s) (entry ?f i) 0" and ?t = "opened ?f s"
  have l: "vload32 (entry (tmp_map_addr s) i) ?t = Some (load32 (phys s) (entry ?f i))" by (rule window_write(1) [OF w(1,2) mw]) (simp add: same_win_def)
  have sl: "load32 (phys ?t) (entry g j) = load32 (phys s) (entry g j)" "load32 ?M (entry g j) = load32 (phys s) (entry g j)" if "g \<in> screen_frames s" "j < 1024" for g j
    using that mw screen_store [OF page_aligned_boot_pt k(4), of "PTE_INDEX (tmp_map_addr s)"] screen_store [OF _ k(5), of i] by (simp_all add: slot_def may_write_def)
  have "same_screen s ?t" using screen_agree(2) [of ?t s, OF _ sl(1)] by (simp add: same_screen_def)
  then have "term_ok (Suc n) ?t" using k(2) by (simp add: same_screen_room(2))
  then obtain t1 where t1: "terminal_writestring msg ?t = Some t1" "off_screen t1 = off_screen ?t" "term_ok n t1" using terminal_message_ok [OF _ k(3)] by blast
  note m = off_screen_mem [OF t1(2)]
  have st: "vstore32 (entry (tmp_map_addr s) i) 0 t1 = Some (t1\<lparr>phys := store32 ?M (slot s) (?f OR 3)\<rparr>)"
    by (rule window_write(2) [OF w(1,2) mw]) (simp add: same_win_def m)
  let ?t2 = "t1\<lparr>phys := store32 ?M (slot s) (?f OR 3)\<rparr>"
  have pm: "pmm_inv ?t2" "used_pages ?t2 = used_pages s" "page_count ?t2 = page_count s" using pmm_cong [of ?t2 s] w(3) m by simp_all
  have x: "?x < page_count ?t2" "page_addr ?x = h" unfolding pm(3) using h(2) page_addr_of_frame [of h] by (auto simp: frame_used_def used_pages_def)
  obtain arr where fr: "pmm_free (page_addr ?x) 1 ?t2 = Some (?t2\<lparr>bitmap := arr\<rparr>)" "pmm_inv (?t2\<lparr>bitmap := arr\<rparr>)"
      "used_pages (?t2\<lparr>bitmap := arr\<rparr>) = used_pages ?t2 - {?x}" by (rule pmm_free_one [OF pm(1) x(1)])
  let ?t3 = "?t2\<lparr>bitmap := arr\<rparr>"
  let ?s = "?t3\<lparr>phys := ?M, invlpg_log := invlpg_log ?t3 @ [tmp_map_addr s]\<rparr>"
  have um: "unmap_tmp_page ?t3 = Some ?s" by (rule window_write(3) [OF w(1,2) mw]) (simp add: same_win_def m)
  have run: "clear_entry msg counts frame pa i s = Some ?s"
    using c fr(1) um by (simp add: clear_entry_def map_tmp_page_eq [OF w(1)] l t1(1) st x(2) flip: h(1))
  have sw: "same_win ?s (s\<lparr>phys := ?M, invlpg_log := []\<rparr>)" using m by (simp add: same_win_def)
  note W = write_keeps [OF w(1,2) mw, where v = 0 and l = "[]"]
  have used: "pmm_inv ?s" "used_pages ?s = used_pages s - {?x}" using pmm_cong [of ?s ?t3] fr(2,3) pm(2) by simp_all
  have fu: "frame_used ?s g" if "frame_used s g" "g \<noteq> h" for g
    unfolding frame_used_def used(2) using that h(2) aligned_page_inject [of g h] by (auto simp: frame_used_def)
  have "kbase ?s" unfolding kbase_def same_winD [OF sw] using W used(1) fu k(1) h(3) by (auto simp: kbase_def)
  moreover have "same_kernel s ?s"
    using store_keeps_win(2) [OF w(1) mw, of 0] same_winD [OF sw] sw by (simp add: same_kernel_def same_win_def)
  moreover have "screen_frames ?s = screen_frames s" by (rule screen_agree(1)) (use m sl(2) in simp_all)
  moreover have "same_screen t1 ?s"
  proof -
    have "translate (phys ?s) (cr3 ?s) True va = translate (phys s) (cr3 s) True va" if "FRAMEBUFFER_ADDR \<le> va" for va
      by (rule screen_agree(2) [OF _ _ that]) (use m sl(2) in simp_all)
    then show ?thesis using screen_agree(2) [of ?t s, OF _ sl(1)] m by (simp add: same_screen_def)
  qed
  then have "term_ok n ?s" using t1(3) by (simp add: same_screen_room(2))
  ultimately have "clears n s ?f i h ?s" using used(2) by (simp add: clears_def)
  with run show ?thesis by blast
qed

section \<open>What has been given back\<close>

definition gone :: "'a mem_state_scheme \<Rightarrow> addr \<Rightarrow> nat \<Rightarrow> nat \<Rightarrow> nat set" where
  "gone s pd m n = {unat (uframe s pd k) div 4096 | k. k < n \<and> k < user_pages \<and> upte s pd k \<noteq> 0} \<union>
     {unat (utable s pd (of_nat d)) div 4096 | d. d < m \<and> d < 768 \<and> upde s pd (of_nat d) \<noteq> 0}"

text \<open>The lines the walk has still to print: one for each page and each table that is left.\<close>

definition lines :: "'a mem_state_scheme \<Rightarrow> addr \<Rightarrow> nat \<Rightarrow> nat \<Rightarrow> nat" where
  "lines s pd m n = card {k. n \<le> k \<and> k < user_pages \<and> upte s pd k \<noteq> 0} + card {d. m \<le> d \<and> d < 768 \<and> upde s pd (of_nat d) \<noteq> 0}"

lemma card_from:
  assumes "n < N"
  shows "card {k. n \<le> k \<and> k < (N :: nat) \<and> P k} = card {k. Suc n \<le> k \<and> k < N \<and> P k} + (if P n then 1 else 0)"
proof -
  have "{k. n \<le> k \<and> k < N \<and> P k} = {k. Suc n \<le> k \<and> k < N \<and> P k} \<union> (if P n then {n} else {})" using assms by (auto simp: Suc_le_eq le_less)
  moreover have "finite {k. Suc n \<le> k \<and> k < N \<and> P k}" by simp
  ultimately show ?thesis by auto
qed

lemma lines_page: "n < user_pages \<Longrightarrow> lines s pd m n = (if upte s pd n = 0 then lines s pd m (Suc n) else Suc (lines s pd m (Suc n)))"
  unfolding lines_def using card_from [of n user_pages "\<lambda>k. upte s pd k \<noteq> 0"] by simp

lemma lines_table: "m < 768 \<Longrightarrow> lines s pd m n = (if upde s pd (of_nat m) = 0 then lines s pd (Suc m) n else Suc (lines s pd (Suc m) n))"
  unfolding lines_def using card_from [of m 768 "\<lambda>d. upde s pd (of_nat d) \<noteq> 0"] by simp

text \<open>The address space and the window share no frame with the mapping of the screen.\<close>

definition screen_apart :: "'a mem_state_scheme \<Rightarrow> addr \<Rightarrow> bool" where
  "screen_apart s pd \<longleftrightarrow> boot_pt s \<notin> screen_frames s \<and> pd \<notin> screen_frames s \<and>
     (\<forall>d<768. upde s pd (of_nat d) \<noteq> 0 \<longrightarrow> utable s pd (of_nat d) \<notin> screen_frames s)"

text \<open>In \<open>s'\<close> the tables below \<open>m\<close> and the pages below \<open>n\<close> of the address space of \<open>s\<close> are gone.\<close>

definition torn :: "'a mem_state_scheme \<Rightarrow> addr \<Rightarrow> nat \<Rightarrow> nat \<Rightarrow> 'a mem_state_scheme \<Rightarrow> bool" where
  "torn s pd m n s' \<longleftrightarrow> uspace s' pd \<and> term_ok (lines s pd m n) s' \<and> screen_apart s pd \<and> screen_frames s' = screen_frames s \<and> same_kernel s s' \<and> used_pages s' = used_pages s - gone s pd m n \<and>
     (\<forall>k<user_pages. upte s' pd k = (if k < n then 0 else upte s pd k)) \<and>
     (\<forall>d<768. upde s' pd (of_nat d) = (if d < m then 0 else upde s pd (of_nat d))) \<and>
     (\<forall>a. a AND PAGE_MASK \<noteq> pd \<longrightarrow> (\<forall>d<768. upde s pd (of_nat d) \<noteq> 0 \<longrightarrow> a AND PAGE_MASK \<noteq> utable s pd (of_nat d)) \<longrightarrow> phys s' a = phys s a)"

lemma used_pages_log [simp]: "used_pages (s\<lparr>invlpg_log := l\<rparr>) = used_pages s"
  by (rule pmm_cong) simp_all

lemma torn_log [simp]: "torn s pd m n (s'\<lparr>invlpg_log := l\<rparr>) = torn s pd m n s'"
proof -
  have "same_screen s' (s'\<lparr>invlpg_log := l\<rparr>)" "screen_frames (s'\<lparr>invlpg_log := l\<rparr>) = screen_frames s'" by (simp_all add: same_screen_def screen_frames_def)
  then show ?thesis by (simp add: torn_def same_kernel_def same_screen_room(2))
qed

lemma gone_page: "n < user_pages \<Longrightarrow> gone s pd m (Suc n) = gone s pd m n \<union> (if upte s pd n = 0 then {} else {unat (uframe s pd n) div 4096})"
  unfolding gone_def by (auto simp: less_Suc_eq)

lemma gone_table: "m < 768 \<Longrightarrow> gone s pd (Suc m) n = gone s pd m n \<union> (if upde s pd (of_nat m) = 0 then {} else {unat (utable s pd (of_nat m)) div 4096})"
  unfolding gone_def by (auto simp: less_Suc_eq)

lemma tornD:
  assumes "torn s pd m n s'"
  shows "uspace s' pd" "term_ok (lines s pd m n) s'" "same_kernel s s'" "used_pages s' = used_pages s - gone s pd m n"
    "k < user_pages \<Longrightarrow> upte s' pd k = (if k < n then 0 else upte s pd k)" "d < 768 \<Longrightarrow> upde s' pd (of_nat d) = (if d < m then 0 else upde s pd (of_nat d))"
    "a AND PAGE_MASK \<noteq> pd \<Longrightarrow> (\<And>d. d < 768 \<Longrightarrow> upde s pd (of_nat d) \<noteq> 0 \<Longrightarrow> a AND PAGE_MASK \<noteq> utable s pd (of_nat d)) \<Longrightarrow> phys s' a = phys s a"
    "screen_apart s pd" "screen_frames s' = screen_frames s" "boot_pt s' \<notin> screen_frames s'"
  using assms by (auto simp: torn_def same_kernel_def screen_apart_def)

lemma walk_messages: "message ''table free\<newline>''" "message ''page table free\<newline>''"
  by (simp_all add: message_def cstr_def)

lemma small_index: "d < 768 \<Longrightarrow> (of_nat d :: u32) < 768" "(e :: u32) < 768 \<Longrightarrow> \<exists>d<768. e = of_nat d" "d < 768 \<Longrightarrow> d' < 768 \<Longrightarrow> (of_nat d :: u32) = of_nat d' \<longleftrightarrow> d = d'"
proof -
  show "d < 768 \<Longrightarrow> (of_nat d :: u32) < 768" by (simp add: word_less_nat_alt unat_of_nat_u32)
  show "(e :: u32) < 768 \<Longrightarrow> \<exists>d<768. e = of_nat d" by (intro exI [of _ "unat e"]) (simp add: word_less_nat_alt)
  show "d < 768 \<Longrightarrow> d' < 768 \<Longrightarrow> (of_nat d :: u32) = of_nat d' \<longleftrightarrow> d = d'" by (simp add: word_eq_iff_unat_u32 unat_of_nat_u32)
qed

text \<open>A page of a table that is still there.\<close>

lemma torn_page:
  assumes t: "torn s pd m n s1" and n: "n < user_pages" "n div 1024 = m" and d: "upde s pd (dir_of n) \<noteq> 0" and ms: "message msg"
  shows "\<exists>s2. clear_entry msg (\<lambda>e. e \<noteq> 0) (\<lambda>e. e AND PAGE_MASK) (upde s pd (dir_of n)) (idx_of n) s1 = Some s2 \<and> torn s pd m (Suc n) s2"
proof -
  note T = tornD [OF t] and I = page_indices [OF n(1)]
  note U = uspaceD [OF T(1)]
  have m: "m < 768" "dir_of n = of_nat m" using n by (auto simp: user_pages_def dir_of_def less_mult_imp_div_less)
  have d1: "upde s1 pd (dir_of n) = upde s pd (dir_of n)" using T(6) [OF m(1)] m(2) by simp
  have n1: "upte s1 pd n = upte s pd n" using T(5) [OF n(1)] by simp
  have f: "upde s pd (dir_of n) AND PAGE_MASK = utable s1 pd (dir_of n)" by (simp add: utable_def d1)
  have dd: "upde s1 pd (dir_of n) \<noteq> 0" using d d1 by simp
  note Ta = U(6) [OF I(1) dd]
  have mw: "may_write s1 (utable s1 pd (dir_of n)) (idx_of n)" using Ta I(3) by (intro may_write_fresh) auto
  have e: "load32 (phys s1) (entry (utable s1 pd (dir_of n)) (idx_of n)) = upte s1 pd n" using dd by (simp add: upte_def)
  show ?thesis
  proof (cases "upte s pd n = 0")
    case True
    obtain l where "clear_entry msg (\<lambda>e. e \<noteq> 0) (\<lambda>e. e AND PAGE_MASK) (upde s pd (dir_of n)) (idx_of n) s1 = Some (s1\<lparr>invlpg_log := l\<rparr>)"
      using clear_entry_none [of s1 "upde s pd (dir_of n)" "idx_of n" "\<lambda>e. e \<noteq> 0" msg "\<lambda>e. e AND PAGE_MASK"] U(1) mw e n1 True unfolding f kbase_def by auto
    moreover have "torn s pd m (Suc n) s1" using T gone_page [OF n(1), of s pd m] lines_page [OF n(1), of s pd m] True by (auto simp: torn_def less_Suc_eq)
    ultimately show ?thesis by auto
  next
    case False
    have n0: "upte s1 pd n \<noteq> 0" using False n1 by simp
    note P = U(8) [OF n(1) n0]
    let ?h = "uframe s1 pd n"
    have tk: "term_ok (Suc (lines s pd m (Suc n))) s1" using T(2) lines_page [OF n(1), of s pd m] False by simp
    have sc: "utable s1 pd (dir_of n) \<notin> screen_frames s1" using T(8,9) d d1 m by (simp add: screen_apart_def utable_def)
    obtain s2 where s2: "clear_entry msg (\<lambda>e. e \<noteq> 0) (\<lambda>e. e AND PAGE_MASK) (upde s pd (dir_of n)) (idx_of n) s1 = Some s2"
        "clears (lines s pd m (Suc n)) s1 (utable s1 pd (dir_of n)) (idx_of n) ?h s2"
      using clear_entry_some [of s1 "lines s pd m (Suc n)" msg "upde s pd (dir_of n)" "idx_of n" "\<lambda>e. e \<noteq> 0" ?h "\<lambda>e. e AND PAGE_MASK"] U(1) tk sc T(10) ms mw e n0 P
      unfolding f by (auto simp: uframe_def)
    have c: "phys s2 = store32 (phys s1) (entry (utable s1 pd (dir_of n)) (idx_of n)) 0" "kbase s2" "same_kernel s1 s2" "term_ok (lines s pd m (Suc n)) s2"
      "used_pages s2 = used_pages s1 - {unat ?h div 4096}" "screen_frames s2 = screen_frames s" using s2(2) T(9) by (simp_all add: clears_def)
    note C = cleared_page [OF T(1) n(1) n0 c(1)]
    have w: "win_wf s2" "closed s2" "pmm_inv s2" using c(2) by (simp_all add: kbase_def)
    have u2: "uspace s2 pd" by (rule uspace_drop [OF T(1) w c(3) n(1) n0 c(5)]) (use C in auto)
    have hh: "?h = uframe s pd n" using n1 by (simp add: uframe_def)
    have "phys s2 a = phys s1 a" if "\<And>d. d < 768 \<Longrightarrow> upde s pd (of_nat d) \<noteq> 0 \<Longrightarrow> a AND PAGE_MASK \<noteq> utable s pd (of_nat d)" for a
      unfolding c(1) by (rule store32_other_frame) (use that [OF m(1)] d I(3) m(2) d1 in \<open>simp_all add: utable_def\<close>)
    then have "torn s pd m (Suc n) s2"
      using u2 c(4-6) same_kernel_trans [OF T(3) c(3)] T(4-8) C small_index(1) gone_page [OF n(1), of s pd m] False unfolding torn_def hh
      by (auto simp: less_Suc_eq)
    then show ?thesis using s2(1) by blast
  qed
qed

text \<open>A table all of whose pages are gone.\<close>

lemma torn_table:
  assumes t: "torn s pd m (Suc m * 1024) s1" and m: "m < 768" and ms: "message msg"
  shows "\<exists>s2. clear_entry msg (\<lambda>e. e AND PAGE_PRESENT \<noteq> 0) (\<lambda>_. upde s pd (of_nat m) AND PAGE_MASK) pd (of_nat m) s1 = Some s2 \<and>
    torn s pd (Suc m) (Suc m * 1024) s2"
proof -
  note T = tornD [OF t] and i = small_index(1) [OF m]
  note U = uspaceD [OF T(1)]
  let ?d = "of_nat m :: u32"
  have d1: "upde s1 pd ?d = upde s pd ?d" using T(6) [OF m] by simp
  have pd: "pd AND PAGE_MASK = pd" by (rule mask_page_aligned [OF U(5)])
  have i': "?d < 1024" "?d \<noteq> 768" using i by (auto simp: word_less_nat_alt)
  have mw: "may_write s1 pd ?d" using U(3,5) i' by (simp add: may_write_def)
  have e: "load32 (phys s1) (entry pd ?d) = upde s pd ?d" using d1 by (simp add: upde_def)
  show ?thesis
  proof (cases "upde s pd ?d = 0")
    case True
    obtain l where "clear_entry msg (\<lambda>e. e AND PAGE_PRESENT \<noteq> 0) (\<lambda>_. upde s pd ?d AND PAGE_MASK) pd ?d s1 = Some (s1\<lparr>invlpg_log := l\<rparr>)"
      using clear_entry_none [of s1 pd ?d "\<lambda>e. e AND PAGE_PRESENT \<noteq> 0" msg "\<lambda>_. upde s pd ?d AND PAGE_MASK"] U(1) mw e True unfolding pd kbase_def by auto
    moreover have "torn s pd (Suc m) (Suc m * 1024) s1" using T gone_table [OF m, of s pd "Suc m * 1024"] lines_table [OF m, of s pd "Suc m * 1024"] True by (auto simp: torn_def less_Suc_eq)
    ultimately show ?thesis by auto
  next
    case False
    then have d0: "upde s1 pd ?d \<noteq> 0" using d1 by simp
    note P = U(6) [OF i d0]
    have tb: "utable s1 pd ?d = utable s pd ?d" using d1 by (simp add: utable_def)
    let ?r = "lines s pd (Suc m) (Suc m * 1024)"
    have tk: "term_ok (Suc ?r) s1" using T(2) lines_table [OF m, of s pd "Suc m * 1024"] False by simp
    have sc: "pd \<notin> screen_frames s1" using T(8,9) by (simp add: screen_apart_def)
    have "bit (upde s pd ?d) 0" using P d1 by (simp add: user_entry_def)
    then have "upde s pd ?d AND PAGE_PRESENT \<noteq> 0" by (auto simp: PAGE_PRESENT_def and_one_eq bit_0 odd_iff_mod_2_eq_one)
    then obtain s2 where s2: "clear_entry msg (\<lambda>e. e AND PAGE_PRESENT \<noteq> 0) (\<lambda>_. upde s pd ?d AND PAGE_MASK) pd ?d s1 = Some s2" "clears ?r s1 pd ?d (utable s pd ?d) s2"
      using clear_entry_some [of s1 ?r msg pd ?d "\<lambda>e. e AND PAGE_PRESENT \<noteq> 0" "utable s pd ?d" "\<lambda>_. upde s pd ?d AND PAGE_MASK"] U(1) tk sc T(10) ms mw e P tb
      unfolding pd utable_def by auto
    have c: "phys s2 = store32 (phys s1) (entry pd ?d) 0" "kbase s2" "same_kernel s1 s2" "term_ok ?r s2" "used_pages s2 = used_pages s1 - {unat (utable s pd ?d) div 4096}"
      "screen_frames s2 = screen_frames s" using s2(2) T(9) by (simp_all add: clears_def)
    have keep: "frame_used s2 g" if "frame_used s1 g" "g \<noteq> utable s1 pd ?d" for g
      unfolding frame_used_def c(5) using that aligned_page_inject [of g "utable s1 pd ?d"] tb by (auto simp: frame_used_def)
    have E: "load32 (phys s2) (entry h j) = (if h = pd \<and> j = ?d then 0 else load32 (phys s1) (entry h j))" if "page_aligned h" "j < 1024" for h j
      using that U(5) i'(1) by (simp add: c(1) load32_store32_entry)
    have D: "upde s2 pd e = (if e = ?d then 0 else upde s1 pd e)" if "e < 768" for e
      using E [OF U(5), of e] that by (auto simp: upde_def word_less_nat_alt)
    have N: "upte s2 pd k = upte s1 pd k" if k: "k < user_pages" for k
    proof (cases "dir_of k = ?d")
      case True
      have "k div 1024 = m" using True k m small_index(3) [of "k div 1024" m] by (simp add: dir_of_def user_pages_def less_mult_imp_div_less)
      then have "k < Suc m * 1024" using div_less_iff_less_mult [of 1024 k "Suc m"] by simp
      then show ?thesis using True D [OF i] T(5) [OF k] by (simp add: upte_def)
    next
      case False
      note K = page_indices [OF k]
      have "upde s1 pd (dir_of k) \<noteq> 0 \<Longrightarrow> utable s1 pd (dir_of k) \<noteq> pd" using U(6) [OF K(1)] by auto
      then show ?thesis using False D [OF K(1)] E [of "utable s1 pd (dir_of k)" "idx_of k"] K(3) by (auto simp: upte_def utable_def)
    qed
    have u2: "uspace s2 pd"
    proof (rule uspace_shrink [OF T(1) c(2,3)])
      show "frame_used s2 pd" using keep [OF U(2)] P by auto
      show "upde s2 pd e = upde s1 pd e \<and> frame_used s2 (utable s1 pd e)" if "e < 768" "upde s2 pd e \<noteq> 0" for e
        using that D [OF that(1)] U(6) [OF that(1)] U(7) [OF that(1) i _ d0] keep [of "utable s1 pd e"] by (auto split: if_splits)
      show "upte s2 pd k = upte s1 pd k \<and> frame_used s2 (uframe s1 pd k)" if "k < user_pages" "upte s2 pd k \<noteq> 0" for k
        using that N [OF that(1)] U(8) [OF that(1)] U(9) [OF that(1) _ i d0] keep [of "uframe s1 pd k"] by auto
    qed
    have "upde s2 pd (of_nat d) = (if d < Suc m then 0 else upde s pd (of_nat d))" if "d < 768" for d
      using D [OF small_index(1) [OF that]] T(6) [OF that] small_index(3) [OF that m] by (auto simp: less_Suc_eq)
    moreover have "phys s2 a = phys s1 a" if "a AND PAGE_MASK \<noteq> pd" for a unfolding c(1) by (rule store32_other_frame) (use that U(5) i' in simp_all)
    ultimately have "torn s pd (Suc m) (Suc m * 1024) s2"
      using u2 c(4-6) same_kernel_trans [OF T(3) c(3)] T(4,5,7,8) N gone_table [OF m, of s pd "Suc m * 1024"] False unfolding torn_def by auto
    then show ?thesis using s2(1) by blast
  qed
qed

section \<open>The walk\<close>

lemma torn_visit:
  assumes t: "torn s pd (n div 1024) n s1" and n: "n < user_pages"
  shows "\<exists>s2. unmmap_ring3_entry pd (dir_of n) (idx_of n) s1 = Some s2 \<and> torn s pd (Suc n div 1024) (Suc n) s2"
proof -
  let ?m = "n div 1024"
  note T = tornD [OF t] and I = page_indices [OF n]
  note U = uspaceD [OF T(1)]
  have m: "?m < 768" "dir_of n = of_nat ?m" using n by (auto simp: user_pages_def dir_of_def less_mult_imp_div_less)
  have d1: "upde s1 pd (dir_of n) = upde s pd (dir_of n)" using T(6) [OF m(1)] m(2) by simp
  obtain l where r: "read_entry pd (dir_of n) s1 = Some (upde s pd (dir_of n), s1\<lparr>invlpg_log := l\<rparr>)"
    using read_entry_eq [of s1 "dir_of n" pd] U(1,3) I(2) d1 mask_page_aligned [OF U(5)] by (auto simp: kbase_def upde_def)
  let ?s = "s1\<lparr>invlpg_log := l\<rparr>"
  have t1: "torn s pd ?m n ?s" using t by simp
  have "\<exists>s2. (if upde s pd (dir_of n) AND PAGE_PRESENT \<noteq> 0 then clear_entry ''table free\<newline>'' (\<lambda>e. e \<noteq> 0) (\<lambda>e. e AND PAGE_MASK) (upde s pd (dir_of n)) (idx_of n) ?s
      else Some ?s) = Some s2 \<and> torn s pd ?m (Suc n) s2"
  proof (cases "upde s pd (dir_of n) = 0")
    case True
    then have "upte s pd n = 0" by (simp add: upte_def)
    then have "torn s pd ?m (Suc n) ?s" using T gone_page [OF n, of s pd ?m] lines_page [OF n, of s pd ?m] \<open>upte s pd n = 0\<close> unfolding torn_log by (auto simp: torn_def less_Suc_eq)
    then show ?thesis using True by simp
  next
    case False
    then have "bit (upde s pd (dir_of n)) 0" using U(6) [OF I(1)] d1 by (simp add: user_entry_def)
    then have "upde s pd (dir_of n) AND PAGE_PRESENT \<noteq> 0" by (auto simp: PAGE_PRESENT_def and_one_eq bit_0 odd_iff_mod_2_eq_one)
    then show ?thesis using torn_page [OF t1 n refl False walk_messages(1)] by simp
  qed
  then obtain s2 where s2: "(if upde s pd (dir_of n) AND PAGE_PRESENT \<noteq> 0 then clear_entry ''table free\<newline>'' (\<lambda>e. e \<noteq> 0) (\<lambda>e. e AND PAGE_MASK) (upde s pd (dir_of n)) (idx_of n) ?s
      else Some ?s) = Some s2" "torn s pd ?m (Suc n) s2" by blast
  have u: "unat (idx_of n) = n mod 1024" by (simp add: idx_of_def unat_of_nat_u32)
  have last: "1024 \<le> idx_of n + 1 \<longleftrightarrow> n mod 1024 = 1023"
    using unat_Suc_u32 [OF I(3)] u mod_less_divisor [of 1024 n] by (auto simp: word_le_nat_alt)
  show ?thesis
  proof (cases "n mod 1024 = 1023")
    case True
    then have s: "Suc n = Suc ?m * 1024" "Suc n div 1024 = Suc ?m" using div_mult_mod_eq [of n 1024] by (simp_all add: div_Suc mod_Suc)
    obtain s3 where "clear_entry ''page table free\<newline>'' (\<lambda>e. e AND PAGE_PRESENT \<noteq> 0) (\<lambda>_. upde s pd (dir_of n) AND PAGE_MASK) pd (dir_of n) s2 = Some s3"
        "torn s pd (Suc ?m) (Suc n) s3"
      using torn_table [of s pd ?m s2, OF _ _ walk_messages(2)] s2(2) m(1) unfolding s(1) m(2) by blast
    then show ?thesis using True last r s2(1) s(2) unfolding unmmap_ring3_entry_eq by simp
  next
    case False
    then have "Suc n div 1024 = ?m" by (simp add: div_Suc mod_Suc)
    then show ?thesis using False last r s2 unfolding unmmap_ring3_entry_eq by simp
  qed
qed

lemma torn_table_loop:
  assumes "j \<le> 1024" and "D < 768" and "torn s pd ((D * 1024 + j) div 1024) (D * 1024 + j) s1"
  shows "\<exists>s2. unmmap_ring3_table [j..<1024] pd (of_nat D) s1 = Some s2 \<and> torn s pd (Suc D) (Suc D * 1024) s2"
  using assms
proof (induction "1024 - j" arbitrary: j s1)
  case 0
  then have "j = 1024" by simp
  then show ?case using 0 by (simp add: add.commute)
next
  case (Suc r)
  then have j: "j < 1024" by simp
  let ?n = "D * 1024 + j"
  have n: "?n < user_pages" using Suc.prems(2) j by (simp add: user_pages_def)
  have I: "dir_of ?n = of_nat D" "idx_of ?n = of_nat j" using j by (simp_all add: dir_of_def idx_of_def)
  obtain s2 where s2: "unmmap_ring3_entry pd (of_nat D) (of_nat j) s1 = Some s2" "torn s pd ((D * 1024 + Suc j) div 1024) (D * 1024 + Suc j) s2"
    using torn_visit [OF Suc.prems(3) n] unfolding I by auto
  have "\<exists>s3. unmmap_ring3_table [Suc j..<1024] pd (of_nat D) s2 = Some s3 \<and> torn s pd (Suc D) (Suc D * 1024) s3"
    using Suc.hyps(2) j by (intro Suc.hyps(1) Suc.prems(2) s2(2)) simp_all
  then show ?case using s2(1) unfolding upt_conv_Cons [OF j] by simp
qed

lemma torn_dirs_loop:
  assumes "D \<le> 768" and "j < 1024" and "torn s pd D (D * 1024 + j) s1" and "D = 768 \<longrightarrow> j = 0"
  shows "\<exists>s2. unmmap_ring3_dirs [D..<768] j pd s1 = Some s2 \<and> torn s pd 768 user_pages s2"
  using assms
proof (induction "768 - D" arbitrary: D j s1)
  case 0
  then show ?case by (simp add: user_pages_def)
next
  case (Suc r)
  then have D: "D < 768" by simp
  have "torn s pd ((D * 1024 + j) div 1024) (D * 1024 + j) s1" using Suc.prems(2,3) by simp
  then obtain s2 where s2: "unmmap_ring3_table [j..<1024] pd (of_nat D) s1 = Some s2" "torn s pd (Suc D) (Suc D * 1024) s2"
    using torn_table_loop [of j D s pd s1] Suc.prems(2) D by auto
  have "\<exists>s3. unmmap_ring3_dirs [Suc D..<768] 0 pd s2 = Some s3 \<and> torn s pd 768 user_pages s3"
    using Suc.hyps(2) D s2(2) by (intro Suc.hyps(1)) simp_all
  then show ?case using s2(1) unfolding upt_conv_Cons [OF D] by simp
qed

section \<open>The end of an address space\<close>

text \<open>All page numbers of frames an address space stands on.\<close>

definition space_pages :: "'a mem_state_scheme \<Rightarrow> addr \<Rightarrow> nat set" where
  "space_pages s pd = insert (unat pd div 4096) (gone s pd 768 user_pages)"

lemma unmmap_ring3_ok:
  fixes s :: "'a mem_state_scheme"
  assumes u: "uspace s pd" and "term_ok (lines s pd 0 0) s" and "upte s pd 0 = 0" and c: "screen_apart s pd"
  shows "\<exists>s'. unmmap_ring3 pd s = Some s' \<and> kbase s' \<and> same_kernel s s' \<and> used_pages s' = used_pages s - space_pages s pd \<and>
    (\<forall>a. unat a div 4096 \<notin> space_pages s pd \<longrightarrow> phys s' a = phys s a)"
proof -
  have "lines s pd 0 1 = lines s pd 0 0" using lines_page [of 0 s pd 0] assms(3) by (simp add: user_pages_def)
  then have t0: "torn s pd 0 1 s" using assms by (auto simp: torn_def same_kernel_def gone_def less_Suc_eq)
  obtain s1 where s1: "unmmap_ring3_dirs [0..<768] 1 pd s = Some s1" "torn s pd 768 user_pages s1"
    using torn_dirs_loop [of 0 1 s pd s] t0 by auto
  note T = tornD [OF s1(2)]
  note U = uspaceD [OF T(1)]
  let ?x = "unat pd div 4096"
  have pd: "pd AND PAGE_MASK = pd" by (rule mask_page_aligned [OF U(5)])
  have x: "?x < page_count s1" "page_addr ?x = pd" "pmm_inv s1" using U(1,2) page_addr_of_frame [OF U(5)] by (auto simp: frame_used_def used_pages_def kbase_def)
  obtain arr where fr: "pmm_free (page_addr ?x) 1 s1 = Some (s1\<lparr>bitmap := arr\<rparr>)" "pmm_inv (s1\<lparr>bitmap := arr\<rparr>)"
      "used_pages (s1\<lparr>bitmap := arr\<rparr>) = used_pages s1 - {?x}" by (rule pmm_free_one [OF x(3,1)])
  let ?s = "s1\<lparr>bitmap := arr\<rparr>"
  have wf: "win_frames ?s = win_frames s1" by (simp add: win_frames_def)
  have "cr3 s \<in> screen_frames s" using U(1) T(3) by (simp add: screen_frames_def kbase_def win_wf_def same_kernel_def mask_page_aligned)
  then have "pd \<notin> win_frames s1" using U(3,4) T(3) c by (auto simp: win_frames_def same_kernel_def screen_apart_def)
  then have "\<forall>g \<in> win_frames s1. frame_used ?s g"
    unfolding frame_used_def fr(3) using U(1,5) aligned_page_inject [of _ pd] by (auto simp: kbase_def frame_used_def)
  then have "kbase ?s" using U(1) fr(2) wf by (simp add: kbase_def)
  moreover have "same_kernel s ?s" using T(3) by (simp add: same_kernel_def)
  moreover have "used_pages ?s = used_pages s - space_pages s pd" unfolding fr(3) T(4) space_pages_def by auto
  moreover have "phys ?s a = phys s a" if "unat a div 4096 \<notin> space_pages s pd" for a
  proof -
    have n: "unat (a AND PAGE_MASK) div 4096 = unat a div 4096" by (metis div_mult_self1_is_m minus_mod_eq_mult_div unat_and_PAGE_MASK zero_less_numeral)
    have "a AND PAGE_MASK \<noteq> pd" using n that by (auto simp: space_pages_def)
    moreover have "a AND PAGE_MASK \<noteq> utable s pd (of_nat d)" if "d < 768" "upde s pd (of_nat d) \<noteq> 0" for d
      using n \<open>unat a div 4096 \<notin> space_pages s pd\<close> that by (auto simp: space_pages_def gone_def)
    ultimately show ?thesis using T(7) [of a] by simp
  qed
  moreover have "unmmap_ring3 pd s = Some ?s" using s1(1) fr(1) by (simp add: unmmap_ring3_def pd x(2) del: upt_rec_numeral)
  ultimately show ?thesis by blast
qed

text \<open>
  C5: \<open>unmmap_ring3\<close> walks all 786431 pages behind page 0 and ends. It gives back every page the program had, every page
  table and the directory, and nothing else: the frames in use afterwards are those before without the address space's own.
  Memory outside these frames is unchanged, and the kernel's window works as before. The walk prints a line for every page and
  every page table, and the cursor only ever goes down: the screen must be mapped for that many rows below it, through frames
  that are not the address space's own. In particular the directory is not the loaded one. Page 0, which the walk leaves out, must not
  be mapped.
\<close>

theorem unmmap_ring3_releases_space:
  fixes s :: "'a mem_state_scheme"
  assumes "uspace s pd" and "screen_apart s pd" and "uview s pd 0 = None"
    and "term_ok (card {n. n < user_pages \<and> uview s pd n \<noteq> None} + card {d. d < 768 \<and> upde s pd (of_nat d) \<noteq> 0}) s"
  shows "\<exists>s'. unmmap_ring3 pd s = Some s' \<and> kbase s' \<and>
    used_pages s' = used_pages s - (insert (unat pd div 4096)
      ({unat (uframe s pd n) div 4096 | n. n < user_pages \<and> uview s pd n \<noteq> None} \<union>
       {unat (utable s pd (of_nat d)) div 4096 | d. d < 768 \<and> upde s pd (of_nat d) \<noteq> 0})) \<and>
    (\<forall>a. unat a div 4096 \<notin> space_pages s pd \<longrightarrow> phys s' a = phys s a)"
proof -
  have v: "uview s pd n \<noteq> None \<longleftrightarrow> upte s pd n \<noteq> 0" for n by (simp add: uview_def)
  have "term_ok (lines s pd 0 0) s" using assms(4) unfolding v lines_def by simp
  then show ?thesis unfolding v using unmmap_ring3_ok [OF assms(1) _ _ assms(2)] assms(3) by (auto simp: uview_def space_pages_def gone_def split: if_splits)
qed

text \<open>The address space \<open>mmap_ring3\<close> creates stands on its four frames.\<close>

lemma new_space_pages:
  assumes k: "kbase s" and chain: "takes_frames s [f, g, t, pd] s'" and al: "page_aligned f" "page_aligned g" "page_aligned t" "page_aligned pd"
    and T: "\<And>i. i < 1024 \<Longrightarrow> load32 (phys s') (entry t i) = (if i = 1 then f OR 7 else if i = 2 then g OR 7 else 0)"
    and D: "\<And>i. i < 1024 \<Longrightarrow> load32 (phys s') (entry pd i) = (if i = 0 then t OR 7 else if 768 \<le> i then load32 (phys s) (entry (kpd_phys s) i) else 0)"
  shows "space_pages s' pd = (\<lambda>f. unat f div 4096) ` {f, g, t, pd}" and "lines s' pd 0 0 = 3"
    and "upde s' pd (of_nat d) \<noteq> 0 \<Longrightarrow> d < 768 \<Longrightarrow> utable s' pd (of_nat d) = t"
proof -
  have N: "upte s' pd n = (if n = 1 then f OR 7 else if n = 2 then g OR 7 else 0)" if "n < user_pages" for n
    using new_space(2) [OF k chain al] T D that by blast
  note E = user_entry_frame [OF al(1)] user_entry_frame [OF al(2)] user_entry_frame [OF al(3)]
  have d: "upde s' pd (of_nat d) = (if d = 0 then t OR 7 else 0)" if "d < 768" for d
    using D [of "of_nat d"] small_index(1) [OF that] small_index(3) [OF that, of 0] by (auto simp: upde_def word_less_nat_alt word_le_nat_alt)
  have p: "{unat (uframe s' pd k) div 4096 | k. k < user_pages \<and> k < user_pages \<and> upte s' pd k \<noteq> 0} = {unat f div 4096, unat g div 4096}"
    using N E by (auto simp: uframe_def user_pages_def split: if_splits intro: exI [of _ 1] exI [of _ 2])
  have q: "{unat (utable s' pd (of_nat d)) div 4096 | d. d < 768 \<and> d < 768 \<and> upde s' pd (of_nat d) \<noteq> 0} = {unat t div 4096}"
    using d [of 0] d E by (auto simp: utable_def split: if_splits intro!: exI [of _ 0])
  show "space_pages s' pd = (\<lambda>f. unat f div 4096) ` {f, g, t, pd}" unfolding space_pages_def gone_def p q by auto
  have nz: "f OR 7 \<noteq> 0" "g OR 7 \<noteq> 0" "t OR 7 \<noteq> 0" using E by (auto simp: user_entry_def)
  have "{k. 0 \<le> k \<and> k < user_pages \<and> upte s' pd k \<noteq> 0} = {1, 2}" "{d. 0 \<le> d \<and> d < 768 \<and> upde s' pd (of_nat d) \<noteq> 0} = {0}"
    using N d d [of 0] nz by (auto simp: user_pages_def split: if_splits)
  then show "lines s' pd 0 0 = 3" by (simp add: lines_def)
  show "utable s' pd (of_nat d) = t" if "upde s' pd (of_nat d) \<noteq> 0" "d < 768"
    using that d [OF that(2)] E by (simp add: utable_def split: if_splits)
qed

lemma screen_stays:
  fixes s s' :: "'a mem_state_scheme"
  assumes "takes_frames s fs s'" and "kbase s" and "\<forall>f \<in> screen_frames s. frame_used s f"
  shows "same_screen s s'" "screen_frames s' = screen_frames s"
proof -
  have r: "mem_rest s' = mem_rest s" by (rule takes_framesD(10) [OF assms(1,2)])
  have f: "psf2_data s' = psf2_data s" "framebuffer_pitch s' = framebuffer_pitch s" "terminal_row s' = terminal_row s" "terminal_column s' = terminal_column s"
    using arg_cong [OF r, of psf2_data] arg_cong [OF r, of framebuffer_pitch] arg_cong [OF r, of terminal_row] arg_cong [OF r, of terminal_column]
    by (simp_all add: mem_rest_def)
  note a = screen_agree [OF mem_restD(1) [OF r] takes_frames_frame(1) [OF assms(1,2)]]
  show "same_screen s s'" unfolding same_screen_def using f a(2) assms(3) by blast
  show "screen_frames s' = screen_frames s" using a(1) assms(3) by blast
qed

lemma screen_apart_new:
  assumes k: "kbase s" and chain: "takes_frames s [f, g, t, pd] s'" and sc: "\<forall>f \<in> screen_frames s. frame_used s f" "boot_pt s \<notin> screen_frames s"
    and T: "\<And>d. upde s' pd (of_nat d) \<noteq> 0 \<Longrightarrow> d < 768 \<Longrightarrow> utable s' pd (of_nat d) = t"
  shows "screen_apart s' pd"
proof -
  note W = takes_framesD [OF chain k]
  have "boot_pt s' = boot_pt s" "pd \<notin> screen_frames s" "t \<notin> screen_frames s" using W(2) W(6) [of pd] W(6) [of t] sc(1) by (auto simp: same_kernel_def)
  then show ?thesis using screen_stays(2) [OF chain k sc(1)] sc(2) T unfolding screen_apart_def by metis
qed

text \<open>
  C6: an address space that is created and taken down leaves no trace: \<open>unmmap_ring3\<close> after \<open>mmap_ring3\<close> returns with
  exactly the frames in use that were in use before, with the same contents, and the kernel's window in order. The three lines
  that \<open>unmmap_ring3\<close> prints must fit on the screen, whose page tables are in use and not the boot page table.
\<close>

theorem mmap_ring3_unmmap_ring3_restores:
  fixes s :: "'a mem_state_scheme"
  assumes k: "kbase s" and free: "4 \<le> card (free_pages s)"
    and screen: "term_ok 3 s" "\<forall>f \<in> screen_frames s. frame_used s f" "boot_pt s \<notin> screen_frames s"
    and code: "module_at s (mod_start um + KERNEL_BASE) code" "unat (mod_end um - mod_start um) = length code" "length code \<le> 4096"
  shows "\<exists>pd s1 s2. mmap_ring3 um s = Some (pd, s1) \<and> unmmap_ring3 pd s1 = Some s2 \<and> used_pages s2 = used_pages s \<and> kbase s2 \<and>
    (\<forall>a. frame_used s (a AND PAGE_MASK) \<longrightarrow> phys s2 a = phys s a)"
proof -
  obtain pd f g t s1 where run: "mmap_ring3 um s = Some (pd, s1)" and chain: "takes_frames s [f, g, t, pd] s1"
      and al: "page_aligned f" "page_aligned g" "page_aligned t" "page_aligned pd"
      and T: "\<And>i. i < 1024 \<Longrightarrow> load32 (phys s1) (entry t i) = (if i = 1 then f OR 7 else if i = 2 then g OR 7 else 0)"
      and D: "\<And>i. i < 1024 \<Longrightarrow> load32 (phys s1) (entry pd i) = (if i = 0 then t OR 7 else if 768 \<le> i then load32 (phys s) (entry (kpd_phys s) i) else 0)"
    by (rule mmap_ring3_frames [OF k free code]) blast
  note W = takes_framesD [OF chain k]
  have S: "uspace s1 pd" "upte s1 pd 0 = 0" "space_pages s1 pd = (\<lambda>f. unat f div 4096) ` {f, g, t, pd}"
    using new_space(1) [OF k chain al] new_space(2) [OF k chain al, of 0] new_space_pages(1) [OF k chain al] T D by (simp_all add: user_pages_def)
  have "term_ok (lines s1 pd 0 0) s1" using screen(1) same_screen_room(2) [OF screen_stays(1) [OF chain k screen(2)]] new_space_pages(2) [OF k chain al T D] by simp
  moreover have "screen_apart s1 pd" by (rule screen_apart_new [OF k chain screen(2,3)]) (rule new_space_pages(3) [OF k chain al T D])
  ultimately obtain s2 where s2: "unmmap_ring3 pd s1 = Some s2" "kbase s2" "used_pages s2 = used_pages s1 - space_pages s1 pd"
      "\<forall>a. unat a div 4096 \<notin> space_pages s1 pd \<longrightarrow> phys s2 a = phys s1 a"
    using unmmap_ring3_ok [OF S(1) _ S(2)] by blast
  have fresh: "unat h div 4096 \<notin> used_pages s" if "h \<in> {f, g, t, pd}" for h using W(6) [of h] al that by (auto simp: frame_used_def)
  then have "used_pages s2 = used_pages s" using s2(3) W(11) S(3) by auto
  moreover have "phys s2 a = phys s a" if "frame_used s (a AND PAGE_MASK)" for a
  proof -
    have "unat (a AND PAGE_MASK) div 4096 = unat a div 4096" by (metis div_mult_self1_is_m minus_mod_eq_mult_div unat_and_PAGE_MASK zero_less_numeral)
    then have "unat a div 4096 \<notin> space_pages s1 pd" using that fresh S(3) by (auto simp: frame_used_def)
    then show ?thesis using s2(4) W(8) [OF that] by simp
  qed
  ultimately show ?thesis using run s2(1,2) by blast
qed

lemma staged_screen: "term_ok 3 staged" "\<forall>f \<in> screen_frames staged. frame_used staged f" "boot_pt staged \<notin> screen_frames staged"
proof -
  have "screen_room 100 staged" "terminal_row staged = 0" "terminal_column staged = 0"
    using booted_term by (simp_all add: staged_def screen_room_def cell_mapped_def psf2_height_def psf2_width_def load32_def)
  then show "term_ok 3 staged" unfolding term_ok_def by (intro exI [of _ 100]) simp
  have "bit (0x106003 :: u32) 0 \<longleftrightarrow> True" by (simp add: bit_iff_odd)
  then have "screen_frames staged = {0x105000}" by (auto simp: screen_frames_def staged_load mask_page_aligned booted_consts split: if_splits)
  then show "\<forall>f \<in> screen_frames staged. frame_used staged f" "boot_pt staged \<notin> screen_frames staged" using staged_kbase(3) by simp_all
qed

lemma small_module_size: "unat (mod_end small_module - mod_start small_module) = length [0x31 :: u8, 0xC0, 0xCD, 0x80]"
  by (simp add: small_module_def)

theorem mmap_ring3_unmmap_ring3_restores_witness:
  "\<exists>pd s1 s2. mmap_ring3 small_module staged = Some (pd, s1) \<and> unmmap_ring3 pd s1 = Some s2 \<and> used_pages s2 = {..<264}"
  using mmap_ring3_unmmap_ring3_restores [OF staged_kbase(1) _ staged_screen staged_module small_module_size] by (auto simp: staged_pages)

theorem unmmap_ring3_releases_space_witness:
  "\<exists>pd s1 s2. mmap_ring3 small_module staged = Some (pd, s1) \<and> unmmap_ring3 pd s1 = Some s2 \<and> unat pd div 4096 \<in> used_pages s1 \<and> unat pd div 4096 \<notin> used_pages s2"
proof -
  obtain pd f g t s1 where run: "mmap_ring3 small_module staged = Some (pd, s1)" and chain: "takes_frames staged [f, g, t, pd] s1"
      and al: "page_aligned f" "page_aligned g" "page_aligned t" "page_aligned pd"
      and T: "\<And>i. i < 1024 \<Longrightarrow> load32 (phys s1) (entry t i) = (if i = 1 then f OR 7 else if i = 2 then g OR 7 else 0)"
      and D: "\<And>i. i < 1024 \<Longrightarrow> load32 (phys s1) (entry pd i) = (if i = 0 then t OR 7 else if 768 \<le> i then load32 (phys staged) (entry (kpd_phys staged) i) else 0)"
    by (rule mmap_ring3_frames [OF staged_kbase(1) _ staged_module small_module_size]) (simp_all add: staged_pages)
  note W = takes_framesD [OF chain staged_kbase(1)]
  have S: "uspace s1 pd" "uview s1 pd 0 = None"
    using new_space(1) [OF staged_kbase(1) chain al] new_space(2) [OF staged_kbase(1) chain al, of 0] T D by (simp_all add: user_pages_def uview_def)
  note P = new_space_pages [OF staged_kbase(1) chain al T D]
  have ap: "screen_apart s1 pd" by (rule screen_apart_new [OF staged_kbase(1) chain staged_screen(2,3)]) (rule P(3))
  have "term_ok (lines s1 pd 0 0) s1" using staged_screen(1) same_screen_room(2) [OF screen_stays(1) [OF chain staged_kbase(1) staged_screen(2)]] P(2) by simp
  then have "term_ok (card {n. n < user_pages \<and> uview s1 pd n \<noteq> None} + card {d. d < 768 \<and> upde s1 pd (of_nat d) \<noteq> 0}) s1"
  proof -
    have "uview s1 pd n \<noteq> None \<longleftrightarrow> upte s1 pd n \<noteq> 0" for n by (simp add: uview_def)
    then show ?thesis using \<open>term_ok (lines s1 pd 0 0) s1\<close> by (simp add: lines_def)
  qed
  from unmmap_ring3_releases_space [OF S(1) ap S(2) this] show ?thesis using run W(6) [of pd] by (auto simp: frame_used_def)
qed

end
