(* ===== verification/Fs_Data.thy ===== *)
theory Fs_Data
  imports Fs
begin

text \<open>
  The data of a file on disk: \<open>write_inode_data\<close> and \<open>read_inode_data\<close> of \<open>kernel/filesystem/fs.c\<close>. The loops are proved
  against the locale \<open>ata_prompt_device\<close> of the disk driver; the buffers are objects of the slab allocator.
\<close>

section \<open>The bitmap of the data sectors\<close>










section \<open>Writing the sectors\<close>


section \<open>Buffers\<close>

definition page_bytes :: "memory \<Rightarrow> nat \<Rightarrow> nat \<Rightarrow> u8 list" where
  "page_bytes page off n = map (\<lambda>i. page (of_nat (off + i))) [0..<n]"

lemma page_bytes_simps [simp]: "length (page_bytes page off n) = n" "i < n \<Longrightarrow> page_bytes page off n ! i = page (of_nat (off + i))"
  by (simp_all add: page_bytes_def)











section \<open>What a file keeps\<close>













end
