(* ===== verification/Input_Buffer.thy ===== *)
theory Input_Buffer
  imports Stdin
begin

text \<open>
  The input buffer of the terminal as a typed object: its array keeps its size and its two indices stay inside it or
  at its end, whatever keys arrive, whatever is read and whatever the rest of the kernel does in between. This is weaker
  than \<open>tty_ok\<close>, which the wrap-around of \<open>write_tty_buffer\<close> does not keep, and it is enough for every access to the array.
\<close>

section \<open>The invariant\<close>

definition tty_typed :: "'a tty_state_scheme \<Rightarrow> bool" where
  "tty_typed s \<longleftrightarrow> length (stdin_buffer s) = 4096 \<and> buffer_head s \<le> STDIN_BUFFER_SIZE \<and> buffer_tail s \<le> STDIN_BUFFER_SIZE"

lemma tty_ok_typed: "tty_ok s \<Longrightarrow> tty_typed s"
  by (auto simp: tty_ok_def tty_typed_def)

text \<open>It depends on the three fields only.\<close>

lemma tty_typed_cong:
  "stdin_buffer s' = stdin_buffer s \<Longrightarrow> buffer_head s' = buffer_head s \<Longrightarrow> buffer_tail s' = buffer_tail s \<Longrightarrow> tty_typed s' = tty_typed s"
  by (simp add: tty_typed_def)

lemma typed_store: "tty_typed s \<Longrightarrow> i < STDIN_BUFFER_SIZE \<Longrightarrow> tty_typed (store_char i c s)"
  by (simp add: tty_typed_def store_char_def tail_Suc_le)

lemma index_zero: "0 < STDIN_BUFFER_SIZE" "0 \<le> STDIN_BUFFER_SIZE"
  by (simp_all add: STDIN_BUFFER_SIZE_def)

text \<open>The state in which the character is stored, as in the two conditions of \<open>write_tty_buffer\<close>.\<close>

definition stored :: "u8 \<Rightarrow> 'a tty_state_scheme \<Rightarrow> 'a tty_state_scheme" where
  "stored c s = (
     let s = (if buffer_tail s < STDIN_BUFFER_SIZE then store_char (buffer_tail s) c s else s) in
     if buffer_tail s \<ge> STDIN_BUFFER_SIZE \<and> buffer_head s = buffer_tail s then store_char 0 c s else s)"

lemma write_tty_buffer_stored:
  "write_tty_buffer c s = do {
     s \<leftarrow> (if tty_flags s AND ECHO_FLAG \<noteq> 0 then terminal_write [c] s else Some s);
     if awaiting_stdin s = NULL then Some s else if c = 10 then wake_stdin_task (stored c s) else Some (stored c s) }"
  by (simp only: write_tty_buffer_def stored_def Let_def)

lemma typed_stored: "tty_typed s \<Longrightarrow> tty_typed (stored c s)"
  by (auto simp: stored_def Let_def index_zero intro!: typed_store)

lemma stored_sched: "awaiting_stdin (stored c s) = awaiting_stdin s" "tasks (stored c s) = tasks s"
  by (simp_all add: stored_def Let_def)

section \<open>Operations keep it\<close>

lemma typed_write:
  assumes "tty_typed s" and "write_tty_buffer c s = Some s'"
  shows "tty_typed s'"
proof -
  obtain s1 where s1: "(if tty_flags s AND ECHO_FLAG \<noteq> 0 then terminal_write [c] s else Some s) = Some s1"
    and e: "(if awaiting_stdin s1 = NULL then Some s1 else if c = 10 then wake_stdin_task (stored c s1) else Some (stored c s1)) = Some s'"
    using assms(2) unfolding write_tty_buffer_stored by (elim bind_SomeE) blast
  have t1: "tty_typed s1"
    using s1 assms(1) terminal_write_tty(1-3) [of "[c]" s s1] by (auto simp: tty_typed_def simp del: terminal_write.simps split: if_splits)
  then have "tty_typed (stored c s1)" by (rule typed_stored)
  then show ?thesis using e t1 wake_stdin_tty(1-3) [of "stored c s1" s'] by (auto simp: tty_typed_def split: if_splits)
qed

text \<open>Each round of the reader's loop takes a character of the array and stores it in the caller's buffer.\<close>

definition turned :: "'a tty_state_scheme \<Rightarrow> u32" where
  "turned s = (if buffer_head s \<ge> STDIN_BUFFER_SIZE then 0 else buffer_head s)"

lemma turned_less: "turned s < STDIN_BUFFER_SIZE"
  by (simp add: turned_def index_zero not_le)

lemma read_round:
  assumes "tty_typed s" and "buffer_head s \<noteq> buffer_tail s"
  shows "tty_read_loop (Suc n) i out s = do {
    m \<leftarrow> vstore8 (out + i) (stdin_buffer s ! unat (turned s)) s;
    tty_read_loop n (i + 1) out (m\<lparr>buffer_head := turned s + 1\<rparr>) }"
proof -
  have "unat (turned s) < length (stdin_buffer s)" using turned_less [of s] assms(1) by (simp add: tty_typed_def tail_less)
  then show ?thesis using assms(2) by (cases "buffer_head s \<ge> STDIN_BUFFER_SIZE")
      (simp_all add: turned_def Let_def vstore8_head bind_map_option comp_def)
qed

lemma typed_round:
  assumes "tty_typed s" and "vstore8 a c s = Some m"
  shows "tty_typed (m\<lparr>buffer_head := turned s + 1\<rparr>)"
proof -
  have "stdin_buffer m = stdin_buffer s" "buffer_tail m = buffer_tail s" using assms(2) by (auto simp: vstore8_def bind_Some_iff)
  then show ?thesis using assms(1) tail_Suc_le [OF turned_less [of s]] by (simp add: tty_typed_def)
qed

lemma typed_read_loop:
  "tty_typed s \<Longrightarrow> tty_read_loop n i out s = Some (k, s') \<Longrightarrow> tty_typed s' \<and> (\<exists>j \<le> n. k = i + of_nat j)"
proof (induction n arbitrary: i s)
  case (Suc n)
  show ?case
  proof (cases "buffer_head s = buffer_tail s")
    case False
    from Suc.prems(2) obtain m where m: "vstore8 (out + i) (stdin_buffer s ! unat (turned s)) s = Some m"
      "tty_read_loop n (i + 1) out (m\<lparr>buffer_head := turned s + 1\<rparr>) = Some (k, s')"
      unfolding read_round [OF Suc.prems(1) False] by (elim bind_SomeE) blast
    from Suc.IH [OF typed_round [OF Suc.prems(1) m(1)] m(2)] obtain j where "tty_typed s'" "j \<le> n" "k = i + 1 + of_nat j" by blast
    then show ?thesis by (intro conjI exI [of _ "Suc j"]) (simp_all add: ac_simps)
  qed (use Suc.prems in auto)
qed auto

text \<open>The loop fails only where storing bytes in the caller's buffer fails: it never reads outside the array.\<close>

lemma read_loop_faults:
  "tty_typed s \<Longrightarrow> tty_read_loop n i out s = None \<Longrightarrow> \<exists>bs. length bs \<le> n \<and> vstore_bytes bs (out + i) s = None"
proof (induction n arbitrary: i s)
  case (Suc n)
  then have ne: "buffer_head s \<noteq> buffer_tail s" by auto
  let ?c = "stdin_buffer s ! unat (turned s)"
  show ?case
  proof (cases "vstore8 (out + i) ?c s")
    case None
    then show ?thesis by (intro exI [of _ "[?c]"]) simp
  next
    case (Some m)
    then have "tty_read_loop n (i + 1) out (m\<lparr>buffer_head := turned s + 1\<rparr>) = None"
      using Suc.prems(2) read_round [OF Suc.prems(1) ne, of n i out] by simp
    from Suc.IH [OF typed_round [OF Suc.prems(1) Some] this] obtain bs where "length bs \<le> n"
      "vstore_bytes bs (out + (i + 1)) (m\<lparr>buffer_head := turned s + 1\<rparr>) = None" by blast
    then show ?thesis using Some by (intro exI [of _ "?c # bs"]) (simp add: vstore_bytes_head add.assoc)
  qed
qed auto

section \<open>Steps of the kernel\<close>

text \<open>
  What can happen to the buffer: a key, a read, an \<open>ioctl\<close>, or anything else the kernel does, none of which touches the
  array and its indices.
\<close>

inductive tty_step :: "'a tty_state_scheme \<Rightarrow> 'a tty_state_scheme \<Rightarrow> bool" where
  key: "write_tty_buffer c s = Some s' \<Longrightarrow> tty_step s s'"
| read: "tty_read buffer len s = Some (n, s') \<Longrightarrow> tty_step s s'"
| ioctl: "tty_ioctl request arg s = (r, s') \<Longrightarrow> tty_step s s'"
| other: "stdin_buffer s' = stdin_buffer s \<Longrightarrow> buffer_head s' = buffer_head s \<Longrightarrow> buffer_tail s' = buffer_tail s \<Longrightarrow> tty_step s s'"

lemma typed_step: "tty_step s s' \<Longrightarrow> tty_typed s \<Longrightarrow> tty_typed s'"
proof (induction rule: tty_step.induct)
  case (read buffer len s n s')
  then show ?case using typed_read_loop unfolding tty_read_def by blast
next
  case (ioctl request arg s r s')
  then show ?case by (auto simp: tty_ioctl_def tty_typed_def)
next
  case (other s' s)
  then show ?case using tty_typed_cong by blast
qed (rule typed_write)

lemma typed_steps: "tty_step\<^sup>*\<^sup>* s s' \<Longrightarrow> tty_typed s \<Longrightarrow> tty_typed s'"
  by (induction rule: rtranclp_induct) (auto intro: typed_step)

section \<open>Property\<close>

text \<open>
  C13: Starting from a buffer in which nothing has been typed yet, after any number of keys, reads and other steps the array
  has its size and its indices point into it or to its end. The search for a line and the reader never look outside the array:
  the search always has an answer, and a read fails only when storing bytes in the caller's buffer faults; otherwise it
  reports at most as many bytes as were asked for. A key is always taken when the echo is off and the waiting task exists.
\<close>

theorem input_buffer_typed:
  assumes "length (stdin_buffer s) = 4096" and "buffer_head s = 0" and "buffer_tail s = 0" and "tty_step\<^sup>*\<^sup>* s s'"
  shows "length (stdin_buffer s') = 4096 \<and> unat (buffer_head s') \<le> 4096 \<and> unat (buffer_tail s') \<le> 4096 \<and>
    (stdin_buffer_has_line s' = Some 1 \<or> stdin_buffer_has_line s' = Some (-1)) \<and>
    (case tty_read buffer len s' of
       None \<Rightarrow> \<exists>bs. length bs \<le> unat len \<and> vstore_bytes bs buffer s' = None
     | Some (n, s'') \<Rightarrow> n \<le> len \<and> tty_typed s'') \<and>
    (tty_flags s' AND ECHO_FLAG = 0 \<longrightarrow> awaiting_stdin s' \<in> {NULL} \<union> dom (tasks s') \<longrightarrow> write_tty_buffer c s' \<noteq> None)"
proof -
  have t: "tty_typed s'" using assms by (intro typed_steps [OF assms(4)]) (simp add: tty_typed_def index_zero)
  then have size: "length (stdin_buffer s') = 4096" "unat (buffer_head s') \<le> 4096" "unat (buffer_tail s') \<le> 4096"
    by (simp_all add: tty_typed_def STDIN_BUFFER_SIZE_def word_le_nat_alt)
  have "stdin_buffer_has_line s' = Some (if \<exists>i \<in> set [unat (buffer_head s')..<unat (buffer_tail s')]. stdin_buffer s' ! i = 10 then 1 else -1)"
    unfolding stdin_buffer_has_line_def by (rule has_line_iff) (use size in auto)
  then have line: "stdin_buffer_has_line s' = Some 1 \<or> stdin_buffer_has_line s' = Some (-1)" by presburger
  have "case tty_read buffer len s' of None \<Rightarrow> \<exists>bs. length bs \<le> unat len \<and> vstore_bytes bs buffer s' = None
     | Some (n, s'') \<Rightarrow> n \<le> len \<and> tty_typed s''"
  proof (cases "tty_read buffer len s'")
    case None
    then show ?thesis using read_loop_faults [OF t, of "unat len" 0 buffer] by (simp add: tty_read_def)
  next
    case (Some r)
    obtain n s'' where r: "r = (n, s'')" by (cases r)
    then obtain j where "tty_typed s''" "j \<le> unat len" "n = of_nat j"
      using typed_read_loop [OF t, of "unat len" 0 buffer n s''] Some by (auto simp: tty_read_def)
    then show ?thesis using Some r unat_u32_less [of len] by (simp add: word_le_nat_alt unat_of_nat take_bit_nat_eq_self)
  qed
  moreover have "write_tty_buffer c s' \<noteq> None" if "tty_flags s' AND ECHO_FLAG = 0" "awaiting_stdin s' \<in> {NULL} \<union> dom (tasks s')"
    using that unfolding write_tty_buffer_stored
    by (auto simp: wake_stdin_task_def set_status_def upd_task_def stored_sched)
  ultimately show ?thesis using size line by blast
qed

theorem input_buffer_typed_witness:
  "\<exists>s'. write_tty_buffer 104 reading = Some s' \<and> length (stdin_buffer s') = 4096 \<and> buffer_tail s' = 1 \<and>
     (stdin_buffer_has_line s' = Some 1 \<or> stdin_buffer_has_line s' = Some (-1)) \<and> write_tty_buffer 10 s' \<noteq> None"
proof -
  let ?s = "store_char 0 104 reading"
  have w: "write_tty_buffer 104 reading = Some ?s"
    using write_plain [OF reading_ok(1), of 104] by (simp add: ECHO_FLAG_def)
  then have "tty_step\<^sup>*\<^sup>* reading ?s" by (intro r_into_rtranclp tty_step.key)
  from input_buffer_typed [OF _ _ _ this, of 0 0 10] w show ?thesis
    by (intro exI [of _ ?s]) (simp add: store_char_def ECHO_FLAG_def)
qed

end
