(* ===== verification/Task_Programs.thy ===== *)
theory Task_Programs
  imports User_Lib
begin

text \<open>
  What runs inside tasks, at the level of memory: \<open>printf\<close> on a format string and arguments that lie in the address space
  of the task, the start code \<open>userspace/crt/crt0.c\<close>, the program \<open>userspace/programs/hello.c\<close>, and the trampoline of kernel
  tasks (\<open>kernel/scheduler/scheduler.c\<close>). Theory User_Lib gives the bytes \<open>printf\<close> writes; here every write is the system
  call it is, on the address the source passes.
\<close>

section \<open>printf in memory\<close>

text \<open>Where the string literals and the local arrays of \<open>printf\<close> lie.\<close>

record printf_frame =
  str_zero :: addr
  str_0x :: addr
  buffer_at :: addr
  hex_lower_at :: addr
  hex_upper_at :: addr

definition put :: "addr \<Rightarrow> cpu_task_state \<Rightarrow> addr \<Rightarrow> u32 \<Rightarrow> 'a tty_state_scheme \<Rightarrow> 'a tty_state_scheme option" where
  "put frame regs a len s = map_option snd (user_write frame regs 1 a len s)"

fun put_each :: "addr \<Rightarrow> cpu_task_state \<Rightarrow> addr list \<Rightarrow> 'a tty_state_scheme \<Rightarrow> 'a tty_state_scheme option" where
  "put_each frame regs [] s = Some s"
| "put_each frame regs (a # as) s = do { s \<leftarrow> put frame regs a 1 s; put_each frame regs as s }"

definition put_int :: "printf_frame \<Rightarrow> addr \<Rightarrow> cpu_task_state \<Rightarrow> u32 \<Rightarrow> 'a tty_state_scheme \<Rightarrow> 'a tty_state_scheme option" where
  "put_int l frame regs v s =
     (if v = 0 then put frame regs (str_zero l) 1 s
      else do {
        digits \<leftarrow> int_digits (sint v) [];
        s \<leftarrow> vstore_bytes digits (buffer_at l) s;
        put_each frame regs (map (\<lambda>j. buffer_at l + of_nat j) (rev [0..<length digits])) s })"

definition put_hex :: "string \<Rightarrow> addr \<Rightarrow> printf_frame \<Rightarrow> addr \<Rightarrow> cpu_task_state \<Rightarrow> u32 \<Rightarrow> 'a tty_state_scheme \<Rightarrow> 'a tty_state_scheme option" where
  "put_hex digits digits_at l frame regs v s = do {
     s \<leftarrow> vstore_bytes (map of_char digits @ [0]) digits_at s;
     s \<leftarrow> put frame regs (str_0x l) 2 s;
     put_each frame regs (map (\<lambda>j. digits_at + (drop_bit j v AND 0xF)) [28, 24, 20, 16, 12, 8, 4, 0]) s }"

text \<open>The loop, at the character \<open>p\<close> with \<open>n\<close> more to go; \<open>args\<close> are the words on the stack that \<open>va_arg\<close> takes one by one.\<close>

fun printf_loop :: "printf_frame \<Rightarrow> addr \<Rightarrow> cpu_task_state \<Rightarrow> addr \<Rightarrow> nat \<Rightarrow> u32 list \<Rightarrow> 'a tty_state_scheme \<Rightarrow> 'a tty_state_scheme option" where
  "printf_loop l frame regs p 0 args s = Some s"
| "printf_loop l frame regs p (Suc n) args s = do {
     c \<leftarrow> vload8 p s;
     if c = 37 then do {
       d \<leftarrow> vload8 (p + 1) s;
       if d = of_char (CHR ''i'') then
         case args of [] \<Rightarrow> None | v # args \<Rightarrow> do { s \<leftarrow> put_int l frame regs v s; printf_loop l frame regs (p + 2) (n - 1) args s }
       else if d = of_char (CHR ''x'') then
         case args of [] \<Rightarrow> None | v # args \<Rightarrow> do {
           s \<leftarrow> put_hex ''0123456789abcdef'' (hex_lower_at l) l frame regs v s; printf_loop l frame regs (p + 2) (n - 1) args s }
       else if d = of_char (CHR ''X'') then
         case args of [] \<Rightarrow> None | v # args \<Rightarrow> do {
           s \<leftarrow> put_hex ''0123456789ABCDEF'' (hex_upper_at l) l frame regs v s; printf_loop l frame regs (p + 2) (n - 1) args s }
       else if d = of_char (CHR ''s'') then
         case args of [] \<Rightarrow> None | v # args \<Rightarrow> do {
           len \<leftarrow> user_strlen v s; s \<leftarrow> put frame regs v len s; printf_loop l frame regs (p + 2) (n - 1) args s }
       else printf_loop l frame regs (p + 1) n args s }
     else do { s \<leftarrow> put frame regs p 1 s; printf_loop l frame regs (p + 1) n args s } }"

definition printf_call :: "printf_frame \<Rightarrow> addr \<Rightarrow> cpu_task_state \<Rightarrow> addr \<Rightarrow> u32 list \<Rightarrow> 'a tty_state_scheme \<Rightarrow> 'a tty_state_scheme option" where
  "printf_call l frame regs str args s = do { len \<leftarrow> user_strlen str s; printf_loop l frame regs str (unat len) args s }"

section \<open>The programs\<close>

text \<open>
  \<open>main\<close> of \<open>hello.c\<close>, with its array \<open>name\<close> on the stack and its format string at \<open>fmt\<close>. When \<open>read\<close> finds no line the
  task sleeps; once it is woken it makes the same call again. The value of \<open>main\<close> is not used by its caller.
\<close>

definition hello_main :: "printf_frame \<Rightarrow> addr \<Rightarrow> addr \<Rightarrow> addr \<Rightarrow> cpu_task_state \<Rightarrow> 'a tty_state_scheme \<Rightarrow> 'a tty_state_scheme outcome option" where
  "hello_main l fmt name frame regs s = do {
     out \<leftarrow> user_read frame regs 0 name 100 s;
     case out of
       Returns regs' s \<Rightarrow> do { s \<leftarrow> printf_call l frame regs fmt [name] s; Some (Returns regs' s) }
     | _ \<Rightarrow> Some out }"

definition crt_start :: "(addr \<Rightarrow> cpu_task_state \<Rightarrow> 'a tty_state_scheme \<Rightarrow> 'a tty_state_scheme outcome option) \<Rightarrow>
    addr \<Rightarrow> cpu_task_state \<Rightarrow> 'a tty_state_scheme \<Rightarrow> 'a tty_state_scheme outcome option" where
  "crt_start main frame regs s = do {
     out \<leftarrow> main frame regs s;
     case out of Returns regs' s \<Rightarrow> user_exit frame regs s | _ \<Rightarrow> Some out }"

text \<open>The first code of a kernel task; \<open>run\<close> is the function at an address.\<close>

definition task_trampoline :: "(addr \<Rightarrow> 'a sched_state_scheme \<Rightarrow> 'a sched_state_scheme option) \<Rightarrow> 'a sched_state_scheme \<Rightarrow> 'a sched_state_scheme option" where
  "task_trampoline run s = do {
     t \<leftarrow> tasks s (current_task s);
     s \<leftarrow> run (t_entry t) s;
     task_exit s }"

text \<open>A kernel task whose function returns with the scheduler in order is dead afterwards, and another task runs.\<close>

lemma task_trampoline_exits:
  assumes "tasks s (current_task s) = Some t" and "run (t_entry t) s = Some s1" and "sched_ok True s1 xs ds"
    and "current_task s1 \<noteq> idle_task s1" and "current_task s1 \<noteq> reaper_task s1"
  shows "\<exists>s' ys. task_trampoline run s = Some s' \<and> sched_ok True s' ys (ds @ [current_task s1])"
  using assms(1,2,4,5) sched_ok_exit [OF assms(3)] by (auto simp: task_trampoline_def)

section \<open>Strings in memory\<close>

text \<open>A string with its zero byte at an address of the current address space.\<close>

fun cstring_at :: "'a mem_state_scheme \<Rightarrow> addr \<Rightarrow> u8 list \<Rightarrow> bool" where
  "cstring_at s a [] \<longleftrightarrow> vload8 a s = Some 0"
| "cstring_at s a (c # cs) \<longleftrightarrow> c \<noteq> 0 \<and> vload8 a s = Some c \<and> cstring_at s (a + 1) cs"

lemma strlen_from_cstring:
  "cstring_at s (a + i) cs \<Longrightarrow> strlen_from i a s = Some (i + of_nat (length cs))"
proof (induction cs arbitrary: i)
  case Nil
  then show ?case by (subst strlen_from.simps) simp
next
  case (Cons c cs)
  then show ?case using Cons.IH [of "i + 1"] by (subst strlen_from.simps) (simp add: ac_simps)
qed

lemma strlen_cstring: "cstring_at s a cs \<Longrightarrow> strlen a s = Some (of_nat (length cs))" "cstring_at s a cs \<Longrightarrow> user_strlen a s = Some (of_nat (length cs))"
  using strlen_from_cstring [of s a 0 cs] by (simp_all add: strlen_def user_strlen_def)

lemma cstring_load: "cstring_at s a cs \<Longrightarrow> n \<le> length cs \<Longrightarrow> vload_bytes n a s = Some (take n cs)"
proof (induction cs arbitrary: a n)
  case (Cons c cs)
  then show ?case by (cases n) simp_all
qed simp

section \<open>Output\<close>

text \<open>The standard output of the current task is the terminal.\<close>

definition stdout_tty :: "'a tty_state_scheme \<Rightarrow> bool" where
  "stdout_tty s \<longleftrightarrow> (\<exists>f ops. fd_file 1 s = Some f \<and> f_flags f = WONLY_FLAG \<and> ops_heap s (f_ops f) = Some ops \<and> op_write ops = Some tty_write_fn)"

definition stdin_tty :: "'a tty_state_scheme \<Rightarrow> bool" where
  "stdin_tty s \<longleftrightarrow> (\<exists>f ops. fd_file 0 s = Some f \<and> f_flags f = RONLY_FLAG \<and> ops_heap s (f_ops f) = Some ops \<and> op_read ops = Some tty_read_fn)"

text \<open>What the screen shows is not visible to programs.\<close>

lemma screen_unseen:
  fixes s t :: "'a tty_state_scheme"
  assumes "off_screen t = off_screen s"
  shows "vload8 a t = vload8 a s" "stdout_tty t = stdout_tty s"
proof -
  obtain p r c where "t = s\<lparr>fb_mem := p, terminal_row := r, terminal_column := c\<rparr>" using assms unfolding off_screen_eq by blast
  then show "vload8 a t = vload8 a s" "stdout_tty t = stdout_tty s" by (simp_all add: vload8_def stdout_tty_def fd_file_def)
qed

lemma cstring_unseen:
  fixes s t :: "'a tty_state_scheme"
  shows "off_screen t = off_screen s \<Longrightarrow> cstring_at t a cs = cstring_at s a cs"
  by (induction cs arbitrary: a) (simp_all add: screen_unseen(1) [of t s])

lemma terminal_write_append: "terminal_write (xs @ ys) s = do { s \<leftarrow> terminal_write xs s; terminal_write ys s }"
proof (induction xs arbitrary: s)
  case (Cons x xs)
  then show ?case by (cases "terminal_putchar x s") simp_all
qed simp

text \<open>A write of a prefix of a string shows it. The kernel counts the string once more for its result.\<close>

lemma put_shows:
  assumes "stdout_tty s" and "cstring_at s a cs" and "unat n \<le> length cs" and "terminal_write (take (unat n) cs) s = Some t"
  shows "put frame regs a n s = Some t"
proof -
  obtain f ops where f: "fd_file 1 s = Some f" "f_flags f = WONLY_FLAG" "ops_heap s (f_ops f) = Some ops" "op_write ops = Some tty_write_fn"
    using assms(1) by (auto simp: stdout_tty_def)
  have "cstring_at t a cs" using assms(2) cstring_unseen [OF terminal_write_off_screen [OF assms(4)]] by simp
  from strlen_cstring(1) [OF this] have "sys_write 1 a n s = Some (of_nat (length cs), t)"
    using f cstring_load [OF assms(2,3)] assms(4)
    by (simp add: sys_write_def call_write_def tty_write_def WONLY_FLAG_def del: terminal_write.simps)
  then show ?thesis
    by (simp add: put_def user_write_def int80_def syscall_handler_def Let_def result_def returns_def SYS_EXIT_def SYS_READ_def SYS_WRITE_def)
qed

text \<open>\<open>printf\<close> in memory with string arguments shows what the writes of \<open>printf\<close> say.\<close>

lemma put_one:
  "stdout_tty s \<Longrightarrow> cstring_at s p (c # cs) \<Longrightarrow> terminal_putchar c s = Some t \<Longrightarrow> put frame regs p 1 s = Some t"
  using put_shows [of s p "c # cs" 1 t] by simp

lemma put_string:
  "stdout_tty s \<Longrightarrow> cstring_at s p str \<Longrightarrow> length str < 2 ^ 32 \<Longrightarrow> terminal_write str s = Some t \<Longrightarrow> put frame regs p (of_nat (length str)) s = Some t"
  using put_shows [of s p str "of_nat (length str)" t] by (simp add: unat_of_nat take_bit_nat_eq_self)

lemma printf_loop_shows:
  fixes s t :: "'a tty_state_scheme"
  assumes "cstring_at s p fmt" and "list_all2 (cstring_at s) ptrs strs" and "stdout_tty s"
    and "\<forall>str \<in> set strs. length str < 2 ^ 32"
    and "printf fmt (map StrArg strs) = Some ws" and "terminal_write (concat ws) s = Some t"
  shows "printf_loop l frame regs p (length fmt) ptrs s = Some t"
  using assms
proof (induction "length fmt" arbitrary: fmt p ptrs strs s ws rule: less_induct)
  case less
  have unseen: "cstring_at s' p' cs = cstring_at s p' cs" "stdout_tty s'" "list_all2 (cstring_at s') ps ss = list_all2 (cstring_at s) ps ss"
    if "off_screen s' = off_screen s" for s' :: "'a tty_state_scheme" and p' cs ps ss
  proof -
    have c: "cstring_at s' = cstring_at s" by (intro ext) (rule cstring_unseen [OF that])
    then show "cstring_at s' p' cs = cstring_at s p' cs" "list_all2 (cstring_at s') ps ss = list_all2 (cstring_at s) ps ss" by simp_all
    show "stdout_tty s'" using less.prems(3) screen_unseen(2) [OF that] by simp
  qed
  consider "fmt = []" | c where "fmt = [c]" | c d cs where "fmt = c # d # cs" by (cases fmt rule: remdups_adj.cases) auto
  then show ?case
  proof cases
    case 2
    then show ?thesis using less.prems put_one [OF less.prems(3), of p c "[]" t frame regs] by (cases "c = 37"; cases "terminal_putchar c s") auto
  next
    case (3 c d cs)
    note [simp] = 3
    show ?thesis
    proof (cases "c = 37")
      case False
      then obtain r where r: "printf (d # cs) (map StrArg strs) = Some r" "ws = [c] # r" using less.prems(5) by (auto simp: bind_Some_iff)
      then obtain s1 where s1: "terminal_putchar c s = Some s1" "terminal_write (concat r) s1 = Some t" using less.prems(6) by (auto simp: bind_Some_iff)
      note m = unseen [OF terminal_putchar_off_screen [OF s1(1)]]
      have "printf_loop l frame regs (p + 1) (length (d # cs)) ptrs s1 = Some t"
        by (rule less.hyps [OF _ _ _ m(2) less.prems(4) r(1) s1(2)]) (simp, unfold m, use less.prems(1,2) in auto)
      then show ?thesis using False less.prems(1) put_one [OF less.prems(3,1) [unfolded 3] s1(1), of frame regs] by simp
    next
      case True
      show ?thesis
      proof (cases "d = of_char (CHR ''s'')")
        case s: True
        then obtain str strs' r where r: "strs = str # strs'" "printf cs (map StrArg strs') = Some r" "ws = str # r"
          using less.prems(5) True by (cases strs) (auto simp: bind_Some_iff)
        then obtain a as s1 where s1: "ptrs = a # as" "cstring_at s a str" "list_all2 (cstring_at s) as strs'"
          "terminal_write str s = Some s1" "terminal_write (concat r) s1 = Some t"
          using less.prems(2,6) by (auto simp: list_all2_Cons2 terminal_write_append bind_Some_iff)
        note m = unseen [OF terminal_write_off_screen [OF s1(4)]]
        have "printf_loop l frame regs (p + 2) (length cs) as s1 = Some t"
          by (rule less.hyps [OF _ _ _ m(2) _ r(2) s1(5)]) (simp, unfold m, use less.prems(1,4) s1(3) r(1) in \<open>auto simp: add.commute\<close>)
        moreover have "put frame regs a (of_nat (length str)) s = Some s1"
          using less.prems(4) r(1) by (intro put_string [OF less.prems(3) s1(2) _ s1(4)]) simp
        ultimately show ?thesis using True s less.prems(1) strlen_cstring(2) [OF s1(2)] by (simp add: s1(1))
      next
        case s: False
        then have d: "d \<noteq> of_char (CHR ''i'')" "d \<noteq> of_char (CHR ''x'')" "d \<noteq> of_char (CHR ''X'')" "printf (d # cs) (map StrArg strs) = Some ws"
          using less.prems(5) True by (cases strs; auto split: if_splits)+
        have "printf_loop l frame regs (p + 1) (length (d # cs)) ptrs s = Some t"
          by (rule less.hyps [OF _ _ less.prems(2,3,4) d(4) less.prems(6)]) (use less.prems(1) in auto)
        then show ?thesis using True s d(1-3) less.prems(1) by simp
      qed
    qed
  qed (use less.prems in auto)
qed

section \<open>The program hello\<close>

definition hello_format :: "u8 list" where "hello_format = map of_char ''Seu nome: %s''"

definition hello_prompt :: "u8 list" where "hello_prompt = map of_char ''Seu nome: ''"

lemma printf_hello: "\<exists>ws. printf hello_format [StrArg str] = Some ws \<and> concat ws = hello_prompt @ str"
  by (simp add: hello_format_def hello_prompt_def)

lemma printf_call_hello:
  assumes "cstring_at s fmt hello_format" and "cstring_at s name str" and "length str < 2 ^ 32" and "stdout_tty s"
    and "terminal_write (hello_prompt @ str) s = Some t"
  shows "printf_call l frame regs fmt [name] s = Some t"
proof -
  obtain ws where ws: "printf hello_format (map StrArg [str]) = Some ws" "concat ws = hello_prompt @ str" using printf_hello by force
  have n: "unat (of_nat (length hello_format) :: u32) = length hello_format" by (simp add: hello_format_def)
  have "printf_loop l frame regs fmt (length hello_format) [name] s = Some t"
    by (rule printf_loop_shows [OF assms(1) _ assms(4) _ ws(1)]) (use assms(2,3,5) ws(2) in simp_all)
  then show ?thesis by (simp add: printf_call_def strlen_cstring(2) [OF assms(1)] n del: printf_loop.simps)
qed

text \<open>A read of a pending line through the system call.\<close>

lemma user_read_line:
  assumes "stdin_tty s" and "tty_ok s" and "pending s = line" and "10 \<in> set line" and "length line \<le> unat len"
    and "vstore_bytes line buf s = Some m"
  shows "user_read frame regs 0 buf len s = Some (Returns
    (regs\<lparr>ctx_eax := of_nat (length line), ctx_ebx := 0, ctx_ecx := buf, ctx_edx := len\<rparr>) (m\<lparr>buffer_head := buffer_tail s\<rparr>))"
proof -
  obtain f ops where f: "fd_file 0 s = Some f" "f_flags f = RONLY_FLAG" "ops_heap s (f_ops f) = Some ops" "op_read ops = Some tty_read_fn"
    using assms(1) by (auto simp: stdin_tty_def)
  have "unat (buffer_tail s) = unat (buffer_head s) + length line" using tty_okD(2,4) [OF assms(2)] assms(3) by simp
  from arg_cong [OF this, of "of_nat :: nat \<Rightarrow> u32"] have h: "buffer_head s + of_nat (length line) = buffer_tail s" by simp
  have mn: "min (unat len) (length line) = length line" using assms(5) by simp
  have "tty_read buf len s = Some (of_nat (length line), m\<lparr>buffer_head := buffer_tail s\<rparr>)"
    using tty_read_loop_stores [OF assms(2), of "unat len" 0 buf] assms(5,6) unfolding tty_read_def assms(3) mn h by simp
  then have "sys_read 0 buf len s = Some (of_nat (length line), m\<lparr>buffer_head := buffer_tail s\<rparr>)"
    using f by (simp add: sys_read_def call_read_def RONLY_FLAG_def)
  then show ?thesis using has_line_pending [OF assms(2)] assms(3,4)
    by (simp add: user_read_def int80_def syscall_handler_def Let_def returns_def SYS_EXIT_def SYS_READ_def)
qed

text \<open>Storing bytes changes memory only.\<close>

lemma vstore_bytes_phys: "vstore_bytes bs a s = Some m \<Longrightarrow> \<exists>ph. m = s\<lparr>phys := ph\<rparr>"
proof (induction bs arbitrary: a s)
  case Nil
  then show ?case by (intro exI [of _ "phys s"]) simp
next
  case (Cons b bs)
  then obtain s1 where s1: "vstore8 a b s = Some s1" "vstore_bytes bs (a + 1) s1 = Some m" by (auto elim: bind_SomeE)
  then show ?case using Cons.IH [OF s1(2)] by (auto simp: vstore8_def bind_Some_iff)
qed

text \<open>Neither the contents of memory nor the index of the reader reaches the files or the scheduler.\<close>

lemma stored_unseen:
  fixes s :: "'a tty_state_scheme" and ph :: memory and h :: u32
  defines "m \<equiv> s\<lparr>phys := ph, buffer_head := h\<rparr>"
  shows "stdout_tty m = stdout_tty s" "sched_ok b s xs ds \<Longrightarrow> sched_ok b m xs ds" "current_task m = current_task s"
proof -
  show "sched_ok b m xs ds" if "sched_ok b s xs ds"
    unfolding m_def by (rule sched_ok_cong [OF that]) (use sched_okD(10) [OF that] in simp_all)
qed (simp_all add: m_def stdout_tty_def fd_file_def)

lemma cstring_head:
  fixes s :: "'a tty_state_scheme"
  shows "cstring_at (s\<lparr>buffer_head := h\<rparr>) a cs = cstring_at s a cs"
  by (induction cs arbitrary: a) (simp_all add: vload8_def)

section \<open>Property\<close>

text \<open>
  C12: When a line of at most 100 bytes is waiting, the program, started by \<open>_start\<close>, takes the line out of the input buffer, shows its
  prompt, the line and then every byte its stack happens to hold behind the line up to the first zero byte, because
  \<open>read\<close> stores no zero byte and \<open>main\<close> does not add one; on a stack that is zero there it shows exactly the prompt and the line. Then it
  exits: its task is in the dead queue, the other tasks stay in the ring and one of them has the processor, and the scheduler
  is well formed. The rows of the screen that this output needs from the cursor on must be mapped, and the idle task able to run.
\<close>

theorem hello_runs:
  assumes "sched_ok True s xs ds" and "current_task s \<noteq> idle_task s" and "current_task s \<noteq> reaper_task s"
    and "stdin_tty s" and "stdout_tty s"
    and "tty_ok s" and "pending s = line" and "10 \<in> set line" and "length line \<le> 100"
    and "vstore_bytes line name s = Some m" and "cstring_at m fmt hello_format" and "cstring_at m name (line @ rest)"
    and "length (line @ rest) < 2 ^ 32"
    and "screen_room R m" and "unat (terminal_row s) + rows_used (unat (terminal_column s)) (hello_prompt @ line @ rest) \<le> R"
  shows "\<exists>t s' ys. terminal_write (hello_prompt @ line @ rest) (m\<lparr>buffer_head := buffer_tail s\<rparr>) = Some t \<and>
    crt_start (hello_main l fmt name) frame regs s = Some (Switched s') \<and>
    task_exit t = Some s' \<and> sched_ok True s' ys (ds @ [current_task s]) \<and> set ys = set xs - {current_task s}"
proof -
  obtain ph where m: "m = s\<lparr>phys := ph\<rparr>" using vstore_bytes_phys [OF assms(10)] by blast
  let ?m = "m\<lparr>buffer_head := buffer_tail s\<rparr>" and ?str = "hello_prompt @ line @ rest"
  have k: "stdout_tty ?m" "sched_ok True ?m xs ds" using assms(1,5) by (simp_all add: m stored_unseen)
  have "same_screen m ?m" by (simp add: same_screen_def)
  then have "screen_room R ?m" using assms(14) by (simp add: same_screen_room(1))
  moreover have "unat (terminal_row ?m) + rows_used (unat (terminal_column ?m)) ?str \<le> R" using assms(15) by (simp add: m)
  ultimately obtain t where t: "terminal_write ?str ?m = Some t" using terminal_write_ok by blast
  have "term_state.more t = term_state.more ?m" by (rule term_more_write [OF t])
  then have f: "tasks t = tasks ?m" "current_task t = current_task ?m" "dead_queue t = dead_queue ?m" "idle_task t = idle_task ?m"
    "reaper_task t = reaper_task ?m" "awaiting_stdin t = awaiting_stdin ?m" "quantum_tick t = quantum_tick ?m"
    by (cases t; cases ?m; simp)+
  have "sched_ok True t xs ds" by (rule sched_ok_cong [OF k(2) f(1-6)]) (use sched_okD(10) [OF k(2)] f(7) in simp)
  from sched_ok_exit [OF this] obtain s' ys where e: "task_exit t = Some s'" "sched_ok True s' ys (ds @ [current_task s])" "set ys = set xs - {current_task s}"
    using assms(2,3) f by (auto simp: m)
  have "cstring_at ?m fmt hello_format" "cstring_at ?m name (line @ rest)" using assms(11,12) by (simp_all only: cstring_head)
  then have p: "printf_call l frame regs fmt [name] ?m = Some t" using printf_call_hello [OF _ _ assms(13) k(1) t] by blast
  have r: "user_read frame regs 0 name 100 s = Some (Returns
    (regs\<lparr>ctx_eax := of_nat (length line), ctx_ebx := 0, ctx_ecx := name, ctx_edx := 100\<rparr>) ?m)"
    by (rule user_read_line [OF assms(4,6,7,8) _ assms(10)]) (use assms(9) in simp)
  have "crt_start (hello_main l fmt name) frame regs s = Some (Switched s')"
    by (simp add: crt_start_def hello_main_def r p user_exit_def syscall_handler_def Let_def SYS_EXIT_def e(1))
  with t e show ?thesis by blast
qed

section \<open>An example\<close>

text \<open>
  The first user task with a page of its own at address 0, the format string at 0x100 and zeroed room for the name at
  0x200; \<open>a\<close> and a newline have been typed.
\<close>

definition hello_phys :: memory where
  "hello_phys = fold (\<lambda>(i, c) m. m(0x3100 + of_nat i := c)) (enumerate 0 hello_format)
     (store32 (store32 (\<lambda>_. 0) 0x1000 0x2007) 0x2000 0x3007)"

definition hello_task :: task where
  "hello_task = (plain_task 2 TASK_RUNNING 4)\<lparr>fds := [0x10, 0x20, 0x30]\<rparr>"

definition hello_state :: tty_state where
  "hello_state = reading\<lparr>phys := hello_phys, cr3 := 0x1000, tasks := (tasks four_tasks)(3 \<mapsto> hello_task), awaiting_stdin := NULL,
     files := Map.empty(0x10 \<mapsto> \<lparr>f_name = ''tty'', f_ops = 0x40, f_flags = RONLY_FLAG\<rparr>, 0x20 \<mapsto> \<lparr>f_name = ''tty'', f_ops = 0x40, f_flags = WONLY_FLAG\<rparr>),
     ops_heap := Map.empty(0x40 \<mapsto> \<lparr>op_read = Some tty_read_fn, op_write = Some tty_write_fn, op_ioctl = Some tty_ioctl_fn\<rparr>),
     stdin_buffer := [97, 10] @ replicate 4094 0, buffer_tail := 2\<rparr>"

lemma hello_phys_eq:
  "hello_phys = (\<lambda>_. 0)(0x1000 := 7, 0x1001 := 0x20, 0x2000 := 7, 0x2001 := 0x30, 0x3100 := 83, 0x3101 := 101, 0x3102 := 117, 0x3103 := 32,
    0x3104 := 110, 0x3105 := 111, 0x3106 := 109, 0x3107 := 101, 0x3108 := 58, 0x3109 := 32, 0x310A := 37, 0x310B := 115)"
  by (simp add: hello_phys_def hello_format_def store32_def fun_eq_iff)

lemma hello_walk:
  assumes "load32 mem 0x1000 = 0x2007" and "load32 mem 0x2000 = 0x3007" and "a < 0x1000"
  shows "translate mem 0x1000 w a = Some (0x3000 + a)"
proof -
  have "unat a < 4096" using assms(3) by (simp add: word_less_nat_alt)
  then have "PDE_INDEX a = 0" "PTE_INDEX a = 0" "a AND 0xFFF = a"
    by (simp_all add: word_unat_eq_iff unat_PDE_INDEX unat_PTE_INDEX unat_and_0xFFF)
  then show ?thesis using assms(1,2) by (simp add: translate_def PAGE_MASK_def entry_def denies_def Let_def)
qed

lemma hello_state_simps [simp]:
  "phys hello_state = hello_phys" "cr3 hello_state = 0x1000" "current_task hello_state = 3" "idle_task hello_state = 1" "reaper_task hello_state = 2"
  "tasks hello_state = (tasks four_tasks)(3 \<mapsto> hello_task)" "buffer_head hello_state = 0" "buffer_tail hello_state = 2"
  "stdin_buffer hello_state = [97, 10] @ replicate 4094 0" "dead_queue hello_state = NULL" "awaiting_stdin hello_state = NULL"
  "quantum_tick hello_state = 0"
  by (simp_all add: hello_state_def)

lemma hello_tables: "load32 (hello_phys(0x3200 := x)) 0x1000 = 0x2007" "load32 (hello_phys(0x3200 := x)) 0x2000 = 0x3007"
  "load32 (hello_phys(0x3200 := x, 0x3201 := y)) 0x1000 = 0x2007" "load32 (hello_phys(0x3200 := x, 0x3201 := y)) 0x2000 = 0x3007"
  "load32 hello_phys 0x1000 = 0x2007" "load32 hello_phys 0x2000 = 0x3007"
  by (simp_all add: hello_phys_eq load32_def)

lemma hello_name: "vstore_bytes [97, 10] 0x200 hello_state = Some (hello_state\<lparr>phys := hello_phys(0x3200 := 97, 0x3201 := 10)\<rparr>)"
  by (simp add: vstore8_def hello_walk hello_tables)

lemma hello_strings:
  defines "m \<equiv> hello_state\<lparr>phys := hello_phys(0x3200 := 97, 0x3201 := 10)\<rparr>"
  shows "cstring_at m 0x100 hello_format" "cstring_at m 0x200 ([97, 10] @ [])"
proof -
  have v: "vload8 a m = Some ((hello_phys(0x3200 := 97, 0x3201 := 10)) (0x3000 + a))" if "a < 0x1000" for a
    using that by (simp add: m_def vload8_def hello_walk hello_tables)
  show "cstring_at m 0x100 hello_format" "cstring_at m 0x200 ([97, 10] @ [])" by (simp_all add: v hello_format_def hello_phys_eq)
qed

lemma hello_sched: "sched_ok True hello_state [3, 4, 1, 2] []"
proof -
  have "ring hello_state [3, 4, 1, 2]" by (simp add: ring_def hello_task_def)
  then show ?thesis unfolding sched_ok_def
    by (simp add: dead_empty runnable_def can_run_def cores_def IDLE_PID_def SCHEDULER_QUANTUM_def)
qed

theorem hello_runs_witness:
  "\<exists>t s' ys. terminal_write (hello_prompt @ [97, 10]) (hello_state\<lparr>phys := hello_phys(0x3200 := 97, 0x3201 := 10), buffer_head := 2\<rparr>) = Some t \<and>
    crt_start (hello_main \<lparr>str_zero = 0, str_0x = 0, buffer_at = 0, hex_lower_at = 0, hex_upper_at = 0\<rparr> 0x100 0x200) 0 plain_ctx hello_state = Some (Switched s') \<and>
    task_exit t = Some s' \<and> sched_ok True s' ys [3] \<and> set ys = {4, 1, 2}"
proof -
  have io: "stdin_tty hello_state" "stdout_tty hello_state"
    by (simp_all add: stdin_tty_def stdout_tty_def fd_file_def hello_task_def) (simp_all add: hello_state_def)
  have f: "psf2_data hello_state = psf2_data booted" "terminal_row hello_state = terminal_row booted" "terminal_column hello_state = terminal_column booted"
    by (simp_all add: hello_state_def reading_def tty_state.defs four_tasks_def vfs_state.defs sched_state.defs boot_vfs_def slab_state.defs boot_slab_def cpu_state.defs boot_cpu_def mem_state.defs)
  then have tm: "screen_room 5 (hello_state\<lparr>phys := hello_phys(0x3200 := 97, 0x3201 := 10)\<rparr>)"
    by (simp add: booted_term screen_room_def cell_mapped_def psf2_height_def psf2_width_def load32_def)
  have r: "unat (terminal_row hello_state) + rows_used (unat (terminal_column hello_state)) (hello_prompt @ [97, 10] @ []) \<le> 5"
    by (simp add: f booted_term hello_prompt_def)
  have b: "tty_ok hello_state" "pending hello_state = [97, 10]" by (simp_all add: tty_ok_def STDIN_BUFFER_SIZE_def pending_def)
  from hello_runs [OF hello_sched _ _ io b _ _ hello_name hello_strings _ tm r] show ?thesis by simp
qed

end
