(* ===== verification/Video_Map.thy ===== *)
theory Video_Map
  imports User_Space
begin

text \<open>
  What \<open>init_video_memory\<close> (\<open>kernel/graphics/framebuffer.c\<close>) maps: the pages of the frame buffer behind the kernel heap, in
  order, with page tables allocated as they are needed. The pages are numbered from \<open>KHEAP_END\<close>; the directory entries 896 to
  1023 cover 131072 of them.
\<close>

section \<open>Pages of the video area\<close>

definition vpage :: "nat \<Rightarrow> nat" where "vpage v = 917504 + v"

definition video_dir :: "u32 \<Rightarrow> bool" where
  "video_dir d \<longleftrightarrow> 896 \<le> d \<and> d < 1024"

definition video_entry :: "addr \<Rightarrow> nat \<Rightarrow> u32" where
  "video_entry base v = ((base + of_nat v * PAGE_SIZE) AND PAGE_MASK) OR 3"

lemma video_dir_lt: "video_dir d \<Longrightarrow> d < 1024 \<and> d \<noteq> 768"
  by (auto simp: video_dir_def word_le_nat_alt word_less_nat_alt)

lemma video_indices:
  assumes "v < 131072"
  shows "unat (dir_of (vpage v)) = 896 + v div 1024" "unat (idx_of (vpage v)) = v mod 1024" "video_dir (dir_of (vpage v))" "idx_of (vpage v) < 1024"
proof -
  have d: "vpage v div 1024 = 896 + v div 1024" "vpage v mod 1024 = v mod 1024" "v div 1024 < 128"
    using assms mod_mult_self1 [of v 896 1024] by (simp_all add: vpage_def add.commute less_mult_imp_div_less)
  show u: "unat (dir_of (vpage v)) = 896 + v div 1024" "unat (idx_of (vpage v)) = v mod 1024"
    unfolding dir_of_def idx_of_def d(1,2) by (rule unat_of_nat_u32, use d(3) in simp)+
  show "video_dir (dir_of (vpage v))" "idx_of (vpage v) < 1024" using u d(3) by (simp_all add: video_dir_def word_le_nat_alt word_less_nat_alt)
qed

lemma video_inject:
  assumes "v < 131072" and "v' < 131072" and "dir_of (vpage v) = dir_of (vpage v')" and "idx_of (vpage v) = idx_of (vpage v')"
  shows "v = v'"
proof -
  have "v div 1024 = v' div 1024" "v mod 1024 = v' mod 1024"
    using assms(3,4) video_indices(1,2) [OF assms(1)] video_indices(1,2) [OF assms(2)] by (simp_all add: word_eq_iff_unat_u32)
  then show ?thesis by (metis div_mod_decomp)
qed

text \<open>The step from one page to the next, as the loop makes it.\<close>

lemma video_next:
  assumes "Suc v < 131072"
  shows "(if idx_of (vpage v) + 1 \<ge> 1024 then (dir_of (vpage v) + 1, 0) else (dir_of (vpage v), idx_of (vpage v) + 1)) = (dir_of (vpage (Suc v)), idx_of (vpage (Suc v)))"
    and "\<not> 1024 \<le> dir_of (vpage (Suc v))"
proof -
  have v: "v < 131072" "v mod 1024 < 1024" "v div 1024 < 128" using assms by (simp_all add: less_mult_imp_div_less)
  note i = video_indices [OF v(1)] video_indices [OF assms]
  show "\<not> 1024 \<le> dir_of (vpage (Suc v))" using i(7) by (simp add: video_dir_def not_le)
  have p: "unat (idx_of (vpage v) + 1) = v mod 1024 + 1" "unat (dir_of (vpage v) + 1) = 897 + v div 1024"
    using i(1,2) v by (simp_all add: unat_add_u32)
  show "(if idx_of (vpage v) + 1 \<ge> 1024 then (dir_of (vpage v) + 1, 0) else (dir_of (vpage v), idx_of (vpage v) + 1)) = (dir_of (vpage (Suc v)), idx_of (vpage (Suc v)))"
  proof (cases "v mod 1024 = 1023")
    case True
    then have "Suc v div 1024 = Suc (v div 1024)" "Suc v mod 1024 = 0" by (simp_all add: div_Suc mod_Suc)
    then show ?thesis using True p i by (simp add: word_le_nat_alt word_eq_iff_unat_u32)
  next
    case False
    then have "Suc v div 1024 = v div 1024" "Suc v mod 1024 = Suc (v mod 1024)" by (simp_all add: div_Suc mod_Suc)
    then show ?thesis using False p i v(2) by (simp add: word_le_nat_alt word_eq_iff_unat_u32) linarith
  qed
qed

lemma video_dirs: "finite {d. video_dir d \<and> P d}" "card {d. video_dir d} = 128"
proof -
  have "{d. video_dir d} = (of_nat :: nat \<Rightarrow> u32) ` {896..<1024}"
  proof (intro set_eqI iffI)
    fix d assume "d \<in> {d. video_dir d}"
    then have "unat d \<in> {896..<1024}" by (simp add: video_dir_def word_le_nat_alt word_less_nat_alt)
    then have "of_nat (unat d) \<in> (of_nat :: nat \<Rightarrow> u32) ` {896..<1024}" by (rule imageI)
    then show "d \<in> of_nat ` {896..<1024}" by simp
  qed (auto simp: video_dir_def word_le_nat_alt word_less_nat_alt unat_of_nat_u32)
  moreover have "inj_on (of_nat :: nat \<Rightarrow> u32) {896..<1024}" by (auto intro!: inj_onI simp: of_nat_eq_iff_u32)
  ultimately show "card {d. video_dir d} = 128" by (simp add: card_image)
qed simp

section \<open>The area while it is mapped\<close>

text \<open>
  \<open>s\<close> has come from \<open>s0\<close>, in which the area was empty, by mapping its first \<open>n\<close> pages: they show the frame buffer from
  \<open>base\<close>, no other page of the area is mapped; the page tables are new frames; nothing in use but the directory has changed, and of
  that only the entries of the area.
\<close>

definition video_map :: "'a mem_state_scheme \<Rightarrow> addr \<Rightarrow> nat \<Rightarrow> 'a mem_state_scheme \<Rightarrow> bool" where
  "video_map s0 base n s \<longleftrightarrow> kbase s0 \<and> kbase s \<and> same_kernel s0 s \<and> (\<forall>f. frame_used s0 f \<longrightarrow> frame_used s f) \<and>
     (\<forall>a. frame_used s0 (a AND PAGE_MASK) \<longrightarrow> a AND PAGE_MASK \<noteq> kpd_phys s0 \<longrightarrow> phys s a = phys s0 a) \<and>
     (\<forall>d<1024. \<not> video_dir d \<longrightarrow> kpde s d = kpde s0 d) \<and>
     (\<forall>d. video_dir d \<longrightarrow> kpde s d \<noteq> 0 \<longrightarrow> \<not> denies True (kpde s d) \<and> frame_used s (table s d) \<and> \<not> frame_used s0 (table s d)) \<and>
     (\<forall>d d'. video_dir d \<longrightarrow> video_dir d' \<longrightarrow> kpde s d \<noteq> 0 \<longrightarrow> kpde s d' \<noteq> 0 \<longrightarrow> table s d = table s d' \<longrightarrow> d = d') \<and>
     (\<forall>v<131072. upte s (kpd_phys s) (vpage v) = (if v < n then video_entry base v else 0)) \<and>
     128 \<le> card (free_pages s) + card {d. video_dir d \<and> kpde s d \<noteq> 0}"

lemma video_mapD:
  assumes "video_map s0 base n s"
  shows "kbase s0" "kbase s" "same_kernel s0 s" "frame_used s0 f \<Longrightarrow> frame_used s f"
    "frame_used s0 (a AND PAGE_MASK) \<Longrightarrow> a AND PAGE_MASK \<noteq> kpd_phys s0 \<Longrightarrow> phys s a = phys s0 a"
    "d < 1024 \<Longrightarrow> \<not> video_dir d \<Longrightarrow> kpde s d = kpde s0 d"
    "video_dir d \<Longrightarrow> kpde s d \<noteq> 0 \<Longrightarrow> \<not> denies True (kpde s d) \<and> frame_used s (table s d) \<and> \<not> frame_used s0 (table s d)"
    "video_dir d \<Longrightarrow> video_dir d' \<Longrightarrow> kpde s d \<noteq> 0 \<Longrightarrow> kpde s d' \<noteq> 0 \<Longrightarrow> table s d = table s d' \<Longrightarrow> d = d'"
    "v < 131072 \<Longrightarrow> upte s (kpd_phys s) (vpage v) = (if v < n then video_entry base v else 0)"
    "128 \<le> card (free_pages s) + card {d. video_dir d \<and> kpde s d \<noteq> 0}"
proof -
  note a = assms [unfolded video_map_def]
  show "kbase s0" "kbase s" "same_kernel s0 s" "128 \<le> card (free_pages s) + card {d. video_dir d \<and> kpde s d \<noteq> 0}" using a by - (elim conjE, assumption)+
  show "frame_used s0 f \<Longrightarrow> frame_used s f" using a by (elim conjE) simp
  show "frame_used s0 (a AND PAGE_MASK) \<Longrightarrow> a AND PAGE_MASK \<noteq> kpd_phys s0 \<Longrightarrow> phys s a = phys s0 a" using a by (elim conjE) simp
  show "d < 1024 \<Longrightarrow> \<not> video_dir d \<Longrightarrow> kpde s d = kpde s0 d" using a by (elim conjE) simp
  show "video_dir d \<Longrightarrow> kpde s d \<noteq> 0 \<Longrightarrow> \<not> denies True (kpde s d) \<and> frame_used s (table s d) \<and> \<not> frame_used s0 (table s d)" using a by (elim conjE) simp
  show "video_dir d \<Longrightarrow> video_dir d' \<Longrightarrow> kpde s d \<noteq> 0 \<Longrightarrow> kpde s d' \<noteq> 0 \<Longrightarrow> table s d = table s d' \<Longrightarrow> d = d'" using a by (elim conjE) simp
  show "v < 131072 \<Longrightarrow> upte s (kpd_phys s) (vpage v) = (if v < n then video_entry base v else 0)" using a by (elim conjE) simp
qed

lemma video_map_frames:
  assumes "video_map s0 base n s"
  shows "win_frames s = win_frames s0" "f \<in> win_frames s \<Longrightarrow> frame_used s0 f"
proof -
  show e: "win_frames s = win_frames s0" by (rule same_kernel_frames [OF video_mapD(3) [OF assms]])
  show "frame_used s0 f" if "f \<in> win_frames s" using that e video_mapD(1) [OF assms] by (simp add: kbase_def)
qed

lemma upte_kpde: "upte s (kpd_phys s) n = (if kpde s (dir_of n) = 0 then 0 else load32 (phys s) (entry (table s (dir_of n)) (idx_of n)))"
  by (simp add: upte_def upde_def kpde_def utable_def table_def)

section \<open>One page\<close>

lemma kpd_kept:
  assumes "kbase s" and "d < 1024" and "d \<noteq> 768"
  obtains s' where "vstore32 (entry (kernel_page_directory s) d) v s = Some s'" "kbase s'" "same_kernel s s'"
    "phys s' = store32 (phys s) (entry (kpd_phys s) d) v" "free_pages s' = free_pages s" "used_pages s' = used_pages s"
proof -
  have wf: "win_wf s" "closed s" "pmm_inv s" "\<And>f. f \<in> win_frames s \<Longrightarrow> frame_used s f" using assms(1) by (auto simp: kbase_def)
  let ?s = "s\<lparr>phys := store32 (phys s) (entry (kpd_phys s) d) v\<rparr>"
  note w = store_keeps_win [OF wf(1) may_write_kpd [OF wf(1) assms(2,3)], of v]
  have p: "pmm_inv ?s = pmm_inv s" "free_pages ?s = free_pages s" "used_pages ?s = used_pages s" by (rule pmm_cong; simp)+
  have k: "same_kernel s ?s" using w(2) by (simp add: same_kernel_def)
  have "closed ?s" using wf(2) w by (simp add: closed_def)
  then have "kbase ?s" using w(1) p wf(3,4) same_kernel_frames [OF k] by (auto simp: kbase_def frame_used_def)
  then show thesis using that [OF kpd_store [OF wf(1) assms(2)]] k p(2,3) by simp
qed

lemma kernel_entry_frame: "page_aligned f \<Longrightarrow> (f OR 3) AND PAGE_MASK = f" "page_aligned f \<Longrightarrow> \<not> denies True (f OR 3)" "page_aligned f \<Longrightarrow> f OR 3 \<noteq> 0"
proof -
  assume f: "page_aligned f"
  show "(f OR 3) AND PAGE_MASK = f" using f by (simp add: page_aligned_frame)
  have b: "bit (f OR 3) 0" "bit (f OR 3) 1" using page_aligned_flag [OF f, of _ 3] by (simp_all add: bit_simps)
  then show "\<not> denies True (f OR 3)" by (simp add: denies_def)
  show "f OR 3 \<noteq> 0" using b(1) by auto
qed

lemma video_room:
  assumes "video_map s0 base n s" and "video_dir d" and "kpde s d = 0"
  shows "free_pages s \<noteq> {}"
proof -
  have "{d. video_dir d \<and> kpde s d \<noteq> 0} \<subset> {d. video_dir d}" using assms(2,3) by auto
  from psubset_card_mono [OF _ this] have "card {d. video_dir d \<and> kpde s d \<noteq> 0} < 128" by (simp add: video_dirs)
  then show ?thesis using video_mapD(10) [OF assms(1)] by auto
qed

text \<open>A new page table for an entry that has none.\<close>

lemma video_add_table:
  assumes V: "video_map s0 base n s" and d: "video_dir d" "kpde s d = 0"
  obtains x sa sb s' where "pmm_alloc 1 s = Some (page_addr x, sa)" "zero_page (page_addr x) sa = Some sb" "page_aligned (page_addr x)"
    "vstore32 (entry (kernel_page_directory sb) d) (page_addr x OR 3) sb = Some s'" "video_map s0 base n s'" "kpde s' d = page_addr x OR 3"
proof -
  note U = video_mapD [OF V] and W = video_map_frames [OF V] and d' = video_dir_lt [OF d(1)]
  obtain x sa sb where a: "pmm_alloc 1 s = Some (page_addr x, sa)" "zero_page (page_addr x) sa = Some sb" and g: "page_aligned (page_addr x)" "\<not> frame_used s (page_addr x)"
      and x: "x \<in> free_pages s" and b: "kbase sb" "same_kernel s sb" "phys sb = zero_frame (phys s) (page_addr x)"
      "free_pages sb = free_pages s - {x}" "used_pages sb = insert x (used_pages s)" "frame_used sb (page_addr x)"
    by (rule fresh_zeroed [OF U(2) video_room [OF V d]])
  let ?g = "page_addr x"
  obtain s' where c: "vstore32 (entry (kernel_page_directory sb) d) (?g OR 3) sb = Some s'" "kbase s'" "same_kernel sb s'"
      "phys s' = store32 (phys sb) (entry (kpd_phys sb) d) (?g OR 3)" "free_pages s' = free_pages sb" "used_pages s' = used_pages sb"
    using kpd_kept [OF b(1)] d' by metis
  let ?K = "kpd_phys s"
  have k: "kpd_phys sb = ?K" "kpd_phys s' = ?K" "kpd_phys s0 = ?K" "same_kernel s0 s'" using U(3) b(2) c(3) by (auto simp: same_kernel_def)
  have K: "frame_used s0 ?K" "frame_used s ?K" "page_aligned ?K" using W(2) [of ?K] U(4) [of ?K] by (auto simp: win_frames_def frame_used_def)
  have ne: "frame_used s h \<Longrightarrow> h \<noteq> ?g" for h using g(2) by auto
  note fr = kernel_entry_frame [OF g(1)]
  have E: "load32 (phys s') (entry h i) = (if h = ?K \<and> i = d then ?g OR 3 else load32 (phys s) (entry h i))" if "frame_used s h" "i < 1024" for h i
    using ne [OF that(1)] that K(3) d' by (auto simp: c(4) b(3) k load32_store32_entry load32_zero_frame frame_used_def)
  have G: "load32 (phys s') (entry ?g i) = 0" if "i < 1024" for i
    using that g(1) K(3) d' ne [OF K(2)] by (simp add: c(4) b(3) k load32_store32_entry load32_zero_frame)
  have D: "kpde s' e = (if e = d then ?g OR 3 else kpde s e)" if "e < 1024" for e
    using E [OF K(2) that] by (simp add: kpde_def k)
  have T: "table s' e = (if e = d then ?g else table s e)" if "e < 1024" for e
    using D [OF that] fr(1) by (simp add: table_def)
  have u: "frame_used s h \<Longrightarrow> frame_used s' h" "frame_used s' ?g" for h using b(5,6) c(6) by (auto simp: frame_used_def)
  have N: "upte s' (kpd_phys s') (vpage v) = upte s (kpd_phys s) (vpage v)" if v: "v < 131072" for v
  proof -
    note i = video_indices(3,4) [OF v]
    let ?e = "dir_of (vpage v)"
    show ?thesis using D [of ?e] T [of ?e] video_dir_lt [OF i(1)] d(2) G [OF i(2)] E [of "table s ?e" "idx_of (vpage v)"] U(7) [OF i(1)] i(2) K W(2) [of ?K]
      by (auto simp: upte_kpde win_frames_def)
  qed
  have cnt: "{e. video_dir e \<and> kpde s' e \<noteq> 0} = insert d {e. video_dir e \<and> kpde s e \<noteq> 0}"
    using D video_dir_lt d(1) fr(3) by (auto split: if_splits)
  have "video_map s0 base n s'"
    unfolding video_map_def
  proof (intro conjI allI impI)
    show "kbase s0" "kbase s'" "same_kernel s0 s'" by (fact U(1) c(2) k(4))+
    show "frame_used s' f" if "frame_used s0 f" for f using u(1) U(4) that by blast
    show "phys s' a = phys s0 a" if "frame_used s0 (a AND PAGE_MASK)" "a AND PAGE_MASK \<noteq> kpd_phys s0" for a
      using U(5) [OF that] ne [OF U(4) [OF that(1)]] that K(3) d' by (simp add: c(4) b(3) k store32_other_frame zero_frame_other)
    show "kpde s' e = kpde s0 e" if "e < 1024" "\<not> video_dir e" for e using D [OF that(1)] U(6) [OF that] d(1) that(2) by auto
    show "\<not> denies True (kpde s' e)" "frame_used s' (table s' e)" "\<not> frame_used s0 (table s' e)" if "video_dir e" "kpde s' e \<noteq> 0" for e
      using that D [of e] T [of e] video_dir_lt [of e] U(4) [of ?g] U(7) [of e] fr(2) u g(2) by (auto split: if_splits)
    show "e = e'" if "video_dir e" "video_dir e'" "kpde s' e \<noteq> 0" "kpde s' e' \<noteq> 0" "table s' e = table s' e'" for e e'
      using that D [of e] T [of e] D [of e'] T [of e'] video_dir_lt [of e] video_dir_lt [of e'] U(7) [of e] U(7) [of e'] ne U(8) [of e e'] by (auto split: if_splits)
    show "upte s' (kpd_phys s') (vpage v) = (if v < n then video_entry base v else 0)" if "v < 131072" for v
      using N [OF that] U(9) [OF that] by simp
    show "128 \<le> card (free_pages s') + card {e. video_dir e \<and> kpde s' e \<noteq> 0}"
      using U(10) c(5) b(4) x card_Suc_Diff1 [of "free_pages s" x] d(2) by (simp add: cnt video_dirs)
  qed
  then show thesis using that [OF a g(1) c(1)] D [of d] d' by simp
qed

text \<open>The entry of the next page.\<close>

lemma video_add_page:
  assumes V: "video_map s0 base n s" and n: "n < 131072" and z: "kpde s (dir_of (vpage n)) \<noteq> 0"
  obtains s' where "write_entry (kpde s (dir_of (vpage n))) (idx_of (vpage n)) (video_entry base n) s = Some s'" "video_map s0 base (Suc n) s'"
proof -
  note U = video_mapD [OF V] and W = video_map_frames [OF V] and i = video_indices(3,4) [OF n]
  let ?d = "dir_of (vpage n)" and ?p = "idx_of (vpage n)" and ?K = "kpd_phys s"
  let ?g = "table s ?d"
  have g: "frame_used s ?g" "\<not> frame_used s0 ?g" "page_aligned ?g" using U(7) [OF i(1) z] by (auto simp: frame_used_def)
  have gw: "?g \<notin> win_frames s" using g(2) W(2) by blast
  have mw: "may_write s (kpde s ?d AND PAGE_MASK) ?p" using may_write_fresh [OF g(3) gw i(2)] by (simp add: table_def)
  obtain s' where c: "write_entry (kpde s ?d) ?p (video_entry base n) s = Some s'" "kbase s'" "same_kernel s s'"
      "phys s' = store32 (phys s) (entry ?g ?p) (video_entry base n)" "free_pages s' = free_pages s" "used_pages s' = used_pages s"
    using write_kept [OF U(2) mw] by (metis table_def)
  have k: "kpd_phys s' = ?K" "kpd_phys s0 = ?K" "same_kernel s0 s'" using U(3) c(3) by (auto simp: same_kernel_def)
  have K: "page_aligned ?K" "?K \<noteq> ?g" using gw W(2) [of ?K] by (auto simp: win_frames_def frame_used_def)
  have D: "kpde s' e = kpde s e" if "e < 1024" for e
    using that K g(3) i(2) by (simp add: kpde_def k c(4) load32_store32_entry)
  then have T: "table s' e = table s e" if "e < 1024" for e using that by (simp add: table_def)
  have u: "frame_used s' h = frame_used s h" for h using c(6) by (simp add: frame_used_def)
  have N: "upte s' (kpd_phys s') (vpage v) = (if v = n then video_entry base n else upte s (kpd_phys s) (vpage v))" if v: "v < 131072" for v
  proof (cases "v = n")
    case True
    then show ?thesis using D [of ?d] T [of ?d] video_dir_lt [OF i(1)] z by (simp add: upte_kpde c(4))
  next
    case False
    note j = video_indices(3,4) [OF v]
    let ?e = "dir_of (vpage v)"
    have "load32 (phys s') (entry (table s ?e) (idx_of (vpage v))) = load32 (phys s) (entry (table s ?e) (idx_of (vpage v)))" if "kpde s ?e \<noteq> 0"
    proof -
      have "table s ?e \<noteq> ?g \<or> idx_of (vpage v) \<noteq> ?p" using U(8) [OF j(1) i(1) that z] video_inject [OF v n] False by blast
      then show ?thesis using g(3) i(2) j(2) by (simp add: c(4) load32_store32_entry)
    qed
    then show ?thesis using False D [of ?e] T [of ?e] video_dir_lt [OF j(1)] by (simp add: upte_kpde)
  qed
  have "video_map s0 base (Suc n) s'"
    unfolding video_map_def
  proof (intro conjI allI impI)
    show "kbase s0" "kbase s'" "same_kernel s0 s'" by (fact U(1) c(2) k(3))+
    show "frame_used s' f" if "frame_used s0 f" for f using U(4) [OF that] u by simp
    show "phys s' a = phys s0 a" if "frame_used s0 (a AND PAGE_MASK)" "a AND PAGE_MASK \<noteq> kpd_phys s0" for a
    proof -
      have "a AND PAGE_MASK \<noteq> ?g" using that(1) g(2) by auto
      then show ?thesis using U(5) [OF that] g(3) i(2) by (simp add: c(4) store32_other_frame)
    qed
    show "kpde s' e = kpde s0 e" if "e < 1024" "\<not> video_dir e" for e using D U(6) that by simp
    show "\<not> denies True (kpde s' e)" "frame_used s' (table s' e)" "\<not> frame_used s0 (table s' e)" if "video_dir e" "kpde s' e \<noteq> 0" for e
      using that D [of e] T [of e] video_dir_lt [of e] U(7) [of e] u by auto
    show "e = e'" if "video_dir e" "video_dir e'" "kpde s' e \<noteq> 0" "kpde s' e' \<noteq> 0" "table s' e = table s' e'" for e e'
      using that D T video_dir_lt U(8) [of e e'] by simp
    show "upte s' (kpd_phys s') (vpage v) = (if v < Suc n then video_entry base v else 0)" if "v < 131072" for v
      using N [OF that] U(9) [OF that] by auto
    have "{e. video_dir e \<and> kpde s' e \<noteq> 0} = {e. video_dir e \<and> kpde s e \<noteq> 0}" using D video_dir_lt by auto
    then show "128 \<le> card (free_pages s') + card {e. video_dir e \<and> kpde s' e \<noteq> 0}" using U(10) c(5) by simp
  qed
  then show thesis using that [OF c(1)] by blast
qed

lemma video_map_log [simp]: "video_map s0 base n (s\<lparr>invlpg_log := l\<rparr>) = video_map s0 base n s"
proof -
  have "free_pages (s\<lparr>invlpg_log := l\<rparr>) = free_pages s" "used_pages (s\<lparr>invlpg_log := l\<rparr>) = used_pages s" by (rule pmm_cong; simp)+
  moreover have "upte (s\<lparr>invlpg_log := l\<rparr>) pd m = upte s pd m" for pd m by (simp add: upte_def upde_def utable_def)
  moreover have "same_kernel s0 (s\<lparr>invlpg_log := l\<rparr>) = same_kernel s0 s" "kpd_phys (s\<lparr>invlpg_log := l\<rparr>) = kpd_phys s"
    by (simp_all add: same_kernel_def kpd_phys_def boot_pt_def)
  ultimately show ?thesis by (simp add: video_map_def frame_used_def table_def)
qed

section \<open>The loop\<close>

text \<open>The first part of a round: the page table of the entry is there afterwards.\<close>

definition video_table :: "u32 \<Rightarrow> 'a mem_state_scheme \<Rightarrow> 'a mem_state_scheme option" where
  "video_table d s = do {
     pde \<leftarrow> vload32 (entry (kernel_page_directory s) d) s;
     if pde = 0 then do {
       (page_table_phys_addr, s) \<leftarrow> pmm_alloc 1 s;
       s \<leftarrow> zero_page page_table_phys_addr s;
       vstore32 (entry (kernel_page_directory s) d) ((page_table_phys_addr AND PAGE_MASK) OR PAGE_PRESENT OR PAGE_WRITABLE) s }
     else Some s }"

lemma video_loop_Suc:
  assumes "video_table d s = Some s1" and "vload32 (entry (kernel_page_directory s1) d) s1 = Some pde"
    and "write_entry pde p ((a AND PAGE_MASK) OR PAGE_PRESENT OR PAGE_WRITABLE) s1 = Some s2"
    and "(if p + 1 \<ge> 1024 then (d + 1, 0) else (d, p + 1)) = (d', p')" and "\<not> 1024 \<le> d'"
  shows "video_loop (Suc k) d p a s = video_loop k d' p' (a + PAGE_SIZE) (invlpg (push_bit 22 d OR push_bit 12 p) s2)"
proof -
  obtain e where e: "vload32 (entry (kernel_page_directory s) d) s = Some e" using assms(1) by (auto simp: video_table_def bind_Some_iff)
  then have "(if e = 0 then do {
       (page_table_phys_addr, s) \<leftarrow> pmm_alloc 1 s;
       s \<leftarrow> zero_page page_table_phys_addr s;
       vstore32 (entry (kernel_page_directory s) d) ((page_table_phys_addr AND PAGE_MASK) OR PAGE_PRESENT OR PAGE_WRITABLE) s }
     else Some s) = Some s1" using assms(1) by (simp add: video_table_def)
  then show ?thesis using assms(5) unfolding video_loop.simps e assms(4) bind.bind_lunit by (simp only: bind.bind_lunit assms(2,3) assms(4) Let_def prod.case if_False)
qed

lemma video_table_ready:
  assumes "video_map s0 base n s" and "video_dir d"
  obtains s1 where "video_table d s = Some s1" "video_map s0 base n s1" "kpde s1 d \<noteq> 0"
proof -
  have ld: "vload32 (entry (kernel_page_directory s) d) s = Some (kpde s d)"
    using kpd_load [of s d] video_mapD(2) [OF assms(1)] video_dir_lt [OF assms(2)] by (simp add: kbase_def)
  show thesis
  proof (cases "kpde s d = 0")
    case True
    obtain x sa sb s' where a: "pmm_alloc 1 s = Some (page_addr x, sa)" "zero_page (page_addr x) sa = Some sb" "page_aligned (page_addr x)"
      "vstore32 (entry (kernel_page_directory sb) d) (page_addr x OR 3) sb = Some s'" "video_map s0 base n s'" "kpde s' d = page_addr x OR 3"
      by (rule video_add_table [OF assms True])
    have "video_table d s = Some s'" using True ld a(1,2,4) mask_page_aligned [OF a(3)] by (simp add: video_table_def kernel_flags)
    then show thesis using that a(5,6) kernel_entry_frame(3) [OF a(3)] by simp
  next
    case False
    then show thesis using that [of s] assms(1) ld by (simp add: video_table_def)
  qed
qed

lemma video_loop_maps:
  "video_map s0 base n s \<Longrightarrow> n + k < 131072 \<Longrightarrow>
   \<exists>s'. video_loop k (dir_of (vpage n)) (idx_of (vpage n)) (base + of_nat n * PAGE_SIZE) s = Some s' \<and> video_map s0 base (n + k) s'"
proof (induction k arbitrary: n s)
  case (Suc k)
  let ?d = "dir_of (vpage n)" and ?p = "idx_of (vpage n)" and ?a = "base + of_nat n * PAGE_SIZE"
  have n: "n < 131072" "Suc n < 131072" using Suc.prems(2) by simp_all
  note i = video_indices(3,4) [OF n(1)]
  obtain s1 where s1: "video_table ?d s = Some s1" "video_map s0 base n s1" "kpde s1 ?d \<noteq> 0" by (rule video_table_ready [OF Suc.prems(1) i(1)])
  obtain s2 where s2: "write_entry (kpde s1 ?d) ?p (video_entry base n) s1 = Some s2" "video_map s0 base (Suc n) s2"
    by (rule video_add_page [OF s1(2) n(1) s1(3)])
  have e: "(?a AND PAGE_MASK) OR PAGE_PRESENT OR PAGE_WRITABLE = video_entry base n" by (simp add: video_entry_def kernel_flags)
  have ld: "vload32 (entry (kernel_page_directory s1) ?d) s1 = Some (kpde s1 ?d)"
    using kpd_load [of s1 ?d] video_mapD(2) [OF s1(2)] video_dir_lt [OF i(1)] by (simp add: kbase_def)
  let ?s3 = "invlpg (push_bit 22 ?d OR push_bit 12 ?p) s2"
  have "video_map s0 base (Suc n) ?s3" using s2(2) by (simp add: invlpg_def)
  from Suc.IH [OF this] obtain s' where s': "video_loop k (dir_of (vpage (Suc n))) (idx_of (vpage (Suc n))) (base + of_nat (Suc n) * PAGE_SIZE) ?s3 = Some s'"
      "video_map s0 base (Suc n + k) s'" using Suc.prems(2) by auto
  have "video_loop (Suc k) ?d ?p ?a s = video_loop k (dir_of (vpage (Suc n))) (idx_of (vpage (Suc n))) (?a + PAGE_SIZE) ?s3"
    by (rule video_loop_Suc [OF s1(1) ld _ video_next [OF n(2)]]) (simp only: e s2(1))
  also have "?a + PAGE_SIZE = base + of_nat (Suc n) * PAGE_SIZE" by (simp add: algebra_simps)
  finally show ?case using s' by (simp del: video_loop.simps)
qed auto

section \<open>What the processor sees\<close>

lemma video_address: "KHEAP_END + of_nat v * PAGE_SIZE = page_addr (vpage v)"
  by (simp add: KHEAP_END_def PAGE_SIZE_def page_addr_def vpage_def algebra_simps)

lemma video_translate:
  assumes V: "video_map s0 base n s" and c: "cr3 s = kpd_phys s" and v: "v < 131072" and off: "off < 4096"
  shows "translate (phys s) (cr3 s) w (page_addr (vpage v) + off) = (if v < n then Some (((base + of_nat v * PAGE_SIZE) AND PAGE_MASK) + off) else None)"
proof -
  note i = video_indices [OF v]
  let ?d = "dir_of (vpage v)" and ?p = "idx_of (vpage v)"
  have nb: "vpage v < 1048576" using v by (simp add: vpage_def)
  have o: "unat off < 4096" using off by (simp add: word_less_nat_alt)
  note pa = page_aligned_page_addr [OF nb]
  have ix: "PDE_INDEX (page_addr (vpage v) + off) = ?d" "PTE_INDEX (page_addr (vpage v) + off) = ?p" "(page_addr (vpage v) + off) AND 0xFFF = off"
    using unat_page_addr [OF nb] nb index_offset [OF pa o] mask_page_offset(2) [OF pa o]
    by (simp_all add: word_eq_iff_unat_u32 unat_PDE_INDEX unat_PTE_INDEX div_4194304 dir_of_def idx_of_def unat_of_nat_u32)
  have k: "kpd_phys s AND PAGE_MASK = kpd_phys s" using video_mapD(2) [OF V] by (simp add: kbase_def win_wf_def mask_page_aligned)
  have d0: "denies w 0" by (simp add: denies_def)
  show ?thesis
  proof (cases "kpde s ?d = 0")
    case True
    then have "upte s (kpd_phys s) (vpage v) = 0" by (simp add: upte_kpde)
    moreover have "video_entry base v \<noteq> 0" using kernel_entry_frame(3) [of "(base + of_nat v * PAGE_SIZE) AND PAGE_MASK"] by (simp add: video_entry_def)
    ultimately have "\<not> v < n" using video_mapD(9) [OF V v] by auto
    then show ?thesis using True d0 by (simp add: translate_def ix c k Let_def flip: kpde_def)
  next
    case False
    have e: "load32 (phys s) (entry (table s ?d) ?p) = (if v < n then video_entry base v else 0)"
      using video_mapD(9) [OF V v] False by (simp add: upte_kpde)
    have nd: "\<not> denies w (kpde s ?d)" using video_mapD(7) [OF V i(3) False] denies_mono by blast
    have "\<not> denies w (video_entry base v)" "video_entry base v AND PAGE_MASK = (base + of_nat v * PAGE_SIZE) AND PAGE_MASK"
      using kernel_entry_frame(1,2) [of "(base + of_nat v * PAGE_SIZE) AND PAGE_MASK"] denies_mono by (auto simp: video_entry_def)
    then show ?thesis using nd d0 e by (simp add: translate_def ix c k Let_def flip: kpde_def table_def)
  qed
qed

section \<open>Property\<close>

text \<open>The fields of the frame buffer's size play no part in memory.\<close>

lemma kbase_framebuffer:
  fixes s :: "'a mem_state_scheme" and x y z :: u32
  defines "t \<equiv> s\<lparr>framebuffer_width := x, framebuffer_height := y, framebuffer_pitch := z\<rparr>"
  shows "kbase t = kbase s" "kpde t d = kpde s d" "free_pages t = free_pages s" "kpd_phys t = kpd_phys s" "frame_used t f = frame_used s f"
proof -
  have p: "pmm_inv t = pmm_inv s" "free_pages t = free_pages s" "used_pages t = used_pages s" by (rule pmm_cong; simp add: t_def)+
  have w: "same_win t s" by (simp add: same_win_def t_def)
  show "kbase t = kbase s" "frame_used t f = frame_used s f" using p same_winD [OF w] by (simp_all add: kbase_def frame_used_def)
  show "free_pages t = free_pages s" "kpd_phys t = kpd_phys s" "kpde t d = kpde s d" using p(2) same_winD(4) [OF w] by (simp_all add: kpde_def) (simp_all add: t_def)
qed

text \<open>
  C14: With the area behind the kernel heap empty and a page table's worth of memory free for each of its directory entries,
  \<open>init_video_memory\<close> maps as many whole pages as the frame buffer has, from \<open>KHEAP_END\<close> on and in order, and no other page of the
  area: a last page that the frame buffer fills only in part stays unmapped. The rest of the page directory and every frame in use are as they were.
\<close>

theorem init_video_memory_maps:
  assumes "kbase s" and "cr3 s = kpd_phys s" and "\<forall>d. 896 \<le> d \<longrightarrow> d < 1024 \<longrightarrow> kpde s d = 0" and "128 \<le> card (free_pages s)"
    and "n = unat (mb_fb_pitch mbi * mb_fb_height mbi) div 4096" and "n < 131072"
  shows "\<exists>s'. init_video_memory mbi s = Some s' \<and> kbase s' \<and>
    (\<forall>v<131072. \<forall>off<4096. \<forall>w. translate (phys s') (cr3 s') w (KHEAP_END + of_nat v * PAGE_SIZE + off) =
       (if v < n then Some (((ucast (mb_fb_addr mbi) + of_nat v * PAGE_SIZE) AND PAGE_MASK) + off) else None)) \<and>
    (\<forall>d<896. kpde s' d = kpde s d) \<and>
    (\<forall>a. frame_used s (a AND PAGE_MASK) \<longrightarrow> a AND PAGE_MASK \<noteq> kpd_phys s \<longrightarrow> phys s' a = phys s a)"
proof -
  let ?t = "s\<lparr>framebuffer_width := mb_fb_width mbi, framebuffer_height := mb_fb_height mbi, framebuffer_pitch := mb_fb_pitch mbi\<rparr>"
  let ?base = "ucast (mb_fb_addr mbi) :: u32"
  note k = kbase_framebuffer [where s = s and x = "mb_fb_width mbi" and y = "mb_fb_height mbi" and z = "mb_fb_pitch mbi"]
  have z: "kpde ?t d = 0" if "video_dir d" for d using assms(3) that k(2) by (simp add: video_dir_def)
  have "video_map ?t ?base 0 ?t"
    using z video_indices(3) assms(1,4) k(1,3) by (simp add: video_map_def same_kernel_def upte_kpde)
  from video_loop_maps [OF this, of n] assms(6) obtain s' where s': "video_loop n (dir_of (vpage 0)) (idx_of (vpage 0)) ?base ?t = Some s'"
    "video_map ?t ?base n s'" by auto
  have i: "dir_of (vpage 0) = PDE_INDEX KHEAP_END" "idx_of (vpage 0) = PTE_INDEX KHEAP_END" "unat (mb_fb_pitch mbi * mb_fb_height mbi div PAGE_SIZE) = n"
    by (simp_all add: dir_of_def idx_of_def vpage_def KHEAP_END_def PDE_INDEX_def PTE_INDEX_def assms(5) unat_div PAGE_SIZE_def)
  have r: "init_video_memory mbi s = Some s'" using s'(1) unfolding init_video_memory_def Let_def i by (simp add: k)
  note U = video_mapD [OF s'(2)]
  have c: "cr3 s' = kpd_phys s'" "kpd_phys ?t = kpd_phys s" using U(3) assms(2) k(4) by (simp_all add: same_kernel_def)
  have "kpde s' d = kpde s d" if "d < 896" for d
    using U(6) [of d] that k(2) by (simp add: video_dir_def word_le_nat_alt word_less_nat_alt)
  moreover have "phys s' a = phys s a" if "frame_used s (a AND PAGE_MASK)" "a AND PAGE_MASK \<noteq> kpd_phys s" for a
    using U(5) [of a] that k(5) c(2) by simp
  ultimately show ?thesis using r U(2) video_translate [OF s'(2) c(1)] unfolding video_address by blast
qed

theorem init_video_memory_maps_witness:
  "\<exists>s'. init_video_memory \<lparr>mb_fb_addr = 0xFD000000, mb_fb_pitch = 4096, mb_fb_width = 1024, mb_fb_height = 2\<rparr> booted = Some s' \<and>
     translate (phys s') (cr3 s') True (KHEAP_END + of_nat 1 * PAGE_SIZE + 8) = Some (((0xFD000000 + of_nat 1 * PAGE_SIZE) AND PAGE_MASK) + 8)"
proof -
  let ?m = "\<lparr>mb_fb_addr = 0xFD000000, mb_fb_pitch = 4096, mb_fb_width = 1024, mb_fb_height = 2\<rparr>"
  have k: "kbase booted" using booted_kheap(1) by (simp add: kheap_inv_def kbase_def)
  have c: "cr3 booted = kpd_phys booted" by (simp add: kpd_phys_def KERNEL_BASE_def)
  have z: "\<forall>d. 896 \<le> d \<longrightarrow> d < 1024 \<longrightarrow> kpde booted d = 0" by (auto simp: kpde_def kpd_phys_def KERNEL_BASE_def booted_load)
  have n: "2 = unat (mb_fb_pitch ?m * mb_fb_height ?m) div 4096" by simp
  obtain s' where s': "init_video_memory ?m booted = Some s'"
    "\<forall>v<131072. \<forall>off<4096. \<forall>w. translate (phys s') (cr3 s') w (KHEAP_END + of_nat v * PAGE_SIZE + off) =
       (if v < 2 then Some (((ucast (mb_fb_addr ?m) + of_nat v * PAGE_SIZE) AND PAGE_MASK) + off) else None)"
    using init_video_memory_maps [OF k c z _ n] by (auto simp: booted_sets)
  show ?thesis using s'(1) s'(2) [rule_format, of 1 8 True] by simp
qed

end
