(* ===== verification/Spec2Isabelle.thy ===== *)
theory Spec2Isabelle
  imports Misc_Header Page_Walk Terminal Run_Search Pmm Paging Kheap Cpu_Tables Slab Linked_List Vfs Address_Space Frames Scheduler Round_Robin Task_Life Sched_Machine Stdin Syscalls Disk Fs Boot User_Lib User_Malloc User_Area Malloc_Arena Malloc_Run Free_Run Malloc_Limits User_Space User_Unmap Malloc_First Window_Session New_Space End_Space Fs_Data Input_Buffer Task_Programs Video_Map
begin

text \<open>
  A verification development of alphaOS, a kernel for 32-bit i386 machines with a small user space.

  \<^bold>\<open>The program.\<close> After boot the kernel (\<open>src/kernel\<close>) owns a bitmap of physical pages, a two-level page table with
  a heap of virtual pages, a slab allocator on that heap, a ring of tasks with a scheduler, a terminal with an input
  buffer, a virtual file system with the terminal as its device, a disk driver with a file system, and the handlers
  of exceptions, system calls, timer and keyboard. Tasks interact with it through \<open>int 0x80\<close>; the timer interrupt
  switches between them; the keyboard interrupt fills the input buffer and wakes the task that waits for it.

  \<^bold>\<open>State.\<close> One record is extended from theory to theory in the order the code is layered: ports (\<open>io_state\<close>),
  physical memory and the loaded page directory (\<open>ram_state\<close>), screen (\<open>term_state\<close>), page bitmap (\<open>pmm_state\<close>), the kernel's own
  paging data (\<open>mem_state\<close>), descriptor tables, slab caches
  (\<open>slab_state\<close>), vnodes and files (\<open>vfs_state\<close>), tasks (\<open>sched_state\<close>), input buffer (\<open>tty_state\<close>). An operation is
  polymorphic in the fields it does not know, and theory Frames shows that it keeps them.

  \<^bold>\<open>Errors and loops.\<close> C code that runs into undefined behaviour (a page fault of the kernel, an access outside an array,
  a null pointer) gives \<open>None\<close>, so every theorem that a call gives \<open>Some\<close> also says that it stays defined. Machine
  integers keep their width. A loop over a counter is structural recursion or a function with its measure
  (\<open>pmm_scan\<close>, \<open>kheap_scan\<close>); a search that need not end (\<open>find_task\<close>, \<open>walk_until\<close>, the polling of the disk) is a
  partial function whose value is \<open>None\<close> when it runs for ever, and its end is proved where the code relies on it. No
  definition has fuel.

  \<^bold>\<open>Theories.\<close>
  \<^item> Kernel_Prelude, Byte_Memory: words, options, arrays, little-endian memory; shared lemmas.
  \<^item> Misc_Header (\<open>include/misc.h\<close>, \<open>pic.c\<close>): ports, debug output, the octal parser. Numbers are
    printed and parsed as they read.
  \<^item> Page_Walk: the processor's walk through a page directory, which every access to a virtual address makes.
  \<^item> Terminal (\<open>tty.c\<close>, \<open>graphics\<close>): cursor, glyphs, numbers on the screen. Every pixel is stored through the page walk, so output
    faults where the frame buffer is not mapped. \<open>screen_room\<close> says which rows are, \<open>term_ok\<close> for how many more lines; newlines lead
    below any mapped row.
  \<^item> Run_Search, Pmm (\<open>memory.c\<close>): the locale of a first-fit search for a run of free pages, interpreted on the page
    bitmap here and on the heap pages in Kheap; first fit, round trip, balance, and what happens when memory is full.
  \<^item> Paging, Kheap (\<open>memory.c\<close>): loads and stores through the page walk, the temporary window; \<open>mmap\<close> and \<open>unmmap\<close> refine an abstract
    heap of mapped pages, take and give back exactly the frames they should and keep everything else; separate mappings do not overlap.
  \<^item> Slab (\<open>memory.c\<close>): \<open>kmalloc\<close> and \<open>kfree\<close> on each of their branches, with the two cases in which they corrupt
    memory.
  \<^item> Cpu_Tables (\<open>gdt.c\<close>, \<open>idt.c\<close>, \<open>pic.c\<close>, \<open>timer.c\<close>): what the tables say after their initialisation.
  \<^item> Linked_List, Vfs (\<open>filesystem/fs.c\<close>): a locale of linked heaps, interpreted on vnodes, tasks and the dead queue.
  \<^item> Address_Space (\<open>memory.c\<close>, \<open>syscall/mmap.c\<close>, \<open>syscall/munmap.c\<close>, \<open>graphics/framebuffer.c\<close>): user page
    directories and the frame buffer. User_Space and User_Unmap prove the two system calls: \<open>uspace\<close> is an address space
    in order, \<open>uview\<close> the pages a program sees; \<open>mmap\<close> adds the lowest unmapped pages, \<open>munmap\<close> removes those of a region.
    Window_Session follows the kernel's use of its temporary window on a fresh frame; with it New_Space proves that
    \<open>mmap_ring3\<close> builds an address space in order that holds the program and a zeroed stack page, and that a program of more
    than a page makes the kernel fault; End_Space proves that \<open>unmmap_ring3\<close> gives back every page, table and directory of
    an address space as long as the lines it prints fit on the screen, so that the two are a round trip on the page bitmap. Video_Map proves which pages
    \<open>init_video_memory\<close> maps.
  \<^item> Scheduler, Round_Robin, Task_Life, Sched_Machine (\<open>scheduler\<close>, \<open>timer.c\<close>): the operations; one tick is round robin
    and every ready task gets the processor; ending and reaping a task; the step relation of all events, its invariant,
    and that it never gets stuck while the idle task can run; \<open>two_readers_hang\<close> shows what happens otherwise.
  \<^item> Stdin, Syscalls (\<open>tty.c\<close>, \<open>syscall\<close>, \<open>idt.c\<close>, \<open>drivers/keyboard.c\<close>): a typed line is what the waiting task reads; a
    page fault of a user program ends that program only. Input_Buffer shows that the indices of the input buffer stay in its
    array, whatever is typed and read.
  \<^item> Disk (\<open>filesystem/disk.c\<close>): the driver against the locale \<open>ata_device\<close>, the contract of the controller, with a
    drive that keeps it. The contract says nothing of a command given to a busy drive. \<open>disk_write\<close> gives the cache flush without waiting,
    so its return is proved for a drive that is not busy after the last word; \<open>ata_prompt_device\<close> is the contract of such drives.
  \<^item> Fs (\<open>filesystem/fs.c\<close>): inodes, bitmaps and file data on the disk, proved in the locale \<open>ata_prompt_device\<close>. Fs_Data proves
    that \<open>write_inode_data\<close> stores a file in the lowest free sectors, that \<open>read_inode_data\<close> returns it, and that a full disk
    goes unnoticed.
  \<^item> Boot (\<open>memory.c\<close>, \<open>kernel.c\<close>): the page bitmap as the boot loader's memory map determines it, and \<open>kernel_main\<close>.
  \<^item> User_Lib (\<open>userspace/libc\<close>): system call wrappers on the kernel's handler, \<open>printf\<close>, \<open>fgets\<close>.
  \<^item> Task_Programs (\<open>userspace/crt\<close>, \<open>userspace/programs\<close>): \<open>printf\<close> on strings in memory, one system call per write, refines
    the \<open>printf\<close> of User_Lib; the program \<open>hello\<close> from its read of a line to its exit; the trampoline of kernel tasks.
  \<^item> User_Malloc (\<open>userspace/stdlib\<close>): \<open>malloc\<close> and \<open>free\<close> on the memory of the program, read and written through the page
    walk. User_Area turns mapped pages into a memory of their own (\<open>holds\<close>); Malloc_Arena defines a page block in order
    (\<open>arena\<close>: the blocks lie side by side, the free ones form a list) and what each change of it keeps; Malloc_Run
    executes \<open>malloc\<close> and Free_Run \<open>free\<close> on an arena; Malloc_First follows the first \<open>malloc\<close> through the system call and
    the page tables to a new arena; Malloc_Limits shows the two ways in which the free list breaks.

  \<^bold>\<open>Outside the model.\<close> The boot code and the interrupt stubs are assembly (\<open>boot.s\<close>, \<open>idt.s\<close>, \<open>gdt.s\<close>); of
  \<open>scheduler.s\<close> the return to a task is modelled, without the five words that it pushes on the task's stack and takes off again: that
  stack is taken to be mapped. The memory of the graphics device is a store of pixels beside the RAM, keyed by physical address; a pixel
  address that wraps round the address space is not followed and counts as a fault. The controller of the disk is a parameter. A task's memory after
  \<open>kmalloc\<close> has the contents \<open>raw_task\<close>, any value. Structures that the kernel reaches by pointer only (tasks, vnodes,
  files) live in heaps keyed by the address \<open>kmalloc\<close> returned, beside the byte memory.

  \<open>multiboot.h\<close> declares the boot loader's structures, of which the fields the kernel reads are modelled where it reads
  them. The single-instruction helpers \<open>inb\<close> and \<open>inw\<close> are the port operations Disk takes as parameters; \<open>reload_cr3\<close>
  empties the processor's cache of translations, which the page walk does not have, and \<open>uptime_seconds\<close> has no caller and
  computes in floating point. The endless loops of the idle task and
  the reaper are the steps of Sched_Machine.

  \<^bold>\<open>What is left.\<close> The theorems on \<open>malloc\<close> and \<open>free\<close> cover a pool of one page block; of \<open>printf\<close> in memory the
  text and \<open>%s\<close> are proved against the list of writes, the numbers only as that list.
\<close>

end
